(* ===== verification/Edr_Prelude.thy ===== *)
theory Edr_Prelude
  imports Main "HOL-Library.Word" "HOL-Library.Monad_Syntax"
begin

text \<open>
  Shared vocabulary of the development: names for the machine integers the C++ code uses,
  the reading of \<open>option\<close> as "the program goes on" (\<open>Some\<close>) against "an assertion fails or
  memory outside an object is touched" (\<open>None\<close>), the decimal and hexadecimal printing that
  \<open>std::format\<close> does for the integers the code prints, and the generic lemmas on lists,
  words and options that the component theories use.
\<close>

unbundle bit_operations_syntax

type_synonym u8 = "8 word"
type_synonym u32 = "32 word"
type_synonym u64 = "64 word"

named_theorems edr_defs \<open>definitions of one-line operations, unfolded by the component proofs\<close>
named_theorems edr_inv \<open>preservation of a component's invariant by its operations\<close>

definition assert_that :: "bool \<Rightarrow> unit option" where
  "assert_that b = (if b then Some () else None)"

lemma assert_that_simps [simp]:
  "assert_that True = Some ()"
  "assert_that False = None"
  by (simp_all add: assert_that_def)

lemma assert_that_bind_Some_iff [simp]:
  "Option.bind (assert_that b) f = Some r \<longleftrightarrow> b \<and> f () = Some r"
  by (cases b) simp_all

lemma assert_that_bind: "b \<Longrightarrow> Option.bind (assert_that b) f = f ()"
  by simp

subsection \<open>Integers as text\<close>

definition digit_char :: "nat \<Rightarrow> char" where
  "digit_char d = (if d < 10 then char_of (48 + d) else char_of (87 + d))"

fun show_base :: "nat \<Rightarrow> nat \<Rightarrow> string" where
  "show_base b n =
     (if b < 2 \<or> n < b then [digit_char n] else show_base b (n div b) @ [digit_char (n mod b)])"

declare show_base.simps [simp del]

definition show_nat :: "nat \<Rightarrow> string" where
  "show_nat n = show_base 10 n"

lemma show_base_nonempty: "show_base b n \<noteq> []"
  by (subst show_base.simps) simp

subsection \<open>Lists\<close>

lemma sum_list_map_update:
  "i < length xs \<Longrightarrow> sum_list (map f (xs[i := x])) + f (xs ! i) = sum_list (map f xs) + (f x :: 'b :: comm_monoid_add)"
proof (induction xs arbitrary: i)
  case (Cons y ys)
  then show ?case by (cases i) (auto simp: ac_simps)
qed simp

lemma nth_list_update_if:
  "i < length xs \<Longrightarrow> xs[i := v] ! j = (if j = i then v else xs ! j)"
  by simp

lemma map_upt_shift: "map f [a..<a + n] = map (\<lambda>i. f (a + i)) [0..<n]"
proof (induction n)
  case 0
  show ?case by simp
next
  case (Suc n)
  then show ?case by simp
qed

lemma take_map_upt: "take k (map f [0..<n]) = map f [0..<min k n]"
  by (cases "k \<le> n") (simp_all add: take_map min_def)

lemma drop_map_upt: "drop k (map f [0..<n]) = map (\<lambda>i. f (k + i)) [0..<n - k]"
proof (cases "k \<le> n")
  case True
  then show ?thesis
    using map_upt_shift [of f k "n - k"] by (simp add: drop_map)
next
  case False
  then show ?thesis by simp
qed

lemma map_upt_append:
  "map f [0..<m + n] = map f [0..<m] @ map (\<lambda>i. f (m + i)) [0..<n]"
  using map_upt_shift [of f m n] upt_add_eq_append [of 0 m n] by simp

subsection \<open>Maps\<close>

lemma map_le_Some_iff: "f \<subseteq>\<^sub>m g \<longleftrightarrow> (\<forall>a y. f a = Some y \<longrightarrow> g a = Some y)"
  by (auto simp: map_le_def dom_def)

subsection \<open>Division of a running position\<close>

lemma div_mod_advance:
  fixes w :: nat
  assumes "o' < w"
  shows "(s * w + o') div w = s" "(s * w + o') mod w = o'"
  using assms by simp_all

lemma pos_wrap:
  fixes w :: nat
  shows "(Suc s) * w + 0 = s * w + w"
  by simp

subsection \<open>Words\<close>

lemma bit_mask_u64:
  "t < 64 \<Longrightarrow> bit (2 ^ t - 1 :: u64) n \<longleftrightarrow> n < t"
  by (simp flip: mask_eq_exp_minus_1) (auto simp: bit_simps)

lemma unat_u32_less: "unat (x :: u32) < 2 ^ 32"
  using unsigned_less [of x] by simp

lemma unat_u64_less: "unat (x :: u64) < 2 ^ 64"
  using unsigned_less [of x] by simp

lemma unat_u32_max: "unat (- 1 :: u32) = 2 ^ 32 - 1"
  by (simp add: unsigned_minus_1_eq_mask mask_eq_exp_minus_1)

lemma unat_u32_succ:
  assumes "x \<noteq> (- 1 :: u32)"
  shows "unat (x + 1) = unat x + 1"
proof -
  have "unat x \<noteq> 2 ^ 32 - 1" using assms unat_u32_max by (metis word_unat_eq_iff)
  then have "unat x + 1 < 2 ^ 32" using unat_u32_less [of x] by simp
  then show ?thesis by (simp add: unat_word_ariths)
qed

end
