(* ===== verification/Bit_Stream.thy ===== *)
theory Bit_Stream
  imports Edr_Prelude
begin

text \<open>
  \<open>edr::BitStream\<close> (\<open>util/adt/BitStream.hpp\<close>): a cursor over an array of unsigned words that
  reads and writes runs of bits, least significant bit first. The array is an explicit store
  (a list of words); the stream is a record of the pointer (an index into the array), the bit
  offset in the pointed word and the number of bits that remain. \<open>None\<close> is a failed
  \<open>assert\<close> or an access outside the array. A shift by the full width of a word, undefined in C++,
  gives zero.

  The lemmas show that the word-at-a-time loops agree with the bit-list reading of a stream
  (\<open>stream_bits\<close>): reading takes, skipping drops, cropping keeps a prefix, writing replaces
  exactly the written bits and nothing else.
\<close>

record bitstream =
  m_storage :: nat
  m_offset :: nat
  m_remaining :: nat

text \<open>\<open>w\<close> is \<open>8 * sizeof(T)\<close>, \<open>data\<close> the index the pointer argument has in the array.\<close>

definition BitStreamBase :: "nat \<Rightarrow> nat \<Rightarrow> nat \<Rightarrow> nat \<Rightarrow> bitstream option" where
  "BitStreamBase w data num_bits offset =
     do { assert_that (offset \<le> num_bits);
          Some \<lparr>m_storage = data + offset div w, m_offset = offset mod w,
                m_remaining = num_bits - offset\<rparr> }"

definition GetNumBits :: "bitstream \<Rightarrow> nat" where
  "GetNumBits bs = m_remaining bs"

definition Skip :: "nat \<Rightarrow> nat \<Rightarrow> bitstream \<Rightarrow> nat \<times> bitstream" where
  "Skip w num_bits bs =
     (let num_bits = min num_bits (m_remaining bs);
          bs = bs\<lparr>m_remaining := m_remaining bs - num_bits\<rparr>;
          bs = bs\<lparr>m_offset := m_offset bs + num_bits\<rparr>;
          num_advances = m_offset bs div w;
          bs = bs\<lparr>m_offset := m_offset bs mod w\<rparr>;
          bs = bs\<lparr>m_storage := m_storage bs + num_advances\<rparr>
      in (num_bits, bs))"

definition Crop :: "nat \<Rightarrow> bitstream \<Rightarrow> bitstream" where
  "Crop num_bits bs = bs\<lparr>m_remaining := min (m_remaining bs) num_bits\<rparr>"

text \<open>\<open>Split\<close> builds both halves with the three-argument constructor, which takes
  \<open>m_offset\<close> off the number of bits it is given.\<close>

definition Split :: "nat \<Rightarrow> nat \<Rightarrow> bitstream \<Rightarrow> (bitstream \<times> bitstream) option" where
  "Split w num_bits bs =
     do { left \<leftarrow> BitStreamBase w (m_storage bs) (m_remaining bs) (m_offset bs);
          let left = left\<lparr>m_remaining := min (m_remaining left) num_bits\<rparr>;
          right \<leftarrow> BitStreamBase w (m_storage bs) (m_remaining bs) (m_offset bs);
          let right = snd (Skip w num_bits right);
          Some (left, right) }"

text \<open>The converting constructor \<open>BitStream<const T>(const BitStream<T> &)\<close>.\<close>

definition BitStreamConst :: "nat \<Rightarrow> bitstream \<Rightarrow> bitstream option" where
  "BitStreamConst w stream =
     BitStreamBase w (m_storage stream) (m_remaining stream) (m_offset stream)"

text \<open>\<open>BitStream<const T>(T data, num_bits, offset)\<close>: the value is stored in the object itself
  (\<open>m_in_place\<close>), a one-word array.\<close>

definition BitStreamInPlace ::
  "'a::len word \<Rightarrow> nat \<Rightarrow> nat \<Rightarrow> ('a word list \<times> bitstream) option" where
  "BitStreamInPlace data num_bits offset =
     do { bs \<leftarrow> BitStreamBase LENGTH('a) 0 (min num_bits LENGTH('a)) offset;
          Some ([data], bs) }"

text \<open>\<open>static_cast<T>((1ULL << this_time) - 1)\<close>\<close>

definition low_mask :: "nat \<Rightarrow> 'a::len word" where
  "low_mask this_time = ucast (push_bit this_time 1 - 1 :: u64)"

text \<open>The tail of both loops: advance by \<open>this_time\<close> bits inside the current word.\<close>

definition advance :: "nat \<Rightarrow> nat \<Rightarrow> bitstream \<Rightarrow> bitstream" where
  "advance w this_time bs =
     (let off = m_offset bs + this_time
      in if off = w then bs\<lparr>m_offset := 0, m_storage := m_storage bs + 1\<rparr>
         else bs\<lparr>m_offset := off\<rparr>)"

function read_loop ::
  "'a::len word list \<Rightarrow> nat \<Rightarrow> nat \<Rightarrow> 'b::len word \<Rightarrow> bitstream \<Rightarrow> ('b word \<times> bitstream) option"
where
  "read_loop mem num_bits out_offset result bs =
     (if num_bits = 0 then Some (result, bs)
      else if length mem \<le> m_storage bs \<or> LENGTH('a) \<le> m_offset bs then None
      else
        let left_ahead = LENGTH('a) - m_offset bs;
            this_time = min left_ahead num_bits;
            in_piece = drop_bit (m_offset bs) (mem ! m_storage bs);
            in_piece = (if this_time \<noteq> LENGTH('a) then in_piece AND low_mask this_time
                        else in_piece);
            out_piece = push_bit out_offset (ucast in_piece);
            result = result OR out_piece
        in read_loop mem (num_bits - this_time) (out_offset + this_time) result
             (advance LENGTH('a) this_time bs))"
  by pat_completeness auto
termination
  by (relation "measure (\<lambda>(mem, n, oo, r, bs). n)") (auto simp: Let_def)

definition ReadUnsafe ::
  "'a::len word list \<Rightarrow> nat \<Rightarrow> bitstream \<Rightarrow> ('b::len word \<times> bitstream) option" where
  "ReadUnsafe mem num_bits bs =
     read_loop mem num_bits 0 0 (bs\<lparr>m_remaining := m_remaining bs - num_bits\<rparr>)"

definition Read ::
  "'a::len word list \<Rightarrow> nat \<Rightarrow> bitstream \<Rightarrow> ('b::len word \<times> bitstream) option" where
  "Read mem num_bits bs =
     do { assert_that (num_bits \<le> LENGTH('b));
          ReadUnsafe mem (min num_bits (m_remaining bs)) bs }"

function write_loop ::
  "'b::len word \<Rightarrow> nat \<Rightarrow> 'a::len word list \<Rightarrow> bitstream \<Rightarrow> ('a word list \<times> bitstream) option"
where
  "write_loop value num_bits mem bs =
     (if num_bits = 0 then Some (mem, bs)
      else if length mem \<le> m_storage bs \<or> LENGTH('a) \<le> m_offset bs then None
      else
        let left_ahead = LENGTH('a) - m_offset bs;
            this_time = min left_ahead num_bits;
            mask' = (if this_time = LENGTH('a) then NOT 0 else low_mask this_time);
            mask' = push_bit (m_offset bs) mask';
            piece = push_bit (m_offset bs) (ucast value);
            mem = mem[m_storage bs := (mem ! m_storage bs AND NOT mask') OR (piece AND mask')];
            value = drop_bit this_time value
        in write_loop value (num_bits - this_time) mem (advance LENGTH('a) this_time bs))"
  by pat_completeness auto
termination
  by (relation "measure (\<lambda>(v, n, mem, bs). n)") (auto simp: Let_def)

declare read_loop.simps [simp del] write_loop.simps [simp del]

definition WriteUnsafe ::
  "'b::len word \<Rightarrow> nat \<Rightarrow> 'a::len word list \<Rightarrow> bitstream \<Rightarrow> ('a word list \<times> bitstream) option"
where
  "WriteUnsafe value num_bits mem bs =
     write_loop value num_bits mem (bs\<lparr>m_remaining := m_remaining bs - num_bits\<rparr>)"

definition Write ::
  "'b::len word \<Rightarrow> nat \<Rightarrow> 'a::len word list \<Rightarrow> bitstream \<Rightarrow>
     (nat \<times> 'a word list \<times> bitstream) option"
where
  "Write value num_bits mem bs =
     do { assert_that (num_bits \<le> LENGTH('b));
          let num_bits = min num_bits (m_remaining bs);
          (mem, bs) \<leftarrow> WriteUnsafe value num_bits mem bs;
          Some (num_bits, mem, bs) }"

text \<open>
  \<open>Write(BitStream<U> &src, num_bits)\<close> moves the bits through a \<open>Vessel\<close>, the wider of the two
  word types; the vessel type is the explicit type argument \<open>'v\<close>. Source and destination are
  distinct arrays, as in every call of the library.
\<close>

function copy_loop ::
  "'v::len itself \<Rightarrow> nat \<Rightarrow> 'u::len word list \<Rightarrow> bitstream \<Rightarrow> 'a::len word list \<Rightarrow> bitstream \<Rightarrow>
     ('a word list \<times> bitstream \<times> bitstream) option"
where
  "copy_loop V num_bits srcmem src mem bs =
     (if num_bits = 0 then Some (mem, bs, src)
      else
        let this_time = min LENGTH('v) num_bits in
        do { (vessel :: 'v word, src) \<leftarrow> ReadUnsafe srcmem this_time src;
             (mem, bs) \<leftarrow> WriteUnsafe vessel this_time mem bs;
             copy_loop V (num_bits - this_time) srcmem src mem bs })"
  by pat_completeness auto
termination
  by (relation "measure (\<lambda>(V, n, sm, s, m, b). n)") (auto simp: Let_def)

declare copy_loop.simps [simp del]

definition WriteStream ::
  "'v::len itself \<Rightarrow> 'u::len word list \<Rightarrow> bitstream \<Rightarrow> nat \<Rightarrow> 'a::len word list \<Rightarrow> bitstream \<Rightarrow>
     (nat \<times> 'a word list \<times> bitstream \<times> bitstream) option"
where
  "WriteStream V srcmem src num_bits mem bs =
     (let num_bits = min (min num_bits (m_remaining bs)) (m_remaining src) in
      do { (mem, bs, src) \<leftarrow> copy_loop V num_bits srcmem src mem bs;
           Some (num_bits, mem, bs, src) })"


subsection \<open>The formatter\<close>

text \<open>\<open>std::formatter<edr::BitStream<T>>::parse\<close>: an \<open>r\<close> before the closing brace selects the
  least-significant-bit-right form.\<close>

definition parse_reverse :: "string \<Rightarrow> bool" where
  "parse_reverse spec = (CHR ''r'' \<in> set (takeWhile (\<lambda>c. c \<noteq> CHR 0x7D) spec))"

definition bit_char :: "'a::len word \<Rightarrow> nat \<Rightarrow> char" where
  "bit_char chunk i = (if (chunk AND push_bit i 1) \<noteq> 0 then CHR ''1'' else CHR ''0'')"

function format_forward :: "'a::len word list \<Rightarrow> nat \<Rightarrow> bitstream \<Rightarrow> string option" where
  "format_forward mem num_bits stream =
     (if num_bits = 0 then Some []
      else
        let this_time = min LENGTH('a) num_bits in
        do { (chunk :: 'a word, stream) \<leftarrow> Read mem this_time stream;
             let buffer = map (bit_char chunk) [0..<this_time];
             rest \<leftarrow> format_forward mem (num_bits - this_time) stream;
             Some (buffer @ rest) })"
  by pat_completeness auto
termination
  by (relation "measure (\<lambda>(mem, n, bs). n)") (auto simp: Let_def)

function format_reverse :: "'a::len word list \<Rightarrow> nat \<Rightarrow> bitstream \<Rightarrow> string option" where
  "format_reverse mem num_bits stream =
     (if num_bits = 0 then Some []
      else
        let this_time = min LENGTH('a) num_bits;
            chunk_stream = snd (Skip LENGTH('a) (num_bits - this_time) stream)
        in
        do { (chunk :: 'a word, chunk_stream) \<leftarrow> Read mem this_time chunk_stream;
             let buffer = map (\<lambda>i. bit_char chunk (this_time - i - 1)) [0..<this_time];
             rest \<leftarrow> format_reverse mem (num_bits - this_time) stream;
             Some (buffer @ rest) })"
  by pat_completeness auto
termination
  by (relation "measure (\<lambda>(mem, n, bs). n)") (auto simp: Let_def)

declare format_forward.simps [simp del] format_reverse.simps [simp del]

definition format_bits :: "bool \<Rightarrow> 'a::len word list \<Rightarrow> bitstream \<Rightarrow> string option" where
  "format_bits reverse mem bits =
     (let num_bits = GetNumBits bits;
          head = ''('' @ show_nat num_bits @ '' '' @
                 (if reverse then ''lsb-right'' else ''lsb-left'') @ '') ''
      in do { body \<leftarrow> (if reverse then format_reverse mem num_bits bits
                       else format_forward mem num_bits bits);
              Some (head @ body) })"

subsection \<open>The bit-list reading of a stream\<close>

definition stream_pos :: "nat \<Rightarrow> bitstream \<Rightarrow> nat" where
  "stream_pos w bs = m_storage bs * w + m_offset bs"

definition mem_bit :: "'a::len word list \<Rightarrow> nat \<Rightarrow> bool" where
  "mem_bit mem k = bit (mem ! (k div LENGTH('a))) (k mod LENGTH('a))"

definition stream_bits :: "'a::len word list \<Rightarrow> bitstream \<Rightarrow> bool list" where
  "stream_bits mem bs = map (\<lambda>i. mem_bit mem (stream_pos LENGTH('a) bs + i)) [0..<m_remaining bs]"

text \<open>The class invariant: the offset lies inside the pointed word and the remaining bits lie
  inside the array.\<close>

definition stream_ok :: "'a::len word list \<Rightarrow> bitstream \<Rightarrow> bool" where
  "stream_ok mem bs \<longleftrightarrow> m_offset bs < LENGTH('a) \<and>
     stream_pos LENGTH('a) bs + m_remaining bs \<le> length mem * LENGTH('a)"

definition seek :: "nat \<Rightarrow> nat \<Rightarrow> bitstream \<Rightarrow> bitstream" where
  "seek w n bs = bs\<lparr>m_storage := (stream_pos w bs + n) div w,
                    m_offset := (stream_pos w bs + n) mod w\<rparr>"

lemma seek_remaining [simp]: "m_remaining (seek w n bs) = m_remaining bs"
  by (simp add: seek_def)

lemma stream_pos_remaining [simp]: "stream_pos w (bs\<lparr>m_remaining := r\<rparr>) = stream_pos w bs"
  by (simp add: stream_pos_def)

lemma seek_pos [simp]: "0 < w \<Longrightarrow> stream_pos w (seek w n bs) = stream_pos w bs + n"
  by (simp add: stream_pos_def seek_def)

lemma seek_offset [simp]: "0 < w \<Longrightarrow> m_offset (seek w n bs) < w"
  by (simp add: seek_def)

lemma seek_seek: "0 < w \<Longrightarrow> seek w m (seek w n bs) = seek w (n + m) bs"
proof -
  assume "0 < w"
  then have "stream_pos w (seek w n bs) + m = stream_pos w bs + (n + m)" by simp
  then show ?thesis
    unfolding seek_def [of w m] by (simp add: seek_def add.assoc)
qed

lemma seek_0: "m_offset bs < w \<Longrightarrow> seek w 0 bs = bs"
  by (simp add: seek_def stream_pos_def)

lemma seek_set_remaining: "seek w n (bs\<lparr>m_remaining := r\<rparr>) = (seek w n bs)\<lparr>m_remaining := r\<rparr>"
  by (simp add: seek_def stream_pos_def)

lemma advance_eq_seek:
  assumes "m_offset bs < w" "t \<le> w - m_offset bs"
  shows "advance w t bs = seek w t bs"
proof (cases "m_offset bs + t = w")
  case True
  then have "stream_pos w bs + t = Suc (m_storage bs) * w"
    by (simp add: stream_pos_def)
  with True assms show ?thesis
    by (simp add: advance_def seek_def Let_def)
next
  case False
  with assms have "m_offset bs + t < w" by simp
  then show ?thesis
    using assms by (simp add: advance_def seek_def stream_pos_def Let_def add.assoc)
qed

lemma Skip_eq_seek:
  assumes "0 < w"
  shows "Skip w n bs = (let k = min n (m_remaining bs)
     in (k, (seek w k bs)\<lparr>m_remaining := m_remaining bs - k\<rparr>))"
  using assms by (simp add: Skip_def seek_def stream_pos_def Let_def add.assoc)

lemma BitStreamBase_eq_seek:
  assumes "0 < w" "offset \<le> num_bits"
  shows "BitStreamBase w data num_bits offset =
     Some (seek w offset \<lparr>m_storage = data, m_offset = 0, m_remaining = num_bits - offset\<rparr>)"
  using assms by (simp add: BitStreamBase_def seek_def stream_pos_def)

lemma mem_bit_current:
  fixes mem :: "'a::len word list"
  assumes "m_offset bs < LENGTH('a)" "j < LENGTH('a) - m_offset bs"
  shows "mem_bit mem (stream_pos LENGTH('a) bs + j) = bit (mem ! m_storage bs) (m_offset bs + j)"
proof -
  from assms have "m_offset bs + j < LENGTH('a)" by simp
  then show ?thesis
    by (simp add: mem_bit_def stream_pos_def add.assoc div_mod_advance)
qed

lemma storage_in_range:
  assumes "m_offset bs < w" "stream_pos w bs + n \<le> len * w" "0 < n"
  shows "m_storage bs < len"
proof (rule ccontr)
  assume "\<not> m_storage bs < len"
  then have "len * w \<le> m_storage bs * w" by simp
  with assms show False by (simp add: stream_pos_def)
qed

lemma bit_low_mask:
  "t < LENGTH('a) \<Longrightarrow> LENGTH('a) \<le> 64 \<Longrightarrow> bit (low_mask t :: 'a::len word) n \<longleftrightarrow> n < t"
  by (auto simp: low_mask_def bit_mask_u64 bit_simps)

lemma in_piece_bit:
  fixes x :: "'a::len word"
  assumes "LENGTH('a) \<le> 64" "off < LENGTH('a)" "0 < n"
  defines "t \<equiv> min (LENGTH('a) - off) n"
  shows "bit (if t \<noteq> LENGTH('a) then drop_bit off x AND low_mask t else drop_bit off x) j \<longleftrightarrow>
    j < t \<and> bit x (off + j)"
proof (cases "t = LENGTH('a)")
  case True
  with assms(2,3) have "off = 0" by (auto simp: t_def)
  with True show ?thesis
    by (auto simp: bit_simps dest: bit_imp_le_length)
next
  case False
  with assms(2) have "t < LENGTH('a)" by (auto simp: t_def)
  with False assms(1) show ?thesis
    by (auto simp: bit_simps bit_low_mask)
qed

subsection \<open>Reading\<close>

lemma read_loop_spec:
  fixes mem :: "'a::len word list" and res :: "'b::len word"
  assumes "LENGTH('a) \<le> 64" "m_offset bs < LENGTH('a)"
    and "stream_pos LENGTH('a) bs + n \<le> length mem * LENGTH('a)"
  shows "\<exists>r. read_loop mem n oo res bs = Some (r, seek LENGTH('a) n bs) \<and>
    (\<forall>i. bit r i \<longleftrightarrow> bit res i \<or>
       (oo \<le> i \<and> i < oo + n \<and> i < LENGTH('b) \<and> mem_bit mem (stream_pos LENGTH('a) bs + (i - oo))))"
  using assms
proof (induction n arbitrary: oo res bs rule: less_induct)
  case (less n)
  show ?case
  proof (cases "n = 0")
    case True
    with less.prems show ?thesis by (auto simp: read_loop.simps seek_0)
  next
    case False
    let ?w = "LENGTH('a)"
    define t where "t = min (?w - m_offset bs) n"
    define piece where "piece = (if t \<noteq> ?w then drop_bit (m_offset bs) (mem ! m_storage bs) AND low_mask t
                                 else drop_bit (m_offset bs) (mem ! m_storage bs))"
    define res' :: "'b word" where "res' = res OR push_bit oo (ucast piece)"
    have in_range: "m_storage bs < length mem"
      using storage_in_range [OF less.prems(2,3)] False by simp
    have t: "t \<le> n" "0 < t" "t \<le> ?w - m_offset bs"
      using False less.prems(2) by (auto simp: t_def)
    have adv: "advance ?w t bs = seek ?w t bs"
      using less.prems(2) t(3) by (rule advance_eq_seek)
    have unfold: "read_loop mem n oo res bs = read_loop mem (n - t) (oo + t) res' (seek ?w t bs)"
      using False in_range less.prems(2)
      by (subst read_loop.simps) (simp add: Let_def t_def [symmetric] piece_def res'_def adv)
    have "\<exists>r. read_loop mem (n - t) (oo + t) res' (seek ?w t bs) =
        Some (r, seek ?w (n - t) (seek ?w t bs)) \<and>
      (\<forall>i. bit r i \<longleftrightarrow> bit res' i \<or> (oo + t \<le> i \<and> i < oo + t + (n - t) \<and> i < LENGTH('b) \<and>
         mem_bit mem (stream_pos ?w (seek ?w t bs) + (i - (oo + t)))))"
      using less.prems t by (intro less.IH) simp_all
    then obtain r where r: "read_loop mem (n - t) (oo + t) res' (seek ?w t bs) =
        Some (r, seek ?w n bs)"
      and bits: "\<And>i. bit r i \<longleftrightarrow> bit res' i \<or> (oo + t \<le> i \<and> i < oo + n \<and> i < LENGTH('b) \<and>
         mem_bit mem (stream_pos ?w bs + (t + (i - (oo + t)))))"
      using t by (auto simp: seek_seek add.assoc)
    have res': "bit res' i \<longleftrightarrow> bit res i \<or> (oo \<le> i \<and> i < oo + t \<and> i < LENGTH('b) \<and>
        mem_bit mem (stream_pos ?w bs + (i - oo)))" for i
      using in_piece_bit [OF less.prems(1,2), of n "mem ! m_storage bs" "i - oo"] False t
        mem_bit_current [OF less.prems(2), of "i - oo" mem]
      by (auto simp: res'_def bit_simps piece_def [unfolded t_def] t_def)
    have "bit r i \<longleftrightarrow> bit res i \<or> (oo \<le> i \<and> i < oo + n \<and> i < LENGTH('b) \<and>
        mem_bit mem (stream_pos ?w bs + (i - oo)))" for i
    proof (cases "oo + t \<le> i")
      case True
      then have "t + (i - (oo + t)) = i - oo" by simp
      with bits [of i] res' [of i] t True show ?thesis by auto
    next
      case False
      with bits [of i] res' [of i] t show ?thesis by auto
    qed
    with unfold r show ?thesis by auto
  qed
qed


subsection \<open>Writing\<close>

text \<open>The word the loop stores: the masked bits of the value over the kept bits of the old word.\<close>

lemma stored_word_bit:
  fixes x :: "'a::len word" and v :: "'b::len word"
  assumes "LENGTH('a) \<le> 64" "off < LENGTH('a)" "0 < n" "j < LENGTH('a)"
  defines "t \<equiv> min (LENGTH('a) - off) n"
  defines "m \<equiv> push_bit off (if t = LENGTH('a) then NOT 0 else low_mask t) :: 'a word"
  shows "bit ((x AND NOT m) OR (push_bit off (ucast v) AND m)) j \<longleftrightarrow>
    (if off \<le> j \<and> j < off + t then bit v (j - off) else bit x j)"
proof -
  have m: "bit m j \<longleftrightarrow> off \<le> j \<and> j < off + t"
  proof (cases "t = LENGTH('a)")
    case True
    with assms show ?thesis by (auto simp: m_def bit_simps t_def)
  next
    case False
    with assms(2) have "t < LENGTH('a)" by (auto simp: t_def)
    with False assms(1,4) show ?thesis
      by (auto simp: m_def bit_simps bit_low_mask)
  qed
  show ?thesis
    using m assms(4) by (auto simp: bit_simps)
qed

lemma mem_bit_update_current:
  fixes mem :: "'a::len word list"
  assumes "m_storage bs < length mem" "m_offset bs < LENGTH('a)"
    and "\<And>j. j < LENGTH('a) \<Longrightarrow> bit x j \<longleftrightarrow>
      (if m_offset bs \<le> j \<and> j < m_offset bs + t then P (j - m_offset bs) else bit (mem ! m_storage bs) j)"
    and "m_offset bs + t \<le> LENGTH('a)"
  shows "mem_bit (mem[m_storage bs := x]) k \<longleftrightarrow>
    (if stream_pos LENGTH('a) bs \<le> k \<and> k < stream_pos LENGTH('a) bs + t
     then P (k - stream_pos LENGTH('a) bs) else mem_bit mem k)"
proof (cases "k div LENGTH('a) = m_storage bs")
  case True
  then obtain j where k: "k = m_storage bs * LENGTH('a) + j" and j: "j < LENGTH('a)"
    by (metis div_mult_mod_eq len_gt_0 mod_less_divisor)
  show ?thesis
    using assms(1) assms(3) [OF j] j
    by (auto simp: mem_bit_def k stream_pos_def)
next
  case False
  have "\<not> (stream_pos LENGTH('a) bs \<le> k \<and> k < stream_pos LENGTH('a) bs + t)"
  proof
    assume *: "stream_pos LENGTH('a) bs \<le> k \<and> k < stream_pos LENGTH('a) bs + t"
    then have "m_storage bs * LENGTH('a) \<le> k" "k < Suc (m_storage bs) * LENGTH('a)"
      using assms(4) by (auto simp: stream_pos_def)
    then have "k div LENGTH('a) = m_storage bs"
      by (metis div_nat_eqI mult.commute)
    with False show False by simp
  qed
  with False assms(1) show ?thesis
    by (auto simp: mem_bit_def nth_list_update_if)
qed

lemma write_loop_spec:
  fixes mem :: "'a::len word list" and v :: "'b::len word"
  assumes "LENGTH('a) \<le> 64" "m_offset bs < LENGTH('a)"
    and "stream_pos LENGTH('a) bs + n \<le> length mem * LENGTH('a)"
  shows "\<exists>mem'. write_loop v n mem bs = Some (mem', seek LENGTH('a) n bs) \<and>
    length mem' = length mem \<and>
    (\<forall>k. mem_bit mem' k \<longleftrightarrow>
       (if stream_pos LENGTH('a) bs \<le> k \<and> k < stream_pos LENGTH('a) bs + n
        then bit v (k - stream_pos LENGTH('a) bs) else mem_bit mem k))"
  using assms
proof (induction n arbitrary: v mem bs rule: less_induct)
  case (less n)
  show ?case
  proof (cases "n = 0")
    case True
    with less.prems show ?thesis by (auto simp: write_loop.simps seek_0)
  next
    case False
    let ?w = "LENGTH('a)"
    let ?p = "stream_pos ?w bs"
    define t where "t = min (?w - m_offset bs) n"
    define m :: "'a word" where
      "m = push_bit (m_offset bs) (if t = ?w then NOT 0 else low_mask t)"
    define x where "x = (mem ! m_storage bs AND NOT m) OR (push_bit (m_offset bs) (ucast v) AND m)"
    have in_range: "m_storage bs < length mem"
      using storage_in_range [OF less.prems(2,3)] False by simp
    have t: "t \<le> n" "0 < t" "t \<le> ?w - m_offset bs" "m_offset bs + t \<le> ?w"
      using False less.prems(2) by (auto simp: t_def)
    have adv: "advance ?w t bs = seek ?w t bs"
      using less.prems(2) t(3) by (rule advance_eq_seek)
    have unfold: "write_loop v n mem bs =
        write_loop (drop_bit t v) (n - t) (mem[m_storage bs := x]) (seek ?w t bs)"
      using False in_range less.prems(2)
      by (subst write_loop.simps) (simp add: Let_def t_def [symmetric] m_def x_def adv)
    have x_bits: "j < ?w \<Longrightarrow> bit x j \<longleftrightarrow> (if m_offset bs \<le> j \<and> j < m_offset bs + t
        then bit v (j - m_offset bs) else bit (mem ! m_storage bs) j)" for j
      unfolding x_def m_def t_def
      using False by (intro stored_word_bit [OF less.prems(1,2)]) simp_all
    note mem_x = mem_bit_update_current [OF in_range less.prems(2) x_bits t(4)]
    have "\<exists>mem'. write_loop (drop_bit t v) (n - t) (mem[m_storage bs := x]) (seek ?w t bs) =
        Some (mem', seek ?w (n - t) (seek ?w t bs)) \<and>
      length mem' = length (mem[m_storage bs := x]) \<and>
      (\<forall>k. mem_bit mem' k \<longleftrightarrow> (if stream_pos ?w (seek ?w t bs) \<le> k \<and>
            k < stream_pos ?w (seek ?w t bs) + (n - t)
         then bit (drop_bit t v) (k - stream_pos ?w (seek ?w t bs))
         else mem_bit (mem[m_storage bs := x]) k))"
      using less.prems t by (intro less.IH) simp_all
    then obtain mem' where mem': "write_loop (drop_bit t v) (n - t) (mem[m_storage bs := x]) (seek ?w t bs) =
        Some (mem', seek ?w n bs)" "length mem' = length mem"
      and bits: "\<And>k. mem_bit mem' k \<longleftrightarrow> (if ?p + t \<le> k \<and> k < ?p + n
         then bit v (t + (k - (?p + t))) else mem_bit (mem[m_storage bs := x]) k)"
      using t by (auto simp: seek_seek add.assoc bit_simps)
    have "mem_bit mem' k \<longleftrightarrow> (if ?p \<le> k \<and> k < ?p + n then bit v (k - ?p) else mem_bit mem k)" for k
      using bits [of k] mem_x [of k] t by (auto simp: le_diff_conv2)
    with unfold mem' show ?thesis by auto
  qed
qed


subsection \<open>The public operations on bit lists\<close>

lemma length_stream_bits [simp]: "length (stream_bits mem bs) = m_remaining bs"
  by (simp add: stream_bits_def)

lemma stream_bits_seek:
  fixes mem :: "'a::len word list"
  assumes "k \<le> m_remaining bs"
  shows "stream_bits mem ((seek LENGTH('a) k bs)\<lparr>m_remaining := m_remaining bs - k\<rparr>) =
    drop k (stream_bits mem bs)"
  by (simp add: stream_bits_def drop_map_upt add.assoc)

lemma stream_ok_seek:
  fixes mem :: "'a::len word list"
  assumes "stream_ok mem bs" "k \<le> m_remaining bs"
  shows "stream_ok mem ((seek LENGTH('a) k bs)\<lparr>m_remaining := m_remaining bs - k\<rparr>)"
  using assms by (simp add: stream_ok_def seek_def stream_pos_def)

lemma take_stream_bits:
  fixes mem :: "'a::len word list"
  shows "take k (stream_bits mem bs) =
    map (\<lambda>i. mem_bit mem (stream_pos LENGTH('a) bs + i)) [0..<min k (m_remaining bs)]"
  by (simp add: stream_bits_def take_map_upt)

lemma ReadUnsafe_spec:
  fixes mem :: "'a::len word list"
  assumes "LENGTH('a) \<le> 64" "stream_ok mem bs" "k \<le> m_remaining bs" "k \<le> LENGTH('b::len)"
  shows "\<exists>r :: 'b word. ReadUnsafe mem k bs =
      Some (r, (seek LENGTH('a) k bs)\<lparr>m_remaining := m_remaining bs - k\<rparr>) \<and>
    map (bit r) [0..<k] = take k (stream_bits mem bs) \<and> (\<forall>i \<ge> k. \<not> bit r i)"
proof -
  let ?bs = "bs\<lparr>m_remaining := m_remaining bs - k\<rparr>"
  have "\<exists>r :: 'b word. read_loop mem k 0 0 ?bs = Some (r, seek LENGTH('a) k ?bs) \<and>
    (\<forall>i. bit r i \<longleftrightarrow> bit (0 :: 'b word) i \<or> (0 \<le> i \<and> i < 0 + k \<and> i < LENGTH('b) \<and>
       mem_bit mem (stream_pos LENGTH('a) ?bs + (i - 0))))"
    using assms by (intro read_loop_spec) (auto simp: stream_ok_def)
  then show ?thesis
    using assms(3,4)
    by (auto simp: ReadUnsafe_def seek_set_remaining take_stream_bits)
qed

lemma WriteUnsafe_spec:
  fixes mem :: "'a::len word list" and v :: "'b::len word"
  assumes "LENGTH('a) \<le> 64" "stream_ok mem bs" "k \<le> m_remaining bs"
  shows "\<exists>mem'. WriteUnsafe v k mem bs =
      Some (mem', (seek LENGTH('a) k bs)\<lparr>m_remaining := m_remaining bs - k\<rparr>) \<and>
    length mem' = length mem \<and>
    (\<forall>j. mem_bit mem' j \<longleftrightarrow>
       (if stream_pos LENGTH('a) bs \<le> j \<and> j < stream_pos LENGTH('a) bs + k
        then bit v (j - stream_pos LENGTH('a) bs) else mem_bit mem j))"
proof -
  let ?bs = "bs\<lparr>m_remaining := m_remaining bs - k\<rparr>"
  have "\<exists>mem'. write_loop v k mem ?bs = Some (mem', seek LENGTH('a) k ?bs) \<and>
    length mem' = length mem \<and>
    (\<forall>j. mem_bit mem' j \<longleftrightarrow>
       (if stream_pos LENGTH('a) ?bs \<le> j \<and> j < stream_pos LENGTH('a) ?bs + k
        then bit v (j - stream_pos LENGTH('a) ?bs) else mem_bit mem j))"
    using assms by (intro write_loop_spec) (auto simp: stream_ok_def)
  then show ?thesis
    by (auto simp: WriteUnsafe_def seek_set_remaining)
qed

lemma stream_ok_length_cong:
  fixes mem mem' :: "'a::len word list"
  shows "length mem' = length mem \<Longrightarrow> stream_ok mem' bs \<longleftrightarrow> stream_ok mem bs"
  by (simp add: stream_ok_def)

lemma stream_bits_overwrite:
  fixes mem mem' :: "'a::len word list"
  assumes "k \<le> m_remaining bs"
    and "\<And>j. mem_bit mem' j \<longleftrightarrow>
       (if stream_pos LENGTH('a) bs \<le> j \<and> j < stream_pos LENGTH('a) bs + k
        then P (j - stream_pos LENGTH('a) bs) else mem_bit mem j)"
  shows "stream_bits mem' bs = map P [0..<k] @ drop k (stream_bits mem bs)"
proof -
  have "stream_bits mem' bs =
      map (\<lambda>i. if i < k then P i else mem_bit mem (stream_pos LENGTH('a) bs + i)) [0..<k + (m_remaining bs - k)]"
    using assms(1) by (simp add: stream_bits_def assms(2))
  also have "\<dots> = map P [0..<k] @ drop k (stream_bits mem bs)"
    by (simp only: map_upt_append stream_bits_def drop_map_upt) (simp add: add.assoc)
  finally show ?thesis .
qed


lemma Read_spec:
  fixes mem :: "'a::len word list"
  assumes "LENGTH('a) \<le> 64" "stream_ok mem bs" "n \<le> LENGTH('b::len)"
  shows "\<exists>r :: 'b word. Read mem n bs = Some (r, snd (Skip LENGTH('a) n bs)) \<and>
    map (bit r) [0..<min n (m_remaining bs)] = take n (stream_bits mem bs) \<and>
    (\<forall>i. min n (m_remaining bs) \<le> i \<longrightarrow> \<not> bit r i)"
proof -
  have "\<exists>r :: 'b word. ReadUnsafe mem (min n (m_remaining bs)) bs =
      Some (r, (seek LENGTH('a) (min n (m_remaining bs)) bs)
        \<lparr>m_remaining := m_remaining bs - min n (m_remaining bs)\<rparr>) \<and>
    map (bit r) [0..<min n (m_remaining bs)] = take (min n (m_remaining bs)) (stream_bits mem bs) \<and>
    (\<forall>i \<ge> min n (m_remaining bs). \<not> bit r i)"
    using assms by (intro ReadUnsafe_spec) auto
  then show ?thesis
    using assms(3) by (auto simp: Read_def Skip_eq_seek Let_def take_stream_bits)
qed

lemma Skip_spec:
  fixes mem :: "'a::len word list"
  shows "fst (Skip LENGTH('a) n bs) = min n (m_remaining bs)"
    and "stream_bits mem (snd (Skip LENGTH('a) n bs)) = drop n (stream_bits mem bs)"
    and "stream_ok mem bs \<Longrightarrow> stream_ok mem (snd (Skip LENGTH('a) n bs))"
    and "m_remaining (snd (Skip LENGTH('a) n bs)) = m_remaining bs - n"
proof -
  show "fst (Skip LENGTH('a) n bs) = min n (m_remaining bs)"
    by (simp add: Skip_eq_seek Let_def)
  show "m_remaining (snd (Skip LENGTH('a) n bs)) = m_remaining bs - n"
    by (simp add: Skip_eq_seek Let_def)
  have "drop (min n (m_remaining bs)) (stream_bits mem bs) = drop n (stream_bits mem bs)"
    by (cases "n \<le> m_remaining bs") (simp_all add: min_def)
  then show "stream_bits mem (snd (Skip LENGTH('a) n bs)) = drop n (stream_bits mem bs)"
    using stream_bits_seek [of "min n (m_remaining bs)" bs mem]
    by (simp add: Skip_eq_seek Let_def)
  show "stream_ok mem bs \<Longrightarrow> stream_ok mem (snd (Skip LENGTH('a) n bs))"
    using stream_ok_seek [of mem bs "min n (m_remaining bs)"]
    by (simp add: Skip_eq_seek Let_def)
qed

text \<open>
  Property C19: \<open>Read\<close> never leaves the array and never trips its assertion on a well-formed
  stream; the word it returns has exactly the next \<open>num_bits\<close> stream bits (fewer when the stream
  is shorter) as its low bits, least significant first, and zeros above them; the stream then
  holds the remaining bits.
\<close>
theorem Read_correct:
  fixes mem :: "'a::len word list"
  assumes "LENGTH('a) \<le> 64" "stream_ok mem bs" "n \<le> LENGTH('b::len)"
  shows "\<exists>(r :: 'b word) bs'. Read mem n bs = Some (r, bs') \<and>
    map (bit r) [0..<min n (m_remaining bs)] = take n (stream_bits mem bs) \<and>
    (\<forall>i. min n (m_remaining bs) \<le> i \<longrightarrow> \<not> bit r i) \<and>
    stream_bits mem bs' = drop n (stream_bits mem bs) \<and> stream_ok mem bs'"
  using Read_spec [OF assms] Skip_spec(2,3) [where mem = mem and bs = bs and n = n] assms(2)
  by blast

theorem Read_correct_witness:
  "\<exists>(r :: u32) bs'. Read [0xAB :: u8, 0xCD] 12 \<lparr>m_storage = 0, m_offset = 2, m_remaining = 14\<rparr>
      = Some (r, bs') \<and>
    map (bit r) [0..<min 12 14] =
      take 12 (stream_bits [0xAB :: u8, 0xCD] \<lparr>m_storage = 0, m_offset = 2, m_remaining = 14\<rparr>)"
proof -
  have "stream_ok [0xAB :: u8, 0xCD] \<lparr>m_storage = 0, m_offset = 2, m_remaining = 14\<rparr>"
    by (simp add: stream_ok_def stream_pos_def)
  then show ?thesis
    using Read_correct [of "[0xAB :: u8, 0xCD]" "\<lparr>m_storage = 0, m_offset = 2, m_remaining = 14\<rparr>" 12,
        where 'b = 32] by auto
qed

text \<open>
  Property C18: \<open>Write\<close> of a value stores its low bits over the next bits of the stream, leaves
  every other bit of the array as it was (also those that share a word with the written run),
  reports how many bits it took and leaves the stream at the bits after them.
\<close>
theorem Write_correct:
  fixes mem :: "'a::len word list" and v :: "'b::len word"
  assumes "LENGTH('a) \<le> 64" "stream_ok mem bs" "n \<le> LENGTH('b)"
  shows "let k = min n (m_remaining bs); p = stream_pos LENGTH('a) bs in
    \<exists>mem' bs'. Write v n mem bs = Some (k, mem', bs') \<and> length mem' = length mem \<and>
      stream_bits mem' bs = map (bit v) [0..<k] @ drop k (stream_bits mem bs) \<and>
      (\<forall>j. j < p \<or> p + k \<le> j \<longrightarrow> mem_bit mem' j = mem_bit mem j) \<and>
      stream_bits mem' bs' = drop k (stream_bits mem bs) \<and> stream_ok mem' bs'"
proof -
  define k where "k = min n (m_remaining bs)"
  define p where "p = stream_pos LENGTH('a) bs"
  define bs' where "bs' = (seek LENGTH('a) k bs)\<lparr>m_remaining := m_remaining bs - k\<rparr>"
  have k: "k \<le> m_remaining bs" by (simp add: k_def)
  obtain mem' where w: "WriteUnsafe v k mem bs = Some (mem', bs')"
    and len: "length mem' = length mem"
    and bits: "\<And>j. mem_bit mem' j \<longleftrightarrow>
       (if p \<le> j \<and> j < p + k then bit v (j - p) else mem_bit mem j)"
    using WriteUnsafe_spec [OF assms(1,2) k, of v] by (auto simp: p_def bs'_def)
  have sb: "stream_bits mem' bs = map (bit v) [0..<k] @ drop k (stream_bits mem bs)"
    using k bits by (intro stream_bits_overwrite) (auto simp: p_def)
  have "stream_bits mem' bs' = drop k (stream_bits mem bs)"
    using k by (simp add: bs'_def stream_bits_seek sb)
  moreover have "stream_ok mem' bs'"
    using stream_ok_seek [OF assms(2) k] by (simp add: bs'_def stream_ok_length_cong [OF len])
  moreover have "Write v n mem bs = Some (k, mem', bs')"
    using assms(3) w by (simp add: Write_def k_def Let_def)
  ultimately show ?thesis
    unfolding Let_def k_def [symmetric] p_def [symmetric]
    using len sb bits by (intro exI [of _ mem'] exI [of _ bs']) auto
qed

theorem Write_correct_witness:
  "\<exists>mem' bs'. Write (0x3FF :: u32) 10 [0x00 :: u8, 0xC0] \<lparr>m_storage = 0, m_offset = 3, m_remaining = 13\<rparr>
     = Some (10, mem', bs') \<and> length mem' = 2"
proof -
  have "stream_ok [0x00 :: u8, 0xC0] \<lparr>m_storage = 0, m_offset = 3, m_remaining = 13\<rparr>"
    by (simp add: stream_ok_def stream_pos_def)
  then show ?thesis
    using Write_correct [of "[0x00 :: u8, 0xC0]" "\<lparr>m_storage = 0, m_offset = 3, m_remaining = 13\<rparr>" 10
        "0x3FF :: u32"] by (auto simp: Let_def numeral_2_eq_2)
qed


lemma copy_loop_spec:
  fixes mem :: "'a::len word list" and srcmem :: "'u::len word list"
  assumes "LENGTH('a) \<le> 64" "LENGTH('u) \<le> 64"
    and "stream_ok mem bs" "stream_ok srcmem src" "n \<le> m_remaining bs" "n \<le> m_remaining src"
  shows "\<exists>mem'. copy_loop (V :: 'v::len itself) n srcmem src mem bs =
      Some (mem', (seek LENGTH('a) n bs)\<lparr>m_remaining := m_remaining bs - n\<rparr>,
                  (seek LENGTH('u) n src)\<lparr>m_remaining := m_remaining src - n\<rparr>) \<and>
    length mem' = length mem \<and>
    (\<forall>j. mem_bit mem' j \<longleftrightarrow>
       (if stream_pos LENGTH('a) bs \<le> j \<and> j < stream_pos LENGTH('a) bs + n
        then mem_bit srcmem (stream_pos LENGTH('u) src + (j - stream_pos LENGTH('a) bs))
        else mem_bit mem j))"
  using assms
proof (induction n arbitrary: mem bs src rule: less_induct)
  case (less n)
  show ?case
  proof (cases "n = 0")
    case True
    with less.prems show ?thesis
      by (auto simp: copy_loop.simps seek_0 stream_ok_def)
  next
    case False
    let ?p = "stream_pos LENGTH('a) bs" and ?q = "stream_pos LENGTH('u) src"
    define t where "t = min LENGTH('v) n"
    define src' where "src' = (seek LENGTH('u) t src)\<lparr>m_remaining := m_remaining src - t\<rparr>"
    define bs' where "bs' = (seek LENGTH('a) t bs)\<lparr>m_remaining := m_remaining bs - t\<rparr>"
    have t: "0 < t" "t \<le> n" "t \<le> LENGTH('v)" "t \<le> m_remaining bs" "t \<le> m_remaining src"
      using False less.prems by (auto simp: t_def)
    obtain r :: "'v word" where r: "ReadUnsafe srcmem t src = Some (r, src')"
      and rbits: "map (bit r) [0..<t] = take t (stream_bits srcmem src)"
      using ReadUnsafe_spec [OF less.prems(2,4) t(5,3)] by (auto simp: src'_def)
    have rbit: "bit r i = mem_bit srcmem (?q + i)" if "i < t" for i
      using arg_cong [OF rbits, of "\<lambda>xs. xs ! i"] that t by (simp add: take_stream_bits)
    obtain mem1 where w: "WriteUnsafe r t mem bs = Some (mem1, bs')"
      and len: "length mem1 = length mem"
      and bits1: "\<And>j. mem_bit mem1 j \<longleftrightarrow>
        (if ?p \<le> j \<and> j < ?p + t then bit r (j - ?p) else mem_bit mem j)"
      using WriteUnsafe_spec [OF less.prems(1,3) t(4), of r] by (auto simp: bs'_def)
    have unfold: "copy_loop V n srcmem src mem bs = copy_loop V (n - t) srcmem src' mem1 bs'"
      using False r w by (subst copy_loop.simps) (simp add: t_def Let_def)
    have ok: "stream_ok mem1 bs'" "stream_ok srcmem src'"
      using stream_ok_seek [OF less.prems(3) t(4)] stream_ok_seek [OF less.prems(4) t(5)] len
      by (simp_all add: bs'_def src'_def stream_ok_def)
    have rem: "m_remaining bs' = m_remaining bs - t" "m_remaining src' = m_remaining src - t"
      and pos: "stream_pos LENGTH('a) bs' = ?p + t" "stream_pos LENGTH('u) src' = ?q + t"
      by (simp_all add: bs'_def src'_def)
    have ends: "(seek LENGTH('a) (n - t) bs')\<lparr>m_remaining := m_remaining bs' - (n - t)\<rparr> =
        (seek LENGTH('a) n bs)\<lparr>m_remaining := m_remaining bs - n\<rparr>"
      "(seek LENGTH('u) (n - t) src')\<lparr>m_remaining := m_remaining src' - (n - t)\<rparr> =
        (seek LENGTH('u) n src)\<lparr>m_remaining := m_remaining src - n\<rparr>"
      using t by (simp_all add: bs'_def src'_def seek_set_remaining seek_seek)
    have le: "n - t \<le> m_remaining bs'" "n - t \<le> m_remaining src'"
      using less.prems(5,6) by (simp_all add: rem)
    from less.IH [OF _ less.prems(1,2) ok le] t
    obtain mem2 where c: "copy_loop V (n - t) srcmem src' mem1 bs' =
        Some (mem2, (seek LENGTH('a) n bs)\<lparr>m_remaining := m_remaining bs - n\<rparr>,
                    (seek LENGTH('u) n src)\<lparr>m_remaining := m_remaining src - n\<rparr>)"
      and len2: "length mem2 = length mem1"
      and bits2: "\<And>j. mem_bit mem2 j \<longleftrightarrow> (if ?p + t \<le> j \<and> j < ?p + n
        then mem_bit srcmem (?q + (t + (j - (?p + t)))) else mem_bit mem1 j)"
      unfolding ends pos by (auto simp: rem add.assoc)
    have "mem_bit mem2 j \<longleftrightarrow> (if ?p \<le> j \<and> j < ?p + n
        then mem_bit srcmem (?q + (j - ?p)) else mem_bit mem j)" for j
      using bits2 [of j] bits1 [of j] rbit [of "j - ?p"] t by auto
    with unfold c len len2 show ?thesis by auto
  qed
qed


text \<open>
  \<open>Write(BitStream<U> &src, num_bits)\<close> copies the next bits of the source over the
  next bits of the destination, as many as the smallest of the request and the two remainders,
  whatever the two word widths, the alignment of the two cursors and the width of the vessel the
  bits travel in; both cursors advance by that count and no other destination bit changes.
\<close>
theorem WriteStream_correct:
  fixes mem :: "'a::len word list" and srcmem :: "'u::len word list"
  assumes "LENGTH('a) \<le> 64" "LENGTH('u) \<le> 64" "stream_ok mem bs" "stream_ok srcmem src"
  shows "let k = min (min n (m_remaining bs)) (m_remaining src); p = stream_pos LENGTH('a) bs in
    \<exists>mem' bs' src'. WriteStream (V :: 'v::len itself) srcmem src n mem bs = Some (k, mem', bs', src') \<and>
      stream_bits mem' bs = take k (stream_bits srcmem src) @ drop k (stream_bits mem bs) \<and>
      (\<forall>j. j < p \<or> p + k \<le> j \<longrightarrow> mem_bit mem' j = mem_bit mem j) \<and>
      stream_bits mem' bs' = drop k (stream_bits mem bs) \<and>
      stream_bits srcmem src' = drop k (stream_bits srcmem src) \<and>
      stream_ok mem' bs' \<and> stream_ok srcmem src'"
proof -
  define k where "k = min (min n (m_remaining bs)) (m_remaining src)"
  let ?p = "stream_pos LENGTH('a) bs" and ?q = "stream_pos LENGTH('u) src"
  define bs' where "bs' = (seek LENGTH('a) k bs)\<lparr>m_remaining := m_remaining bs - k\<rparr>"
  define src' where "src' = (seek LENGTH('u) k src)\<lparr>m_remaining := m_remaining src - k\<rparr>"
  have k: "k \<le> m_remaining bs" "k \<le> m_remaining src" by (simp_all add: k_def)
  obtain mem' where c: "copy_loop V k srcmem src mem bs = Some (mem', bs', src')"
    and len: "length mem' = length mem"
    and bits: "\<And>j. mem_bit mem' j \<longleftrightarrow> (if ?p \<le> j \<and> j < ?p + k
        then mem_bit srcmem (?q + (j - ?p)) else mem_bit mem j)"
    using copy_loop_spec [OF assms k, of V] by (auto simp: bs'_def src'_def)
  have sb: "stream_bits mem' bs = map (\<lambda>i. mem_bit srcmem (?q + i)) [0..<k] @ drop k (stream_bits mem bs)"
    using k(1) bits by (rule stream_bits_overwrite)
  have "stream_bits mem' bs = take k (stream_bits srcmem src) @ drop k (stream_bits mem bs)"
    using sb k by (simp add: take_stream_bits)
  moreover have "stream_bits mem' bs' = drop k (stream_bits mem bs)"
    using k by (simp add: bs'_def stream_bits_seek sb)
  moreover have "stream_bits srcmem src' = drop k (stream_bits srcmem src)"
    using k by (simp add: src'_def stream_bits_seek)
  moreover have "stream_ok mem' bs'" "stream_ok srcmem src'"
    using stream_ok_seek [OF assms(3) k(1)] stream_ok_seek [OF assms(4) k(2)]
    by (simp_all add: bs'_def src'_def stream_ok_length_cong [OF len])
  moreover have "WriteStream V srcmem src n mem bs = Some (k, mem', bs', src')"
    using c by (simp add: WriteStream_def k_def Let_def)
  ultimately show ?thesis
    unfolding Let_def k_def [symmetric]
    using bits by (intro exI [of _ mem'] exI [of _ bs'] exI [of _ src']) auto
qed

theorem WriteStream_correct_witness:
  "\<exists>mem' bs' src'. WriteStream TYPE(32) [0x12345678 :: u32] \<lparr>m_storage = 0, m_offset = 5, m_remaining = 20\<rparr>
      40 [0 :: u8, 0, 0] \<lparr>m_storage = 0, m_offset = 1, m_remaining = 23\<rparr> = Some (20, mem', bs', src')"
proof -
  have "stream_ok [0x12345678 :: u32] \<lparr>m_storage = 0, m_offset = 5, m_remaining = 20\<rparr>"
    and "stream_ok [0 :: u8, 0, 0] \<lparr>m_storage = 0, m_offset = 1, m_remaining = 23\<rparr>"
    by (simp_all add: stream_ok_def stream_pos_def)
  then show ?thesis
    using WriteStream_correct [of "[0 :: u8, 0, 0]" "\<lparr>m_storage = 0, m_offset = 1, m_remaining = 23\<rparr>"
        "[0x12345678 :: u32]" "\<lparr>m_storage = 0, m_offset = 5, m_remaining = 20\<rparr>" 40 "TYPE(32)"]
    by (auto simp: Let_def)
qed

text \<open>
  What is written is what is read back. Writing the low \<open>n\<close> bits of a value and
  then reading \<open>n\<close> bits through a cursor at the same place returns exactly those low bits,
  whichever word types the two calls use.
\<close>
theorem Write_Read_roundtrip:
  fixes mem :: "'a::len word list" and v :: "'b::len word"
  assumes "LENGTH('a) \<le> 64" "stream_ok mem bs" "n \<le> LENGTH('b)" "n \<le> LENGTH('c::len)"
    and "n \<le> m_remaining bs"
  shows "\<exists>mem' bs' (r :: 'c word) bs''. Write v n mem bs = Some (n, mem', bs') \<and>
    Read mem' n bs = Some (r, bs'') \<and> r = ucast (take_bit n v) \<and> bs'' = bs'"
proof -
  obtain mem' bs' where w: "WriteUnsafe v n mem bs = Some (mem', bs')"
    and bs': "bs' = (seek LENGTH('a) n bs)\<lparr>m_remaining := m_remaining bs - n\<rparr>"
    and len: "length mem' = length mem"
    and bits: "\<And>j. mem_bit mem' j \<longleftrightarrow> (if stream_pos LENGTH('a) bs \<le> j \<and> j < stream_pos LENGTH('a) bs + n
        then bit v (j - stream_pos LENGTH('a) bs) else mem_bit mem j)"
    using WriteUnsafe_spec [OF assms(1,2,5), of v] by auto
  have ok: "stream_ok mem' bs"
    using assms(2) by (simp add: stream_ok_length_cong [OF len])
  obtain r :: "'c word" where r: "ReadUnsafe mem' n bs = Some (r, bs')"
    and rb: "map (bit r) [0..<n] = take n (stream_bits mem' bs)" "\<forall>i \<ge> n. \<not> bit r i"
    using ReadUnsafe_spec [OF assms(1) ok assms(5,4)] bs' by auto
  have "map (bit r) [0..<n] = map (bit v) [0..<n]"
    using rb(1) assms(5) by (simp add: take_stream_bits bits)
  then have "bit r i = bit v i" if "i < n" for i
    using that by (auto dest: map_eq_conv [THEN iffD1])
  then have "bit r i = bit (ucast (take_bit n v) :: 'c word) i" for i
    using rb(2) assms(4) by (cases "i < n") (auto simp: bit_simps)
  then have "r = ucast (take_bit n v)"
    by (intro bit_eqI) simp
  with w r assms show ?thesis by (simp add: Write_def Read_def)
qed

theorem Write_Read_roundtrip_witness:
  "\<exists>mem' bs' (r :: 8 word) bs''. Write (0xABCD :: u32) 7 [0 :: u8, 0]
      \<lparr>m_storage = 0, m_offset = 5, m_remaining = 11\<rparr> = Some (7, mem', bs') \<and>
    Read mem' 7 \<lparr>m_storage = 0, m_offset = 5, m_remaining = 11\<rparr> = Some (r, bs'') \<and> r = 0x4D"
proof -
  have "stream_ok [0 :: u8, 0] \<lparr>m_storage = 0, m_offset = 5, m_remaining = 11\<rparr>"
    by (simp add: stream_ok_def stream_pos_def)
  then show ?thesis
    using Write_Read_roundtrip [of "[0 :: u8, 0]" "\<lparr>m_storage = 0, m_offset = 5, m_remaining = 11\<rparr>" 7
        "0xABCD :: u32", where 'c = 8] by auto
qed


subsection \<open>Splitting, converting, printing\<close>

lemma BitStreamBase_same_place:
  fixes mem :: "'a::len word list"
  assumes "stream_ok mem bs" "m_offset bs \<le> m_remaining bs"
  shows "BitStreamBase LENGTH('a) (m_storage bs) (m_remaining bs) (m_offset bs) =
    Some (Crop (m_remaining bs - m_offset bs) bs)"
  using assms by (auto simp: BitStreamBase_def Crop_def stream_ok_def min_def)

lemma stream_bits_Crop: "stream_bits mem (Crop n bs) = take n (stream_bits mem bs)"
  by (simp add: Crop_def stream_bits_def take_map_upt stream_pos_def min.commute)

lemma stream_ok_Crop: "stream_ok mem bs \<Longrightarrow> stream_ok mem (Crop n bs)"
  by (auto simp: Crop_def stream_ok_def stream_pos_def min_def)

text \<open>
  What \<open>Split\<close> returns, on every stream. When the cursor's offset inside its word is
  larger than the number of remaining bits the constructor's assertion fails; otherwise the two
  halves are the first \<open>num_bits\<close> bits and the rest, but of the stream without its last
  \<open>m_offset\<close> bits. Only for a word-aligned cursor are the halves a partition of the stream.
\<close>
theorem Split_correct:
  fixes mem :: "'a::len word list"
  assumes "stream_ok mem bs"
  shows "(m_remaining bs < m_offset bs \<and> Split LENGTH('a) n bs = None) \<or>
    (\<exists>l r. Split LENGTH('a) n bs = Some (l, r) \<and>
       stream_bits mem l = take n (take (m_remaining bs - m_offset bs) (stream_bits mem bs)) \<and>
       stream_bits mem r = drop n (take (m_remaining bs - m_offset bs) (stream_bits mem bs)) \<and>
       stream_ok mem l \<and> stream_ok mem r)"
proof (cases "m_remaining bs < m_offset bs")
  case True
  then show ?thesis by (simp add: Split_def BitStreamBase_def)
next
  case False
  let ?c = "Crop (m_remaining bs - m_offset bs) bs"
  have s: "Split LENGTH('a) n bs = Some (Crop n ?c, snd (Skip LENGTH('a) n ?c))"
    using False BitStreamBase_same_place [OF assms]
    by (simp add: Split_def Crop_def min.commute)
  show ?thesis
    using s assms
    by (auto simp: stream_bits_Crop stream_ok_Crop Skip_spec)
qed

theorem Split_correct_witness:
  "(\<exists>l r. Split 8 4 \<lparr>m_storage = 0, m_offset = 3, m_remaining = 13\<rparr> = Some (l, r) \<and>
      stream_bits [0xFF :: u8, 0xFF] l @ stream_bits [0xFF :: u8, 0xFF] r = replicate 10 True) \<and>
   Split 8 1 \<lparr>m_storage = 0, m_offset = 5, m_remaining = 3\<rparr> = None"
proof -
  have ok: "stream_ok [0xFF :: u8, 0xFF] \<lparr>m_storage = 0, m_offset = 3, m_remaining = 13\<rparr>"
    "stream_ok [0xFF :: u8] \<lparr>m_storage = 0, m_offset = 5, m_remaining = 3\<rparr>"
    by (simp_all add: stream_ok_def stream_pos_def)
  have bits: "stream_bits [0xFF :: u8, 0xFF] \<lparr>m_storage = 0, m_offset = 3, m_remaining = 13\<rparr> =
      replicate 13 True"
    by code_simp
  show ?thesis
    using Split_correct [OF ok(1), of 4] Split_correct [OF ok(2), of 1] bits
    by (auto simp: Split_def BitStreamBase_def simp flip: replicate_add)
qed

definition bool_char :: "bool \<Rightarrow> char" where
  "bool_char b = (if b then CHR ''1'' else CHR ''0'')"

lemma bit_char_eq: "bit_char chunk i = bool_char (bit chunk i)"
  by (simp add: bit_char_def bool_char_def bit_iff_and_push_bit_not_eq_0)

lemma format_forward_spec:
  fixes mem :: "'a::len word list"
  assumes "LENGTH('a) \<le> 64" "stream_ok mem bs" "n = m_remaining bs"
  shows "format_forward mem n bs = Some (map bool_char (stream_bits mem bs))"
  using assms(2,3)
proof (induction n arbitrary: bs rule: less_induct)
  case (less n)
  show ?case
  proof (cases "n = 0")
    case True
    with less.prems show ?thesis by (simp add: format_forward.simps stream_bits_def)
  next
    case False
    define t where "t = min LENGTH('a) n"
    define bs' where "bs' = snd (Skip LENGTH('a) t bs)"
    have t: "0 < t" "t \<le> n" "t \<le> LENGTH('a)"
      using False by (auto simp: t_def)
    obtain chunk :: "'a word" where r: "Read mem t bs = Some (chunk, bs')"
      and bits: "map (bit chunk) [0..<t] = take t (stream_bits mem bs)"
      using Read_spec [OF assms(1) less.prems(1) t(3)] t(2) less.prems(2)
      by (auto simp: bs'_def)
    have "format_forward mem (n - t) bs' = Some (map bool_char (drop t (stream_bits mem bs)))"
      using less.IH [of "n - t" bs'] t less.prems by (simp add: bs'_def Skip_spec)
    moreover have "map (bit_char chunk) [0..<t] = map bool_char (take t (stream_bits mem bs))"
      by (simp add: bit_char_eq flip: bits)
    ultimately have "format_forward mem n bs =
        Some (map bool_char (take t (stream_bits mem bs) @ drop t (stream_bits mem bs)))"
      using False r by (subst format_forward.simps) (simp add: t_def [symmetric] Let_def del: append_take_drop_id)
    then show ?thesis by simp
  qed
qed

lemma format_reverse_spec:
  fixes mem :: "'a::len word list"
  assumes "LENGTH('a) \<le> 64" "stream_ok mem bs" "n \<le> m_remaining bs"
  shows "format_reverse mem n bs = Some (rev (map bool_char (take n (stream_bits mem bs))))"
  using assms(3)
proof (induction n rule: less_induct)
  case (less n)
  show ?case
  proof (cases "n = 0")
    case True
    then show ?thesis by (simp add: format_reverse.simps)
  next
    case False
    define t where "t = min LENGTH('a) n"
    define cs where "cs = snd (Skip LENGTH('a) (n - t) bs)"
    have t: "0 < t" "t \<le> n" "t \<le> LENGTH('a)"
      using False by (auto simp: t_def)
    have cs: "stream_ok mem cs" "stream_bits mem cs = drop (n - t) (stream_bits mem bs)"
      "m_remaining cs = m_remaining bs - (n - t)"
      using assms(2) by (simp_all add: cs_def Skip_spec)
    have tc: "t \<le> m_remaining cs"
      using t less.prems cs(3) by simp
    obtain chunk :: "'a word" where r: "Read mem t cs = Some (chunk, snd (Skip LENGTH('a) t cs))"
      and bits: "map (bit chunk) [0..<t] = take t (stream_bits mem cs)"
      using Read_spec [OF assms(1) cs(1) t(3)] tc by (auto simp: min_absorb1)
    have "map (\<lambda>i. bit_char chunk (t - i - 1)) [0..<t] = rev (map (bit_char chunk) [0..<t])"
      by (rule nth_equalityI) (simp_all add: rev_nth)
    also have "\<dots> = rev (map bool_char (take t (drop (n - t) (stream_bits mem bs))))"
      by (simp add: bit_char_eq flip: bits cs(2))
    finally have buffer: "map (\<lambda>i. bit_char chunk (t - i - 1)) [0..<t] =
        rev (map bool_char (take t (drop (n - t) (stream_bits mem bs))))" .
    have rest: "format_reverse mem (n - t) bs = Some (rev (map bool_char (take (n - t) (stream_bits mem bs))))"
      using less.IH [of "n - t"] t less.prems by simp
    have "take n (stream_bits mem bs) =
        take (n - t) (stream_bits mem bs) @ take t (drop (n - t) (stream_bits mem bs))"
      using t by (simp flip: take_add)
    with False r rest buffer show ?thesis
      by (subst format_reverse.simps) (simp add: t_def [symmetric] cs_def [symmetric] Let_def)
  qed
qed

text \<open>
  The formatter prints every bit of the stream once, preceded by the number of bits
  and the direction: in stream order for \<open>lsb-left\<close>, in the opposite order for \<open>lsb-right\<close>. It
  never fails on a well-formed stream.
\<close>
theorem format_bits_correct:
  fixes mem :: "'a::len word list"
  assumes "LENGTH('a) \<le> 64" "stream_ok mem bs"
  shows "format_bits reverse mem bs =
    Some (''('' @ show_nat (m_remaining bs) @ '' '' @
      (if reverse then ''lsb-right) '' @ rev (map bool_char (stream_bits mem bs))
       else ''lsb-left) '' @ map bool_char (stream_bits mem bs)))"
  using format_forward_spec [OF assms refl] format_reverse_spec [OF assms order_refl]
  by (simp add: format_bits_def GetNumBits_def Let_def)

theorem format_bits_correct_witness:
  "format_bits True [0x6 :: u8] \<lparr>m_storage = 0, m_offset = 0, m_remaining = 4\<rparr> =
    Some ''(4 lsb-right) 0110''"
proof -
  have ok: "stream_ok [0x6 :: u8] \<lparr>m_storage = 0, m_offset = 0, m_remaining = 4\<rparr>"
    by (simp add: stream_ok_def stream_pos_def)
  have "stream_bits [0x6 :: u8] \<lparr>m_storage = 0, m_offset = 0, m_remaining = 4\<rparr> =
      [False, True, True, False]"
    by code_simp
  moreover have "show_nat 4 = ''4''"
    by code_simp
  ultimately show ?thesis
    using format_bits_correct [OF _ ok, of True] by (simp add: bool_char_def)
qed

end
