(* ===== verification/Bucket_Array.thy ===== *)
theory Bucket_Array
  imports Edr_Prelude
begin

text \<open>
  \<open>BucketArrayMap\<close> and \<open>BucketArrayStack\<close> (\<open>util/adt\<close>): a map from indices to values kept in a
  singly linked list of fixed-size buckets that grows on demand, and the stack built on it. The
  chain of buckets is a list of buckets, a bucket is a list of optional items, a pointer to an
  item is the pair of its bucket number and its offset. The allocator is not part of the
  container: it is the parameter \<open>alloc\<close>, a function on the allocator's state that says whether
  a bucket could be allocated.

  The locale \<open>index_map\<close> states what the container promises to the tunnel's tables and to the
  stack; its interpretation on the model discharges the laws for every allocator.
\<close>

type_synonym 'al allocator = "'al \<Rightarrow> bool \<times> 'al"

record ('v, 'al) bucket_map =
  m_allocator :: 'al
  m_buckets :: "'v option list list"

definition new_bucket :: "nat \<Rightarrow> 'v option list" where
  "new_bucket N = replicate N None"

text \<open>\<open>create_new\<close> followed by linking the bucket at the end of the chain.\<close>

definition append_bucket ::
  "'al allocator \<Rightarrow> nat \<Rightarrow> ('v, 'al) bucket_map \<Rightarrow> bool \<times> ('v, 'al) bucket_map" where
  "append_bucket alloc N m =
     (case alloc (m_allocator m) of (ok, al) \<Rightarrow>
        if ok then (True, m\<lparr>m_allocator := al, m_buckets := m_buckets m @ [new_bucket N]\<rparr>)
        else (False, m\<lparr>m_allocator := al\<rparr>))"

text \<open>The \<open>while\<close> loop of \<open>GetBucketAndOffset\<close>; a bucket holds at least one item.\<close>

function walk ::
  "'al allocator \<Rightarrow> nat \<Rightarrow> bool \<Rightarrow> nat \<Rightarrow> nat \<Rightarrow> ('v, 'al) bucket_map \<Rightarrow>
     (nat \<times> nat) option \<times> ('v, 'al) bucket_map"
where
  "walk alloc N create index current m =
     (if N \<le> index \<and> 0 < N then
        if Suc current < length (m_buckets m)
        then walk alloc N create (index - N) (Suc current) m
        else if \<not> create then (None, m)
        else (case append_bucket alloc N m of (ok, m') \<Rightarrow>
                if \<not> ok then (None, m')
                else walk alloc N create (index - N) (Suc current) m')
      else (Some (current, index), m))"
  by pat_completeness auto
termination
  by (relation "measure (\<lambda>(al, N, c, i, cur, m). i)") auto

declare walk.simps [simp del]

definition GetBucketAndOffset ::
  "'al allocator \<Rightarrow> nat \<Rightarrow> nat \<Rightarrow> bool \<Rightarrow> ('v, 'al) bucket_map \<Rightarrow>
     (nat \<times> nat) option \<times> ('v, 'al) bucket_map"
where
  "GetBucketAndOffset alloc N index create m =
     (if m_buckets m = [] then
        if \<not> create then (None, m)
        else (case append_bucket alloc N m of (ok, m') \<Rightarrow>
                if \<not> ok then (None, m') else walk alloc N create index 0 m')
      else walk alloc N create index 0 m)"

definition item_at :: "('v, 'al) bucket_map \<Rightarrow> nat \<times> nat \<Rightarrow> 'v option" where
  "item_at m pos = m_buckets m ! fst pos ! snd pos"

definition set_item :: "'v option \<Rightarrow> nat \<times> nat \<Rightarrow> ('v, 'al) bucket_map \<Rightarrow> ('v, 'al) bucket_map" where
  "set_item v pos m =
     m\<lparr>m_buckets := (m_buckets m)[fst pos := (m_buckets m ! fst pos)[snd pos := v]]\<rparr>"

text \<open>\<open>Emplace\<close> returns the address of the item, or \<open>nullptr\<close> (\<open>None\<close>) if a bucket could not be
  allocated.\<close>

definition Emplace ::
  "'al allocator \<Rightarrow> nat \<Rightarrow> nat \<Rightarrow> 'v \<Rightarrow> ('v, 'al) bucket_map \<Rightarrow>
     (nat \<times> nat) option \<times> ('v, 'al) bucket_map"
where
  "Emplace alloc N index v m =
     (case GetBucketAndOffset alloc N index True m of
        (None, m') \<Rightarrow> (None, m')
      | (Some pos, m') \<Rightarrow> (Some pos, set_item (Some v) pos m'))"

text \<open>The calls with \<open>create_if_needed = false\<close> never reach the allocator.\<close>

definition no_alloc :: "'al allocator" where
  "no_alloc al = (False, al)"

definition Get :: "nat \<Rightarrow> nat \<Rightarrow> ('v, 'al) bucket_map \<Rightarrow> 'v option" where
  "Get N index m =
     (case GetBucketAndOffset no_alloc N index False m of
        (None, _) \<Rightarrow> None
      | (Some pos, _) \<Rightarrow> item_at m pos)"

definition Erase :: "nat \<Rightarrow> nat \<Rightarrow> ('v, 'al) bucket_map \<Rightarrow> ('v, 'al) bucket_map" where
  "Erase N index m =
     (case GetBucketAndOffset no_alloc N index False m of
        (None, _) \<Rightarrow> m
      | (Some pos, _) \<Rightarrow> set_item None pos m)"

definition Take :: "nat \<Rightarrow> nat \<Rightarrow> ('v, 'al) bucket_map \<Rightarrow> 'v option \<times> ('v, 'al) bucket_map" where
  "Take N index m =
     (case GetBucketAndOffset no_alloc N index False m of
        (None, _) \<Rightarrow> (None, m)
      | (Some pos, _) \<Rightarrow> (item_at m pos, set_item None pos m))"

text \<open>\<open>TakeExisting\<close> asserts the bucket and dereferences the item: \<open>None\<close> is the failed assertion
  or the dereference of an empty \<open>std::optional\<close>.\<close>

definition TakeExisting ::
  "nat \<Rightarrow> nat \<Rightarrow> ('v, 'al) bucket_map \<Rightarrow> ('v \<times> ('v, 'al) bucket_map) option" where
  "TakeExisting N index m =
     (case GetBucketAndOffset no_alloc N index False m of
        (None, _) \<Rightarrow> None
      | (Some pos, _) \<Rightarrow>
          do { result \<leftarrow> item_at m pos; Some (result, set_item None pos m) })"

text \<open>The destructor gives every bucket back to the allocator, \<open>dealloc\<close>; the move constructor
  leaves its source empty.\<close>

definition DestroyMap :: "('al \<Rightarrow> 'al) \<Rightarrow> ('v, 'al) bucket_map \<Rightarrow> ('v, 'al) bucket_map" where
  "DestroyMap dealloc m =
     \<lparr>m_allocator = (dealloc ^^ length (m_buckets m)) (m_allocator m), m_buckets = []\<rparr>"

definition MoveMap :: "('v, 'al) bucket_map \<Rightarrow> ('v, 'al) bucket_map \<times> ('v, 'al) bucket_map" where
  "MoveMap from = (from, from\<lparr>m_buckets := []\<rparr>)"

subsection \<open>Iterators\<close>

text \<open>An iterator is a bucket pointer (\<open>None\<close> is \<open>nullptr\<close>) and an offset.\<close>

record iterator =
  it_bucket :: "nat option"
  it_offset :: nat

definition bucket_next :: "('v, 'al) bucket_map \<Rightarrow> nat \<Rightarrow> nat option" where
  "bucket_next m b = (if Suc b < length (m_buckets m) then Some (Suc b) else None)"

function advance_iterator :: "nat \<Rightarrow> ('v, 'al) bucket_map \<Rightarrow> iterator \<Rightarrow> iterator option" where
  "advance_iterator N m it =
     (case it_bucket it of
        None \<Rightarrow> Some it
      | Some b \<Rightarrow>
          if length (m_buckets m) \<le> b \<or> N \<le> it_offset it then None
          else if Suc (it_offset it) = N then
            (case bucket_next m b of
               None \<Rightarrow> Some \<lparr>it_bucket = None, it_offset = 0\<rparr>
             | Some b' \<Rightarrow>
                 if item_at m (b', 0) \<noteq> None then Some \<lparr>it_bucket = Some b', it_offset = 0\<rparr>
                 else advance_iterator N m \<lparr>it_bucket = Some b', it_offset = 0\<rparr>)
          else if item_at m (b, Suc (it_offset it)) \<noteq> None
               then Some \<lparr>it_bucket = Some b, it_offset = Suc (it_offset it)\<rparr>
               else advance_iterator N m \<lparr>it_bucket = Some b, it_offset = Suc (it_offset it)\<rparr>)"
  by pat_completeness auto
termination
  by (relation "measures [\<lambda>(N, m, it). case it_bucket it of None \<Rightarrow> 0
        | Some b \<Rightarrow> length (m_buckets m) - b, \<lambda>(N, m, it). N - it_offset it]")
     (auto simp: bucket_next_def split: if_splits)

declare advance_iterator.simps [simp del]

definition begin_iterator :: "nat \<Rightarrow> ('v, 'al) bucket_map \<Rightarrow> iterator option" where
  "begin_iterator N m =
     (let it = \<lparr>it_bucket = (if m_buckets m = [] then None else Some 0), it_offset = 0\<rparr>
      in if m_buckets m \<noteq> [] \<and> item_at m (0, 0) = None then advance_iterator N m it else Some it)"

definition end_iterator :: iterator where
  "end_iterator = \<lparr>it_bucket = None, it_offset = 0\<rparr>"

subsection \<open>The stack\<close>

record ('v, 'al) bucket_stack =
  m_map :: "('v, 'al) bucket_map"
  m_head_index :: nat

definition StackEmpty :: "('v, 'al) bucket_stack \<Rightarrow> bool" where
  "StackEmpty s = (m_head_index s = 0)"

definition StackEmplace ::
  "'al allocator \<Rightarrow> nat \<Rightarrow> 'v \<Rightarrow> ('v, 'al) bucket_stack \<Rightarrow> (nat \<times> nat) option \<times> ('v, 'al) bucket_stack"
where
  "StackEmplace alloc N v s =
     (case Emplace alloc N (m_head_index s) v (m_map s) of
        (None, mp) \<Rightarrow> (None, s\<lparr>m_map := mp\<rparr>)
      | (Some e, mp) \<Rightarrow> (Some e, s\<lparr>m_map := mp, m_head_index := m_head_index s + 1\<rparr>))"

definition StackPop :: "nat \<Rightarrow> ('v, 'al) bucket_stack \<Rightarrow> ('v \<times> ('v, 'al) bucket_stack) option" where
  "StackPop N s =
     do { assert_that (\<not> StackEmpty s);
          let h = m_head_index s - 1;
          (v, mp) \<leftarrow> TakeExisting N h (m_map s);
          Some (v, s\<lparr>m_map := mp, m_head_index := h\<rparr>) }"


subsection \<open>The interface: a map from indices to values\<close>

locale index_map =
  fixes lookup :: "'m \<Rightarrow> nat \<Rightarrow> 'v option"
    and invar :: "'m \<Rightarrow> bool"
    and emplace :: "nat \<Rightarrow> 'v \<Rightarrow> 'm \<Rightarrow> 'p option \<times> 'm"
    and get :: "nat \<Rightarrow> 'm \<Rightarrow> 'v option"
    and erase :: "nat \<Rightarrow> 'm \<Rightarrow> 'm"
    and take_existing :: "nat \<Rightarrow> 'm \<Rightarrow> ('v \<times> 'm) option"
  assumes get: "invar m \<Longrightarrow> get i m = lookup m i"
    and emplace_Some: "invar m \<Longrightarrow> emplace i v m = (Some p, m') \<Longrightarrow> lookup m' = (lookup m)(i \<mapsto> v)"
    and emplace_None: "invar m \<Longrightarrow> emplace i v m = (None, m') \<Longrightarrow> lookup m' = lookup m"
    and erase: "invar m \<Longrightarrow> lookup (erase i m) = (lookup m)(i := None)"
    and take_existing: "invar m \<Longrightarrow> take_existing i m =
      (case lookup m i of None \<Rightarrow> None | Some v \<Rightarrow> Some (v, erase i m))"
    and invar_emplace: "invar m \<Longrightarrow> invar (snd (emplace i v m))"
    and invar_erase: "invar m \<Longrightarrow> invar (erase i m)"
begin

lemma invar_emplace_eq: "invar m \<Longrightarrow> emplace i v m = (r, m') \<Longrightarrow> invar m'"
  using invar_emplace [of m i v] by simp

text \<open>What was stored is what is taken out, and taking it out restores the map.\<close>

lemma emplace_take_existing:
  assumes "invar m" "emplace i v m = (Some p, m')" "lookup m i = None"
  shows "\<exists>m''. take_existing i m' = Some (v, m'') \<and> lookup m'' = lookup m \<and> invar m''"
proof -
  have m': "invar m'" "lookup m' = (lookup m)(i \<mapsto> v)"
    using assms(1,2) by (auto intro: invar_emplace_eq emplace_Some)
  then have "take_existing i m' = Some (v, erase i m')"
    by (simp add: take_existing)
  moreover have "lookup (erase i m') = lookup m" "invar (erase i m')"
    using m' assms(3) by (auto simp: erase invar_erase fun_upd_idem)
  ultimately show ?thesis by blast
qed

lemma get_emplace:
  "invar m \<Longrightarrow> emplace i v m = (Some p, m') \<Longrightarrow> get j m' = (if j = i then Some v else get j m)"
  by (auto simp: get emplace_Some invar_emplace_eq)

lemma get_erase: "invar m \<Longrightarrow> get j (erase i m) = (if j = i then None else get j m)"
  by (simp add: get erase invar_erase)

end

subsection \<open>The chain of buckets as a map\<close>

definition bam_inv :: "nat \<Rightarrow> ('v, 'al) bucket_map \<Rightarrow> bool" where
  "bam_inv N m \<longleftrightarrow> 0 < N \<and> (\<forall>b \<in> set (m_buckets m). length b = N)"

definition bam_lookup :: "nat \<Rightarrow> ('v, 'al) bucket_map \<Rightarrow> nat \<Rightarrow> 'v option" where
  "bam_lookup N m i =
     (if i div N < length (m_buckets m) then m_buckets m ! (i div N) ! (i mod N) else None)"

definition extends :: "nat \<Rightarrow> ('v, 'al) bucket_map \<Rightarrow> ('v, 'al) bucket_map \<Rightarrow> bool" where
  "extends N m m' \<longleftrightarrow> (\<exists>k. m_buckets m' = m_buckets m @ replicate k (new_bucket N))"

lemma extends_refl: "m_buckets m' = m_buckets m \<Longrightarrow> extends N m m'"
  unfolding extends_def by (rule exI [of _ 0]) simp

lemma extends_trans: "extends N m m' \<Longrightarrow> extends N m' m'' \<Longrightarrow> extends N m m''"
  unfolding extends_def by (metis append.assoc replicate_add)

lemma extends_inv: "extends N m m' \<Longrightarrow> bam_inv N m \<Longrightarrow> bam_inv N m'"
  by (auto simp: extends_def bam_inv_def new_bucket_def)

lemma extends_lookup:
  assumes "extends N m m'" "bam_inv N m"
  shows "bam_lookup N m' = bam_lookup N m"
proof
  fix i
  obtain k where k: "m_buckets m' = m_buckets m @ replicate k (new_bucket N)"
    using assms(1) by (auto simp: extends_def)
  have "i mod N < N" using assms(2) by (simp add: bam_inv_def)
  then show "bam_lookup N m' i = bam_lookup N m i"
    by (auto simp: bam_lookup_def k nth_append new_bucket_def)
qed

lemma append_bucket_extends:
  "append_bucket alloc N m = (ok, m') \<Longrightarrow>
     extends N m m' \<and> length (m_buckets m') = length (m_buckets m) + (if ok then 1 else 0)"
  by (auto simp: append_bucket_def extends_refl split: prod.splits if_splits)
     (auto simp: extends_def intro!: exI [of _ 1])

lemma walk_find:
  assumes "0 < N" "current < length (m_buckets m)"
  shows "walk alloc N False index current m =
    (if current + index div N < length (m_buckets m) then Some (current + index div N, index mod N)
     else None, m)"
  using assms(2)
proof (induction index arbitrary: current rule: less_induct)
  case (less index)
  show ?case
  proof (cases "N \<le> index")
    case True
    then have d: "index div N = Suc ((index - N) div N)" "index mod N = (index - N) mod N"
      using assms(1) by (auto simp: le_div_geq le_mod_geq)
    show ?thesis
    proof (cases "Suc current < length (m_buckets m)")
      case t: True
      then show ?thesis
        using less.IH [of "index - N" "Suc current"] True assms(1) d
        by (subst walk.simps) simp
    next
      case False
      then show ?thesis
        using True assms(1) d by (subst walk.simps) simp
    qed
  next
    case False
    then show ?thesis using less.prems by (subst walk.simps) simp
  qed
qed

lemma walk_create:
  assumes "0 < N" "current < length (m_buckets m)" "walk alloc N True index current m = (r, m')"
  shows "extends N m m' \<and> (\<forall>pos. r = Some pos \<longrightarrow>
    pos = (current + index div N, index mod N) \<and> fst pos < length (m_buckets m'))"
  using assms(2,3)
proof (induction index arbitrary: current m rule: less_induct)
  case (less index)
  show ?case
  proof (cases "N \<le> index")
    case True
    then have d: "index div N = Suc ((index - N) div N)" "index mod N = (index - N) mod N"
      using assms(1) by (auto simp: le_div_geq le_mod_geq)
    have dec: "index - N < index" using True assms(1) by simp
    show ?thesis
    proof (cases "Suc current < length (m_buckets m)")
      case t: True
      then have "walk alloc N True (index - N) (Suc current) m = (r, m')"
        using less.prems(2) True assms(1) by (subst (asm) walk.simps) simp
      from less.IH [OF dec t this] show ?thesis by (simp add: d)
    next
      case False
      obtain ok m1 where m1: "append_bucket alloc N m = (ok, m1)" by force
      note ext = append_bucket_extends [OF m1]
      show ?thesis
      proof (cases ok)
        case False
        then show ?thesis
          using less.prems(2) True assms(1) m1 \<open>\<not> Suc current < _\<close> ext
          by (subst (asm) walk.simps) auto
      next
        case ok: True
        then have w: "walk alloc N True (index - N) (Suc current) m1 = (r, m')"
          using less.prems(2) True assms(1) m1 \<open>\<not> Suc current < _\<close>
          by (subst (asm) walk.simps) simp
        have "Suc current < length (m_buckets m1)"
          using ext ok less.prems(1) by simp
        from less.IH [OF dec this w] ext show ?thesis
          by (auto simp: d intro: extends_trans)
      qed
    qed
  next
    case False
    then show ?thesis
      using less.prems by (subst (asm) walk.simps) (auto simp: extends_refl)
  qed
qed

lemma GetBucketAndOffset_find:
  assumes "0 < N"
  shows "GetBucketAndOffset alloc N index False m =
    (if index div N < length (m_buckets m) then Some (index div N, index mod N) else None, m)"
  using assms by (auto simp: GetBucketAndOffset_def walk_find)

lemma GetBucketAndOffset_create:
  assumes "0 < N" "GetBucketAndOffset alloc N index True m = (r, m')"
  shows "extends N m m' \<and> (\<forall>pos. r = Some pos \<longrightarrow>
    pos = (index div N, index mod N) \<and> index div N < length (m_buckets m'))"
proof (cases "m_buckets m = []")
  case True
  obtain ok m1 where m1: "append_bucket alloc N m = (ok, m1)" by force
  note ext = append_bucket_extends [OF m1]
  show ?thesis
  proof (cases ok)
    case False
    then show ?thesis using assms(2) True m1 ext by (auto simp: GetBucketAndOffset_def)
  next
    case ok: True
    then have "walk alloc N True index 0 m1 = (r, m')"
      using assms(2) True m1 by (simp add: GetBucketAndOffset_def)
    from walk_create [OF assms(1) _ this] ok ext show ?thesis
      by (auto intro: extends_trans)
  qed
next
  case False
  then have "walk alloc N True index 0 m = (r, m')"
    using assms(2) by (simp add: GetBucketAndOffset_def)
  from walk_create [OF assms(1) _ this] False show ?thesis by auto
qed

lemma set_item_inv:
  "bam_inv N m \<Longrightarrow> bam_inv N (set_item v pos m)"
proof (cases "fst pos < length (m_buckets m)")
  case True
  moreover assume "bam_inv N m"
  ultimately show ?thesis
    by (auto simp: bam_inv_def set_item_def dest!: set_update_subset_insert [THEN subsetD])
next
  case False
  moreover assume "bam_inv N m"
  ultimately show ?thesis
    by (simp add: bam_inv_def set_item_def list_update_beyond)
qed

lemma set_item_lookup:
  assumes "bam_inv N m" "i div N < length (m_buckets m)"
  shows "bam_lookup N (set_item v (i div N, i mod N) m) = (bam_lookup N m)(i := v)"
proof
  fix j
  have N: "0 < N" and len: "length (m_buckets m ! (i div N)) = N"
    using assms by (auto simp: bam_inv_def)
  have "i mod N < N" "j mod N < N" using N by simp_all
  moreover have "j = i \<longleftrightarrow> j div N = i div N \<and> j mod N = i mod N"
    by (metis div_mult_mod_eq)
  ultimately show "bam_lookup N (set_item v (i div N, i mod N) m) j = ((bam_lookup N m)(i := v)) j"
    using assms(2) len by (auto simp: bam_lookup_def set_item_def nth_list_update)
qed


lemma Emplace_cases:
  assumes "bam_inv N m" "Emplace alloc N i v m = (r, m')"
  shows "bam_inv N m' \<and>
    (case r of None \<Rightarrow> bam_lookup N m' = bam_lookup N m
     | Some pos \<Rightarrow> pos = (i div N, i mod N) \<and> bam_lookup N m' = (bam_lookup N m)(i \<mapsto> v))"
proof -
  obtain q m1 where m1: "GetBucketAndOffset alloc N i True m = (q, m1)" by force
  have N: "0 < N" using assms(1) by (simp add: bam_inv_def)
  note create = GetBucketAndOffset_create [OF N m1]
  have m1_inv: "bam_inv N m1" "bam_lookup N m1 = bam_lookup N m"
    using create assms(1) by (auto intro: extends_inv extends_lookup)
  show ?thesis
  proof (cases q)
    case None
    then show ?thesis using assms(2) m1 m1_inv by (auto simp: Emplace_def)
  next
    case (Some pos)
    then have "pos = (i div N, i mod N)" "i div N < length (m_buckets m1)" using create by auto
    then show ?thesis
      using assms(2) m1 m1_inv Some set_item_lookup [of N m1 i "Some v"]
      by (auto simp: Emplace_def set_item_inv)
  qed
qed

lemma bam_lookup_item:
  "i div N < length (m_buckets m) \<Longrightarrow> item_at m (i div N, i mod N) = bam_lookup N m i"
  by (simp add: item_at_def bam_lookup_def)

lemma Get_lookup: "bam_inv N m \<Longrightarrow> Get N i m = bam_lookup N m i"
  by (auto simp: Get_def bam_inv_def GetBucketAndOffset_find bam_lookup_item)
     (simp add: bam_lookup_def)

lemma Erase_lookup: "bam_inv N m \<Longrightarrow> bam_lookup N (Erase N i m) = (bam_lookup N m)(i := None)"
  by (cases "i div N < length (m_buckets m)")
     (auto simp: Erase_def bam_inv_def GetBucketAndOffset_find set_item_lookup, auto simp: bam_lookup_def)

lemma Erase_inv: "bam_inv N m \<Longrightarrow> bam_inv N (Erase N i m)"
  by (auto simp: Erase_def set_item_inv split: prod.splits option.splits)

lemma Take_Erase: "bam_inv N m \<Longrightarrow> Take N i m = (Get N i m, Erase N i m)"
  by (auto simp: Take_def Get_def Erase_def split: prod.splits option.splits)

lemma TakeExisting_lookup:
  "bam_inv N m \<Longrightarrow> TakeExisting N i m =
     (case bam_lookup N m i of None \<Rightarrow> None | Some v \<Rightarrow> Some (v, Erase N i m))"
  by (auto simp: TakeExisting_def Erase_def bam_inv_def GetBucketAndOffset_find bam_lookup_item
        split: option.splits) (simp_all add: bam_lookup_def split: if_splits)

interpretation bam: index_map "bam_lookup N" "bam_inv N" "Emplace alloc N" "Get N" "Erase N"
  "TakeExisting N" for N and alloc :: "'al allocator"
proof
  fix m :: "('v, 'al) bucket_map" and i v p m'
  assume m: "bam_inv N m"
  show "Get N i m = bam_lookup N m i" using m by (rule Get_lookup)
  show "bam_lookup N (Erase N i m) = (bam_lookup N m)(i := None)" using m by (rule Erase_lookup)
  show "TakeExisting N i m =
      (case bam_lookup N m i of None \<Rightarrow> None | Some v \<Rightarrow> Some (v, Erase N i m))"
    using m by (rule TakeExisting_lookup)
  show "bam_inv N (snd (Emplace alloc N i v m))"
    using Emplace_cases [OF m, of alloc i v] by (cases "Emplace alloc N i v m") auto
  show "bam_inv N (Erase N i m)" using m by (rule Erase_inv)
  show "bam_lookup N m' = (bam_lookup N m)(i \<mapsto> v)" if "Emplace alloc N i v m = (Some p, m')"
    using Emplace_cases [OF m that] by simp
  show "bam_lookup N m' = bam_lookup N m" if "Emplace alloc N i v m = (None, m')"
    using Emplace_cases [OF m that] by simp
qed

subsection \<open>Properties of the map\<close>

definition empty_map :: "'al \<Rightarrow> ('v, 'al) bucket_map" where
  "empty_map al = \<lparr>m_allocator = al, m_buckets = []\<rparr>"

lemma empty_map_inv [simp]: "bam_inv N (empty_map al) \<longleftrightarrow> 0 < N"
  by (simp add: empty_map_def bam_inv_def)

lemma empty_map_lookup [simp]: "bam_lookup N (empty_map al) i = None"
  by (simp add: empty_map_def bam_lookup_def)

text \<open>Property C21: with buckets of equal positive size, the container is a finite map for every
  allocator: \<open>Emplace\<close> binds exactly the index it is given (at bucket \<open>index / N\<close>, offset
  \<open>index % N\<close>) or, if a bucket cannot be allocated, changes no binding; \<open>Get\<close> reads a binding,
  \<open>Erase\<close> and \<open>Take\<close> remove exactly one, and every operation keeps the shape of the buckets.\<close>

theorem bucket_map_correct:
  assumes "bam_inv N m"
  shows "Get N j m = bam_lookup N m j
    \<and> (case Emplace alloc N i v m of
         (None, m') \<Rightarrow> bam_inv N m' \<and> (\<forall>k. Get N k m' = Get N k m)
       | (Some pos, m') \<Rightarrow> bam_inv N m' \<and> pos = (i div N, i mod N) \<and> item_at m' pos = Some v
           \<and> (\<forall>k. Get N k m' = (if k = i then Some v else Get N k m)))
    \<and> bam_inv N (Erase N i m)
    \<and> (\<forall>k. Get N k (Erase N i m) = (if k = i then None else Get N k m))
    \<and> Take N i m = (Get N i m, Erase N i m)"
proof -
  obtain r m' where e: "Emplace alloc N i v m = (r, m')" by force
  note c = Emplace_cases [OF assms e]
  have "case r of None \<Rightarrow> bam_inv N m' \<and> (\<forall>k. Get N k m' = Get N k m)
     | Some pos \<Rightarrow> bam_inv N m' \<and> pos = (i div N, i mod N) \<and> item_at m' pos = Some v
           \<and> (\<forall>k. Get N k m' = (if k = i then Some v else Get N k m))"
  proof (cases r)
    case None
    with c assms show ?thesis by (simp add: Get_lookup)
  next
    case (Some pos)
    with c have "bam_lookup N m' i = Some v" by simp
    then have "item_at m' (i div N, i mod N) = Some v"
      by (auto simp: bam_lookup_def item_at_def split: if_splits)
    with Some c assms show ?thesis by (simp add: Get_lookup)
  qed
  with e assms show ?thesis
    by (simp add: Get_lookup Erase_inv Erase_lookup Take_Erase split: option.splits)
qed

definition plenty :: "unit allocator" where
  "plenty al = (True, al)"

theorem bucket_map_correct_witness:
  "bam_inv 2 (snd (Emplace plenty 2 3 CHR ''a'' (empty_map ())))
   \<and> (let m = snd (Emplace plenty 2 3 CHR ''a'' (empty_map ())) in
      Get 2 3 m = bam_lookup 2 m 3 \<and> Take 2 3 m = (Get 2 3 m, Erase 2 3 m))"
proof -
  let ?m = "snd (Emplace plenty 2 3 CHR ''a'' (empty_map ()))"
  have "bam_inv 2 ?m" by code_simp
  from bucket_map_correct [OF this, where j = 3 and i = 3] this show ?thesis
    by (simp add: Let_def)
qed

subsection \<open>Iteration\<close>

definition iter_at :: "nat \<Rightarrow> nat \<Rightarrow> iterator" where
  "iter_at N i = \<lparr>it_bucket = Some (i div N), it_offset = i mod N\<rparr>"

definition capacity :: "nat \<Rightarrow> ('v, 'al) bucket_map \<Rightarrow> nat" where
  "capacity N m = N * length (m_buckets m)"

definition first_from :: "nat \<Rightarrow> ('v, 'al) bucket_map \<Rightarrow> nat \<Rightarrow> iterator" where
  "first_from N m i =
     (case find (\<lambda>j. Get N j m \<noteq> None) [i..<capacity N m] of
        None \<Rightarrow> end_iterator | Some j \<Rightarrow> iter_at N j)"

lemma capacity_div: "0 < N \<Longrightarrow> i div N < length (m_buckets m) \<longleftrightarrow> i < capacity N m"
  by (simp add: capacity_def div_less_iff_less_mult mult.commute)

lemma first_from_step:
  "i < capacity N m \<Longrightarrow>
     first_from N m i = (if Get N i m \<noteq> None then iter_at N i else first_from N m (Suc i))"
  by (simp add: first_from_def upt_conv_Cons)

lemma first_from_end: "capacity N m \<le> i \<Longrightarrow> first_from N m i = end_iterator"
  by (simp add: first_from_def)

lemma iter_at_Suc:
  assumes "0 < N"
  shows "iter_at N (Suc i) =
    (if Suc (i mod N) = N then \<lparr>it_bucket = Some (Suc (i div N)), it_offset = 0\<rparr>
     else \<lparr>it_bucket = Some (i div N), it_offset = Suc (i mod N)\<rparr>)"
  using assms by (auto simp: iter_at_def mod_Suc div_Suc)

lemma advance_iterator_step:
  assumes "bam_inv N m" "i < capacity N m"
  shows "advance_iterator N m (iter_at N i) =
    (if Suc i < capacity N m then
       if Get N (Suc i) m \<noteq> None then Some (iter_at N (Suc i))
       else advance_iterator N m (iter_at N (Suc i))
     else Some end_iterator)"
proof -
  have N: "0 < N" using assms(1) by (simp add: bam_inv_def)
  have b: "i div N < length (m_buckets m)" using assms(2) N by (simp add: capacity_div)
  have item: "Suc i < capacity N m \<Longrightarrow> item_at m (Suc i div N, Suc i mod N) = Get N (Suc i) m"
    using bam_lookup_item [of "Suc i" N m] assms(1) N by (simp add: Get_lookup capacity_div)
  show ?thesis
  proof (cases "Suc (i mod N) = N")
    case True
    then have d: "Suc i div N = Suc (i div N)" "Suc i mod N = 0"
      by (simp_all add: div_Suc mod_Suc)
    show ?thesis
      using True b N item d capacity_div [OF N, of "Suc i" m]
      by (subst advance_iterator.simps)
         (simp add: iter_at_def bucket_next_def end_iterator_def)
  next
    case False
    then have d: "Suc i div N = i div N" "Suc i mod N = Suc (i mod N)"
      by (simp_all add: div_Suc mod_Suc)
    then show ?thesis
      using False b N item capacity_div [OF N, of "Suc i" m] mod_less_divisor [OF N, of i]
      by (subst advance_iterator.simps)
         (simp add: iter_at_def)
  qed
qed

lemma advance_iterator_first:
  assumes "bam_inv N m" "i < capacity N m"
  shows "advance_iterator N m (iter_at N i) = Some (first_from N m (Suc i))"
  using assms(2)
proof (induction "capacity N m - i" arbitrary: i rule: less_induct)
  case less
  then show ?case
    using advance_iterator_step [OF assms(1) less.prems] less.hyps [of "Suc i"]
    by (simp add: first_from_step first_from_end)
qed

text \<open>A range-based loop over the map visits exactly the stored items, in increasing
  order of their indices, and ends: \<open>begin\<close> is the iterator of the first occupied index, \<open>++\<close> on
  the iterator of an index gives the iterator of the next occupied one, and both give \<open>end\<close> when
  there is none.\<close>

theorem iteration_correct:
  assumes "bam_inv N m"
  shows "begin_iterator N m = Some (first_from N m 0)
    \<and> (\<forall>i. i < capacity N m \<longrightarrow> advance_iterator N m (iter_at N i) = Some (first_from N m (Suc i)))
    \<and> (\<forall>i. Get N i m \<noteq> None \<longrightarrow> i < capacity N m)"
proof (intro conjI allI impI)
  have N: "0 < N" using assms by (simp add: bam_inv_def)
  show "begin_iterator N m = Some (first_from N m 0)"
  proof (cases "m_buckets m = []")
    case True
    then show ?thesis
      by (simp add: begin_iterator_def first_from_def capacity_def end_iterator_def)
  next
    case False
    then have cap: "0 < capacity N m" using N by (simp add: capacity_def)
    have "item_at m (0, 0) = Get N 0 m"
      using bam_lookup_item [of 0 N m] assms False by (simp add: Get_lookup)
    then show ?thesis
      using False advance_iterator_first [OF assms cap] cap
      by (auto simp: begin_iterator_def first_from_step iter_at_def)
  qed
  show "advance_iterator N m (iter_at N i) = Some (first_from N m (Suc i))" if "i < capacity N m" for i
    using assms that by (rule advance_iterator_first)
  show "i < capacity N m" if "Get N i m \<noteq> None" for i
    using that assms N capacity_div [OF N, of i m]
    by (auto simp: Get_lookup bam_lookup_def split: if_splits)
qed

theorem iteration_correct_witness:
  "let m = snd (Emplace plenty 2 3 CHR ''a'' (empty_map ())) in
   bam_inv 2 m \<and> begin_iterator 2 m = Some (iter_at 2 3)
   \<and> advance_iterator 2 m (iter_at 2 3) = Some end_iterator"
proof -
  let ?m = "snd (Emplace plenty 2 3 CHR ''a'' (empty_map ()))"
  have m: "bam_inv 2 ?m" by code_simp
  have "first_from 2 ?m 0 = iter_at 2 3" "first_from 2 ?m 4 = end_iterator" "3 < capacity 2 ?m"
    by code_simp+
  with iteration_correct [OF m] m show ?thesis by (simp add: Let_def)
qed

subsection \<open>Properties of the stack\<close>

definition stack_inv :: "nat \<Rightarrow> ('v, 'al) bucket_stack \<Rightarrow> bool" where
  "stack_inv N s \<longleftrightarrow> bam_inv N (m_map s) \<and> (\<forall>i < m_head_index s. bam_lookup N (m_map s) i \<noteq> None)"

text \<open>The contents of the stack, its top first.\<close>

definition stack_list :: "nat \<Rightarrow> ('v, 'al) bucket_stack \<Rightarrow> 'v list" where
  "stack_list N s = map (\<lambda>i. the (bam_lookup N (m_map s) i)) (rev [0..<m_head_index s])"

lemma stack_list_cong:
  "m_head_index s = m_head_index s' \<Longrightarrow>
   (\<And>i. i < m_head_index s \<Longrightarrow> bam_lookup N (m_map s) i = bam_lookup N (m_map s') i) \<Longrightarrow>
   stack_list N s = stack_list N s'"
  by (simp add: stack_list_def rev_map [symmetric])

lemma StackEmplace_refines:
  assumes "stack_inv N s" "StackEmplace alloc N v s = (r, s')"
  shows "stack_inv N s' \<and> stack_list N s' = (if r = None then stack_list N s else v # stack_list N s)"
proof -
  obtain q mp where e: "Emplace alloc N (m_head_index s) v (m_map s) = (q, mp)" by force
  have "bam_inv N (m_map s)" using assms(1) by (simp add: stack_inv_def)
  from Emplace_cases [OF this e] assms e show ?thesis
    by (cases q) (auto simp: StackEmplace_def stack_inv_def stack_list_def less_Suc_eq)
qed

lemma StackPop_refines:
  assumes "stack_inv N s"
  shows "case stack_list N s of
      [] \<Rightarrow> StackPop N s = None
    | v # vs \<Rightarrow> \<exists>s'. StackPop N s = Some (v, s') \<and> stack_inv N s' \<and> stack_list N s' = vs"
proof (cases "m_head_index s")
  case 0
  then show ?thesis by (simp add: stack_list_def StackPop_def StackEmpty_def)
next
  case (Suc h)
  have inv: "bam_inv N (m_map s)" using assms by (simp add: stack_inv_def)
  obtain v where v: "bam_lookup N (m_map s) h = Some v" using assms Suc by (force simp: stack_inv_def)
  let ?s' = "s\<lparr>m_map := Erase N h (m_map s), m_head_index := h\<rparr>"
  have "StackPop N s = Some (v, ?s')"
    using Suc v inv by (simp add: StackPop_def StackEmpty_def TakeExisting_lookup)
  moreover have "stack_inv N ?s'"
    using assms Suc by (auto simp: stack_inv_def Erase_inv Erase_lookup)
  moreover have "stack_list N ?s' = map (\<lambda>i. the (bam_lookup N (m_map s) i)) (rev [0..<h])"
    using inv by (simp add: stack_list_def Erase_lookup)
  ultimately show ?thesis using Suc v by (simp add: stack_list_def)
qed

text \<open>\<open>BucketArrayStack\<close> is a stack: \<open>Emplace\<close> pushes its value or, without memory,
  leaves the contents as they were; \<open>Pop\<close> removes and returns the top and asserts on an empty
  stack; \<open>Empty\<close> tells whether there is a top.\<close>

theorem bucket_stack_correct:
  assumes "stack_inv N s"
  shows "(StackEmpty s \<longleftrightarrow> stack_list N s = [])
    \<and> (case StackEmplace alloc N v s of (r, s') \<Rightarrow>
         stack_inv N s' \<and> stack_list N s' = (if r = None then stack_list N s else v # stack_list N s))
    \<and> (case stack_list N s of
         [] \<Rightarrow> StackPop N s = None
       | w # ws \<Rightarrow> \<exists>s'. StackPop N s = Some (w, s') \<and> stack_inv N s' \<and> stack_list N s' = ws)"
proof (intro conjI)
  show "StackEmpty s \<longleftrightarrow> stack_list N s = []" by (auto simp: StackEmpty_def stack_list_def)
  show "case StackEmplace alloc N v s of (r, s') \<Rightarrow>
      stack_inv N s' \<and> stack_list N s' = (if r = None then stack_list N s else v # stack_list N s)"
    using StackEmplace_refines [OF assms, of alloc v] by (auto split: prod.splits)
  show "case stack_list N s of
         [] \<Rightarrow> StackPop N s = None
       | w # ws \<Rightarrow> \<exists>s'. StackPop N s = Some (w, s') \<and> stack_inv N s' \<and> stack_list N s' = ws"
    using StackPop_refines [OF assms] by (auto split: list.splits)
qed

theorem bucket_stack_correct_witness:
  "let s = \<lparr>m_map = empty_map (), m_head_index = 0\<rparr> in
   stack_inv 2 s \<and> stack_list 2 (snd (StackEmplace plenty 2 (7::nat) s)) = [7]"
proof -
  let ?s = "\<lparr>m_map = empty_map (), m_head_index = 0\<rparr> :: (nat, unit) bucket_stack"
  have "stack_inv 2 ?s" by (simp add: stack_inv_def)
  moreover have "fst (StackEmplace plenty 2 (7::nat) ?s) \<noteq> None" "stack_list 2 ?s = []"
    by code_simp+
  ultimately show ?thesis
    using bucket_stack_correct [of 2 ?s, where alloc = plenty and v = 7] by (auto simp: Let_def split: prod.splits)
qed

end
