(* ===== verification/Latency.thy ===== *)
theory Latency
  imports Edr_Prelude
begin

text \<open>
  \<open>LatencyCalibrator\<close> (\<open>util/miscellaneous\<close>): the number of idle cycles a client waits for a
  slow target, searched between a lower and an upper bound. Latencies are 32-bit words, so every
  sum and difference wraps around as it does in the code.
\<close>

record calibrator =
  m_min_latency :: u32
  m_max_latency :: u32
  m_current_latency :: u32

definition LatencyCalibrator :: "u32 \<Rightarrow> u32 \<Rightarrow> calibrator" where
  "LatencyCalibrator min_latency max_latency =
     \<lparr>m_min_latency = min min_latency max_latency, m_max_latency = max min_latency max_latency,
      m_current_latency = min_latency\<rparr>"

definition BumpMin :: "u32 \<Rightarrow> calibrator \<Rightarrow> calibrator" where
  "BumpMin min_min c =
     c\<lparr>m_min_latency := max min_min (m_min_latency c),
       m_current_latency := max min_min (m_current_latency c),
       m_max_latency := max min_min (m_max_latency c)\<rparr>"

definition TooLow :: "calibrator \<Rightarrow> calibrator" where
  "TooLow c =
     (let c' = c\<lparr>m_min_latency := m_current_latency c + 1\<rparr>;
          room = m_max_latency c - m_current_latency c
      in if room \<le> m_current_latency c then c'\<lparr>m_current_latency := m_max_latency c\<rparr>
         else c'\<lparr>m_current_latency := m_current_latency c * 2 + 1\<rparr>)"

definition Enough :: "calibrator \<Rightarrow> calibrator" where
  "Enough c =
     (let step = (m_current_latency c - m_min_latency c + 1) div 2
      in c\<lparr>m_current_latency := m_current_latency c - step\<rparr>)"

definition IsMax :: "calibrator \<Rightarrow> bool" where
  "IsMax c = (m_current_latency c = m_max_latency c)"

definition calibrator_ok :: "calibrator \<Rightarrow> bool" where
  "calibrator_ok c \<longleftrightarrow>
     m_min_latency c \<le> m_current_latency c \<and> m_current_latency c \<le> m_max_latency c"

subsection \<open>The calibrator over the natural numbers\<close>

lemma room_unat:
  fixes cur mx :: u32
  shows "cur \<le> mx \<Longrightarrow> unat (mx - cur) = unat mx - unat cur"
  by (simp add: unat_sub word_le_nat_alt)

lemma unat_succ_below:
  fixes cur mx :: u32
  shows "cur < mx \<Longrightarrow> unat (cur + 1) = unat cur + 1"
  using unat_u32_less [of mx] by (simp add: word_less_nat_alt unat_word_ariths)

lemma unat_double_below:
  fixes cur mx :: u32
  assumes "cur < mx" "\<not> mx - cur \<le> cur"
  shows "unat (cur * 2 + 1) = 2 * unat cur + 1" "2 * unat cur + 1 \<le> unat mx"
proof -
  have lt: "unat cur < unat mx - unat cur"
    using assms room_unat [of cur mx] by (simp add: word_le_nat_alt not_le word_less_nat_alt)
  then show le: "2 * unat cur + 1 \<le> unat mx" by simp
  have "unat mx < 2 ^ 32" using unat_u32_less [of mx] by simp
  then show "unat (cur * 2 + 1) = 2 * unat cur + 1"
    using le by (simp add: unat_word_ariths)
qed

lemma Enough_unat:
  assumes "calibrator_ok c" "\<not> (m_min_latency c = 0 \<and> m_current_latency c = - 1)"
  shows "unat (m_current_latency (Enough c)) =
    unat (m_current_latency c) - (unat (m_current_latency c) - unat (m_min_latency c) + 1) div 2"
proof -
  let ?cur = "m_current_latency c" and ?mn = "m_min_latency c"
  have le: "?mn \<le> ?cur" using assms(1) by (simp add: calibrator_ok_def)
  have d: "unat (?cur - ?mn) = unat ?cur - unat ?mn" using le by (simp add: room_unat)
  have "?cur - ?mn \<noteq> - 1"
  proof
    assume eq: "?cur - ?mn = - 1"
    then have "unat ?cur - unat ?mn = 2 ^ 32 - 1"
      using d unat_u32_max by simp
    moreover have "unat ?cur < 2 ^ 32" using unat_u32_less [of ?cur] by simp
    ultimately have "unat ?mn = 0" by simp
    then have "?mn = 0" by (simp add: unat_eq_0)
    then show False using assms(2) eq by simp
  qed
  then have "unat (?cur - ?mn + 1) = unat ?cur - unat ?mn + 1"
    using d unat_u32_succ by metis
  then have step: "unat ((?cur - ?mn + 1) div 2) = (unat ?cur - unat ?mn + 1) div 2"
    by (simp add: unat_div)
  have "unat ?mn \<le> unat ?cur" using le by (simp add: word_le_nat_alt)
  then have "(?cur - ?mn + 1) div 2 \<le> ?cur"
    using step by (cases "unat ?cur = 0") (auto simp: word_le_nat_alt)
  then show ?thesis using step by (simp add: Enough_def unat_sub word_le_nat_alt)
qed

subsection \<open>Properties\<close>

lemma LatencyCalibrator_ok: "a \<le> b \<Longrightarrow> calibrator_ok (LatencyCalibrator a b)"
  by (simp add: calibrator_ok_def LatencyCalibrator_def min_def max_def)

lemma BumpMin_ok [edr_inv]: "calibrator_ok c \<Longrightarrow> calibrator_ok (BumpMin n c)"
  by (auto simp: calibrator_ok_def BumpMin_def le_max_iff_disj)

lemma TooLow_unat:
  assumes "calibrator_ok c" "\<not> IsMax c"
  shows "unat (m_min_latency (TooLow c)) = unat (m_current_latency c) + 1"
    "unat (m_current_latency (TooLow c)) =
       min (unat (m_max_latency c)) (2 * unat (m_current_latency c) + 1)"
    "m_max_latency (TooLow c) = m_max_latency c"
proof -
  have lt: "m_current_latency c < m_max_latency c"
    using assms by (auto simp: calibrator_ok_def IsMax_def)
  then show "unat (m_min_latency (TooLow c)) = unat (m_current_latency c) + 1"
    by (simp add: TooLow_def Let_def unat_succ_below)
  have "m_max_latency c - m_current_latency c \<le> m_current_latency c \<longleftrightarrow>
      unat (m_max_latency c) \<le> 2 * unat (m_current_latency c)"
    using room_unat [of "m_current_latency c" "m_max_latency c"] lt
    by (auto simp: word_le_nat_alt word_less_nat_alt)
  then show "unat (m_current_latency (TooLow c)) =
       min (unat (m_max_latency c)) (2 * unat (m_current_latency c) + 1)"
    using unat_double_below [OF lt] by (auto simp: TooLow_def Let_def min_def)
  show "m_max_latency (TooLow c) = m_max_latency c" by (simp add: TooLow_def Let_def)
qed

text \<open>Property C33: the bounds stay ordered around the current latency and nothing wraps around, in every
  operation under the condition the code needs. \<open>BumpMin\<close> raises each of the minimum, the current latency and the maximum that
  is below its argument to it, and leaves the others alone. \<open>TooLow\<close>, called while the latency is not at the maximum, narrows the range:
  it moves the minimum just past the latency it was told about, keeps the maximum, and
  doubles the latency up to the maximum. \<open>Enough\<close>, unless the search spans all 32-bit values,
  keeps both bounds, never raises the latency and halves its distance to the minimum.\<close>

theorem calibrator_bounds:
  assumes "calibrator_ok c"
  shows "calibrator_ok (BumpMin n c)
    \<and> BumpMin n c = \<lparr>m_min_latency = max n (m_min_latency c), m_max_latency = max n (m_max_latency c),
         m_current_latency = max n (m_current_latency c)\<rparr>
    \<and> (\<not> IsMax c \<longrightarrow> calibrator_ok (TooLow c)
        \<and> m_min_latency c < m_min_latency (TooLow c) \<and> m_max_latency (TooLow c) = m_max_latency c
        \<and> unat (m_min_latency (TooLow c)) = unat (m_current_latency c) + 1
        \<and> unat (m_current_latency (TooLow c)) =
            min (unat (m_max_latency c)) (2 * unat (m_current_latency c) + 1))
    \<and> (\<not> (m_min_latency c = 0 \<and> m_current_latency c = - 1) \<longrightarrow> calibrator_ok (Enough c)
        \<and> m_min_latency (Enough c) = m_min_latency c \<and> m_max_latency (Enough c) = m_max_latency c
        \<and> m_current_latency (Enough c) \<le> m_current_latency c
        \<and> unat (m_current_latency (Enough c)) - unat (m_min_latency c) =
            (unat (m_current_latency c) - unat (m_min_latency c)) div 2)"
proof (intro conjI impI)
  let ?cur = "unat (m_current_latency c)" and ?mn = "unat (m_min_latency c)"
  have le: "?mn \<le> ?cur" "?cur \<le> unat (m_max_latency c)"
    using assms by (simp_all add: calibrator_ok_def word_le_nat_alt)
  show "calibrator_ok (BumpMin n c)" using assms by (rule BumpMin_ok)
  show "BumpMin n c = \<lparr>m_min_latency = max n (m_min_latency c), m_max_latency = max n (m_max_latency c),
      m_current_latency = max n (m_current_latency c)\<rparr>"
    by (simp add: BumpMin_def)
  show "m_min_latency c < m_min_latency (TooLow c)" "m_max_latency (TooLow c) = m_max_latency c" if "\<not> IsMax c"
    using TooLow_unat [OF assms that] le by (simp_all add: word_less_nat_alt)
  show "calibrator_ok (TooLow c)" if "\<not> IsMax c"
  proof -
    have "?cur \<noteq> unat (m_max_latency c)" using that by (simp add: IsMax_def word_unat_eq_iff)
    then show ?thesis
      using TooLow_unat [OF assms that] le
      by (simp add: calibrator_ok_def word_le_nat_alt)
  qed
  show "unat (m_min_latency (TooLow c)) = ?cur + 1" if "\<not> IsMax c"
    using TooLow_unat [OF assms that] by simp
  show "unat (m_current_latency (TooLow c)) = min (unat (m_max_latency c)) (2 * ?cur + 1)"
    if "\<not> IsMax c"
    using TooLow_unat [OF assms that] by simp
  assume n: "\<not> (m_min_latency c = 0 \<and> m_current_latency c = - 1)"
  have e: "unat (m_current_latency (Enough c)) = ?cur - (?cur - ?mn + 1) div 2"
    using assms n by (rule Enough_unat)
  have same: "m_min_latency (Enough c) = m_min_latency c" "m_max_latency (Enough c) = m_max_latency c"
    by (simp_all add: Enough_def Let_def)
  obtain d where d: "?cur = ?mn + d" using le(1) le_iff_add by blast
  have halve: "?mn + d - (d + 1) div 2 = ?mn + d div 2" by arith
  show "calibrator_ok (Enough c)"
    using e le d halve by (simp add: calibrator_ok_def word_le_nat_alt same)
  show "m_min_latency (Enough c) = m_min_latency c" "m_max_latency (Enough c) = m_max_latency c" by (rule same)+
  show "m_current_latency (Enough c) \<le> m_current_latency c" using e by (simp add: word_le_nat_alt)
  show "unat (m_current_latency (Enough c)) - ?mn = (?cur - ?mn) div 2"
    using e d halve by simp
qed

theorem calibrator_bounds_witness:
  "let c = LatencyCalibrator 0 1000 in
   calibrator_ok c \<and> calibrator_ok (TooLow c) \<and> m_min_latency c < m_min_latency (TooLow c) \<and>
   calibrator_ok (Enough (TooLow c)) \<and> calibrator_ok (BumpMin 5 c)"
proof -
  let ?c = "LatencyCalibrator 0 1000"
  have c: "calibrator_ok ?c" "\<not> IsMax ?c" by code_simp+
  have c': "calibrator_ok (TooLow ?c)" "m_current_latency (TooLow ?c) \<noteq> - 1" by code_simp+
  show ?thesis
    using calibrator_bounds [OF c(1), of 5] calibrator_bounds [OF c'(1), of 5] c c' by (auto simp: Let_def simp del: One_nat_def)
qed

lemma TooLow_progress:
  assumes "calibrator_ok c" "\<not> IsMax c" "2 ^ k - 1 \<le> unat (m_current_latency c)"
  shows "IsMax (TooLow c) \<or>
    calibrator_ok (TooLow c) \<and> 2 ^ Suc k - 1 \<le> unat (m_current_latency (TooLow c))"
proof -
  note t = TooLow_unat [OF assms(1,2)]
  have "unat (m_current_latency c) < unat (m_max_latency c)"
    using assms(1,2) by (auto simp: calibrator_ok_def IsMax_def word_le_nat_alt word_unat_eq_iff)
  then have "calibrator_ok (TooLow c)" using t by (simp add: calibrator_ok_def word_le_nat_alt)
  moreover have "IsMax (TooLow c)" if "unat (m_max_latency c) \<le> 2 * unat (m_current_latency c) + 1"
    using t that by (simp add: IsMax_def min_def word_unat_eq_iff)
  ultimately show ?thesis using t assms(3) by (auto simp: min_def)
qed

lemma TooLow_reaches:
  assumes "calibrator_ok c" "2 ^ k - 1 \<le> unat (m_current_latency c)" "k + n = 32"
  shows "\<exists>i \<le> n. IsMax ((TooLow ^^ i) c)"
  using assms
proof (induction n arbitrary: k c)
  case 0
  then have "unat (m_max_latency c) \<le> unat (m_current_latency c)"
    using unat_u32_less [of "m_max_latency c"] by simp
  then have "IsMax c" using 0(1) by (simp add: IsMax_def calibrator_ok_def word_le_nat_alt word_unat_eq_iff)
  then show ?case by (intro exI [of _ 0]) simp
next
  case (Suc n)
  show ?case
  proof (cases "IsMax c \<or> IsMax (TooLow c)")
    case True
    then show ?thesis by (elim disjE) (force intro: exI [of _ 0], force intro: exI [of _ 1])
  next
    case False
    then have "calibrator_ok (TooLow c)" "2 ^ Suc k - 1 \<le> unat (m_current_latency (TooLow c))"
      using TooLow_progress [OF Suc.prems(1) _ Suc.prems(2)] by auto
    from Suc.IH [OF this] Suc.prems(3) obtain i where "i \<le> n" "IsMax ((TooLow ^^ i) (TooLow c))"
      by auto
    then show ?thesis by (intro exI [of _ "Suc i"]) (simp add: funpow_swap1)
  qed
qed

text \<open>The search gives up in bounded time: from any ordered state, at most 32 calls of
  \<open>TooLow\<close> in a row raise the current latency to the maximum.\<close>

theorem TooLow_terminates:
  assumes "calibrator_ok c"
  shows "\<exists>i \<le> 32. IsMax ((TooLow ^^ i) c)"
  using TooLow_reaches [OF assms, of 0 32] by simp

theorem TooLow_terminates_witness:
  "calibrator_ok (LatencyCalibrator 0 (- 1)) \<and> (\<exists>i \<le> 32. IsMax ((TooLow ^^ i) (LatencyCalibrator 0 (- 1))))"
proof -
  have "calibrator_ok (LatencyCalibrator 0 (- 1))" by code_simp
  with TooLow_terminates show ?thesis by blast
qed

end
