(* ===== verification/Free_List.thy ===== *)
theory Free_List
  imports Edr_Prelude
begin

text \<open>
  \<open>FreeListAllocatorResource\<close> (\<open>util/memory\<close>), the allocator of coroutine frames and transaction
  chunks, and \<open>FreeList\<close> (\<open>util/adt\<close>), the pool of reusable values.

  Both sit on a \<open>std::pmr::memory_resource\<close>, which is a parameter: \<open>alloc\<close> and \<open>dealloc\<close> on a
  resource state. What is relied on is the predicate \<open>resource_ok\<close>: a returned block is not in
  use, and a block stays in use until it is deallocated. Pointers are 64-bit words; the header
  that precedes a block is the entry of \<open>fl_header\<close> at the chunk's address.
\<close>

type_synonym ptr = u64

type_synonym 'r res_alloc = "u64 \<Rightarrow> 'r \<Rightarrow> ptr option \<times> 'r"
type_synonym 'r res_dealloc = "ptr \<Rightarrow> u64 \<Rightarrow> 'r \<Rightarrow> 'r"

definition resource_ok ::
  "'r res_alloc \<Rightarrow> 'r res_dealloc \<Rightarrow> ('r \<Rightarrow> ptr \<Rightarrow> u64 option) \<Rightarrow> bool" where
  "resource_ok alloc dealloc live \<longleftrightarrow>
     (\<forall>n r p r'. alloc n r = (Some p, r') \<longrightarrow> live r p = None \<and> live r' = (live r)(p \<mapsto> n)) \<and>
     (\<forall>n r r'. alloc n r = (None, r') \<longrightarrow> live r' = live r) \<and>
     (\<forall>p n r. live r p = Some n \<longrightarrow> live (dealloc p n r) = (live r)(p := None))"

lemma resource_okD:
  assumes "resource_ok alloc dealloc live"
  shows "alloc n r = (Some p, r') \<Longrightarrow> live r p = None \<and> live r' = (live r)(p \<mapsto> n)"
    "alloc n r = (None, r') \<Longrightarrow> live r' = live r"
    "live r p = Some n \<Longrightarrow> live (dealloc p n r) = (live r)(p := None)"
  using assms by (auto simp: resource_ok_def)

subsection \<open>The allocator\<close>

record 'r free_list_resource =
  fl_resource :: 'r
  fl_header :: "ptr \<Rightarrow> u64 option"
  fl_head :: "ptr list"

definition sizeof_Header :: u64 where
  "sizeof_Header = 16"

definition allocate_new ::
  "'r res_alloc \<Rightarrow> u64 \<Rightarrow> 'r free_list_resource \<Rightarrow> ptr option \<times> 'r free_list_resource" where
  "allocate_new alloc total_size st =
     (case alloc total_size (fl_resource st) of
        (None, r) \<Rightarrow> (None, st\<lparr>fl_resource := r\<rparr>)
      | (Some p, r) \<Rightarrow>
          (Some (p + sizeof_Header),
           st\<lparr>fl_resource := r, fl_header := (fl_header st)(p \<mapsto> total_size)\<rparr>))"

text \<open>Reading \<open>total_size\<close> of something that is not a chunk is \<open>None\<close>.\<close>

definition allocate ::
  "'r res_alloc \<Rightarrow> 'r res_dealloc \<Rightarrow> u64 \<Rightarrow> 'r free_list_resource \<Rightarrow>
     (ptr option \<times> 'r free_list_resource) option"
where
  "allocate alloc dealloc num_bytes st =
     (let total_size = sizeof_Header + num_bytes in
      case fl_head st of
        [] \<Rightarrow> Some (allocate_new alloc total_size st)
      | taken # rest \<Rightarrow>
          do { sz \<leftarrow> fl_header st taken;
               let st' = st\<lparr>fl_head := rest\<rparr>;
               if sz < total_size
               then Some (allocate_new alloc total_size
                      (st'\<lparr>fl_resource := dealloc taken sz (fl_resource st),
                           fl_header := (fl_header st)(taken := None)\<rparr>))
               else Some (Some (taken + sizeof_Header), st') })"

definition deallocate :: "ptr \<Rightarrow> u64 \<Rightarrow> 'r free_list_resource \<Rightarrow> 'r free_list_resource option" where
  "deallocate p num_bytes st =
     (let chunk = p - sizeof_Header in
      do { sz \<leftarrow> fl_header st chunk;
           assert_that (sizeof_Header + num_bytes \<le> sz);
           Some (st\<lparr>fl_head := chunk # fl_head st\<rparr>) })"

text \<open>The destructor.\<close>

fun release_all ::
  "'r res_dealloc \<Rightarrow> ptr list \<Rightarrow> 'r free_list_resource \<Rightarrow> 'r free_list_resource option" where
  "release_all dealloc [] st = Some st"
| "release_all dealloc (to_delete # rest) st =
     do { sz \<leftarrow> fl_header st to_delete;
          release_all dealloc rest
            (st\<lparr>fl_head := rest,
                fl_resource := dealloc to_delete sz (fl_resource st),
                fl_header := (fl_header st)(to_delete := None)\<rparr>) }"

definition DestroyResource ::
  "'r res_dealloc \<Rightarrow> 'r free_list_resource \<Rightarrow> 'r free_list_resource option" where
  "DestroyResource dealloc st = release_all dealloc (fl_head st) st"

text \<open>The move constructor takes over the list and leaves the source an empty one.\<close>

definition MoveResource ::
  "'r free_list_resource \<Rightarrow> 'r free_list_resource \<times> 'r free_list_resource" where
  "MoveResource from = (from, from\<lparr>fl_head := []\<rparr>)"

text \<open>\<open>FreeListAllocator<T>\<close> multiplies by the size of its items.\<close>

definition typed_allocate ::
  "'r res_alloc \<Rightarrow> 'r res_dealloc \<Rightarrow> u64 \<Rightarrow> u64 \<Rightarrow> 'r free_list_resource \<Rightarrow>
     (ptr option \<times> 'r free_list_resource) option"
where
  "typed_allocate alloc dealloc sizeof_T num st = allocate alloc dealloc (num * sizeof_T) st"

definition typed_deallocate ::
  "u64 \<Rightarrow> ptr \<Rightarrow> u64 \<Rightarrow> 'r free_list_resource \<Rightarrow> 'r free_list_resource option" where
  "typed_deallocate sizeof_T p num st = deallocate p (num * sizeof_T) st"

subsection \<open>The pool of values\<close>

text \<open>The items of the empty list carry no value, those of the full list carry one.\<close>

record ('r, 'v) free_list =
  m_resource :: 'r
  empty_head :: "ptr list"
  full_head :: "(ptr \<times> 'v) list"

definition TakeOrMake :: "'v \<Rightarrow> ('r, 'v) free_list \<Rightarrow> 'v \<times> ('r, 'v) free_list" where
  "TakeOrMake made fl =
     (case full_head fl of
        [] \<Rightarrow> (made, fl)
      | (taken, v) # rest \<Rightarrow> (v, fl\<lparr>full_head := rest, empty_head := taken # empty_head fl\<rparr>))"

definition FreeValue ::
  "'r res_alloc \<Rightarrow> u64 \<Rightarrow> 'v \<Rightarrow> ('r, 'v) free_list \<Rightarrow> ('r, 'v) free_list" where
  "FreeValue alloc sizeof_Item v fl =
     (case empty_head fl of
        item # rest \<Rightarrow> fl\<lparr>empty_head := rest, full_head := (item, v) # full_head fl\<rparr>
      | [] \<Rightarrow>
          (case alloc sizeof_Item (m_resource fl) of
             (None, r) \<Rightarrow> fl\<lparr>m_resource := r\<rparr>
           | (Some p, r) \<Rightarrow> fl\<lparr>m_resource := r, full_head := (p, v) # full_head fl\<rparr>))"

definition DestroyFreeList :: "'r res_dealloc \<Rightarrow> u64 \<Rightarrow> ('r, 'v) free_list \<Rightarrow> ('r, 'v) free_list" where
  "DestroyFreeList dealloc sizeof_Item fl =
     fl\<lparr>m_resource := fold (\<lambda>p r. dealloc p sizeof_Item r)
          (empty_head fl @ map fst (full_head fl)) (m_resource fl),
        empty_head := [], full_head := []\<rparr>"

subsection \<open>Invariant of the allocator\<close>

text \<open>Every chunk the allocator knows is in use in the resource, with the size of its header; the
  list of free chunks has no chunk twice and only chunks.\<close>

definition fl_inv :: "('r \<Rightarrow> ptr \<Rightarrow> u64 option) \<Rightarrow> 'r free_list_resource \<Rightarrow> bool" where
  "fl_inv live st \<longleftrightarrow>
     distinct (fl_head st) \<and> set (fl_head st) \<subseteq> dom (fl_header st) \<and>
     fl_header st \<subseteq>\<^sub>m live (fl_resource st)"

text \<open>The sizes of the blocks that are handed out, by chunk address.\<close>

definition handed :: "'r free_list_resource \<Rightarrow> ptr \<Rightarrow> u64 option" where
  "handed st = fl_header st |` (- set (fl_head st))"

lemma allocate_new_spec:
  assumes "resource_ok alloc dealloc live" "fl_inv live st" "allocate_new alloc sz st = (q, st')"
  shows "fl_inv live st' \<and> fl_head st' = fl_head st \<and>
    (case q of None \<Rightarrow> handed st' = handed st
     | Some p \<Rightarrow> handed st (p - sizeof_Header) = None \<and>
         handed st' = (handed st)(p - sizeof_Header \<mapsto> sz))"
proof -
  obtain r p where a: "alloc sz (fl_resource st) = (p, r)" by force
  show ?thesis
  proof (cases p)
    case None
    then show ?thesis
      using assms(2,3) a resource_okD(2) [OF assms(1), of sz "fl_resource st" r]
      by (auto simp: allocate_new_def fl_inv_def handed_def)
  next
    case (Some c)
    then have l: "live (fl_resource st) c = None" "live r = (live (fl_resource st))(c \<mapsto> sz)"
      using a resource_okD(1) [OF assms(1), of sz "fl_resource st" c r] by auto
    have h: "fl_header st c = None"
      using assms(2) l(1) by (cases "fl_header st c") (auto simp: fl_inv_def map_le_Some_iff dom_def)
    then have "c \<notin> set (fl_head st)" using assms(2) by (auto simp: fl_inv_def)
    then show ?thesis
      using assms(2,3) a Some l h
      by (auto simp: allocate_new_def fl_inv_def handed_def map_le_Some_iff restrict_map_def fun_eq_iff)
  qed
qed

lemma handed_pop:
  assumes "fl_inv live st" "fl_head st = c # rest" "fl_header st c = Some sz"
  shows "fl_inv live (st\<lparr>fl_head := rest\<rparr>)"
    "handed (st\<lparr>fl_head := rest\<rparr>) = (handed st)(c \<mapsto> sz)" "handed st c = None"
  using assms by (auto simp: fl_inv_def handed_def restrict_map_def fun_eq_iff)

lemma handed_drop:
  assumes "resource_ok alloc dealloc live" "fl_inv live st" "fl_head st = c # rest"
    "fl_header st c = Some sz"
  shows "fl_inv live (st\<lparr>fl_head := rest, fl_resource := dealloc c sz (fl_resource st),
      fl_header := (fl_header st)(c := None)\<rparr>)"
    "handed (st\<lparr>fl_head := rest, fl_resource := dealloc c sz (fl_resource st),
      fl_header := (fl_header st)(c := None)\<rparr>) = handed st"
proof -
  have "live (fl_resource st) c = Some sz"
    using assms(2,4) by (auto simp: fl_inv_def map_le_Some_iff dest: bspec [where x = c])
  then have l: "live (dealloc c sz (fl_resource st)) = (live (fl_resource st))(c := None)"
    using assms(1) by (rule resource_okD(3) [rotated])
  show "fl_inv live (st\<lparr>fl_head := rest, fl_resource := dealloc c sz (fl_resource st),
      fl_header := (fl_header st)(c := None)\<rparr>)"
    using assms(2,3) l by (auto simp: fl_inv_def map_le_Some_iff)
  show "handed (st\<lparr>fl_head := rest, fl_resource := dealloc c sz (fl_resource st),
      fl_header := (fl_header st)(c := None)\<rparr>) = handed st"
    using assms(2,3) by (auto simp: handed_def restrict_map_def fun_eq_iff)
qed

lemma total_size_unat: "unat n + 16 < 2 ^ 64 \<Longrightarrow> unat (sizeof_Header + n) = 16 + unat n"
  by (simp add: sizeof_Header_def unat_word_ariths)

lemma allocate_new_room:
  assumes "resource_ok alloc dealloc live" "fl_inv live st" "unat n + 16 < 2 ^ 64"
    "allocate_new alloc (sizeof_Header + n) st = (q, st')"
  shows "fl_inv live st' \<and>
    (case q of None \<Rightarrow> handed st' = handed st
     | Some p \<Rightarrow> handed st (p - sizeof_Header) = None \<and>
         (\<exists>sz. 16 + unat n \<le> unat sz \<and> handed st' = (handed st)(p - sizeof_Header \<mapsto> sz)))"
proof (cases q)
  case None
  then show ?thesis using allocate_new_spec [OF assms(1,2,4)] by simp
next
  case (Some p)
  then show ?thesis
    using allocate_new_spec [OF assms(1,2,4)] total_size_unat [OF assms(3)]
    by (auto intro!: exI [of _ "sizeof_Header + n"])
qed

text \<open>Property C32: over any resource that honours its contract, \<open>allocate\<close> returns either nothing
  or a block that nobody holds and whose chunk has room for the header and the requested bytes;
  the blocks already handed out keep their sizes, and the free list stays a list of distinct
  chunks the resource considers allocated.\<close>

theorem allocate_correct:
  assumes "resource_ok alloc dealloc live" "fl_inv live st" "unat n + 16 < 2 ^ 64"
  shows "\<exists>q st'. allocate alloc dealloc n st = Some (q, st') \<and> fl_inv live st' \<and>
    (case q of None \<Rightarrow> handed st' = handed st
     | Some p \<Rightarrow> handed st (p - sizeof_Header) = None \<and>
         (\<exists>sz. 16 + unat n \<le> unat sz \<and> handed st' = (handed st)(p - sizeof_Header \<mapsto> sz)))"
proof (cases "fl_head st")
  case Nil
  obtain q st' where a: "allocate_new alloc (sizeof_Header + n) st = (q, st')" by force
  from allocate_new_room [OF assms a] Nil a show ?thesis
    by (simp add: allocate_def)
next
  case (Cons c rest)
  then obtain sz where sz: "fl_header st c = Some sz"
    using assms(2) by (auto simp: fl_inv_def dom_def)
  show ?thesis
  proof (cases "sz < sizeof_Header + n")
    case True
    let ?st = "st\<lparr>fl_head := rest, fl_resource := dealloc c sz (fl_resource st),
      fl_header := (fl_header st)(c := None)\<rparr>"
    obtain q st' where a: "allocate_new alloc (sizeof_Header + n) ?st = (q, st')" by force
    note d = handed_drop [OF assms(1,2) Cons sz]
    have "allocate alloc dealloc n st = Some (q, st')"
      using Cons sz True a by (simp add: allocate_def Let_def)
    with allocate_new_room [OF assms(1) d(1) assms(3) a, unfolded d(2)] show ?thesis by blast
  next
    case False
    then have "allocate alloc dealloc n st =
        Some (Some (c + sizeof_Header), st\<lparr>fl_head := rest\<rparr>)"
      using Cons sz by (simp add: allocate_def Let_def)
    with handed_pop [OF assms(2) Cons sz] False total_size_unat [OF assms(3)] show ?thesis
      by (auto simp: not_less word_le_nat_alt)
  qed
qed

lemma release_all_correct:
  assumes "resource_ok alloc dealloc live" "fl_inv live st"
  shows "\<exists>st'. release_all dealloc (fl_head st) st = Some st' \<and> fl_inv live st' \<and>
    fl_head st' = [] \<and> handed st' = handed st \<and>
    live (fl_resource st') = (live (fl_resource st)) |` (- set (fl_head st))"
  using assms(2)
proof (induction "fl_head st" arbitrary: st)
  case Nil
  then show ?case by (auto simp: restrict_map_def)
next
  case (Cons c rest)
  then obtain sz where sz: "fl_header st c = Some sz"
    by (cases "fl_header st c") (auto simp: fl_inv_def dom_def simp flip: Cons.hyps(2))
  let ?st = "st\<lparr>fl_head := rest, fl_resource := dealloc c sz (fl_resource st),
    fl_header := (fl_header st)(c := None)\<rparr>"
  note hd = Cons.hyps(2) [symmetric]
  note d = handed_drop [OF assms(1) Cons.prems hd sz]
  have "live (fl_resource st) c = Some sz"
    using Cons.prems sz by (auto simp: fl_inv_def map_le_Some_iff dest: bspec [where x = c])
  then have l: "live (dealloc c sz (fl_resource st)) = (live (fl_resource st))(c := None)"
    using assms(1) by (rule resource_okD(3) [rotated])
  show ?case
    using Cons.hyps(1) [of ?st] d l sz hd
    by (auto simp: restrict_map_def fun_eq_iff)
qed

text \<open>Giving back a block that is held, with the byte count it was requested with (or
  less), never trips the assertion, takes exactly that block out of circulation and keeps the
  invariant; the destructor returns exactly the chunks of the free list to the resource.\<close>

theorem deallocate_correct:
  assumes "resource_ok alloc dealloc live" "fl_inv live st"
    and "handed st (p - sizeof_Header) = Some sz" "sizeof_Header + n \<le> sz"
  shows "(\<exists>st'. deallocate p n st = Some st' \<and> fl_inv live st' \<and>
      handed st' = (handed st)(p - sizeof_Header := None) \<and> fl_resource st' = fl_resource st)
    \<and> (\<exists>st'. DestroyResource dealloc st = Some st' \<and> fl_head st' = [] \<and>
      live (fl_resource st') = (live (fl_resource st)) |` (- set (fl_head st)))"
proof
  show "\<exists>st'. deallocate p n st = Some st' \<and> fl_inv live st' \<and>
      handed st' = (handed st)(p - sizeof_Header := None) \<and> fl_resource st' = fl_resource st"
    using assms
    by (auto simp: deallocate_def handed_def restrict_map_def fl_inv_def fun_eq_iff split: if_splits)
  show "\<exists>st'. DestroyResource dealloc st = Some st' \<and> fl_head st' = [] \<and>
      live (fl_resource st') = (live (fl_resource st)) |` (- set (fl_head st))"
    using release_all_correct [OF assms(1,2)] by (auto simp: DestroyResource_def)
qed

text \<open>A resource that hands out consecutive blocks, for the evaluations below.\<close>

definition bump_alloc :: "(ptr \<times> (ptr \<Rightarrow> u64 option)) res_alloc" where
  "bump_alloc n r =
     (if snd r (fst r) = None then (Some (fst r), (fst r + n, (snd r)(fst r \<mapsto> n))) else (None, r))"

definition bump_dealloc :: "(ptr \<times> (ptr \<Rightarrow> u64 option)) res_dealloc" where
  "bump_dealloc p n r = (fst r, (snd r)(p := None))"

lemma bump_ok: "resource_ok bump_alloc bump_dealloc snd"
  by (auto simp: resource_ok_def bump_alloc_def bump_dealloc_def split: if_splits)

definition bump_start :: "(ptr \<times> (ptr \<Rightarrow> u64 option)) free_list_resource" where
  "bump_start = \<lparr>fl_resource = (4096, Map.empty(4096 \<mapsto> 80)), fl_header = Map.empty(4096 \<mapsto> 80),
     fl_head = []\<rparr>"

lemma bump_start_inv: "fl_inv snd bump_start"
  by (simp add: fl_inv_def bump_start_def)

theorem allocate_correct_witness:
  "resource_ok bump_alloc bump_dealloc snd \<and> fl_inv snd bump_start \<and>
   (\<exists>q st'. allocate bump_alloc bump_dealloc 64 bump_start = Some (q, st') \<and> fl_inv snd st')"
  using allocate_correct [OF bump_ok bump_start_inv, of 64] bump_ok bump_start_inv by auto

theorem deallocate_correct_witness:
  "resource_ok bump_alloc bump_dealloc snd \<and> fl_inv snd bump_start \<and>
   (\<exists>st'. deallocate (4096 + 16) 64 bump_start = Some st' \<and> fl_inv snd st' \<and>
      handed st' = (handed bump_start)(4096 := None))"
proof -
  have "handed bump_start (4096 + 16 - sizeof_Header) = Some 80"
    by (simp add: handed_def bump_start_def sizeof_Header_def)
  moreover have "sizeof_Header + 64 \<le> 80" by (simp add: sizeof_Header_def)
  ultimately show ?thesis
    using deallocate_correct [OF bump_ok bump_start_inv, of "4096 + 16" 80 64] bump_ok bump_start_inv
    by (auto simp: sizeof_Header_def)
qed

subsection \<open>The pool keeps its values\<close>

definition pool_items :: "('r, 'v) free_list \<Rightarrow> ptr list" where
  "pool_items fl = empty_head fl @ map fst (full_head fl)"

definition pool_inv :: "u64 \<Rightarrow> ('r \<Rightarrow> ptr \<Rightarrow> u64 option) \<Rightarrow> ('r, 'v) free_list \<Rightarrow> bool" where
  "pool_inv sizeof_Item live fl \<longleftrightarrow>
     distinct (pool_items fl) \<and> (\<forall>p \<in> set (pool_items fl). live (m_resource fl) p = Some sizeof_Item)"

definition pool_values :: "('r, 'v) free_list \<Rightarrow> 'v list" where
  "pool_values fl = map snd (full_head fl)"

lemma TakeOrMake_inv [edr_inv]: "pool_inv n live fl \<Longrightarrow> pool_inv n live (snd (TakeOrMake v fl))"
  by (cases "full_head fl") (auto simp: TakeOrMake_def pool_inv_def pool_items_def simp del: set_map)

lemma FreeValue_inv [edr_inv]:
  assumes "resource_ok alloc dealloc live" "pool_inv n live fl"
  shows "pool_inv n live (FreeValue alloc n v fl)"
proof (cases "empty_head fl")
  case Nil
  obtain q r where a: "alloc n (m_resource fl) = (q, r)" by force
  show ?thesis
  proof (cases q)
    case None
    then show ?thesis
      using Nil a assms(2) resource_okD(2) [OF assms(1), of n "m_resource fl" r]
      by (simp add: FreeValue_def pool_inv_def pool_items_def)
  next
    case (Some p)
    then have "live (m_resource fl) p = None" "live r = (live (m_resource fl))(p \<mapsto> n)"
      using a resource_okD(1) [OF assms(1), of n "m_resource fl" p r] by auto
    then show ?thesis
      using Nil a Some assms(2) by (auto simp: FreeValue_def pool_inv_def pool_items_def simp del: set_map)
  qed
next
  case (Cons p rest)
  then show ?thesis
    using assms(2) by (auto simp: FreeValue_def pool_inv_def pool_items_def simp del: set_map)
qed

lemma fold_dealloc:
  assumes "resource_ok alloc dealloc live" "distinct ps" "\<forall>p \<in> set ps. live r p = Some n"
  shows "live (fold (\<lambda>p r. dealloc p n r) ps r) = live r |` (- set ps)"
  using assms(2,3)
proof (induction ps arbitrary: r)
  case Nil
  show ?case by (simp add: restrict_map_def)
next
  case (Cons p ps)
  then have "live (dealloc p n r) = (live r)(p := None)" by (simp add: resource_okD(3) [OF assms(1)])
  moreover from this Cons.prems have "\<forall>q \<in> set ps. live (dealloc p n r) q = Some n" by auto
  ultimately show ?case
    using Cons.IH [of "dealloc p n r"] Cons.prems by (auto simp: restrict_map_def fun_eq_iff)
qed

text \<open>The pool neither loses nor invents values: \<open>TakeOrMake\<close> returns the value most
  recently freed, or the made one when there is none; \<open>Free\<close> adds its value unless a new item was
  needed and the resource had no memory; no item is in the pool twice, and the destructor gives
  exactly the pool's items back.\<close>

theorem free_list_correct:
  assumes "resource_ok alloc dealloc live" "pool_inv n live fl"
  shows "(case pool_values fl of
       [] \<Rightarrow> TakeOrMake v fl = (v, fl)
     | w # ws \<Rightarrow> fst (TakeOrMake v fl) = w \<and> pool_values (snd (TakeOrMake v fl)) = ws)
    \<and> pool_inv n live (snd (TakeOrMake v fl))
    \<and> pool_values (FreeValue alloc n v fl) =
        (if empty_head fl = [] \<and> fst (alloc n (m_resource fl)) = None then pool_values fl
         else v # pool_values fl)
    \<and> pool_inv n live (FreeValue alloc n v fl)
    \<and> live (m_resource (DestroyFreeList dealloc n fl)) =
        live (m_resource fl) |` (- set (pool_items fl))"
proof (intro conjI)
  show "case pool_values fl of
       [] \<Rightarrow> TakeOrMake v fl = (v, fl)
     | w # ws \<Rightarrow> fst (TakeOrMake v fl) = w \<and> pool_values (snd (TakeOrMake v fl)) = ws"
    by (auto simp: TakeOrMake_def pool_values_def split: list.splits)
  show "pool_values (FreeValue alloc n v fl) =
        (if empty_head fl = [] \<and> fst (alloc n (m_resource fl)) = None then pool_values fl
         else v # pool_values fl)"
    by (auto simp: FreeValue_def pool_values_def split: list.splits prod.splits option.splits)
  show "live (m_resource (DestroyFreeList dealloc n fl)) =
        live (m_resource fl) |` (- set (pool_items fl))"
    using fold_dealloc [OF assms(1), of "pool_items fl" "m_resource fl" n] assms(2)
    by (simp add: DestroyFreeList_def pool_inv_def pool_items_def)
qed (use assms in \<open>simp_all add: edr_inv\<close>)

theorem free_list_correct_witness:
  "let fl = \<lparr>m_resource = (64, Map.empty(0 \<mapsto> 32)), empty_head = [0], full_head = []\<rparr>
   in pool_inv 32 snd fl \<and> pool_values (FreeValue bump_alloc 32 (7::nat) fl) = [7]"
proof -
  let ?fl = "\<lparr>m_resource = (64, Map.empty(0 \<mapsto> 32)), empty_head = [0], full_head = []\<rparr>
    :: (ptr \<times> (ptr \<Rightarrow> u64 option), nat) free_list"
  have "pool_inv 32 snd ?fl" by (simp add: pool_inv_def pool_items_def)
  with free_list_correct [OF bump_ok this, of 7] show ?thesis
    by (simp add: Let_def pool_values_def)
qed

end
