(* ===== verification/Async_Task.thy ===== *)
theory Async_Task
  imports Edr_Prelude
begin

text \<open>
  The hand-over of a coroutine's result (\<open>util/asynchronicity/Asynchronicity.hpp\<close>): a promise and
  the task that owns it share one atomic word, \<open>m_continuation\<close>, on which the coroutine that
  finishes and the coroutine that awaits race. Each atomic access is one step; the steps of the
  two sides interleave freely.

  The word is a \<open>task_state\<close>: the three constants of the code, the handle of the awaiting
  coroutine, or the handle of the finished coroutine itself. A promise lives in the coroutine's
  frame, so every access to it is guarded by \<open>frame_alive\<close>: an access after the frame is gone, a
  second release of the frame, a failed assertion and the resumption of something that is not a
  suspended coroutine are \<open>Fault\<close>.
\<close>

datatype task_state = TaskInitial | TaskResultReady | TaskAwaitableDestroyed | Awaiter | Self

text \<open>Where the producing coroutine is: in its body, at the three points of the final suspension,
  inside the call that resumed the awaiter, leaving (the frame is released when control runs off
  the end), suspended for good, gone.\<close>

datatype producer_pc = Body | FinalReady | Resuming | FinalSuspend | Leaving | FinalSuspended | Finished

text \<open>Where the holder of the \<open>OwnedTask\<close> is.\<close>

datatype consumer_pc = Holding | Suspending | Suspended | Taking | Dropping | Gone

record 'v task =
  m_continuation :: task_state
  m_result :: "'v option"
  frame_alive :: bool
  releases :: nat
  producer :: producer_pc
  consumer :: consumer_pc
  taken :: "'v option"

datatype 's outcome = Blocked | Fault | Next 's

subsection \<open>The atomic operations\<close>

definition load :: "'v task \<Rightarrow> task_state" where
  "load t = m_continuation t"

definition exchange :: "task_state \<Rightarrow> 'v task \<Rightarrow> task_state \<times> 'v task" where
  "exchange new t = (m_continuation t, t\<lparr>m_continuation := new\<rparr>)"

definition compare_exchange_strong :: "task_state \<Rightarrow> task_state \<Rightarrow> 'v task \<Rightarrow> bool \<times> 'v task" where
  "compare_exchange_strong expected new t =
     (if m_continuation t = expected then (True, t\<lparr>m_continuation := new\<rparr>) else (False, t))"

definition release_frame :: "'v task \<Rightarrow> 'v task" where
  "release_frame t = t\<lparr>frame_alive := False, releases := releases t + 1\<rparr>"

definition on_frame :: "'v task \<Rightarrow> 'v task outcome \<Rightarrow> 'v task outcome" where
  "on_frame t r = (if frame_alive t then r else Fault)"

subsection \<open>The promise\<close>

text \<open>\<open>return_value\<close> of a \<open>DelayedResolver\<close> stores the result; the continuation waits for the final
  suspension point.\<close>

definition return_value :: "'v \<Rightarrow> 'v task \<Rightarrow> 'v task outcome" where
  "return_value v t = on_frame t (Next (t\<lparr>m_result := Some v, producer := FinalReady\<rparr>))"

definition final_await_ready :: "'v task \<Rightarrow> 'v task outcome" where
  "final_await_ready t = on_frame t
     (case exchange TaskResultReady t of (previous_state, t') \<Rightarrow>
        (case previous_state of
           TaskInitial \<Rightarrow> Next (t'\<lparr>producer := FinalSuspend\<rparr>)
         | TaskAwaitableDestroyed \<Rightarrow> Next (t'\<lparr>producer := Leaving\<rparr>)
         | Awaiter \<Rightarrow>
             if consumer t = Suspended then Next (t'\<lparr>producer := Resuming, consumer := Taking\<rparr>)
             else Fault
         | _ \<Rightarrow> Fault))"

definition final_await_suspend :: "'v task \<Rightarrow> 'v task outcome" where
  "final_await_suspend t = on_frame t
     (case compare_exchange_strong TaskResultReady Self t of (awaited, t') \<Rightarrow>
        Next (t'\<lparr>producer := (if awaited then FinalSuspended else Leaving)\<rparr>))"

definition leave :: "'v task \<Rightarrow> 'v task outcome" where
  "leave t = on_frame t (Next ((release_frame t)\<lparr>producer := Finished\<rparr>))"

text \<open>\<open>resume\<close> returns to \<open>await_ready\<close> when the resumed coroutine suspends again or ends. With
  \<open>prompt\<close> the awaiting coroutine has destroyed the task by then, as it does when the task is a
  temporary of the awaiting expression or a local of a coroutine that awaits nothing afterwards.\<close>

definition resume_returns :: "bool \<Rightarrow> 'v task \<Rightarrow> 'v task outcome" where
  "resume_returns prompt t =
     (if prompt \<and> consumer t \<noteq> Gone then Blocked else Next (t\<lparr>producer := Leaving\<rparr>))"

definition producer_step :: "bool \<Rightarrow> 'v \<Rightarrow> 'v task \<Rightarrow> 'v task outcome" where
  "producer_step prompt v t =
     (case producer t of
        Body \<Rightarrow> return_value v t
      | FinalReady \<Rightarrow> final_await_ready t
      | Resuming \<Rightarrow> resume_returns prompt t
      | FinalSuspend \<Rightarrow> final_await_suspend t
      | Leaving \<Rightarrow> leave t
      | FinalSuspended \<Rightarrow> Blocked
      | Finished \<Rightarrow> Blocked)"

subsection \<open>The task\<close>

definition await_ready :: "'v task \<Rightarrow> 'v task outcome" where
  "await_ready t = on_frame t
     (Next (t\<lparr>consumer := (if load t \<noteq> TaskInitial then Taking else Suspending)\<rparr>))"

definition await_suspend :: "'v task \<Rightarrow> 'v task outcome" where
  "await_suspend t = on_frame t
     (case compare_exchange_strong TaskInitial Awaiter t of (awaited, t') \<Rightarrow>
        Next (t'\<lparr>consumer := (if awaited then Suspended else Taking)\<rparr>))"

definition TakeResult :: "'v task \<Rightarrow> 'v task outcome" where
  "TakeResult t = on_frame t
     (case m_result t of
        None \<Rightarrow> Fault
      | Some v \<Rightarrow> Next (t\<lparr>taken := Some v, consumer := Dropping\<rparr>))"

text \<open>The destructor; \<open>destroy\<close> is allowed on a coroutine that is suspended.\<close>

definition destroy_task :: "'v task \<Rightarrow> 'v task outcome" where
  "destroy_task t = on_frame t
     (case exchange TaskAwaitableDestroyed t of (previous_state, t') \<Rightarrow>
        (case previous_state of
           TaskInitial \<Rightarrow> Next (t'\<lparr>consumer := Gone\<rparr>)
         | TaskResultReady \<Rightarrow> Next (t'\<lparr>consumer := Gone\<rparr>)
         | TaskAwaitableDestroyed \<Rightarrow> Fault
         | Awaiter \<Rightarrow> Fault
         | Self \<Rightarrow>
             if producer t = FinalSuspended
             then Next ((release_frame t')\<lparr>consumer := Gone, producer := Finished\<rparr>)
             else Fault))"

text \<open>The holder may await the task or drop it.\<close>

definition consumer_step :: "bool \<Rightarrow> 'v task \<Rightarrow> 'v task outcome" where
  "consumer_step awaits t =
     (case consumer t of
        Holding \<Rightarrow> if awaits then await_ready t else destroy_task t
      | Suspending \<Rightarrow> await_suspend t
      | Suspended \<Rightarrow> Blocked
      | Taking \<Rightarrow> TakeResult t
      | Dropping \<Rightarrow> destroy_task t
      | Gone \<Rightarrow> Blocked)"

definition initial_task :: "'v task" where
  "initial_task = \<lparr>m_continuation = TaskInitial, m_result = None, frame_alive = True, releases = 0,
     producer = Body, consumer = Holding, taken = None\<rparr>"

subsection \<open>Interleavings\<close>

inductive task_step :: "bool \<Rightarrow> bool \<Rightarrow> 'v \<Rightarrow> 'v task \<Rightarrow> 'v task outcome \<Rightarrow> bool"
  for prompt awaits v where
  producer: "producer_step prompt v t = r \<Longrightarrow> r \<noteq> Blocked \<Longrightarrow> task_step prompt awaits v t r"
| consumer: "consumer_step awaits t = r \<Longrightarrow> r \<noteq> Blocked \<Longrightarrow> task_step prompt awaits v t r"

inductive_cases task_stepE: "task_step prompt awaits v t r"

inductive task_run :: "bool \<Rightarrow> bool \<Rightarrow> 'v \<Rightarrow> 'v task outcome \<Rightarrow> bool" for prompt awaits v where
  start: "task_run prompt awaits v (Next initial_task)"
| step: "task_run prompt awaits v (Next t) \<Longrightarrow> task_step prompt awaits v t r \<Longrightarrow>
    task_run prompt awaits v r"

text \<open>A schedule: the side that takes each turn, \<open>True\<close> for the finishing coroutine.\<close>

fun schedule :: "bool \<Rightarrow> bool \<Rightarrow> 'v \<Rightarrow> bool list \<Rightarrow> 'v task outcome \<Rightarrow> 'v task outcome" where
  "schedule prompt awaits v [] r = r"
| "schedule prompt awaits v (turn # turns) (Next t) =
     schedule prompt awaits v turns
       (if turn then producer_step prompt v t else consumer_step awaits t)"
| "schedule prompt awaits v turns r = r"

lemma handover_run:
  "task_run prompt awaits v r \<Longrightarrow> schedule prompt awaits v turns r \<noteq> Blocked \<Longrightarrow>
   task_run prompt awaits v (schedule prompt awaits v turns r)"
proof (induction prompt awaits v turns r rule: schedule.induct)
  case (2 prompt awaits v turn turns t)
  let ?r = "if turn then producer_step prompt v t else consumer_step awaits t"
  have "?r \<noteq> Blocked" using "2.prems"(2) by (cases turns; cases ?r) auto
  then have "task_step prompt awaits v t ?r" by (auto intro: task_step.intros)
  then have "task_run prompt awaits v ?r" by (rule task_run.step [OF "2.prems"(1)])
  then show ?case using "2.IH" "2.prems"(2) by simp
qed simp_all

subsection \<open>The invariant of the race\<close>

definition waiting :: "bool \<Rightarrow> 'v task \<Rightarrow> bool" where
  "waiting awaits t \<longleftrightarrow>
     (case consumer t of
        Holding \<Rightarrow> m_continuation t = TaskInitial
      | Suspending \<Rightarrow> awaits \<and> m_continuation t = TaskInitial
      | Suspended \<Rightarrow> awaits \<and> m_continuation t = Awaiter
      | Gone \<Rightarrow> \<not> awaits \<and> m_continuation t = TaskAwaitableDestroyed
      | _ \<Rightarrow> False)"

definition phase_ok :: "bool \<Rightarrow> 'v task \<Rightarrow> bool" where
  "phase_ok awaits t \<longleftrightarrow>
     (case producer t of
        Body \<Rightarrow> waiting awaits t
      | FinalReady \<Rightarrow> waiting awaits t
      | Resuming \<Rightarrow> awaits \<and>
          (consumer t \<in> {Taking, Dropping} \<and> m_continuation t = TaskResultReady \<or>
           consumer t = Gone \<and> m_continuation t = TaskAwaitableDestroyed)
      | FinalSuspend \<Rightarrow>
          consumer t \<notin> {Suspended, Gone} \<and> m_continuation t = TaskResultReady \<or>
          consumer t = Gone \<and> m_continuation t = TaskAwaitableDestroyed
      | FinalSuspended \<Rightarrow> consumer t \<notin> {Suspended, Gone} \<and> m_continuation t = Self
      | Leaving \<Rightarrow> consumer t = Gone
      | Finished \<Rightarrow> consumer t = Gone)"

definition task_inv :: "bool \<Rightarrow> 'v \<Rightarrow> 'v task \<Rightarrow> bool" where
  "task_inv awaits v t \<longleftrightarrow>
     phase_ok awaits t \<and>
     frame_alive t = (producer t \<noteq> Finished) \<and>
     releases t = (if producer t = Finished then 1 else 0) \<and>
     (producer t \<noteq> Body \<longrightarrow> m_result t = Some v) \<and>
     (consumer t \<in> {Suspending, Suspended, Taking, Dropping} \<longrightarrow> awaits) \<and>
     taken t = (if awaits \<and> consumer t \<in> {Dropping, Gone} then Some v else None)"

lemmas task_ops =
  return_value_def final_await_ready_def resume_returns_def final_await_suspend_def leave_def
  await_ready_def await_suspend_def TakeResult_def destroy_task_def on_frame_def load_def
  exchange_def compare_exchange_strong_def release_frame_def

definition outcome_ok :: "('s \<Rightarrow> bool) \<Rightarrow> 's outcome \<Rightarrow> bool" where
  "outcome_ok P r = (case r of Blocked \<Rightarrow> True | Fault \<Rightarrow> False | Next s \<Rightarrow> P s)"

lemma outcome_ok_simps [simp]:
  "outcome_ok P Blocked" "\<not> outcome_ok P Fault" "outcome_ok P (Next s) = P s"
  by (simp_all add: outcome_ok_def)

lemma outcome_okD: "outcome_ok P r \<Longrightarrow> r \<noteq> Blocked \<Longrightarrow> \<exists>s. r = Next s \<and> P s"
  by (cases r) simp_all

lemma producer_step_inv:
  assumes "task_inv awaits v t" "prompt \<or> \<not> awaits"
  shows "outcome_ok (task_inv awaits v) (producer_step prompt v t)"
  using assms
  by (cases "producer t"; cases "consumer t"; cases "m_continuation t")
     (auto simp: producer_step_def task_ops task_inv_def phase_ok_def waiting_def)

lemma consumer_step_inv:
  assumes "task_inv awaits v t"
  shows "outcome_ok (task_inv awaits v) (consumer_step awaits t)"
  using assms
  by (cases "producer t"; cases "consumer t"; cases "m_continuation t")
     (auto simp: consumer_step_def task_ops task_inv_def phase_ok_def waiting_def)

lemma task_run_inv:
  assumes "task_run prompt awaits v r" "prompt \<or> \<not> awaits"
  shows "\<exists>t. r = Next t \<and> task_inv awaits v t"
  using assms(1)
proof induction
  case start
  show ?case by (simp add: initial_task_def task_inv_def phase_ok_def waiting_def)
next
  case (step t r)
  from step.hyps(2) step.IH show ?case
    by (elim task_stepE) (auto intro: outcome_okD producer_step_inv [OF _ assms(2)] consumer_step_inv)
qed

text \<open>What holds without any condition on the awaiting coroutine.\<close>

definition task_weak :: "'v \<Rightarrow> 'v task \<Rightarrow> bool" where
  "task_weak v t \<longleftrightarrow> releases t = (if frame_alive t then 0 else 1) \<and> m_result t \<in> {None, Some v} \<and>
     taken t \<in> {None, Some v}"

lemma producer_step_weak: "task_weak v t \<Longrightarrow> producer_step prompt v t = Next t' \<Longrightarrow> task_weak v t'"
  by (cases "producer t")
     (auto simp: producer_step_def task_ops task_weak_def split: if_splits task_state.splits)

lemma consumer_step_weak: "task_weak v t \<Longrightarrow> consumer_step awaits t = Next t' \<Longrightarrow> task_weak v t'"
  by (cases "consumer t")
     (auto simp: consumer_step_def task_ops task_weak_def split: if_splits task_state.splits option.splits)

lemma task_step_weak: "task_step prompt awaits v t (Next t') \<Longrightarrow> task_weak v t \<Longrightarrow> task_weak v t'"
  by (elim task_stepE) (auto intro: producer_step_weak consumer_step_weak)

lemma task_step_not_blocked: "\<not> task_step prompt awaits v t Blocked"
  by (auto elim: task_stepE)

lemma task_run_weak:
  "task_run prompt awaits v r \<Longrightarrow> r = Fault \<or> (\<exists>t. r = Next t \<and> task_weak v t)"
proof (induction rule: task_run.induct)
  case start
  show ?case by (simp add: initial_task_def task_weak_def)
next
  case (step t r)
  then have "task_weak v t" by simp
  with step.hyps(2) show ?case
    by (cases r) (auto simp: task_step_not_blocked intro: task_step_weak)
qed

text \<open>Steps that remain, at most, until both sides are at their ends.\<close>

definition work_left :: "'v task \<Rightarrow> nat" where
  "work_left t =
     (case producer t of Body \<Rightarrow> 5 | FinalReady \<Rightarrow> 4 | Resuming \<Rightarrow> 2 | FinalSuspend \<Rightarrow> 2 | Leaving \<Rightarrow> 1
      | _ \<Rightarrow> 0) +
     (case consumer t of Holding \<Rightarrow> 5 | Suspending \<Rightarrow> 4 | Suspended \<Rightarrow> 3 | Taking \<Rightarrow> 2 | Dropping \<Rightarrow> 1
      | Gone \<Rightarrow> 0)"

lemma task_step_progress:
  assumes "task_step prompt awaits v t (Next t')"
  shows "work_left t' < work_left t"
  using assms
  by (elim task_stepE; cases "producer t"; cases "consumer t"; cases "m_continuation t")
     (auto simp: producer_step_def consumer_step_def task_ops work_left_def
       split: if_splits option.splits)

lemma task_not_stuck:
  assumes "task_inv awaits v t" "prompt \<or> \<not> awaits" "\<not> (producer t = Finished \<and> consumer t = Gone)"
  shows "\<exists>r. task_step prompt awaits v t r"
proof -
  have "producer_step prompt v t \<noteq> Blocked \<or> consumer_step awaits t \<noteq> Blocked"
    using assms
    by (cases "producer t"; cases "consumer t"; cases "m_continuation t")
       (auto simp: producer_step_def consumer_step_def task_ops task_inv_def phase_ok_def
         waiting_def)
  then show ?thesis by (auto intro: task_step.intros)
qed

lemma work_left_bound: "work_left t \<le> 10"
  by (cases "producer t"; cases "consumer t") (simp_all add: work_left_def)

text \<open>If the resumed coroutine keeps the \<open>OwnedTask\<close> and suspends, \<open>await_ready\<close> of the
  final suspension point returns and the frame is released; the task's destructor then touches
  the released frame.\<close>

theorem kept_task_faults:
  "schedule False True v [False, False, True, True, True, True, False] (Next initial_task) = Fault"
  by (simp add: initial_task_def producer_step_def consumer_step_def task_ops)

lemma fault_reachable: "task_run prompt awaits v Fault \<longleftrightarrow> awaits \<and> \<not> prompt"
proof
  show "task_run prompt awaits v Fault \<Longrightarrow> awaits \<and> \<not> prompt"
    using task_run_inv [of prompt awaits v Fault] by auto
  have "task_run False True v Fault"
    using handover_run [OF task_run.start, of False True v "[False, False, True, True, True, True, False]"]
    unfolding kept_task_faults by simp
  then show "awaits \<and> \<not> prompt \<Longrightarrow> task_run prompt awaits v Fault" by simp
qed

text \<open>Property C1: the finishing coroutine and the holder of its task, in every interleaving of their
  atomic steps. An access to the released frame, a second release, a failed assertion or a resumption
  of something that is not suspended can happen exactly when the holder awaits the task and keeps it
  across a later suspension (\<open>awaits\<close> and not \<open>prompt\<close>). In every other case each interleaving is free of
  them and can only stop with both sides gone, the frame released once and, if the holder
  awaited, the result received. In all cases the interleaving ends within ten steps, releases the frame at most once and
  hands over no other value than the one returned.\<close>

theorem task_handover_safe:
  assumes "task_run prompt awaits v r"
  shows "(task_run prompt awaits v Fault \<longleftrightarrow> awaits \<and> \<not> prompt)
    \<and> (r = Fault \<or> (\<exists>t. r = Next t \<and> releases t \<le> 1 \<and> taken t \<in> {None, Some v} \<and> work_left t \<le> 10
          \<and> (\<forall>t'. task_step prompt awaits v t (Next t') \<longrightarrow> work_left t' < work_left t)))
    \<and> (prompt \<or> \<not> awaits \<longrightarrow> (\<exists>t. r = Next t
          \<and> ((\<nexists>r'. task_step prompt awaits v t r') \<longrightarrow>
               producer t = Finished \<and> consumer t = Gone \<and> releases t = 1 \<and> \<not> frame_alive t \<and>
               taken t = (if awaits then Some v else None))))"
proof (intro conjI impI)
  show "task_run prompt awaits v Fault \<longleftrightarrow> awaits \<and> \<not> prompt" by (rule fault_reachable)
  show "r = Fault \<or> (\<exists>t. r = Next t \<and> releases t \<le> 1 \<and> taken t \<in> {None, Some v} \<and> work_left t \<le> 10
      \<and> (\<forall>t'. task_step prompt awaits v t (Next t') \<longrightarrow> work_left t' < work_left t))"
    using task_run_weak [OF assms] by (auto simp: task_weak_def work_left_bound intro: task_step_progress)
  assume ok: "prompt \<or> \<not> awaits"
  obtain t where t: "r = Next t" "task_inv awaits v t" using task_run_inv [OF assms ok] by auto
  with task_not_stuck [OF t(2) ok] show "\<exists>t. r = Next t
      \<and> ((\<nexists>r'. task_step prompt awaits v t r') \<longrightarrow>
           producer t = Finished \<and> consumer t = Gone \<and> releases t = 1 \<and> \<not> frame_alive t \<and>
           taken t = (if awaits then Some v else None))"
    by (auto simp: task_inv_def)
qed

text \<open>A complete run: the holder awaits and suspends, the coroutine returns 7 and resumes it, the holder takes
  the result and destroys the task, and the coroutine leaves.\<close>

theorem task_handover_safe_witness:
  "let s = schedule True True (7 :: nat) [False, False, True, True, False, False, True, True] (Next initial_task)
   in task_run True True 7 s \<and> \<not> task_run True True (7 :: nat) Fault \<and>
      (\<exists>t. s = Next t \<and> (\<nexists>r'. task_step True True 7 t r') \<and> producer t = Finished \<and> consumer t = Gone \<and>
        releases t = 1 \<and> taken t = Some 7)"
proof -
  define s where "s = schedule True True (7 :: nat) [False, False, True, True, False, False, True, True] (Next initial_task)"
  have s: "s = Next \<lparr>m_continuation = TaskAwaitableDestroyed, m_result = Some 7, frame_alive = False, releases = 1,
     producer = Finished, consumer = Gone, taken = Some 7\<rparr>" (is "_ = Next ?t")
    by (simp add: s_def initial_task_def producer_step_def consumer_step_def task_ops)
  have run: "task_run True True 7 s"
    using handover_run [OF task_run.start, of True True "7 :: nat" "[False, False, True, True, False, False, True, True]"] s
    unfolding s_def [symmetric] by simp
  have stuck: "\<nexists>r'. task_step True True 7 ?t r'"
    by (auto elim!: task_stepE simp: producer_step_def consumer_step_def)
  show ?thesis using task_handover_safe [OF run] run stuck s unfolding s_def by (auto simp: Let_def)
qed

subsection \<open>Tasks without a coroutine\<close>

text \<open>\<open>FallbackStorage\<close> keeps the result of a task that never had a frame: one made resolved, or
  one whose frame could not be allocated. \<open>def_init\<close> is the template parameter that makes a
  missing result a default value, \<open>dflt\<close>; without it a missing result is dereferenced.\<close>

definition FallbackEmplace :: "'v \<Rightarrow> 'v option \<Rightarrow> 'v option" where
  "FallbackEmplace v st = Some v"

definition FallbackGetResult :: "bool \<Rightarrow> 'v \<Rightarrow> 'v option \<Rightarrow> 'v option" where
  "FallbackGetResult def_init dflt st = (if def_init \<and> st = None then Some dflt else st)"

definition FallbackMove :: "'v option \<Rightarrow> 'v option \<times> 'v option" where
  "FallbackMove from = (from, None)"

text \<open>An \<open>OwnedTask\<close>: the address of its frame, or nothing, and its fallback storage. The frames
  are a store of tasks.\<close>

record 'v owned_task =
  base :: "nat option"
  m_fallback :: "'v option"

definition MakeResolved :: "'v \<Rightarrow> 'v owned_task" where
  "MakeResolved v = \<lparr>base = None, m_fallback = FallbackEmplace v None\<rparr>"

definition MoveTask :: "'v owned_task \<Rightarrow> 'v owned_task \<times> 'v owned_task" where
  "MoveTask from =
     (case FallbackMove (m_fallback from) of (st, st') \<Rightarrow>
        (\<lparr>base = base from, m_fallback = st\<rparr>, from\<lparr>base := None, m_fallback := st'\<rparr>))"

definition AwaitReady :: "(nat \<Rightarrow> 'v task) \<Rightarrow> 'v owned_task \<Rightarrow> bool" where
  "AwaitReady frames ot =
     (case base ot of None \<Rightarrow> True | Some f \<Rightarrow> load (frames f) \<noteq> TaskInitial)"

definition AwaitResume :: "bool \<Rightarrow> 'v \<Rightarrow> (nat \<Rightarrow> 'v task) \<Rightarrow> 'v owned_task \<Rightarrow> 'v option" where
  "AwaitResume def_init dflt frames ot =
     (case base ot of
        None \<Rightarrow> FallbackGetResult def_init dflt (m_fallback ot)
      | Some f \<Rightarrow> m_result (frames f))"

text \<open>\<open>destroy\<close> of a task: the frame that is destroyed, and the task without it.\<close>

definition DestroyTask :: "'v owned_task \<Rightarrow> nat option \<times> 'v owned_task" where
  "DestroyTask ot = (base ot, ot\<lparr>base := None\<rparr>)"

lemma MakeResolved_result:
  "AwaitReady frames (MakeResolved v) \<and> AwaitResume def_init dflt frames (MakeResolved v) = Some v"
  by (simp add: AwaitReady_def AwaitResume_def MakeResolved_def FallbackEmplace_def
      FallbackGetResult_def)

lemma MoveTask_result:
  "MoveTask ot = (ot', from') \<Longrightarrow>
   AwaitResume d dflt frames ot' = AwaitResume d dflt frames ot \<and> base from' = None \<and>
   m_fallback from' = None"
  by (auto simp: MoveTask_def AwaitResume_def FallbackMove_def split: option.splits)

subsection \<open>Results that are resolved by hand\<close>

text \<open>An \<open>EagerResolver\<close> inside an item of a \<open>ResolutionQueue\<close>: the item is a local of the awaiting
  coroutine, so it is gone once the awaitable is destroyed and the coroutine leaves its scope.
  \<open>HandleResultReady\<close> exchanges the word and, for a destroyed awaitable, stores it back in a second
  step.\<close>

datatype resolver_pc = Unresolved | HandleReady | StoreBack | Resolved

record 'v item =
  i_continuation :: task_state
  i_result :: "'v option"
  i_alive :: bool
  i_resolver :: resolver_pc
  i_consumer :: consumer_pc
  i_taken :: "'v option"

definition on_item :: "'v item \<Rightarrow> 'v item outcome \<Rightarrow> 'v item outcome" where
  "on_item i r = (if i_alive i then r else Fault)"

definition HandleResultReady :: "'v item \<Rightarrow> 'v item outcome" where
  "HandleResultReady i = on_item i
     (let i' = i\<lparr>i_continuation := TaskResultReady\<rparr> in
      case i_continuation i of
        TaskInitial \<Rightarrow> Next (i'\<lparr>i_resolver := Resolved\<rparr>)
      | TaskAwaitableDestroyed \<Rightarrow> Next (i'\<lparr>i_resolver := StoreBack\<rparr>)
      | Awaiter \<Rightarrow>
          if i_consumer i = Suspended then Next (i'\<lparr>i_resolver := Resolved, i_consumer := Taking\<rparr>)
          else Fault
      | _ \<Rightarrow> Fault)"

definition resolver_step :: "'v \<Rightarrow> 'v item \<Rightarrow> 'v item outcome" where
  "resolver_step v i =
     (case i_resolver i of
        Unresolved \<Rightarrow> on_item i (Next (i\<lparr>i_result := Some v, i_resolver := HandleReady\<rparr>))
      | HandleReady \<Rightarrow> HandleResultReady i
      | StoreBack \<Rightarrow> on_item i
          (Next (i\<lparr>i_continuation := TaskAwaitableDestroyed, i_resolver := Resolved\<rparr>))
      | Resolved \<Rightarrow> Blocked)"

text \<open>The destructor of \<open>ResolutionQueue::Awaitable\<close> and the end of the item's life.\<close>

definition destroy_awaitable :: "'v item \<Rightarrow> 'v item outcome" where
  "destroy_awaitable i = on_item i
     (if i_continuation i = TaskResultReady
      then Next (i\<lparr>i_continuation := TaskAwaitableDestroyed, i_consumer := Gone, i_alive := False\<rparr>)
      else Fault)"

definition awaiter_step :: "'v item \<Rightarrow> 'v item outcome" where
  "awaiter_step i =
     (case i_consumer i of
        Holding \<Rightarrow> on_item i
          (Next (i\<lparr>i_consumer := (if i_continuation i \<noteq> TaskInitial then Taking else Suspending)\<rparr>))
      | Suspending \<Rightarrow> on_item i
          (if i_continuation i = TaskInitial
           then Next (i\<lparr>i_continuation := Awaiter, i_consumer := Suspended\<rparr>)
           else Next (i\<lparr>i_consumer := Taking\<rparr>))
      | Suspended \<Rightarrow> Blocked
      | Taking \<Rightarrow> on_item i
          (case i_result i of None \<Rightarrow> Fault
           | Some v \<Rightarrow> Next (i\<lparr>i_taken := Some v, i_consumer := Dropping\<rparr>))
      | Dropping \<Rightarrow> destroy_awaitable i
      | Gone \<Rightarrow> Blocked)"

definition initial_item :: "'v item" where
  "initial_item = \<lparr>i_continuation = TaskInitial, i_result = None, i_alive = True,
     i_resolver = Unresolved, i_consumer = Holding, i_taken = None\<rparr>"

inductive item_step :: "'v \<Rightarrow> 'v item \<Rightarrow> 'v item outcome \<Rightarrow> bool" for v where
  resolver: "resolver_step v i = r \<Longrightarrow> r \<noteq> Blocked \<Longrightarrow> item_step v i r"
| awaiter: "awaiter_step i = r \<Longrightarrow> r \<noteq> Blocked \<Longrightarrow> item_step v i r"

inductive_cases item_stepE: "item_step v i r"

inductive item_run :: "'v \<Rightarrow> 'v item outcome \<Rightarrow> bool" for v where
  start: "item_run v (Next initial_item)"
| step: "item_run v (Next i) \<Longrightarrow> item_step v i r \<Longrightarrow> item_run v r"

definition item_inv :: "'v \<Rightarrow> 'v item \<Rightarrow> bool" where
  "item_inv v i \<longleftrightarrow>
     (case i_resolver i of
        StoreBack \<Rightarrow> False
      | Resolved \<Rightarrow> i_consumer i \<noteq> Suspended \<and>
          i_continuation i = (if i_consumer i = Gone then TaskAwaitableDestroyed else TaskResultReady)
      | _ \<Rightarrow> i_consumer i \<in> {Holding, Suspending, Suspended} \<and>
          i_continuation i = (if i_consumer i = Suspended then Awaiter else TaskInitial)) \<and>
     i_alive i = (i_consumer i \<noteq> Gone) \<and>
     (i_resolver i \<noteq> Unresolved \<longrightarrow> i_result i = Some v) \<and>
     i_taken i = (if i_consumer i \<in> {Dropping, Gone} then Some v else None)"

lemmas item_ops =
  resolver_step_def awaiter_step_def HandleResultReady_def destroy_awaitable_def on_item_def Let_def

lemma resolver_step_inv: "item_inv v i \<Longrightarrow> outcome_ok (item_inv v) (resolver_step v i)"
  by (cases "i_resolver i"; cases "i_consumer i"; cases "i_continuation i")
     (auto simp: item_ops item_inv_def)

lemma awaiter_step_inv: "item_inv v i \<Longrightarrow> outcome_ok (item_inv v) (awaiter_step i)"
  by (cases "i_resolver i"; cases "i_consumer i"; cases "i_continuation i")
     (auto simp: item_ops item_inv_def)

lemma item_run_inv: "item_run v r \<Longrightarrow> \<exists>i. r = Next i \<and> item_inv v i"
proof (induction rule: item_run.induct)
  case start
  show ?case by (simp add: initial_item_def item_inv_def)
next
  case (step i r)
  from step.hyps(2) step.IH show ?case
    by (elim item_stepE) (auto intro: outcome_okD resolver_step_inv awaiter_step_inv)
qed

definition item_work_left :: "'v item \<Rightarrow> nat" where
  "item_work_left i =
     (case i_resolver i of Unresolved \<Rightarrow> 3 | HandleReady \<Rightarrow> 2 | StoreBack \<Rightarrow> 1 | Resolved \<Rightarrow> 0) +
     (case i_consumer i of Holding \<Rightarrow> 5 | Suspending \<Rightarrow> 4 | Suspended \<Rightarrow> 3 | Taking \<Rightarrow> 2 | Dropping \<Rightarrow> 1
      | Gone \<Rightarrow> 0)"

lemma item_step_progress:
  assumes "item_step v i (Next i')"
  shows "item_work_left i' < item_work_left i"
  using assms
  by (elim item_stepE; cases "i_resolver i"; cases "i_consumer i"; cases "i_continuation i")
     (auto simp: item_ops item_work_left_def split: if_splits option.splits)

lemma item_not_stuck:
  assumes "item_inv v i" "\<not> (i_resolver i = Resolved \<and> i_consumer i = Gone)"
  shows "\<exists>r. item_step v i r"
proof -
  have "resolver_step v i \<noteq> Blocked \<or> awaiter_step i \<noteq> Blocked"
    using assms
    by (cases "i_resolver i"; cases "i_consumer i"; cases "i_continuation i")
       (auto simp: item_ops item_inv_def)
  then show ?thesis by (auto intro: item_step.intros)
qed

text \<open>Property C28: an item that its owner awaits is resolved safely in every interleaving: the
  resolver never touches an item whose owner has moved on, the assertion of the awaitable's
  destructor holds, every interleaving ends, and it ends with the owner holding the value.\<close>

theorem item_handover_safe:
  assumes "item_run v r"
  shows "\<exists>i. r = Next i
    \<and> (\<forall>i'. item_step v i (Next i') \<longrightarrow> item_work_left i' < item_work_left i)
    \<and> ((\<nexists>r'. item_step v i r') \<longrightarrow>
         i_resolver i = Resolved \<and> i_consumer i = Gone \<and> i_taken i = Some v)"
proof -
  obtain i where i: "r = Next i" "item_inv v i" using item_run_inv [OF assms] by auto
  with item_not_stuck [OF i(2)] show ?thesis
    by (auto simp: item_inv_def intro: item_step_progress)
qed

theorem item_handover_safe_witness:
  "item_run (7 :: nat) (Next initial_item) \<and>
   item_step (7 :: nat) initial_item (Next (initial_item\<lparr>i_consumer := Suspending\<rparr>)) \<and>
   item_work_left (initial_item\<lparr>i_consumer := Suspending\<rparr> :: nat item) <
     item_work_left (initial_item :: nat item)"
proof -
  have run: "item_run (7 :: nat) (Next initial_item)" by (rule item_run.start)
  have step: "item_step (7 :: nat) initial_item (Next (initial_item\<lparr>i_consumer := Suspending\<rparr>))"
    by (rule item_step.awaiter) (simp_all add: awaiter_step_def initial_item_def on_item_def)
  from item_handover_safe [OF run] run step show ?thesis by blast
qed

subsection \<open>Frames and generators\<close>

text \<open>\<open>OwnedFrame\<close> puts a pointer to the owner in front of the frame; \<open>allocate\<close> is the owner's
  frame allocator on a state of its own, and \<open>owners\<close> are the pointers it stored.\<close>

definition sizeof_ptr :: nat where
  "sizeof_ptr = 8"

definition frame_new ::
  "(nat \<Rightarrow> 'm \<Rightarrow> nat option \<times> 'm) \<Rightarrow> nat \<Rightarrow> 'o \<Rightarrow> 'm \<times> (nat \<Rightarrow> 'o option) \<Rightarrow>
     nat option \<times> ('m \<times> (nat \<Rightarrow> 'o option))"
where
  "frame_new allocate sz self st =
     (case allocate (sizeof_ptr + sz) (fst st) of
        (None, mem) \<Rightarrow> (None, (mem, snd st))
      | (Some p, mem) \<Rightarrow> (Some (p + sizeof_ptr), (mem, (snd st)(p \<mapsto> self))))"

definition frame_delete ::
  "('o \<Rightarrow> nat \<Rightarrow> nat \<Rightarrow> 'm \<Rightarrow> 'm) \<Rightarrow> nat \<Rightarrow> nat \<Rightarrow> 'm \<times> (nat \<Rightarrow> 'o option) \<Rightarrow>
     ('m \<times> (nat \<Rightarrow> 'o option)) option"
where
  "frame_delete deallocate p sz st =
     (let full_ptr = p - sizeof_ptr in
      do { self \<leftarrow> snd st full_ptr;
           Some (deallocate self full_ptr (sizeof_ptr + sz) (fst st), (snd st)(full_ptr := None)) })"

lemma frame_new_delete:
  "frame_new allocate sz self st = (Some p, st') \<Longrightarrow>
   frame_delete deallocate p sz st' =
     Some (deallocate self (p - sizeof_ptr) (sizeof_ptr + sz) (fst st'),
           (snd st')(p - sizeof_ptr := None))"
  by (auto simp: frame_new_def frame_delete_def split: prod.splits option.splits)

text \<open>A generator: its arguments slot, its result slot and what its coroutine does when resumed,
  the parameter \<open>resume\<close> (the body takes the arguments with \<open>await_resume\<close> and yields a result).\<close>

record ('a, 'r) generator_promise =
  g_args :: "'a option"
  g_result :: "'r option"

definition SetArgs :: "'a \<Rightarrow> ('a, 'r) generator_promise \<Rightarrow> ('a, 'r) generator_promise" where
  "SetArgs a g = g\<lparr>g_args := Some a\<rparr>"

definition args_await_ready :: "('a, 'r) generator_promise \<Rightarrow> bool" where
  "args_await_ready g = (g_args g \<noteq> None)"

definition args_await_resume ::
  "('a, 'r) generator_promise \<Rightarrow> ('a \<times> ('a, 'r) generator_promise) option" where
  "args_await_resume g = do { a \<leftarrow> g_args g; Some (a, g\<lparr>g_args := None\<rparr>) }"

definition yield_value :: "'r \<Rightarrow> ('a, 'r) generator_promise \<Rightarrow> ('a, 'r) generator_promise" where
  "yield_value r g = g\<lparr>g_result := Some r\<rparr>"

definition generator_call ::
  "(('a, 'r) generator_promise \<Rightarrow> 's \<Rightarrow> (('a, 'r) generator_promise \<times> 's) option) \<Rightarrow>
     'a \<Rightarrow> ('a, 'r) generator_promise \<Rightarrow> 's \<Rightarrow> ('r \<times> ('a, 'r) generator_promise \<times> 's) option"
where
  "generator_call resume a g s =
     do { (g', s') \<leftarrow> resume (SetArgs a g) s;
          r \<leftarrow> g_result g';
          Some (r, g', s') }"

text \<open>A generator object has the handle of its coroutine, or null when there was no memory for the frame. \<open>suspended\<close> is where
  the coroutine waits, \<open>None\<close> when it has ended. The body runs to its first yield when it is made. Resuming takes the arguments from
  the promise and goes on to the next yield; resuming a coroutine that has ended is undefined.\<close>

record ('a, 'r, 's) generator_frame =
  promise :: "('a, 'r) generator_promise"
  suspended :: "'s option"

type_synonym ('a, 'r, 's) generator = "('a, 'r, 's) generator_frame option"

definition make_generator :: "bool \<Rightarrow> ('r \<times> 's) option \<Rightarrow> ('a, 'r, 's) generator" where
  "make_generator frame first_yield =
     (if \<not> frame then None
      else case first_yield of
             None \<Rightarrow> Some \<lparr>promise = \<lparr>g_args = None, g_result = None\<rparr>, suspended = None\<rparr>
           | Some (r, s) \<Rightarrow> Some \<lparr>promise = yield_value r \<lparr>g_args = None, g_result = None\<rparr>, suspended = Some s\<rparr>)"

definition generator_bool :: "('a, 'r, 's) generator \<Rightarrow> bool" where
  "generator_bool g = (case g of None \<Rightarrow> False | Some f \<Rightarrow> suspended f \<noteq> None)"

definition resume_body ::
  "('a \<Rightarrow> 's \<Rightarrow> ('r \<times> 's) option) \<Rightarrow> ('a, 'r) generator_promise \<Rightarrow> 's option \<Rightarrow> (('a, 'r) generator_promise \<times> 's option) option"
where
  "resume_body body g s =
     do { s \<leftarrow> s;
          (a, g) \<leftarrow> args_await_resume g;
          Some (case body a s of None \<Rightarrow> (g, None) | Some (r, s') \<Rightarrow> (yield_value r g, Some s')) }"

definition call_generator ::
  "('a \<Rightarrow> 's \<Rightarrow> ('r \<times> 's) option) \<Rightarrow> 'a \<Rightarrow> ('a, 'r, 's) generator \<Rightarrow> ('r \<times> ('a, 'r, 's) generator) option"
where
  "call_generator body a g =
     do { f \<leftarrow> g;
          (r, p, s) \<leftarrow> generator_call (resume_body body) a (promise f) (suspended f);
          Some (r, Some \<lparr>promise = p, suspended = s\<rparr>) }"

fun call_all ::
  "('a \<Rightarrow> 's \<Rightarrow> ('r \<times> 's) option) \<Rightarrow> 'a list \<Rightarrow> ('a, 'r, 's) generator \<Rightarrow> ('r list \<times> ('a, 'r, 's) generator) option"
where
  "call_all body [] g = Some ([], g)"
| "call_all body (a # as) g =
     do { (r, g) \<leftarrow> call_generator body a g; (rs, g) \<leftarrow> call_all body as g; Some (r # rs, g) }"

text \<open>What the body answers, as long as it does not end.\<close>

fun answers :: "('a \<Rightarrow> 's \<Rightarrow> ('r \<times> 's) option) \<Rightarrow> 'a list \<Rightarrow> 's \<Rightarrow> ('r list \<times> 's) option" where
  "answers body [] s = Some ([], s)"
| "answers body (a # as) s = do { (r, s) \<leftarrow> body a s; (rs, s) \<leftarrow> answers body as s; Some (r # rs, s) }"

lemma call_generator_step:
  assumes "g_args p = None" "body a s = Some (r, s')"
  shows "call_generator body a (Some \<lparr>promise = p, suspended = Some s\<rparr>) = Some (r, Some \<lparr>promise = p\<lparr>g_result := Some r\<rparr>, suspended = Some s'\<rparr>)"
  using assms by (simp add: call_generator_def generator_call_def resume_body_def SetArgs_def args_await_resume_def yield_value_def)

lemma call_all_answers:
  assumes "g_args p = None" "answers body as s = Some (rs, s')" "g_result p = Some r0"
  shows "\<exists>p'. call_all body as (Some \<lparr>promise = p, suspended = Some s\<rparr>) = Some (rs, Some \<lparr>promise = p', suspended = Some s'\<rparr>) \<and>
    g_args p' = None \<and> g_result p' = Some (last (r0 # rs))"
  using assms
proof (induction as arbitrary: p s rs r0)
  case (Cons a as)
  then obtain r s1 rs1 where b: "body a s = Some (r, s1)" "answers body as s1 = Some (rs1, s')" "rs = r # rs1"
    by (auto simp: bind_eq_Some_conv)
  let ?p = "p\<lparr>g_result := Some r\<rparr>"
  obtain p' where "call_all body as (Some \<lparr>promise = ?p, suspended = Some s1\<rparr>) = Some (rs1, Some \<lparr>promise = p', suspended = Some s'\<rparr>)"
    "g_args p' = None" "g_result p' = Some (last (r # rs1))"
    using Cons.IH [of ?p s1 rs1 r] Cons.prems(1) b(2) by auto
  then show ?case
    using call_generator_step [where body = body and a = a and s = s and r = r and s' = s1, OF Cons.prems(1) b(1)] b(3) by simp
qed simp

text \<open>Every call of a generator hands its arguments to the body once and returns what the body yields for them. The value
  of the first yield, before any call, is never returned. When the body ends, the call in which it ends returns the value before once
  more, the generator converts to false, and a further call resumes a coroutine that has ended.\<close>

theorem generator_answers:
  assumes "answers body as s = Some (rs, s')"
  shows "\<exists>g. call_all body as (make_generator True (Some (r0, s))) = Some (rs, g) \<and> generator_bool g
    \<and> (body a s' = None \<longrightarrow> (\<exists>g'. call_generator body a g = Some (last (r0 # rs), g') \<and> \<not> generator_bool g' \<and> call_generator body a' g' = None))"
proof -
  let ?p = "yield_value r0 \<lparr>g_args = None, g_result = None\<rparr>"
  have "g_args ?p = None" "g_result ?p = Some r0" by (simp_all add: yield_value_def)
  then obtain p' where p': "call_all body as (Some \<lparr>promise = ?p, suspended = Some s\<rparr>) = Some (rs, Some \<lparr>promise = p', suspended = Some s'\<rparr>)"
    "g_args p' = None" "g_result p' = Some (last (r0 # rs))" using call_all_answers [of ?p body as s rs s' r0] assms by blast
  have "\<exists>g'. call_generator body a (Some \<lparr>promise = p', suspended = Some s'\<rparr>) = Some (last (r0 # rs), g') \<and>
      \<not> generator_bool g' \<and> call_generator body a' g' = None" if "body a s' = None"
    using that p'(3)
    by (simp add: call_generator_def generator_call_def resume_body_def SetArgs_def args_await_resume_def generator_bool_def del: last.simps)
  then show ?thesis using p'(1) by (intro exI [of _ "Some \<lparr>promise = p', suspended = Some s'\<rparr>"]) (simp add: make_generator_def generator_bool_def)
qed

end
