(* ===== verification/Resolution_Queue.thy ===== *)
theory Resolution_Queue
  imports Bucket_Array Async_Task
begin

text \<open>
  \<open>ResolutionQueue\<close>, \<open>AsyncGate\<close>, \<open>ResolutionMap\<close> (\<open>util/asynchronicity\<close>) and
  \<open>PushQueueEndpoint\<close> (\<open>driver\<close>).

  A queue is intrusive: its items are locals of the coroutines that wait in it, linked through
  their \<open>m_next\<close>. Items are numbered; \<open>rq_next\<close> holds the links, \<open>rq_items\<close> the items that exist.
  A link of an item that does not exist is neither read nor written: such an access, and a failed
  assertion, is \<open>None\<close>.

  The locale \<open>fifo_queue\<close> is the contract the gate, the endpoint and the pull drivers rely on:
  what is scheduled is started in order, what is started is resolved in order. Its interpretation
  on the pointer structure is the refinement proof, and it shows the condition under which the
  structure keeps the contract.
\<close>

record rqueue =
  rq_next :: "nat \<Rightarrow> nat option"
  rq_items :: "nat set"
  m_scheduled_head :: "nat option"
  m_scheduled_last :: "nat option"
  m_in_progress_head :: "nat option"
  m_in_progress_last :: "nat option"

definition empty_rqueue :: rqueue where
  "empty_rqueue = \<lparr>rq_next = Map.empty, rq_items = {}, m_scheduled_head = None,
     m_scheduled_last = None, m_in_progress_head = None, m_in_progress_last = None\<rparr>"

text \<open>Construction and destruction of an item by its owner.\<close>

definition new_item :: "nat \<Rightarrow> rqueue \<Rightarrow> rqueue" where
  "new_item x q = q\<lparr>rq_next := (rq_next q)(x := None), rq_items := insert x (rq_items q)\<rparr>"

definition drop_item :: "nat \<Rightarrow> rqueue \<Rightarrow> rqueue" where
  "drop_item x q = q\<lparr>rq_items := rq_items q - {x}\<rparr>"

definition get_next :: "nat \<Rightarrow> rqueue \<Rightarrow> nat option option" where
  "get_next x q = (if x \<in> rq_items q then Some (rq_next q x) else None)"

definition set_next :: "nat \<Rightarrow> nat \<Rightarrow> rqueue \<Rightarrow> rqueue option" where
  "set_next x y q =
     (if x \<in> rq_items q then Some (q\<lparr>rq_next := (rq_next q)(x \<mapsto> y)\<rparr>) else None)"

definition Enqueue :: "nat \<Rightarrow> rqueue \<Rightarrow> rqueue option" where
  "Enqueue item q =
     (if m_scheduled_head q = None
      then Some (q\<lparr>m_scheduled_head := Some item, m_scheduled_last := Some item\<rparr>)
      else do { l \<leftarrow> m_scheduled_last q;
                q' \<leftarrow> set_next l item q;
                Some (q'\<lparr>m_scheduled_last := Some item\<rparr>) })"

definition NoScheduled :: "rqueue \<Rightarrow> bool" where
  "NoScheduled q = (m_scheduled_head q = None)"

definition NoInProgress :: "rqueue \<Rightarrow> bool" where
  "NoInProgress q = (m_in_progress_head q = None)"

definition StartNextScheduled :: "rqueue \<Rightarrow> (nat \<times> rqueue) option" where
  "StartNextScheduled q =
     do { item \<leftarrow> m_scheduled_head q;
          nx \<leftarrow> get_next item q;
          let q = q\<lparr>m_scheduled_head := nx\<rparr>;
          if m_in_progress_head q = None
          then Some (item, q\<lparr>m_in_progress_head := Some item, m_in_progress_last := Some item\<rparr>)
          else do { l \<leftarrow> m_in_progress_last q;
                    q' \<leftarrow> set_next l item q;
                    Some (item, q'\<lparr>m_in_progress_last := Some item\<rparr>) } }"

definition GetNextScheduled :: "rqueue \<Rightarrow> nat option" where
  "GetNextScheduled q = m_scheduled_head q"

definition GetCurrentInProgress :: "rqueue \<Rightarrow> nat option" where
  "GetCurrentInProgress q = m_in_progress_head q"

definition PrepareToResolve :: "rqueue \<Rightarrow> (nat \<times> rqueue) option" where
  "PrepareToResolve q =
     do { item \<leftarrow> m_in_progress_head q;
          nx \<leftarrow> get_next item q;
          Some (item, q\<lparr>m_in_progress_head := nx\<rparr>) }"

lemmas rq_ops =
  Enqueue_def NoScheduled_def NoInProgress_def StartNextScheduled_def GetNextScheduled_def
  GetCurrentInProgress_def PrepareToResolve_def get_next_def set_next_def

subsection \<open>The contract\<close>

text \<open>\<open>rep q S P\<close>: \<open>q\<close> holds the scheduled items \<open>S\<close> and the items \<open>P\<close> in progress, oldest first.\<close>

locale fifo_queue =
  fixes rep :: "'q \<Rightarrow> nat list \<Rightarrow> nat list \<Rightarrow> bool"
    and fresh :: "nat \<Rightarrow> 'q \<Rightarrow> bool"
    and enqueue :: "nat \<Rightarrow> 'q \<Rightarrow> 'q option"
    and no_scheduled :: "'q \<Rightarrow> bool"
    and start_next :: "'q \<Rightarrow> (nat \<times> 'q) option"
    and prepare :: "'q \<Rightarrow> (nat \<times> 'q) option"
  assumes enqueue: "rep q S P \<Longrightarrow> fresh x q \<Longrightarrow> x \<notin> set S \<union> set P \<Longrightarrow>
      \<exists>q'. enqueue x q = Some q' \<and> rep q' (S @ [x]) P"
    and no_scheduled: "rep q S P \<Longrightarrow> no_scheduled q \<longleftrightarrow> S = []"
    and start_next: "rep q (x # S) P \<Longrightarrow> \<exists>q'. start_next q = Some (x, q') \<and> rep q' S (P @ [x])"
    and start_empty: "rep q [] P \<Longrightarrow> start_next q = None"
    and prepare: "rep q S (x # P) \<Longrightarrow> \<exists>q'. prepare q = Some (x, q') \<and> rep q' S P"
begin

text \<open>The step of a server that handles one item at a time.\<close>

lemma serve_one:
  assumes "rep q (x # S) []"
  shows "\<exists>q' q''. start_next q = Some (x, q') \<and> prepare q' = Some (x, q'') \<and> rep q'' S []"
proof -
  obtain q' where q': "start_next q = Some (x, q')" "rep q' S ([] @ [x])"
    using start_next [OF assms] by blast
  then show ?thesis using prepare [of q' S x "[]"] by auto
qed

text \<open>Items are started and resolved in the order in which they were enqueued.\<close>

lemma start_all:
  assumes "rep q S P"
  shows "\<exists>q'. foldl (\<lambda>r x. do { q \<leftarrow> r; (y, q') \<leftarrow> start_next q; if y = x then Some q' else None })
    (Some q) S = Some q' \<and> rep q' [] (P @ S)"
  using assms
proof (induction S arbitrary: q P)
  case Nil
  then show ?case by simp
next
  case (Cons x S)
  obtain q' where "start_next q = Some (x, q')" "rep q' S (P @ [x])"
    using start_next [OF Cons.prems] by blast
  then show ?case using Cons.IH [of q' "P @ [x]"] by simp
qed

end

subsection \<open>The pointer structure keeps the contract\<close>

fun linked :: "(nat \<Rightarrow> nat option) \<Rightarrow> nat list \<Rightarrow> bool" where
  "linked nx [] = True"
| "linked nx [x] = True"
| "linked nx (x # y # xs) = (nx x = Some y \<and> linked nx (y # xs))"

definition first :: "'a list \<Rightarrow> 'a option" where
  "first xs = (case xs of [] \<Rightarrow> None | x # _ \<Rightarrow> Some x)"

lemma first_simps [simp]:
  "first [] = None" "first (x # xs) = Some x" "first xs = None \<longleftrightarrow> xs = []"
  by (simp_all add: first_def split: list.split)

lemma first_append: "xs \<noteq> [] \<Longrightarrow> first (xs @ ys) = first xs"
  by (cases xs) simp_all

text \<open>Nothing in progress, and yet \<open>m_in_progress_head\<close> points at the next scheduled item: the state
  after the only item in progress was resolved while another was waiting.\<close>

definition phantom :: "rqueue \<Rightarrow> nat list \<Rightarrow> bool" where
  "phantom q S \<longleftrightarrow> S \<noteq> [] \<and> m_in_progress_head q = first S \<and>
     (\<exists>l. m_in_progress_last q = Some l \<and> l \<in> rq_items q \<and> l \<notin> set S)"

definition rq_rep :: "rqueue \<Rightarrow> nat list \<Rightarrow> nat list \<Rightarrow> bool" where
  "rq_rep q S P \<longleftrightarrow>
     distinct (P @ S) \<and> set (P @ S) \<subseteq> rq_items q \<and> linked (rq_next q) S \<and> linked (rq_next q) P \<and>
     m_scheduled_head q = first S \<and>
     (S \<noteq> [] \<longrightarrow> m_scheduled_last q = Some (last S) \<and> rq_next q (last S) = None) \<and>
     (if P = [] then m_in_progress_head q = None \<or> phantom q S
      else m_in_progress_head q = Some (hd P) \<and> m_in_progress_last q = Some (last P) \<and>
           rq_next q (last P) \<in> {None, first S})"

definition rq_fresh :: "nat \<Rightarrow> rqueue \<Rightarrow> bool" where
  "rq_fresh x q \<longleftrightarrow> x \<in> rq_items q \<and> rq_next q x = None \<and>
     (m_in_progress_head q \<noteq> None \<longrightarrow> m_in_progress_last q \<noteq> Some x)"

lemma linked_append:
  "linked nx (xs @ [x]) \<longleftrightarrow> linked nx xs \<and> (xs \<noteq> [] \<longrightarrow> nx (last xs) = Some x)"
  by (induction nx xs rule: linked.induct) auto

lemma linked_upd: "z \<notin> set (butlast xs) \<Longrightarrow> linked (nx(z := y)) xs = linked nx xs"
  by (induction nx xs rule: linked.induct) auto

lemma last_notin_butlast: "distinct xs \<Longrightarrow> last xs \<notin> set (butlast xs)"
  by (induction xs) (auto split: if_splits)

lemma linked_upd_other: "z \<notin> set xs \<Longrightarrow> linked (nx(z := y)) xs = linked nx xs"
  by (rule linked_upd) (auto dest: in_set_butlastD)

lemma linked_upd_last: "distinct xs \<Longrightarrow> linked (nx(last xs := y)) xs = linked nx xs"
  by (rule linked_upd) (rule last_notin_butlast)

lemma linked_tl: "linked nx (x # xs) \<Longrightarrow> linked nx xs"
  by (cases xs) auto

lemma linked_next: "linked nx (x # xs) \<Longrightarrow> xs \<noteq> [] \<Longrightarrow> nx x = first xs"
  by (cases xs) auto

lemma Enqueue_rep:
  assumes "rq_rep q S P" "rq_fresh x q" "x \<notin> set S \<union> set P"
  shows "\<exists>q'. Enqueue x q = Some q' \<and> rq_rep q' (S @ [x]) P"
proof (cases "S = []")
  case True
  with assms show ?thesis
    by (auto simp: rq_ops rq_rep_def rq_fresh_def phantom_def split: if_splits)
next
  case False
  then have l: "last S \<in> set S" "last S \<notin> set P" "last S \<in> rq_items q"
    using False assms(1) by (auto simp: rq_rep_def)
  have "linked ((rq_next q)(last S \<mapsto> x)) S = linked (rq_next q) S"
    "linked ((rq_next q)(last S \<mapsto> x)) P = linked (rq_next q) P"
    using l assms(1) by (simp_all add: linked_upd_other linked_upd_last rq_rep_def)
  moreover have "P \<noteq> [] \<Longrightarrow> last P \<noteq> last S" using l last_in_set by metis
  ultimately show ?thesis
    using False l assms
    by (auto simp: rq_ops rq_rep_def rq_fresh_def phantom_def linked_append first_append)
qed

lemma StartNextScheduled_rep:
  assumes "rq_rep q (x # S) P"
  shows "\<exists>q'. StartNextScheduled q = Some (x, q') \<and> rq_rep q' S (P @ [x])"
proof (cases "P = []")
  case True
  show ?thesis
  proof (cases "m_in_progress_head q")
    case None
    with True assms show ?thesis
      by (cases S) (auto simp: rq_ops rq_rep_def)
  next
    case (Some h)
    then obtain l where l: "m_in_progress_last q = Some l" "l \<in> rq_items q" "l \<notin> set (x # S)"
      using True assms by (auto simp: rq_rep_def phantom_def)
    have "linked ((rq_next q)(l \<mapsto> x)) S = linked (rq_next q) S"
      using l by (simp add: linked_upd_other)
    with True Some l assms show ?thesis
      by (cases S) (auto simp: rq_ops rq_rep_def phantom_def)
  qed
next
  case False
  have "last P \<in> set P" using False by simp
  then have l: "last P \<in> rq_items q" "last P \<notin> set (x # S)" "distinct P"
    using assms disjoint_iff [of "set P" "set (x # S)"] by (auto simp: rq_rep_def)
  have "linked ((rq_next q)(last P \<mapsto> x)) S = linked (rq_next q) S"
    "linked ((rq_next q)(last P \<mapsto> x)) P = linked (rq_next q) P"
    using l by (simp_all add: linked_upd_other linked_upd_last)
  moreover have "S \<noteq> [] \<Longrightarrow> last S \<noteq> last P" using l by (metis last_in_set list.set_intros(2))
  ultimately show ?thesis
    using False l assms by (cases S) (auto simp: rq_ops rq_rep_def linked_append)
qed

lemma PrepareToResolve_rep:
  assumes "rq_rep q S (x # P)"
  shows "\<exists>q'. PrepareToResolve q = Some (x, q') \<and> rq_rep q' S P"
proof (cases P)
  case Nil
  then show ?thesis using assms by (cases S) (auto simp: rq_ops rq_rep_def phantom_def)
next
  case (Cons y P')
  then show ?thesis using assms by (auto simp: rq_ops rq_rep_def)
qed

lemma StartNextScheduled_empty: "rq_rep q [] P \<Longrightarrow> StartNextScheduled q = None"
  by (simp add: rq_rep_def rq_ops)

lemma NoScheduled_rep: "rq_rep q S P \<Longrightarrow> NoScheduled q \<longleftrightarrow> S = []"
  by (simp add: rq_rep_def rq_ops)

interpretation rq: fifo_queue rq_rep rq_fresh Enqueue NoScheduled StartNextScheduled PrepareToResolve
  by unfold_locales
    (simp_all add: Enqueue_rep NoScheduled_rep StartNextScheduled_rep StartNextScheduled_empty
      PrepareToResolve_rep)

lemma empty_rqueue_rep: "rq_rep empty_rqueue [] []"
  by (simp add: rq_rep_def empty_rqueue_def)

lemma linked_cong: "(\<And>x. x \<in> set xs \<Longrightarrow> nx x = nx' x) \<Longrightarrow> linked nx xs = linked nx' xs"
  by (induction nx xs rule: linked.induct) auto

lemma new_item_rep:
  assumes "rq_rep q S P" "x \<notin> rq_items q"
  shows "rq_rep (new_item x q) S P" "rq_fresh x (new_item x q)" "x \<notin> set S \<union> set P"
proof -
  show x: "x \<notin> set S \<union> set P" using assms by (auto simp: rq_rep_def)
  then have "linked ((rq_next q)(x := None)) S = linked (rq_next q) S"
    "linked ((rq_next q)(x := None)) P = linked (rq_next q) P"
    by (simp_all add: linked_upd_other)
  moreover have "P \<noteq> [] \<Longrightarrow> last P \<noteq> x" using x by (metis UnI2 last_in_set)
  ultimately show "rq_rep (new_item x q) S P"
    using assms(1) by (auto simp: new_item_def rq_rep_def phantom_def)
  show "rq_fresh x (new_item x q)"
    using assms \<open>P \<noteq> [] \<Longrightarrow> last P \<noteq> x\<close>
    by (auto simp: new_item_def rq_fresh_def rq_rep_def phantom_def split: if_splits)
qed

text \<open>The link of the last started item is not cut. \<open>stale_link\<close>: it leads to a scheduled item, or, when nothing is in
  progress any more, has put that item at the head of the items in progress.\<close>

definition stale_link :: "rqueue \<Rightarrow> nat list \<Rightarrow> bool" where
  "stale_link q P = (if P = [] then m_in_progress_head q \<noteq> None else rq_next q (last P) \<noteq> None)"

lemma in_progress_rep:
  assumes "rq_rep q S P"
  shows "GetCurrentInProgress q = (if P \<noteq> [] then Some (hd P) else if stale_link q P then first S else None)"
    and "NoInProgress q \<longleftrightarrow> P = [] \<and> \<not> stale_link q P"
    and "stale_link q P \<Longrightarrow> S \<noteq> []"
  using assms by (auto simp: rq_rep_def phantom_def stale_link_def rq_ops split: if_splits)

lemma Enqueue_link:
  assumes "rq_rep q S P" "x \<notin> rq_items q" "Enqueue x (new_item x q) = Some q'"
  shows "stale_link q' P = stale_link q P"
proof (cases "P = []")
  case True
  then show ?thesis using assms(3) by (auto simp: stale_link_def rq_ops new_item_def bind_eq_Some_conv split: if_splits)
next
  case False
  then have "last P \<in> set P" by simp
  then have p: "last P \<in> rq_items q" "S \<noteq> [] \<Longrightarrow> last P \<noteq> last S"
    using assms(1) last_in_set [of S] disjoint_iff [of "set P" "set S"] by (auto simp: rq_rep_def)
  have "m_scheduled_head q = None \<longleftrightarrow> S = []" "S \<noteq> [] \<Longrightarrow> m_scheduled_last q = Some (last S)"
    using assms(1) by (auto simp: rq_rep_def)
  note p = p this
  then show ?thesis
    using assms(2,3) False by (cases "S = []") (auto simp: stale_link_def rq_ops new_item_def split: if_splits)
qed

lemma Start_link:
  assumes "rq_rep q (x # S) P" "StartNextScheduled q = Some (x, q')"
  shows "stale_link q' (P @ [x]) \<longleftrightarrow> S \<noteq> []"
proof -
  have "rq_next q x = first S" using assms(1) by (cases S) (auto simp: rq_rep_def)
  moreover have "rq_next q' x = rq_next q x"
  proof (cases "m_in_progress_head q")
    case None
    then show ?thesis using assms(2) by (auto simp: rq_ops Let_def bind_eq_Some_conv split: if_splits)
  next
    case (Some h)
    have "P \<noteq> [] \<Longrightarrow> last P \<noteq> x" using assms(1) last_in_set [of P] by (auto simp: rq_rep_def simp del: last_in_set)
    then obtain l where l: "m_in_progress_last q = Some l" "l \<noteq> x"
      using assms(1) Some by (auto simp: rq_rep_def phantom_def split: if_splits)
    then show ?thesis using assms(2) Some by (auto simp: rq_ops Let_def bind_eq_Some_conv split: if_splits)
  qed
  ultimately show ?thesis by (simp add: stale_link_def)
qed

lemma Prepare_link:
  assumes "rq_rep q S (x # P)" "PrepareToResolve q = Some (x, q')"
  shows "stale_link q' P = stale_link q (x # P)"
  using assms by (cases P) (auto simp: rq_rep_def stale_link_def rq_ops simp del: not_None_eq split: if_splits)

text \<open>What the owner of an item may do once it is resolved.\<close>

lemma drop_item_rep:
  assumes "rq_rep q S P" "x \<notin> set (P @ S)"
  shows "rq_rep (drop_item x q) S P \<longleftrightarrow> \<not> (P = [] \<and> stale_link q P \<and> m_in_progress_last q = Some x)"
    and "P = [] \<and> stale_link q P \<and> m_in_progress_last q = Some x \<Longrightarrow> StartNextScheduled (drop_item x q) = None"
proof -
  have s: "m_in_progress_head q \<noteq> None \<and> P = [] \<Longrightarrow> phantom q S" using assms(1) by (auto simp: rq_rep_def)
  show "rq_rep (drop_item x q) S P \<longleftrightarrow> \<not> (P = [] \<and> stale_link q P \<and> m_in_progress_last q = Some x)"
    using assms s by (auto simp: rq_rep_def drop_item_def stale_link_def phantom_def)
  assume "P = [] \<and> stale_link q P \<and> m_in_progress_last q = Some x"
  then show "StartNextScheduled (drop_item x q) = None"
    using assms s by (auto simp: stale_link_def phantom_def rq_rep_def rq_ops drop_item_def Let_def bind_eq_None_conv)
qed

text \<open>Property C20: over its pointers the queue is first-in first-out twice over. \<open>Enqueue\<close> appends
  to the scheduled items, \<open>StartNextScheduled\<close> moves the oldest of them behind the items in
  progress, \<open>PrepareToResolve\<close> removes the oldest item in progress, and none of them touches an
  item that does not exist. \<open>NoScheduled\<close> is exact. The view of the items in progress is exact except in one kind of state, which is
  pinned here: nothing is in progress but the link of the last started item is stale; then \<open>NoInProgress\<close> is false and
  \<open>GetCurrentInProgress\<close> is the oldest scheduled item, which nobody started. A link becomes stale when an item is started while another
  is scheduled behind it, and only then. An owner may destroy a resolved item unless it is the last started one in
  such a state: then the next \<open>StartNextScheduled\<close> touches the destroyed item.\<close>

theorem resolution_queue_correct:
  assumes "rq_rep q S P"
  shows "(x \<notin> rq_items q \<longrightarrow> (\<exists>q'. Enqueue x (new_item x q) = Some q' \<and> rq_rep q' (S @ [x]) P \<and> stale_link q' P = stale_link q P))
    \<and> (NoScheduled q \<longleftrightarrow> S = [])
    \<and> (case S of [] \<Rightarrow> StartNextScheduled q = None \<and> \<not> stale_link q P
       | s # S' \<Rightarrow> \<exists>q'. StartNextScheduled q = Some (s, q') \<and> rq_rep q' S' (P @ [s]) \<and> (stale_link q' (P @ [s]) \<longleftrightarrow> S' \<noteq> []))
    \<and> (NoInProgress q \<longleftrightarrow> P = [] \<and> \<not> stale_link q P)
    \<and> GetCurrentInProgress q = (if P \<noteq> [] then Some (hd P) else if stale_link q P then Some (hd S) else None)
    \<and> (P \<noteq> [] \<longrightarrow> (\<exists>q'. PrepareToResolve q = Some (hd P, q') \<and> rq_rep q' S (tl P) \<and> stale_link q' (tl P) = stale_link q P))
    \<and> (y \<notin> set (P @ S) \<longrightarrow>
         (if P = [] \<and> stale_link q P \<and> m_in_progress_last q = Some y
          then StartNextScheduled (drop_item y q) = None
          else rq_rep (drop_item y q) S P))"
proof (intro conjI impI)
  show "\<exists>q'. Enqueue x (new_item x q) = Some q' \<and> rq_rep q' (S @ [x]) P \<and> stale_link q' P = stale_link q P" if "x \<notin> rq_items q"
    using rq.enqueue new_item_rep [OF assms that] Enqueue_link [OF assms that] by blast
  show "NoScheduled q \<longleftrightarrow> S = []" using assms by (rule rq.no_scheduled)
  show "case S of [] \<Rightarrow> StartNextScheduled q = None \<and> \<not> stale_link q P
       | s # S' \<Rightarrow> \<exists>q'. StartNextScheduled q = Some (s, q') \<and> rq_rep q' S' (P @ [s]) \<and> (stale_link q' (P @ [s]) \<longleftrightarrow> S' \<noteq> [])"
  proof (cases S)
    case Nil
    then show ?thesis using assms rq.start_empty in_progress_rep(3) [OF assms] by auto
  next
    case (Cons s S')
    then show ?thesis using rq.start_next [of q s S' P] Start_link [of q s S' P] assms by fastforce
  qed
  show "NoInProgress q \<longleftrightarrow> P = [] \<and> \<not> stale_link q P" using assms by (rule in_progress_rep)
  show "GetCurrentInProgress q = (if P \<noteq> [] then Some (hd P) else if stale_link q P then Some (hd S) else None)"
    using in_progress_rep(1,3) [OF assms] by (cases S) auto
  show "\<exists>q'. PrepareToResolve q = Some (hd P, q') \<and> rq_rep q' S (tl P) \<and> stale_link q' (tl P) = stale_link q P" if "P \<noteq> []"
    using assms that rq.prepare [of q S "hd P" "tl P"] Prepare_link [of q S "hd P" "tl P"] by fastforce
  show "if P = [] \<and> stale_link q P \<and> m_in_progress_last q = Some y then StartNextScheduled (drop_item y q) = None
      else rq_rep (drop_item y q) S P" if "y \<notin> set (P @ S)"
    using drop_item_rep [OF assms that] by (auto simp del: not_None_eq)
qed

definition two_scheduled :: rqueue where
  "two_scheduled = the (Enqueue 2 (new_item 2 (the (Enqueue 1 (new_item 1 empty_rqueue)))))"

lemma two_scheduled_rep: "rq_rep two_scheduled [1, 2] []" "\<not> stale_link two_scheduled []"
  by (simp_all add: two_scheduled_def rq_rep_def stale_link_def rq_ops new_item_def empty_rqueue_def)

theorem resolution_queue_correct_witness:
  "rq_rep two_scheduled [1, 2] [] \<and> NoInProgress two_scheduled \<and>
   (\<exists>q'. StartNextScheduled two_scheduled = Some (1, q') \<and> rq_rep q' [2] [1] \<and> stale_link q' [1] \<and>
     (\<exists>q''. PrepareToResolve q' = Some (1, q'') \<and> rq_rep q'' [2] [] \<and> \<not> NoInProgress q'' \<and>
        GetCurrentInProgress q'' = Some 2))"
proof -
  obtain q' where q': "StartNextScheduled two_scheduled = Some (1, q')" "rq_rep q' [2] [1]" "stale_link q' [1]"
    using resolution_queue_correct [OF two_scheduled_rep(1), of 3 3] by auto
  obtain q'' where q'': "PrepareToResolve q' = Some (1, q'')" "rq_rep q'' [2] []" "stale_link q'' []"
    using resolution_queue_correct [OF q'(2), of 3 3] q'(3) by auto
  show ?thesis
    using resolution_queue_correct [OF two_scheduled_rep(1), of 3 3] resolution_queue_correct [OF q''(2), of 3 3]
      q' q'' two_scheduled_rep by auto
qed

text \<open>When the only item in progress is resolved while another item is scheduled behind
  it, \<open>NoInProgress\<close> says that something is in progress and \<open>GetCurrentInProgress\<close> returns the item
  that was never started; if the resolved item is destroyed by its owner, the next
  \<open>StartNextScheduled\<close> writes through a pointer to it.\<close>

theorem resolution_queue_phantom:
  "(do { q \<leftarrow> Enqueue 1 (new_item 1 empty_rqueue);
         q \<leftarrow> Enqueue 2 (new_item 2 q);
         (a, q) \<leftarrow> StartNextScheduled q;
         (b, q) \<leftarrow> PrepareToResolve q;
         Some (a, b, NoInProgress q, GetCurrentInProgress q, GetNextScheduled q,
               StartNextScheduled (drop_item b q) = None) })
   = Some (1, 1, False, Some 2, Some 2, True)"
  by (simp add: rq_ops empty_rqueue_def new_item_def drop_item_def)

subsection \<open>The gate\<close>

record gate =
  m_is_open :: bool
  m_queue :: rqueue
  resolved :: "nat list"

text \<open>\<open>Pass\<close> says whether the caller has to wait.\<close>

definition Pass :: "nat \<Rightarrow> gate \<Rightarrow> (bool \<times> gate) option" where
  "Pass item g =
     (if m_is_open g then Some (False, g)
      else do { q \<leftarrow> Enqueue item (m_queue g); Some (True, g\<lparr>m_queue := q\<rparr>) })"

definition Close :: "gate \<Rightarrow> gate option" where
  "Close g = do { assert_that (m_is_open g); Some (g\<lparr>m_is_open := False\<rparr>) }"

text \<open>The loop of \<open>Open\<close>, with a bound on the number of rounds. Each round releases the mutex while
  it resolves an item; \<open>owners x q\<close> is what the resumed owner of item \<open>x\<close> does to the queue's
  items meanwhile.\<close>

fun open_loop :: "nat \<Rightarrow> (nat \<Rightarrow> rqueue \<Rightarrow> rqueue) \<Rightarrow> gate \<Rightarrow> gate option" where
  "open_loop 0 owners g = (if NoScheduled (m_queue g) then Some g else None)"
| "open_loop (Suc n) owners g =
     (if NoScheduled (m_queue g) then Some g
      else do { (_, q) \<leftarrow> StartNextScheduled (m_queue g);
                (x, q) \<leftarrow> PrepareToResolve q;
                open_loop n owners (g\<lparr>m_queue := owners x q, resolved := resolved g @ [x]\<rparr>) })"

definition Open :: "nat \<Rightarrow> (nat \<Rightarrow> rqueue \<Rightarrow> rqueue) \<Rightarrow> gate \<Rightarrow> gate option" where
  "Open fuel owners g =
     do { assert_that (\<not> m_is_open g);
          g \<leftarrow> open_loop fuel owners g;
          Some (g\<lparr>m_is_open := True\<rparr>) }"

lemma open_loop_correct:
  assumes "\<And>x q S. rq_rep q S [] \<Longrightarrow> rq_rep (owners x q) S []"
  shows "rq_rep (m_queue g) S [] \<Longrightarrow> length S \<le> fuel \<Longrightarrow>
    \<exists>q. open_loop fuel owners g = Some (g\<lparr>m_queue := q, resolved := resolved g @ S\<rparr>) \<and>
      rq_rep q [] []"
proof (induction S arbitrary: fuel g)
  case Nil
  then show ?case by (cases fuel) (auto simp: NoScheduled_rep intro!: exI [of _ "m_queue g"])
next
  case (Cons x S)
  obtain q' q'' where q: "StartNextScheduled (m_queue g) = Some (x, q')"
    "PrepareToResolve q' = Some (x, q'')" "rq_rep q'' S []"
    using rq.serve_one [OF Cons.prems(1)] by blast
  let ?g = "g\<lparr>m_queue := owners x q'', resolved := resolved g @ [x]\<rparr>"
  obtain n where n: "fuel = Suc n" "length S \<le> n" using Cons.prems(2) by (cases fuel) auto
  have "rq_rep (m_queue ?g) S []" using assms q(3) by simp
  from Cons.IH [OF this n(2)] obtain q where
    "open_loop n owners ?g = Some (?g\<lparr>m_queue := q, resolved := resolved ?g @ S\<rparr>)" "rq_rep q [] []"
    by blast
  then show ?case
    using q n NoScheduled_rep [OF Cons.prems(1)] by auto
qed

text \<open>Opening a closed gate lets every waiting coroutine through, in the order in which
  they came, and leaves the gate open with nobody waiting; the loop needs as many rounds as there
  are waiting coroutines. The owners of the resolved items must keep the queue representable.\<close>

theorem gate_open_correct:
  assumes "rq_rep (m_queue g) S []" "\<not> m_is_open g" "length S \<le> fuel"
    and "\<forall>x q T. rq_rep q T [] \<longrightarrow> rq_rep (owners x q) T []"
  shows "\<exists>g'. Open fuel owners g = Some g' \<and> m_is_open g' \<and> resolved g' = resolved g @ S \<and>
    rq_rep (m_queue g') [] [] \<and> (\<forall>x. Pass x g' = Some (False, g'))"
  using open_loop_correct [of owners g S fuel] assms by (force simp: Open_def Pass_def)

definition gate_with_two :: gate where
  "gate_with_two = \<lparr>m_is_open = False,
     m_queue = the (Enqueue 2 (new_item 2 (the (Enqueue 1 (new_item 1 empty_rqueue))))),
     resolved = []\<rparr>"

lemma gate_with_two_rep: "rq_rep (m_queue gate_with_two) [1, 2] []"
  by (simp add: gate_with_two_def rq_rep_def rq_ops new_item_def empty_rqueue_def)

theorem gate_open_correct_witness:
  "rq_rep (m_queue gate_with_two) [1, 2] [] \<and>
   (\<exists>g'. Open 2 (\<lambda>x q. q) gate_with_two = Some g' \<and> m_is_open g' \<and> resolved g' = [1, 2])"
proof -
  have "\<not> m_is_open gate_with_two" "resolved gate_with_two = []"
    by (simp_all add: gate_with_two_def)
  then show ?thesis
    using gate_open_correct [OF gate_with_two_rep, of 2 "\<lambda>x q. q"] gate_with_two_rep by auto
qed

text \<open>If the coroutines that wait at the gate end when they are let through, and with
  them their items, then opening the gate to two or more of them touches an item that is gone,
  whatever the number of rounds.\<close>

theorem gate_open_use_after_free:
  assumes "rq_rep (m_queue g) (x # y # S) []" "m_in_progress_head (m_queue g) = None"
  shows "Open fuel drop_item g = None"
proof (cases "m_is_open g")
  case True
  then show ?thesis by (simp add: Open_def)
next
  case False
  have r: "x \<in> rq_items (m_queue g)" "y \<in> rq_items (m_queue g)" "x \<noteq> y"
    "m_scheduled_head (m_queue g) = Some x" "rq_next (m_queue g) x = Some y"
    using assms(1) by (auto simp: rq_rep_def)
  have "open_loop fuel drop_item g = None"
  proof (cases fuel)
    case 0
    then show ?thesis using r by (simp add: NoScheduled_def)
  next
    case (Suc n)
    then show ?thesis using r assms(2) by (cases n) (auto simp: rq_ops drop_item_def)
  qed
  then show ?thesis by (simp add: Open_def)
qed

theorem gate_open_use_after_free_witness: "Open 2 drop_item gate_with_two = None"
proof -
  have "m_in_progress_head (m_queue gate_with_two) = None"
    by (simp add: gate_with_two_def rq_ops new_item_def empty_rqueue_def)
  with gate_open_use_after_free [OF gate_with_two_rep] show ?thesis by blast
qed

end
