(* ===== verification/Push_Endpoint.thy ===== *)
theory Push_Endpoint
  imports Resolution_Queue
begin

text \<open>
  \<open>PushQueueEndpoint\<close> (\<open>driver\<close>), through which transactions reach a driver that runs them on the
  threads that call \<open>Serve\<close>, \<open>Terminate\<close> or \<open>Join\<close>, and \<open>ResolutionMap\<close>
  (\<open>util/asynchronicity\<close>), the table of awaited results.

  The endpoint is a step relation: every critical section of its mutex is one step, and the steps
  of any number of threads interleave. \<open>ServeFront\<close> is two critical sections; between them the handler runs and the
  item is resolved, which lets its owner go on and destroy it. \<open>accepted\<close>,
  \<open>current\<close> and \<open>handled\<close> record the history. An item is named by its identity as an object, so a
  destroyed item does not come back.
\<close>

record endpoint =
  ep_queue :: rqueue
  m_transaction_in_progress :: bool
  m_is_alive :: bool
  accepted :: "nat list"
  current :: "nat option"
  handled :: "nat list"

definition new_endpoint :: endpoint where
  "new_endpoint = \<lparr>ep_queue = empty_rqueue, m_transaction_in_progress = False, m_is_alive = True,
     accepted = [], current = None, handled = []\<rparr>"

text \<open>\<open>LockForEnqueue\<close> and \<open>Enqueuer::Enqueue\<close>: one critical section; \<open>False\<close> when the endpoint was
  terminated.\<close>

definition LockForEnqueue :: "endpoint \<Rightarrow> bool" where
  "LockForEnqueue ep = m_is_alive ep"

definition EnqueueTransaction :: "nat \<Rightarrow> endpoint \<Rightarrow> (bool \<times> endpoint) option" where
  "EnqueueTransaction item ep =
     (if \<not> LockForEnqueue ep then Some (False, ep)
      else do { q \<leftarrow> Enqueue item (ep_queue ep);
                Some (True, ep\<lparr>ep_queue := q, accepted := accepted ep @ [item]\<rparr>) })"

definition serve_front_begin :: "endpoint \<Rightarrow> endpoint option" where
  "serve_front_begin ep =
     do { (_, q) \<leftarrow> StartNextScheduled (ep_queue ep);
          (x, q) \<leftarrow> PrepareToResolve q;
          Some (ep\<lparr>ep_queue := q, m_transaction_in_progress := True, current := Some x\<rparr>) }"

text \<open>The handler reads the item and \<open>Resolve\<close> stores its result in it.\<close>

definition serve_front_resolve :: "endpoint \<Rightarrow> endpoint option" where
  "serve_front_resolve ep =
     do { x \<leftarrow> current ep;
          assert_that (x \<in> rq_items (ep_queue ep));
          Some (ep\<lparr>current := None, handled := handled ep @ [x]\<rparr>) }"

definition serve_front_end :: "endpoint \<Rightarrow> endpoint" where
  "serve_front_end ep = ep\<lparr>m_transaction_in_progress := False\<rparr>"

text \<open>The owner of an item, a coroutine that has it as a local, goes on once the item is resolved and destroys it.\<close>

definition destroy_item :: "nat \<Rightarrow> endpoint \<Rightarrow> endpoint" where
  "destroy_item x ep = ep\<lparr>ep_queue := drop_item x (ep_queue ep)\<rparr>"

text \<open>What a thread inside \<open>Serve\<close> or \<open>Join\<close> does at the head of its loop: wait for a notification,
  serve the front of the queue, or return.\<close>

datatype server_move = WaitForUpdate | ServeFront | Return

definition Serve :: "endpoint \<Rightarrow> server_move" where
  "Serve ep =
     (if NoScheduled (ep_queue ep) then Return
      else if m_transaction_in_progress ep then WaitForUpdate
      else ServeFront)"

definition ServeEntry :: "bool \<Rightarrow> endpoint \<Rightarrow> server_move" where
  "ServeEntry wait_if_empty ep =
     (if wait_if_empty \<and> m_is_alive ep \<and> NoScheduled (ep_queue ep) then WaitForUpdate else Serve ep)"

definition Join :: "bool \<Rightarrow> endpoint \<Rightarrow> server_move" where
  "Join is_done ep =
     (if is_done then Return
      else if NoScheduled (ep_queue ep) \<or> m_transaction_in_progress ep then WaitForUpdate
      else ServeFront)"

definition Terminate :: "endpoint \<Rightarrow> endpoint" where
  "Terminate ep = ep\<lparr>m_is_alive := False\<rparr>"

text \<open>\<open>crowds\<close>: the transaction that would be started has another one scheduled behind it.\<close>

definition crowds :: "endpoint \<Rightarrow> bool" where
  "crowds ep =
     (case m_scheduled_head (ep_queue ep) of
        None \<Rightarrow> False
      | Some x \<Rightarrow> rq_next (ep_queue ep) x \<noteq> None)"

text \<open>The steps; the first argument of \<open>ep_run\<close> tells whether a transaction was ever started with another one
  behind it.\<close>

inductive ep_step :: "endpoint \<Rightarrow> bool \<Rightarrow> endpoint option \<Rightarrow> bool" where
  enqueue: "x \<notin> rq_items (ep_queue ep) \<Longrightarrow> x \<notin> set (accepted ep) \<Longrightarrow>
    ep_step ep False (map_option snd (EnqueueTransaction x (ep\<lparr>ep_queue := new_item x (ep_queue ep)\<rparr>)))"
| serve: "Serve ep = ServeFront \<or> Join False ep = ServeFront \<Longrightarrow> ep_step ep (crowds ep) (serve_front_begin ep)"
| resolve: "current ep \<noteq> None \<Longrightarrow> ep_step ep False (serve_front_resolve ep)"
| served: "m_transaction_in_progress ep \<Longrightarrow> current ep = None \<Longrightarrow> ep_step ep False (Some (serve_front_end ep))"
| destroy: "x \<in> set (handled ep) \<or> x \<notin> set (accepted ep) \<Longrightarrow> ep_step ep False (Some (destroy_item x ep))"
| terminated: "ep_step ep False (Some (Terminate ep))"

inductive ep_run :: "bool \<Rightarrow> endpoint option \<Rightarrow> bool" where
  start: "ep_run False (Some new_endpoint)"
| step: "ep_run crowded (Some ep) \<Longrightarrow> ep_step ep c r \<Longrightarrow> ep_run (crowded \<or> c) r"

inductive_cases ep_stepE: "ep_step ep c r"

subsection \<open>The invariant\<close>

text \<open>The queue with the items \<open>D\<close> back: destroyed items matter only where a link to them is left.\<close>

definition revive :: "nat set \<Rightarrow> rqueue \<Rightarrow> rqueue" where
  "revive D q = q\<lparr>rq_items := rq_items q \<union> D\<rparr>"

definition serving :: "endpoint \<Rightarrow> nat list" where
  "serving ep = (case current ep of None \<Rightarrow> [] | Some x \<Rightarrow> [x])"

definition ep_rep :: "bool \<Rightarrow> endpoint \<Rightarrow> nat list \<Rightarrow> bool" where
  "ep_rep crowded ep S \<longleftrightarrow>
     rq_rep (revive (set (handled ep)) (ep_queue ep)) S [] \<and>
     accepted ep = handled ep @ serving ep @ S \<and> distinct (accepted ep) \<and>
     set (serving ep @ S) \<subseteq> rq_items (ep_queue ep) \<and>
     (current ep \<noteq> None \<longrightarrow> m_transaction_in_progress ep) \<and>
     (\<not> NoInProgress (ep_queue ep) \<longrightarrow> crowded \<and> handled ep @ serving ep \<noteq> [] \<and>
        m_in_progress_last (ep_queue ep) = Some (last (handled ep @ serving ep)))"

text \<open>The condition under which the front can be started: no stale link, or one to an item that still exists.\<close>

definition startable :: "rqueue \<Rightarrow> bool" where
  "startable q \<longleftrightarrow> NoInProgress q \<or> (\<exists>l \<in> rq_items q. m_in_progress_last q = Some l)"

lemma start_front:
  assumes "rq_rep (revive D q) (x # S) []" "set (x # S) \<subseteq> rq_items q"
  shows "if startable q
    then \<exists>q' q''. StartNextScheduled q = Some (x, q') \<and> PrepareToResolve q' = Some (x, q'') \<and>
      rq_rep (revive D q'') S [] \<and> rq_items q'' = rq_items q \<and> m_in_progress_last q'' = Some x \<and>
      (NoInProgress q'' \<longleftrightarrow> S = [])
    else StartNextScheduled q = None"
proof -
  have r: "m_scheduled_head q = Some x" "rq_next q x = first S" "x \<in> rq_items q" "set S \<subseteq> rq_items q" "distinct (x # S)"
    "linked (rq_next q) S" "S \<noteq> [] \<Longrightarrow> m_scheduled_last q = Some (last S) \<and> rq_next q (last S) = None"
    using assms by (cases S; auto simp: rq_rep_def revive_def)+
  have ph: "m_in_progress_head q = Some x \<and> (\<exists>l. m_in_progress_last q = Some l \<and> l \<notin> set (x # S))" if "\<not> NoInProgress q"
    using assms that by (auto simp: rq_rep_def revive_def phantom_def NoInProgress_def)
  consider (clean) "NoInProgress q"
    | (live) l where "\<not> NoInProgress q" "m_in_progress_last q = Some l" "l \<in> rq_items q" "l \<notin> set (x # S)"
    | (gone) l where "\<not> NoInProgress q" "m_in_progress_last q = Some l" "l \<notin> rq_items q"
    using ph by blast
  then show ?thesis
  proof cases
    case clean
    then show ?thesis using r
      by (auto simp: startable_def rq_ops Let_def rq_rep_def revive_def phantom_def)
  next
    case live
    then have "linked ((rq_next q)(l \<mapsto> x)) S" using r(6) by (simp add: linked_upd_other)
    moreover have "S \<noteq> [] \<Longrightarrow> last S \<noteq> l" using live(4) by auto
    ultimately show ?thesis using live r ph
      by (auto simp: startable_def rq_ops Let_def rq_rep_def revive_def phantom_def)
  next
    case gone
    then show ?thesis using r by (auto simp: startable_def rq_ops Let_def)
  qed
qed

lemma serve_guard:
  "Serve ep = ServeFront \<or> Join False ep = ServeFront \<longleftrightarrow>
     \<not> NoScheduled (ep_queue ep) \<and> \<not> m_transaction_in_progress ep"
  by (auto simp: Serve_def Join_def)

lemma ep_rep_queue:
  assumes "ep_rep crowded ep S"
  shows "NoScheduled (ep_queue ep) \<longleftrightarrow> S = []" "crowds ep \<longleftrightarrow> 1 < length S"
proof -
  have s: "m_scheduled_head (ep_queue ep) = first S" "linked (rq_next (ep_queue ep)) S"
    "S \<noteq> [] \<Longrightarrow> rq_next (ep_queue ep) (last S) = None"
    using assms by (auto simp: ep_rep_def rq_rep_def revive_def)
  then show "NoScheduled (ep_queue ep) \<longleftrightarrow> S = []" by (simp add: NoScheduled_def)
  show "crowds ep \<longleftrightarrow> 1 < length S" using s by (cases S; cases "tl S") (auto simp: crowds_def)
qed

lemma enqueue_rep:
  assumes "ep_rep crowded ep S" "x \<notin> rq_items (ep_queue ep)" "x \<notin> set (accepted ep)"
  shows "\<exists>ep'. EnqueueTransaction x (ep\<lparr>ep_queue := new_item x (ep_queue ep)\<rparr>) = Some (m_is_alive ep, ep') \<and>
    ep_rep crowded ep' (if m_is_alive ep then S @ [x] else S)"
proof -
  let ?D = "set (handled ep)" and ?q = "ep_queue ep"
  have rep: "rq_rep (revive ?D ?q) S []" and x: "x \<notin> rq_items (revive ?D ?q)"
    using assms by (auto simp: ep_rep_def revive_def)
  note n = new_item_rep [OF rep x]
  have new: "new_item x (revive ?D ?q) = revive ?D (new_item x ?q)" by (auto simp: new_item_def revive_def)
  obtain q where q: "Enqueue x (revive ?D (new_item x ?q)) = Some q" "rq_rep q (S @ [x]) []"
    using rq.enqueue [OF n] new by auto
  have l: "m_scheduled_head ?q = first S" "S \<noteq> [] \<Longrightarrow> m_scheduled_last ?q = Some (last S) \<and> last S \<in> rq_items ?q"
    using assms(1) last_in_set [of S] by (auto simp: ep_rep_def rq_rep_def revive_def simp del: last_in_set)
  have "\<exists>q'. Enqueue x (new_item x ?q) = Some q' \<and> q = revive ?D q' \<and> rq_items q' = insert x (rq_items ?q) \<and>
      m_in_progress_head q' = m_in_progress_head ?q \<and> m_in_progress_last q' = m_in_progress_last ?q"
    using q(1) l by (cases "S = []") (auto simp: rq_ops revive_def new_item_def)
  with q(2) n(1) new assms show ?thesis
    by (cases "m_is_alive ep")
       (auto simp: EnqueueTransaction_def LockForEnqueue_def ep_rep_def serving_def NoInProgress_def new_item_def)
qed

lemma serve_begin_rep:
  assumes "ep_rep crowded ep (x # S)" "\<not> m_transaction_in_progress ep"
  shows "if startable (ep_queue ep)
    then \<exists>ep'. serve_front_begin ep = Some ep' \<and> ep_rep (crowded \<or> crowds ep) ep' S \<and> current ep' = Some x \<and>
      handled ep' = handled ep \<and> (NoInProgress (ep_queue ep') \<longleftrightarrow> S = [])
    else serve_front_begin ep = None"
proof -
  have c: "current ep = None" "serving ep = []" using assms by (auto simp: ep_rep_def serving_def)
  have r: "rq_rep (revive (set (handled ep)) (ep_queue ep)) (x # S) []" "set (x # S) \<subseteq> rq_items (ep_queue ep)"
    using assms c by (auto simp: ep_rep_def)
  show ?thesis
  proof (cases "startable (ep_queue ep)")
    case True
    with start_front [OF r] obtain q' q'' where q: "StartNextScheduled (ep_queue ep) = Some (x, q')"
      "PrepareToResolve q' = Some (x, q'')" "rq_rep (revive (set (handled ep)) q'') S []"
      "rq_items q'' = rq_items (ep_queue ep)" "m_in_progress_last q'' = Some x" "NoInProgress q'' \<longleftrightarrow> S = []" by auto
    have "crowds ep \<longleftrightarrow> S \<noteq> []" using ep_rep_queue [OF assms(1)] by auto
    with q c assms(1) True show ?thesis
      by (auto simp: serve_front_begin_def ep_rep_def serving_def)
  next
    case False
    with start_front [OF r] show ?thesis by (simp add: serve_front_begin_def)
  qed
qed

lemma resolve_rep:
  assumes "ep_rep crowded ep S" "current ep = Some x"
  shows "\<exists>ep'. serve_front_resolve ep = Some ep' \<and> ep_rep crowded ep' S \<and> handled ep' = handled ep @ [x] \<and>
    ep_queue ep' = ep_queue ep \<and> current ep' = None \<and> m_transaction_in_progress ep'"
proof -
  have "x \<in> rq_items (ep_queue ep)" using assms by (auto simp: ep_rep_def serving_def)
  then have "revive (set (handled ep @ [x])) (ep_queue ep) = revive (set (handled ep)) (ep_queue ep)"
    by (simp add: revive_def insert_absorb)
  with assms \<open>x \<in> _\<close> show ?thesis by (auto simp: serve_front_resolve_def ep_rep_def serving_def)
qed

lemma destroy_rep:
  assumes "ep_rep crowded ep S" "x \<in> set (handled ep) \<or> x \<notin> set (accepted ep)"
  shows "ep_rep crowded (destroy_item x ep) S"
proof -
  let ?q = "revive (set (handled ep)) (ep_queue ep)"
  have x: "x \<notin> set (serving ep @ S)" using assms by (auto simp: ep_rep_def)
  have h: "\<not> NoInProgress (ep_queue ep) \<Longrightarrow> m_in_progress_last (ep_queue ep) \<noteq> Some x" if "x \<notin> set (accepted ep)"
  proof -
    assume "\<not> NoInProgress (ep_queue ep)"
    then have "handled ep @ serving ep \<noteq> []" "m_in_progress_last (ep_queue ep) = Some (last (handled ep @ serving ep))"
      using assms(1) by (auto simp: ep_rep_def)
    then show ?thesis using last_in_set [of "handled ep @ serving ep"] that assms(1) by (auto simp: ep_rep_def)
  qed
  have "rq_rep (revive (set (handled ep)) (drop_item x (ep_queue ep))) S []"
  proof (cases "x \<in> set (handled ep)")
    case True
    then have "rq_items (ep_queue ep) - {x} \<union> set (handled ep) = rq_items (ep_queue ep) \<union> set (handled ep)" by auto
    then have "revive (set (handled ep)) (drop_item x (ep_queue ep)) = ?q" by (simp add: revive_def drop_item_def)
    then show ?thesis using assms(1) by (simp add: ep_rep_def)
  next
    case False
    then have "rq_items (ep_queue ep) - {x} \<union> set (handled ep) = rq_items (ep_queue ep) \<union> set (handled ep) - {x}" by auto
    then have e: "revive (set (handled ep)) (drop_item x (ep_queue ep)) = drop_item x ?q" by (simp add: revive_def drop_item_def)
    have n: "x \<notin> set (accepted ep)" using False assms(2) by simp
    have "m_in_progress_head ?q = m_in_progress_head (ep_queue ep)" "m_in_progress_last ?q = m_in_progress_last (ep_queue ep)"
      by (simp_all add: revive_def)
    then have "\<not> (stale_link ?q [] \<and> m_in_progress_last ?q = Some x)" using h [OF n] by (auto simp: stale_link_def NoInProgress_def)
    then show ?thesis using drop_item_rep(1) [of ?q S "[]" x] assms(1) x unfolding e by (auto simp: ep_rep_def)
  qed
  then show ?thesis using assms(1) x by (auto simp: ep_rep_def destroy_item_def drop_item_def serving_def NoInProgress_def)
qed

lemma ep_step_rep:
  assumes "ep_rep crowded ep S" "ep_step ep c r"
  shows "case r of
      Some ep' \<Rightarrow> \<exists>S'. ep_rep (crowded \<or> c) ep' S'
    | None \<Rightarrow> crowded"
  using assms(2)
proof (cases rule: ep_step.cases)
  case (enqueue x)
  then show ?thesis using enqueue_rep [OF assms(1), of x] by auto
next
  case serve
  then obtain x T where T: "S = x # T" "\<not> m_transaction_in_progress ep"
    using ep_rep_queue(1) [OF assms(1)] by (cases S) (auto simp: serve_guard)
  show ?thesis
  proof (cases "startable (ep_queue ep)")
    case True
    with serve_begin_rep [of crowded ep x T] T assms(1) serve show ?thesis by auto
  next
    case False
    then have "crowded" using assms(1) by (auto simp: startable_def ep_rep_def)
    with False serve_begin_rep [of crowded ep x T] T assms(1) serve show ?thesis by simp
  qed
next
  case resolve
  then obtain ep' where "serve_front_resolve ep = Some ep'" "ep_rep crowded ep' S" using resolve_rep [OF assms(1)] by blast
  then show ?thesis using resolve by auto
next
  case served
  then show ?thesis using assms(1) by (auto simp: serve_front_end_def ep_rep_def serving_def intro!: exI [of _ S])
next
  case (destroy x)
  then show ?thesis using destroy_rep [OF assms(1)] by auto
next
  case terminated
  then show ?thesis using assms(1) by (auto simp: Terminate_def ep_rep_def serving_def intro!: exI [of _ S])
qed

lemma ep_run_rep: "ep_run crowded r \<Longrightarrow> case r of Some ep \<Rightarrow> \<exists>S. ep_rep crowded ep S | None \<Rightarrow> crowded"
proof (induction rule: ep_run.induct)
  case start
  show ?case by (auto simp: new_endpoint_def ep_rep_def serving_def revive_def rq_rep_def empty_rqueue_def NoInProgress_def
        intro!: exI [of _ "[]"])
next
  case (step crowded ep c r)
  then obtain S where "ep_rep crowded ep S" by auto
  from ep_step_rep [OF this step.hyps(2)] show ?case by (auto split: option.splits)
qed


text \<open>A script of steps, to exhibit runs.\<close>

datatype ep_act = AEnqueue nat | AServe | AResolve | AServed | ADestroy nat

fun ep_act_step :: "ep_act \<Rightarrow> endpoint \<Rightarrow> endpoint option" where
  "ep_act_step (AEnqueue x) ep = map_option snd (EnqueueTransaction x (ep\<lparr>ep_queue := new_item x (ep_queue ep)\<rparr>))"
| "ep_act_step AServe ep = serve_front_begin ep"
| "ep_act_step AResolve ep = serve_front_resolve ep"
| "ep_act_step AServed ep = Some (serve_front_end ep)"
| "ep_act_step (ADestroy x) ep = Some (destroy_item x ep)"

fun ep_enabled :: "ep_act \<Rightarrow> endpoint \<Rightarrow> bool" where
  "ep_enabled (AEnqueue x) ep \<longleftrightarrow> x \<notin> rq_items (ep_queue ep) \<and> x \<notin> set (accepted ep)"
| "ep_enabled AServe ep \<longleftrightarrow> Serve ep = ServeFront"
| "ep_enabled AResolve ep \<longleftrightarrow> current ep \<noteq> None"
| "ep_enabled AServed ep \<longleftrightarrow> m_transaction_in_progress ep \<and> current ep = None"
| "ep_enabled (ADestroy x) ep \<longleftrightarrow> x \<in> set (handled ep)"

lemma ep_act_step: "ep_enabled a ep \<Longrightarrow> ep_step ep (a = AServe \<and> crowds ep) (ep_act_step a ep)"
  by (cases a) (auto intro: ep_step.intros)

fun ep_script :: "ep_act list \<Rightarrow> bool \<Rightarrow> endpoint \<Rightarrow> (bool \<times> endpoint option) option" where
  "ep_script [] c ep = Some (c, Some ep)"
| "ep_script (a # as) c ep =
     (if \<not> ep_enabled a ep then None
      else case ep_act_step a ep of
             None \<Rightarrow> if as = [] then Some (c \<or> a = AServe \<and> crowds ep, None) else None
           | Some ep' \<Rightarrow> ep_script as (c \<or> a = AServe \<and> crowds ep) ep')"

lemma ep_script_run:
  "ep_script as c ep = Some (c', r) \<Longrightarrow> ep_run c (Some ep) \<Longrightarrow> ep_run c' r"
proof (induction as c ep rule: ep_script.induct)
  case (2 a as c ep)
  then have "ep_enabled a ep" by (auto split: if_splits)
  with "2.prems"(2) have "ep_run (c \<or> a = AServe \<and> crowds ep) (ep_act_step a ep)"
    by (blast intro: ep_run.step ep_act_step)
  with 2 \<open>ep_enabled a ep\<close> show ?case by (auto split: option.splits if_splits)
qed simp

lemmas ep_script_simps = serve_front_begin_def serve_front_resolve_def serve_front_end_def destroy_item_def drop_item_def
  EnqueueTransaction_def LockForEnqueue_def Serve_def crowds_def new_endpoint_def new_item_def empty_rqueue_def rq_ops Let_def


text \<open>The condition is needed: two transactions are queued, the first is served and its owner destroys its item, and
  starting the second one writes to the destroyed item. \<open>DeferredByteStream::Execute\<close> is such an owner: the item is a
  local of the coroutine, which ends when it is resumed.\<close>

theorem endpoint_use_after_free:
  "ep_script [AEnqueue 1, AEnqueue 2, AServe, AResolve, ADestroy 1, AServed, AServe] False new_endpoint = Some (True, None)
   \<and> ep_run True None"
proof -
  have "ep_script [AEnqueue 1, AEnqueue 2, AServe, AResolve, ADestroy 1, AServed, AServe] False new_endpoint = Some (True, None)"
    by (simp add: ep_script_simps)
  then show ?thesis using ep_script_run ep_run.start by blast
qed

subsection \<open>The table of awaited results\<close>

record ('d, 'r) rm_item =
  rm_continuation :: task_state
  rm_result :: "'r option"
  rm_data :: 'd

definition RMEmplace ::
  "'al allocator \<Rightarrow> nat \<Rightarrow> nat \<Rightarrow> 'd \<Rightarrow> (('d, 'r) rm_item, 'al) bucket_map \<Rightarrow>
     (nat \<times> nat) option \<times> (('d, 'r) rm_item, 'al) bucket_map"
where
  "RMEmplace alloc N index d m =
     Emplace alloc N index \<lparr>rm_continuation = TaskInitial, rm_result = None, rm_data = d\<rparr> m"

text \<open>\<open>Resolve\<close>: \<open>False\<close> when there is no item. When there is one, its resolver stores the result
  and resumes the awaiting coroutine (second component), the item is erased, and control runs off
  the end of a function that should return a \<open>bool\<close>: the first component is \<open>None\<close>.\<close>

definition RMResolve ::
  "nat \<Rightarrow> nat \<Rightarrow> 'r \<Rightarrow> (('d, 'r) rm_item, 'al) bucket_map \<Rightarrow>
     bool option \<times> bool \<times> (('d, 'r) rm_item, 'al) bucket_map"
where
  "RMResolve N index r m =
     (case Get N index m of
        None \<Rightarrow> (Some False, False, m)
      | Some it \<Rightarrow> (None, rm_continuation it = Awaiter, Erase N index m))"

lemma RMResolve_found:
  assumes "bam_inv N m" "Get N index m = Some it"
  shows "fst (RMResolve N index r m) = None"
    and "Get N j (snd (snd (RMResolve N index r m))) = (if j = index then None else Get N j m)"
  using assms bam.get_erase [OF assms(1)] by (simp_all add: RMResolve_def)

end
