(* ===== verification/Vss_Layout.thy ===== *)
theory Vss_Layout
  imports Edr_Prelude
begin

text \<open>
  The variable-size structures of \<open>util/vss\<close>: objects followed by payloads whose size is only known
  at run time, laid out by \<open>Emplace\<close>, measured by \<open>SizeOf\<close>, found by \<open>Get\<close> and read back by
  \<open>Extract\<close>. Transactions, the tunnel's packets and all their strings and bit arrays are such
  structures.

  A C++ type together with the arguments that fix the sizes of its payload is a \<open>vobj\<close>: the size
  and alignment of its fixed part, whether it is an empty class, and its payload: none, a list of
  parts, or raw bytes (\<open>DependentArray\<close>, \<open>DependentBits\<close>, formatted text). The template recursion of
  the code is the recursion of the definitions, and template parameters are arguments.
\<close>

subsection \<open>Alignment\<close>

definition IsPo2 :: "u64 \<Rightarrow> bool" where
  "IsPo2 v = (v \<noteq> 0 \<and> v AND (v - 1) = 0)"

text \<open>The expression that every stream and every size computation uses.\<close>

definition Align :: "u64 \<Rightarrow> u64 \<Rightarrow> u64" where
  "Align a m_offset = (m_offset + (a - 1)) AND NOT (a - 1)"

text \<open>The same over the natural numbers, used by the layout below.\<close>

definition align_up :: "nat \<Rightarrow> nat \<Rightarrow> nat" where
  "align_up a n = (n + (a - 1)) div a * a"

lemma and_not_mask_u64:
  fixes x :: u64
  shows "unat (x AND NOT (mask k)) = unat x div 2 ^ k * 2 ^ k"
proof -
  have "unat x div 2 ^ k * 2 ^ k \<le> unat x" by (rule div_times_less_eq_dividend)
  then have lt: "unat x div 2 ^ k * 2 ^ k < 2 ^ 64" using unat_u64_less by (rule le_less_trans)
  have "x AND NOT (mask k) = push_bit k (drop_bit k x)"
    by (rule bit_word_eqI) (auto simp: bit_simps)
  then have "unat (x AND NOT (mask k)) = unat (push_bit k (drop_bit k x))" by (rule arg_cong)
  also have "\<dots> = take_bit 64 (push_bit k (drop_bit k (take_bit 64 (unat x))))"
    by (simp only: unsigned_push_bit_eq unsigned_drop_bit_eq) simp
  also have "\<dots> = take_bit 64 (unat x div 2 ^ k * 2 ^ k)"
    using unat_u64_less [of x] by (simp add: take_bit_nat_eq_self push_bit_eq_mult drop_bit_eq_div)
  also have "\<dots> = unat x div 2 ^ k * 2 ^ k" using lt by (rule take_bit_nat_eq_self)
  finally show ?thesis .
qed

lemma align_up_bounds:
  assumes "0 < a"
  shows "a dvd align_up a n" "n \<le> align_up a n" "align_up a n < n + a"
proof -
  show "a dvd align_up a n" by (simp add: align_up_def)
  have "(n + (a - 1)) div a * a + (n + (a - 1)) mod a = n + (a - 1)" by (rule div_mult_mod_eq)
  moreover have "(n + (a - 1)) mod a < a" using assms by simp
  ultimately show "n \<le> align_up a n" "align_up a n < n + a"
    unfolding align_up_def using assms by linarith+
qed

text \<open>For an alignment that is a power of two, \<open>Align\<close> computes the smallest multiple of
  the alignment that is not below the offset, unless the addition overflows 64 bits.\<close>

theorem Align_correct:
  assumes "k < 64" "unat x + (2 ^ k - 1) < 2 ^ 64"
  shows "unat (Align (2 ^ k) x) = align_up (2 ^ k) (unat x)
    \<and> 2 ^ k dvd unat (Align (2 ^ k) x) \<and> unat x \<le> unat (Align (2 ^ k) x)
    \<and> unat (Align (2 ^ k) x) < unat x + 2 ^ k"
proof -
  have m: "(2 ^ k - 1 :: u64) = mask k" by (simp add: mask_eq_exp_minus_1)
  have "unat (mask k :: u64) = mask k"
    using assms(1) by (intro bit_eqI) (auto simp: bit_simps)
  then have "unat (mask k :: u64) = 2 ^ k - 1" by (simp add: mask_eq_exp_minus_1)
  then have "unat (x + mask k) = unat x + (2 ^ k - 1)"
    using assms(2) by (simp add: unat_word_ariths)
  then have "unat (Align (2 ^ k) x) = align_up (2 ^ k) (unat x)"
    by (simp add: Align_def m and_not_mask_u64 align_up_def)
  with align_up_bounds [of "2 ^ k" "unat x"] show ?thesis by simp
qed

theorem Align_correct_witness:
  "unat (Align (2 ^ 3) 13) = align_up (2 ^ 3) (unat (13 :: u64)) \<and> align_up 8 13 = 16"
  using Align_correct [of 3 13] by (simp add: align_up_def)

subsection \<open>Objects and their layout\<close>

datatype vobj = VObj (v_size: nat) (v_align: nat) (v_empty: bool) (v_payload: vpayload)
  and vpayload = NoPayload | Raw nat | Parts "vobj list"

text \<open>\<open>ComputeMaxAlignment\<close>; \<open>v_align\<close> is the custom alignment of a type without a payload that has
  one.\<close>

fun ComputeMaxAlignment :: "vobj \<Rightarrow> nat" where
  "ComputeMaxAlignment (VObj s a e NoPayload) = a"
| "ComputeMaxAlignment (VObj s a e (Raw n)) = a"
| "ComputeMaxAlignment (VObj s a e (Parts ps)) = fold max (map ComputeMaxAlignment ps) a"

text \<open>\<open>GetPayloadAlignment\<close>: raw payloads and empty part lists have no parts.\<close>

fun GetPayloadAlignment :: "nat \<Rightarrow> vpayload \<Rightarrow> nat" where
  "GetPayloadAlignment default_alignment NoPayload = default_alignment"
| "GetPayloadAlignment default_alignment (Raw n) = 1"
| "GetPayloadAlignment default_alignment (Parts []) = 1"
| "GetPayloadAlignment default_alignment (Parts (p # ps)) = ComputeMaxAlignment p"

text \<open>\<open>GetPartAlignment\<close> of the part after the current one.\<close>

definition next_part_alignment :: "nat \<Rightarrow> vobj list \<Rightarrow> nat" where
  "next_part_alignment default_alignment rest =
     (case rest of [] \<Rightarrow> default_alignment | q # _ \<Rightarrow> ComputeMaxAlignment q)"

text \<open>\<open>EmplaceImpl\<close> as the offset it leaves the stream at, and \<open>Payload::Emplace\<close>. The stream the
  payload sees pads every allocation to \<open>post_alignment\<close>.\<close>

fun EmplaceImpl :: "nat \<Rightarrow> vobj \<Rightarrow> nat \<Rightarrow> nat"
  and PayloadEmplace :: "nat \<Rightarrow> vobj list \<Rightarrow> nat \<Rightarrow> nat" where
  "EmplaceImpl post_alignment (VObj s a e p) offset =
     (let offset' = (if e then offset
                     else offset + align_up (GetPayloadAlignment post_alignment p) s)
      in case p of
           NoPayload \<Rightarrow> offset'
         | Raw n \<Rightarrow> offset' + align_up post_alignment n
         | Parts ps \<Rightarrow> PayloadEmplace post_alignment ps offset')"
| "PayloadEmplace alignment [] offset = offset"
| "PayloadEmplace alignment (p # ps) offset =
     PayloadEmplace alignment ps (EmplaceImpl (next_part_alignment alignment ps) p offset)"

text \<open>\<open>SizeOf\<close> and \<open>Payload::Size\<close>: \<open>None\<close> is \<open>std::nullopt\<close>, the object does not fit.\<close>

fun SizeOf :: "nat \<Rightarrow> vobj \<Rightarrow> nat \<Rightarrow> nat option"
  and PayloadSize :: "vobj list \<Rightarrow> nat \<Rightarrow> nat option" where
  "SizeOf post_alignment (VObj s a e p) max_size =
     do { (total, max_size) \<leftarrow>
            (if e then Some (0, max_size)
             else let aligned_size = align_up (GetPayloadAlignment post_alignment p) s
                  in if max_size < aligned_size then None
                     else Some (aligned_size, max_size - aligned_size));
          case p of
            NoPayload \<Rightarrow> Some total
          | Raw n \<Rightarrow>
              (let aligned_size = align_up post_alignment n
               in if max_size < aligned_size then None else Some (total + aligned_size))
          | Parts ps \<Rightarrow>
              do { payload_size \<leftarrow> PayloadSize ps max_size;
                   let aligned_size = align_up post_alignment payload_size;
                   if max_size < aligned_size then None else Some (total + aligned_size) } }"
| "PayloadSize [] max_size = Some 0"
| "PayloadSize (p # ps) max_size =
     do { sz \<leftarrow> SizeOf (next_part_alignment 1 ps) p max_size;
          rest \<leftarrow> PayloadSize ps (max_size - sz);
          Some (sz + rest) }"

text \<open>The offset of part \<open>i\<close> that \<open>Get\<close> computes; the sizes of the parts before it are assumed to
  exist.\<close>

fun get_parts :: "nat \<Rightarrow> vobj list \<Rightarrow> nat \<Rightarrow> nat option" where
  "get_parts i [] sofar = None"
| "get_parts 0 (p # ps) sofar = Some sofar"
| "get_parts (Suc i) (p # ps) sofar =
     do { sz \<leftarrow> SizeOf (next_part_alignment 1 ps) p (2 ^ 64 - 1);
          get_parts i ps (sofar + sz) }"

definition Get :: "nat \<Rightarrow> vobj \<Rightarrow> nat option" where
  "Get i ob =
     (case v_payload ob of
        Parts ps \<Rightarrow>
          get_parts i ps
            (if v_empty ob then 0 else align_up (GetPayloadAlignment 1 (v_payload ob)) (v_size ob))
      | _ \<Rightarrow> None)"

subsection \<open>Streams\<close>

text \<open>A contiguous stream is an offset from a start that is aligned for everything. \<open>Emplace\<close>
  returns the position of the object and leaves the stream behind it; for an object with a payload
  it first measures the layout with a \<open>CountingStream\<close>. \<open>g\<close> is the stream's \<open>g_alignment\<close>.\<close>

definition align_stream :: "nat \<Rightarrow> vobj \<Rightarrow> nat \<Rightarrow> nat" where
  "align_stream g ob offset =
     (if g < ComputeMaxAlignment ob then align_up (ComputeMaxAlignment ob) offset else offset)"

definition StreamEmplace :: "nat \<Rightarrow> vobj \<Rightarrow> nat \<Rightarrow> nat \<times> nat" where
  "StreamEmplace g ob offset =
     (let pos = align_stream g ob offset in
      if v_payload ob = NoPayload
      then if v_empty ob then (pos, pos) else (pos, pos + align_up g (v_size ob))
      else (pos, pos + EmplaceImpl g ob 0))"

text \<open>\<open>Extract\<close> from a stream of \<open>m_size\<close> bytes: \<open>None\<close> is \<open>nullptr\<close>.\<close>

definition StreamExtract :: "nat \<Rightarrow> nat \<Rightarrow> vobj \<Rightarrow> nat \<Rightarrow> (nat \<times> nat) option" where
  "StreamExtract g m_size ob offset =
     (let pos = align_stream g ob offset in
      do { sz \<leftarrow> SizeOf g ob (m_size - pos); Some (pos, pos + sz) })"

fun emplace_all :: "nat \<Rightarrow> vobj list \<Rightarrow> nat \<Rightarrow> nat list \<times> nat" where
  "emplace_all g [] offset = ([], offset)"
| "emplace_all g (ob # obs) offset =
     (let (pos, offset') = StreamEmplace g ob offset; (ps, end) = emplace_all g obs offset'
      in (pos # ps, end))"

fun extract_all :: "nat \<Rightarrow> nat \<Rightarrow> vobj list \<Rightarrow> nat \<Rightarrow> (nat list \<times> nat) option" where
  "extract_all g m_size [] offset = Some ([], offset)"
| "extract_all g m_size (ob # obs) offset =
     do { (pos, offset') \<leftarrow> StreamExtract g m_size ob offset;
          (ps, end) \<leftarrow> extract_all g m_size obs offset';
          Some (pos # ps, end) }"

subsection \<open>Strings, bit arrays, variants\<close>

text \<open>\<open>DependentArray<T>\<close> and \<open>DependentBits<T>\<close> are empty classes with raw payloads.\<close>

definition DependentArray :: "nat \<Rightarrow> nat \<Rightarrow> nat \<Rightarrow> vobj" where
  "DependentArray sizeof_T alignof_T num_items = VObj 0 alignof_T True (Raw (sizeof_T * num_items))"

definition GetNumBytes :: "nat \<Rightarrow> nat \<Rightarrow> nat" where
  "GetNumBytes sizeof_T num_bits = align_up (8 * sizeof_T) num_bits div 8"

definition DependentBits :: "nat \<Rightarrow> nat \<Rightarrow> nat \<Rightarrow> vobj" where
  "DependentBits sizeof_T alignof_T num_bits = VObj 0 alignof_T True (Raw (GetNumBytes sizeof_T num_bits))"

definition String :: "nat \<Rightarrow> vobj" where
  "String len = VObj 4 4 False (Parts [DependentArray 1 1 len])"

text \<open>A variant with a 32-bit discriminant and the option \<open>ob\<close>: written as an \<open>Option\<close>, or copied
  from another variant as raw bytes behind a gap.\<close>

definition VariantOption :: "vobj \<Rightarrow> vobj" where
  "VariantOption ob = VObj 4 4 False (Parts [ob])"

definition AsOffset :: "vobj \<Rightarrow> nat" where
  "AsOffset ob = max (ComputeMaxAlignment ob) 4"

definition misalignment :: "vobj \<Rightarrow> nat" where
  "misalignment ob =
     (if ComputeMaxAlignment ob \<le> 4 then 0 else ComputeMaxAlignment ob - 4)"

definition VariantCopy :: "vobj \<Rightarrow> vobj option" where
  "VariantCopy ob =
     do { n \<leftarrow> SizeOf 1 ob (2 ^ 64 - 1); Some (VObj 4 4 False (Raw (misalignment ob + n))) }"

definition VariantSizeOfPayload :: "vobj \<Rightarrow> nat \<Rightarrow> nat option" where
  "VariantSizeOfPayload ob max_size =
     (if max_size < misalignment ob then None
      else do { n \<leftarrow> SizeOf 1 ob (max_size - misalignment ob); Some (misalignment ob + n) })"

text \<open>The sequential discriminant of an option is its index; \<open>Visit\<close> calls the visitor for the
  first option with the discriminant, if there is one.\<close>

fun SequentialDiscriminant :: "'o \<Rightarrow> 'o list \<Rightarrow> nat \<Rightarrow> nat option" where
  "SequentialDiscriminant ob [] counter = None"
| "SequentialDiscriminant ob (h # rest) counter =
     (if h = ob then Some counter else SequentialDiscriminant ob rest (Suc counter))"

fun ForOption :: "('o \<Rightarrow> 'd) \<Rightarrow> 'o list \<Rightarrow> 'd \<Rightarrow> 'o option" where
  "ForOption getter [] d = None"
| "ForOption getter (h # rest) d = (if getter h = d then Some h else ForOption getter rest d)"

subsection \<open>Alignments are powers of two\<close>

definition po2 :: "nat \<Rightarrow> bool" where
  "po2 a \<longleftrightarrow> (\<exists>k. a = 2 ^ k)"

lemma po2_pos: "po2 a \<Longrightarrow> 0 < a"
  by (auto simp: po2_def)

lemma align_up_add:
  assumes "0 < a" "a dvd m"
  shows "align_up a (m + n) = m + align_up a n"
proof -
  obtain q where q: "m = a * q" using assms(2) by (auto simp: dvd_def)
  have "(a * q + z) div a = q + z div a" for z using assms(1) by simp
  from this [of "n + (a - 1)"] show ?thesis
    unfolding align_up_def q by (simp add: add.assoc distrib_left mult.commute)
qed

lemma align_up_1 [simp]: "align_up (Suc 0) n = n"
  by (simp add: align_up_def)

lemma align_up_0 [simp]: "0 < a \<Longrightarrow> align_up a 0 = 0"
  by (simp add: align_up_def)

lemma align_up_idem: "0 < a \<Longrightarrow> a dvd n \<Longrightarrow> align_up a n = n"
  using align_up_add [of a n 0] by simp

subsection \<open>Measuring what was laid out\<close>

lemma vobj_induct [case_names NoPayload Raw Parts]:
  assumes "\<And>s a e. P (VObj s a e NoPayload)" "\<And>s a e n. P (VObj s a e (Raw n))"
    and "\<And>s a e ps. (\<And>p. p \<in> set ps \<Longrightarrow> P p) \<Longrightarrow> P (VObj s a e (Parts ps))"
  shows "P ob"
proof -
  have "P ob \<and> (\<forall>s a e. P (VObj s a e pl))" for pl
    by (rule vobj_vpayload.induct [where ?P1.0 = P and ?P2.0 = "\<lambda>pl. \<forall>s a e. P (VObj s a e pl)"])
       (use assms in auto)
  then show ?thesis by simp
qed

lemma PayloadEmplace_offset_aux:
  assumes "\<And>p post off. p \<in> set ps \<Longrightarrow> EmplaceImpl post p off = off + EmplaceImpl post p 0"
  shows "PayloadEmplace post ps off = off + PayloadEmplace post ps 0"
  using assms
proof (induction ps arbitrary: off)
  case Nil
  show ?case by simp
next
  case (Cons p ps)
  let ?n = "next_part_alignment post ps"
  have "PayloadEmplace post ps x = x + PayloadEmplace post ps 0" for x
    by (rule Cons.IH) (auto intro: Cons.prems)
  from this [of "EmplaceImpl ?n p off"] this [of "EmplaceImpl ?n p 0"] Cons.prems [of p ?n off]
  show ?case by simp
qed

lemma EmplaceImpl_offset: "EmplaceImpl post ob off = off + EmplaceImpl post ob 0"
proof (induction ob arbitrary: post off rule: vobj_induct)
  case (Parts s a e ps)
  have p: "PayloadEmplace post ps x = x + PayloadEmplace post ps 0" for x
    by (rule PayloadEmplace_offset_aux) (rule Parts)
  show ?case
    by (simp add: p [of off] p [of "off + _"] p [of "align_up _ _"])
qed simp_all

lemma PayloadEmplace_offset: "PayloadEmplace post ps off = off + PayloadEmplace post ps 0"
  by (rule PayloadEmplace_offset_aux) (rule EmplaceImpl_offset)

text \<open>The size of a layout, without the position it is at.\<close>

definition esize :: "nat \<Rightarrow> vobj \<Rightarrow> nat" where
  "esize post ob = EmplaceImpl post ob 0"

definition psize :: "nat \<Rightarrow> vobj list \<Rightarrow> nat" where
  "psize post ps = PayloadEmplace post ps 0"

definition hsize :: "nat \<Rightarrow> vobj \<Rightarrow> nat" where
  "hsize post ob =
     (if v_empty ob then 0 else align_up (GetPayloadAlignment post (v_payload ob)) (v_size ob))"

lemma esize_simps [simp]:
  "esize post (VObj s a e NoPayload) = hsize post (VObj s a e NoPayload)"
  "esize post (VObj s a e (Raw n)) = hsize post (VObj s a e (Raw n)) + align_up post n"
  "esize post (VObj s a e (Parts ps)) = hsize post (VObj s a e (Parts ps)) + psize post ps"
  using PayloadEmplace_offset [of post ps "align_up (GetPayloadAlignment post (Parts ps)) s"]
  by (simp_all add: esize_def hsize_def psize_def)

lemma psize_simps [simp]:
  "psize post [] = 0"
  "psize post (p # ps) = esize (next_part_alignment post ps) p + psize post ps"
  using PayloadEmplace_offset [of post ps "EmplaceImpl (next_part_alignment post ps) p 0"]
  by (simp_all add: esize_def psize_def)

text \<open>A layout is regular for an alignment when everything that precedes its last allocation ends
  at a multiple of that alignment, at every level.\<close>

fun regular :: "nat \<Rightarrow> vobj \<Rightarrow> bool" and regular_parts :: "nat \<Rightarrow> vobj list \<Rightarrow> bool" where
  "regular post (VObj s a e p) =
     (po2 post \<and>
      (case p of
         NoPayload \<Rightarrow> True
       | Raw n \<Rightarrow> post dvd hsize post (VObj s a e p)
       | Parts ps \<Rightarrow> post dvd hsize post (VObj s a e p) \<and> regular_parts post ps))"
| "regular_parts post [] = True"
| "regular_parts post (p # ps) =
     (regular (next_part_alignment post ps) p \<and> regular_parts post ps \<and>
      (ps \<noteq> [] \<longrightarrow> post dvd esize (next_part_alignment post ps) p))"

lemma next_part_alignment_Cons: "ps \<noteq> [] \<Longrightarrow> next_part_alignment x ps = next_part_alignment y ps"
  by (cases ps) (simp_all add: next_part_alignment_def)

lemma psize_align_aux:
  assumes "\<And>p post. p \<in> set ps \<Longrightarrow> regular post p \<Longrightarrow> align_up post (esize 1 p) = esize post p"
    and "regular_parts post ps" "po2 post"
  shows "align_up post (psize 1 ps) = psize post ps"
  using assms
proof (induction ps)
  case Nil
  then show ?case by (simp add: po2_pos)
next
  case (Cons p ps)
  show ?case
  proof (cases "ps = []")
    case True
    then show ?thesis using Cons.prems by (simp add: next_part_alignment_def)
  next
    case False
    have IH: "align_up post (psize 1 ps) = psize post ps"
      by (rule Cons.IH) (use Cons.prems in auto)
    have "post dvd esize (next_part_alignment 1 ps) p"
      using Cons.prems(2) False by (simp add: next_part_alignment_Cons [OF False, of "Suc 0" post])
    then have "align_up post (psize 1 (p # ps)) =
        esize (next_part_alignment 1 ps) p + align_up post (psize 1 ps)"
      using Cons.prems(3) by (simp add: align_up_add po2_pos)
    then show ?thesis using IH by (simp add: next_part_alignment_Cons [OF False, of "Suc 0" post])
  qed
qed

lemma hsize_payload: "p \<noteq> NoPayload \<Longrightarrow> hsize post (VObj s a e p) = hsize x (VObj s a e p)"
  by (cases "(x, p)" rule: GetPayloadAlignment.cases) (simp_all add: hsize_def)

text \<open>Padding the unpadded layout is the padded layout.\<close>

lemma esize_align: "regular post ob \<Longrightarrow> align_up post (esize 1 ob) = esize post ob"
proof (induction ob arbitrary: post rule: vobj_induct)
  case (NoPayload s a e)
  then show ?case by (auto simp: hsize_def po2_pos)
next
  case (Raw s a e n)
  then show ?case
    using hsize_payload [of "Raw n" post s a e 1] by (simp add: align_up_add po2_pos)
next
  case (Parts s a e ps)
  then show ?case
    using hsize_payload [of "Parts ps" post s a e 1] psize_align_aux [of ps post]
    by (simp add: align_up_add po2_pos)
qed

lemma regular_1_aux:
  assumes "\<And>p post. p \<in> set ps \<Longrightarrow> regular post p \<Longrightarrow> regular 1 p" "regular_parts post ps"
  shows "regular_parts 1 ps"
  using assms
proof (induction ps)
  case (Cons p ps)
  have "regular_parts 1 ps" by (rule Cons.IH) (use Cons.prems in auto)
  moreover have "regular (next_part_alignment 1 ps) p"
    using Cons.prems(1) [of p post] Cons.prems(2)
    by (cases ps) (auto simp: next_part_alignment_def)
  ultimately show ?case by simp
qed simp

lemma po2_1 [simp]: "po2 (Suc 0)"
  unfolding po2_def by (rule exI [of _ 0]) simp

lemma regular_1: "regular post ob \<Longrightarrow> regular 1 ob"
proof (induction ob arbitrary: post rule: vobj_induct)
  case (Parts s a e ps)
  have "regular_parts 1 ps" by (rule regular_1_aux [of ps post]) (use Parts in auto)
  then show ?case by simp
qed simp_all

lemma esize_1_le: "regular post ob \<Longrightarrow> esize 1 ob \<le> esize post ob"
  using esize_align [of post ob] align_up_bounds(2) [of post "esize 1 ob"]
  by (cases ob) (auto simp: po2_pos)

lemma PayloadSize_aux:
  assumes "\<And>p post mx. p \<in> set ps \<Longrightarrow> regular post p \<Longrightarrow>
      SizeOf post p mx = (if esize post p \<le> mx then Some (esize post p) else None)"
    and "regular_parts 1 ps"
  shows "PayloadSize ps mx = (if psize 1 ps \<le> mx then Some (psize 1 ps) else None)"
  using assms
proof (induction ps arbitrary: mx)
  case (Cons p ps)
  have "PayloadSize ps x = (if psize 1 ps \<le> x then Some (psize 1 ps) else None)" for x
    by (rule Cons.IH) (use Cons.prems in auto)
  moreover have "SizeOf (next_part_alignment 1 ps) p mx =
      (if esize (next_part_alignment 1 ps) p \<le> mx then Some (esize (next_part_alignment 1 ps) p)
       else None)"
    using Cons.prems by simp
  ultimately show ?case by auto
qed simp

text \<open>\<open>SizeOf\<close> measures what \<open>EmplaceImpl\<close> laid out, and says no exactly when it does not fit.\<close>

lemma SizeOf_esize:
  "regular post ob \<Longrightarrow>
   SizeOf post ob mx = (if esize post ob \<le> mx then Some (esize post ob) else None)"
proof (induction ob arbitrary: post mx rule: vobj_induct)
  case (NoPayload s a e)
  show ?case by (auto simp: hsize_def Let_def)
next
  case (Raw s a e n)
  show ?case by (auto simp: hsize_def Let_def)
next
  case (Parts s a e ps)
  have r: "regular_parts 1 ps"
    using regular_1 [OF Parts.prems] by simp
  have size: "PayloadSize ps x = (if psize 1 ps \<le> x then Some (psize 1 ps) else None)" for x
    by (rule PayloadSize_aux) (use Parts.IH r in auto)
  have al: "align_up post (psize 1 ps) = psize post ps"
    using psize_align_aux [of ps post] esize_align Parts.prems by simp
  have "psize 1 ps \<le> psize post ps"
    using align_up_bounds(2) [of post "psize 1 ps"] Parts.prems al by (simp add: po2_pos)
  with size al show ?case
    by (auto simp: hsize_def Let_def)
qed

text \<open>Where \<open>Payload::Emplace\<close> puts each part.\<close>

fun part_offsets :: "nat \<Rightarrow> vobj list \<Rightarrow> nat \<Rightarrow> nat list" where
  "part_offsets alignment [] offset = []"
| "part_offsets alignment (p # ps) offset =
     offset # part_offsets alignment ps (EmplaceImpl (next_part_alignment alignment ps) p offset)"

lemma length_part_offsets [simp]: "length (part_offsets al ps off) = length ps"
  by (induction ps arbitrary: off) simp_all

lemma get_parts_offsets:
  assumes "regular_parts post ps" "psize post ps \<le> 2 ^ 64 - 1" "i < length ps"
  shows "get_parts i ps off = Some (part_offsets post ps off ! i)"
  using assms
proof (induction ps arbitrary: i off)
  case (Cons p ps)
  show ?case
  proof (cases i)
    case (Suc j)
    then have ps: "ps \<noteq> []" using Cons.prems(3) by auto
    note n = next_part_alignment_Cons [OF ps, of "Suc 0" post]
    have "SizeOf (next_part_alignment post ps) p (2 ^ 64 - 1) =
        Some (esize (next_part_alignment post ps) p)"
      using Cons.prems(1,2) SizeOf_esize [of "next_part_alignment post ps" p "2 ^ 64 - 1"] by simp
    moreover have "EmplaceImpl (next_part_alignment post ps) p off =
        off + esize (next_part_alignment post ps) p"
      unfolding esize_def by (rule EmplaceImpl_offset)
    ultimately show ?thesis
      using Suc Cons.IH [of j] Cons.prems n by simp
  qed simp
qed simp

subsection \<open>Properties\<close>



lemma StreamEmplace_esize:
  "StreamEmplace g ob off = (align_stream g ob off, align_stream g ob off + esize g ob)"
  by (cases ob) (auto simp: StreamEmplace_def esize_def Let_def hsize_def)

lemma emplace_all_mono:
  "emplace_all g obs off = (ps, e) \<Longrightarrow>
   \<forall>ob \<in> set obs. regular g ob \<and> po2 (ComputeMaxAlignment ob) \<Longrightarrow> off \<le> e"
proof (induction obs arbitrary: off ps)
  case (Cons ob obs)
  obtain ps' where "emplace_all g obs (align_stream g ob off + esize g ob) = (ps', e)"
    using Cons.prems(1) by (auto simp: StreamEmplace_esize Let_def split: prod.splits)
  from Cons.IH [OF this] Cons.prems(2)
  have "align_stream g ob off + esize g ob \<le> e" by simp
  moreover have "off \<le> align_stream g ob off"
    using Cons.prems(2) align_up_bounds(2) [of "ComputeMaxAlignment ob" off]
    by (auto simp: align_stream_def po2_pos)
  ultimately show ?case by simp
qed simp

lemma extract_all_emplaced:
  assumes "\<forall>ob \<in> set obs. regular g ob \<and> po2 (ComputeMaxAlignment ob)"
    and "emplace_all g obs offset = (positions, end)" "end \<le> m_size"
  shows "extract_all g m_size obs offset = Some (positions, end)"
  using assms
proof (induction obs arbitrary: offset positions)
  case (Cons ob obs)
  let ?pos = "align_stream g ob offset"
  obtain ps where ps: "emplace_all g obs (?pos + esize g ob) = (ps, end)" "positions = ?pos # ps"
    using Cons.prems(2) by (auto simp: StreamEmplace_esize Let_def split: prod.splits)
  have "?pos + esize g ob \<le> end" using emplace_all_mono [OF ps(1)] Cons.prems(1) by simp
  then have "StreamExtract g m_size ob offset = Some (?pos, ?pos + esize g ob)"
    using Cons.prems(1,3) by (simp add: StreamExtract_def SizeOf_esize Let_def)
  moreover have "extract_all g m_size obs (?pos + esize g ob) = Some (ps, end)"
    using Cons.IH [OF _ ps(1)] Cons.prems(1,3) by simp
  ultimately show ?case using ps(2) by simp
qed simp

lemma extract_emplace_all:
  assumes "\<forall>ob \<in> set obs. regular g ob \<and> po2 (ComputeMaxAlignment ob)"
  shows "extract_all g (snd (emplace_all g obs offset)) obs offset = Some (emplace_all g obs offset)"
  using extract_all_emplaced [OF assms, of offset] by (cases "emplace_all g obs offset") simp

text \<open>What is emplaced one after the other is extracted one after the other: reading a
  stream of exactly the written length gives every object back at its position and ends where the
  writing ended.\<close>

theorem Extract_Emplace_roundtrip:
  assumes "\<forall>ob \<in> set obs. regular g ob \<and> po2 (ComputeMaxAlignment ob)"
    and "emplace_all g obs offset = (positions, end)" "end \<le> m_size"
  shows "extract_all g m_size obs offset = Some (positions, end)"
  using assms by (rule extract_all_emplaced)

theorem Extract_Emplace_roundtrip_witness:
  "regular 4 (String 5) \<and> po2 (ComputeMaxAlignment (String 5)) \<and>
   regular 4 (String 2) \<and> po2 (ComputeMaxAlignment (String 2)) \<and>
   extract_all 4 20 [String 5, String 2] 0 = Some ([0, 12], 20)"
proof -
  have "regular 4 (String n)" for n
    by (auto simp: String_def DependentArray_def hsize_def po2_def align_up_def
        next_part_alignment_def intro: exI [of _ 2])
  moreover have "po2 (ComputeMaxAlignment (String n))" for n
    by (auto simp: String_def DependentArray_def po2_def intro: exI [of _ 2])
  ultimately have r: "\<forall>ob \<in> set [String 5, String 2]. regular 4 ob \<and> po2 (ComputeMaxAlignment ob)"
    by simp
  have "emplace_all 4 [String 5, String 2] 0 = ([0, 12], 20)" by code_simp
  from Extract_Emplace_roundtrip [OF r this, of 20] r show ?thesis by simp
qed

text \<open>The two ways to write a variant put the option where \<open>As\<close> looks for it.\<close>

lemma align_up_4:
  assumes "po2 a"
  shows "align_up a 4 = max a 4"
proof -
  obtain k where k: "a = 2 ^ k" using assms by (auto simp: po2_def)
  show ?thesis
  proof (cases "k \<le> 2")
    case True
    then have "k = 0 \<or> k = 1 \<or> k = 2" by auto
    then show ?thesis by (auto simp: k align_up_def)
  next
    case False
    then have "(2 :: nat) ^ 3 \<le> 2 ^ k" by (intro power_increasing) auto
    then have le: "8 \<le> a" by (simp add: k)
    then have "(4 + (a - 1)) div a = 1" by (intro div_nat_eqI) auto
    with le show ?thesis by (simp add: align_up_def)
  qed
qed

lemma Variant_As:
  assumes "po2 (ComputeMaxAlignment ob)"
  shows "Get 0 (VariantOption ob) = Some (AsOffset ob)"
    and "VariantCopy ob = Some w \<Longrightarrow> hsize 4 w + misalignment ob = AsOffset ob"
  using assms
  by (auto simp: Get_def VariantOption_def AsOffset_def align_up_4 VariantCopy_def hsize_def
      misalignment_def split: Option.bind_splits)

text \<open>A string in front of an object with a larger alignment is not regular: the code pads the
  characters, not the string, so the next object is placed at a misaligned offset.\<close>

lemma string_misaligns_next:
  "Get 1 (VObj 8 8 False (Parts [String 5, VObj 8 8 False NoPayload])) = Some 20"
  by (simp add: Get_def String_def DependentArray_def next_part_alignment_def align_up_def)

end
