(* ===== verification/Vss_Streams.thy ===== *)
theory Vss_Streams
  imports Vss_Layout
begin

text \<open>
  The streams of \<open>util/vss/VSS.hpp\<close> as they are written: offsets of 64 bits that wrap around, the counting stream that
  measures an object, the contiguous streams over memory, and the wrappers that pad every step. \<open>Emplace\<close> makes two passes over
  an object: it counts, allocates, and writes. That the second pass stays inside what the first has measured is shown here, on
  the sequence of allocations that \<open>EmplaceImpl\<close> makes.
\<close>

subsection \<open>Streams\<close>

text \<open>\<open>CountingStream\<close> is its offset.\<close>

definition Counting_Align :: "u64 \<Rightarrow> u64 \<Rightarrow> u64" where
  "Counting_Align a m_offset = Align a m_offset"

definition Counting_Allocate :: "u64 \<Rightarrow> u64 \<Rightarrow> u64 \<times> u64" where
  "Counting_Allocate n m_offset = (m_offset, m_offset + n)"

text \<open>\<open>ContiguousOutputStream\<close>: an allocation also gives the address.\<close>

record out_stream =
  m_start :: u64
  m_offset :: u64

definition Out_Align :: "u64 \<Rightarrow> out_stream \<Rightarrow> out_stream" where
  "Out_Align a s = s\<lparr>m_offset := Align a (m_offset s)\<rparr>"

definition Out_Allocate :: "u64 \<Rightarrow> out_stream \<Rightarrow> (u64 \<times> u64) \<times> out_stream" where
  "Out_Allocate n s = ((m_offset s, m_start s + m_offset s), s\<lparr>m_offset := m_offset s + n\<rparr>)"

text \<open>\<open>ContiguousInputStream\<close>.\<close>

record in_stream =
  i_start :: u64
  i_size :: u64
  i_offset :: u64

definition In_Align :: "u64 \<Rightarrow> in_stream \<Rightarrow> in_stream" where
  "In_Align a s = s\<lparr>i_offset := Align a (i_offset s)\<rparr>"

definition In_Get :: "in_stream \<Rightarrow> u64" where
  "In_Get s = i_start s + i_offset s"

definition In_NumContiguousAhead :: "in_stream \<Rightarrow> u64" where
  "In_NumContiguousAhead s = i_size s - i_offset s"

definition In_Advance :: "u64 \<Rightarrow> in_stream \<Rightarrow> in_stream" where
  "In_Advance n s = s\<lparr>i_offset := i_offset s + n\<rparr>"

text \<open>\<open>AligningOutputStream\<close> and \<open>AligningInputStream\<close> round the size of a step up.\<close>

definition aligned_size :: "u64 \<Rightarrow> u64 \<Rightarrow> u64" where
  "aligned_size a n = (n + (a - 1)) AND NOT (a - 1)"

definition Aligning_Allocate :: "('s \<Rightarrow> u64 \<Rightarrow> 'p \<times> 's) \<Rightarrow> u64 \<Rightarrow> u64 \<Rightarrow> 's \<Rightarrow> 'p \<times> 's" where
  "Aligning_Allocate allocate a n s = allocate s (aligned_size a n)"

definition Aligning_Advance :: "('s \<Rightarrow> u64 \<Rightarrow> 's) \<Rightarrow> u64 \<Rightarrow> u64 \<Rightarrow> 's \<Rightarrow> 's" where
  "Aligning_Advance advance a n s = advance s (aligned_size a n)"

subsection \<open>The allocations of an object\<close>

text \<open>The sizes that \<open>EmplaceImpl\<close> and \<open>Payload::Emplace\<close> ask for, each with the alignment it is padded to.\<close>

fun allocations :: "nat \<Rightarrow> vobj \<Rightarrow> (nat \<times> nat) list"
  and payload_allocations :: "nat \<Rightarrow> vobj list \<Rightarrow> (nat \<times> nat) list" where
  "allocations post_alignment (VObj s a e p) =
     (if e then [] else [(GetPayloadAlignment post_alignment p, s)]) @
     (case p of
        NoPayload \<Rightarrow> []
      | Raw n \<Rightarrow> [(post_alignment, n)]
      | Parts ps \<Rightarrow> payload_allocations post_alignment ps)"
| "payload_allocations alignment [] = []"
| "payload_allocations alignment (p # ps) =
     allocations (next_part_alignment alignment ps) p @ payload_allocations alignment ps"

lemma allocations_EmplaceImpl:
  "EmplaceImpl post ob offset = offset + sum_list (map (\<lambda>(a, n). align_up a n) (allocations post ob))"
  "PayloadEmplace post ps offset = offset + sum_list (map (\<lambda>(a, n). align_up a n) (payload_allocations post ps))"
proof (induction post ob offset and post ps offset rule: EmplaceImpl_PayloadEmplace.induct)
  case (1 post s a e p offset)
  then show ?case by (cases p) (auto simp: Let_def)
qed simp_all

text \<open>The calls of \<open>Allocate\<close> through the wrappers, and what they return.\<close>

fun run_allocations :: "('s \<Rightarrow> u64 \<Rightarrow> 'p \<times> 's) \<Rightarrow> (nat \<times> nat) list \<Rightarrow> 's \<Rightarrow> 'p list \<times> 's" where
  "run_allocations allocate [] s = ([], s)"
| "run_allocations allocate ((a, n) # rest) s =
     (case Aligning_Allocate allocate (of_nat a) (of_nat n) s of
        (p, s) \<Rightarrow> (case run_allocations allocate rest s of (ps, s) \<Rightarrow> (p # ps, s)))"

text \<open>\<open>Emplace\<close> for an object with a payload, given the address that the stream below allocates: the measured size, and
  the offsets and addresses that the second pass writes to.\<close>

definition EmplacePasses :: "nat \<Rightarrow> vobj \<Rightarrow> (u64 \<Rightarrow> u64) \<Rightarrow> u64 \<times> (u64 \<times> u64) list" where
  "EmplacePasses g ob allocate_below =
     (let total_size = snd (run_allocations (\<lambda>s n. Counting_Allocate n s) (allocations g ob) 0);
          ptr = allocate_below total_size
      in (total_size, fst (run_allocations (\<lambda>s n. Out_Allocate n s) (allocations g ob) \<lparr>m_start = ptr, m_offset = 0\<rparr>)))"

subsection \<open>The contract of an output stream\<close>

definition padded :: "(nat \<times> nat) list \<Rightarrow> u64" where
  "padded prog = sum_list (map (\<lambda>(a, n). aligned_size (of_nat a) (of_nat n)) prog)"

locale output_stream =
  fixes allocate :: "'s \<Rightarrow> u64 \<Rightarrow> 'p \<times> 's" and tell :: "'s \<Rightarrow> u64" and pos_of :: "'p \<Rightarrow> u64"
  assumes tell_allocate: "tell (snd (allocate s n)) = tell s + n"
    and pos_allocate: "pos_of (fst (allocate s n)) = tell s"
begin

lemma run_tell: "tell (snd (run_allocations allocate prog s)) = tell s + padded prog"
proof (induction prog arbitrary: s)
  case (Cons x prog)
  obtain a n where x: "x = (a, n)" by fastforce
  obtain p s1 where s1: "allocate s (aligned_size (of_nat a) (of_nat n)) = (p, s1)" by fastforce
  then have "tell s1 = tell s + aligned_size (of_nat a) (of_nat n)" using tell_allocate [of s] by (metis snd_conv)
  then show ?case
    using Cons [of s1] x s1 by (auto simp: Aligning_Allocate_def padded_def add.assoc split: prod.splits)
qed (simp add: padded_def)

lemma run_positions:
  "map pos_of (fst (run_allocations allocate prog s)) = map (\<lambda>i. tell s + padded (take i prog)) [0..<length prog]"
proof (induction prog arbitrary: s)
  case (Cons x prog)
  obtain a n where x: "x = (a, n)" by fastforce
  obtain p s1 where s1: "allocate s (aligned_size (of_nat a) (of_nat n)) = (p, s1)" by fastforce
  then have t: "tell s1 = tell s + aligned_size (of_nat a) (of_nat n)" "pos_of p = tell s"
    using tell_allocate [of s] pos_allocate [of s] by (metis snd_conv, metis fst_conv)
  have "map (\<lambda>i. tell s + padded (take i (x # prog))) [0..<length (x # prog)] =
      tell s # map (\<lambda>i. tell s1 + padded (take i prog)) [0..<length prog]"
    unfolding length_Cons upt_conv_Cons [OF zero_less_Suc] map_Suc_upt [symmetric]
    by (simp add: x t(1) padded_def)
  moreover obtain ps s2 where "run_allocations allocate prog s1 = (ps, s2)" by fastforce
  ultimately show ?case using Cons [of s1] x s1 t(2) by (simp add: Aligning_Allocate_def del: upt.simps)
qed simp

end

interpretation counting: output_stream "\<lambda>s n. Counting_Allocate n s" "\<lambda>s. s" "\<lambda>p. p"
  by unfold_locales (simp_all add: Counting_Allocate_def)

interpretation contiguous: output_stream "\<lambda>s n. Out_Allocate n s" m_offset fst
  by unfold_locales (simp_all add: Out_Allocate_def)

subsection \<open>The second pass stays inside the first\<close>

text \<open>Alignments are powers of two, as the code asserts, and far below the range of offsets.\<close>

definition sane :: "nat \<Rightarrow> vobj \<Rightarrow> bool" where
  "sane g ob \<longleftrightarrow> (\<forall>(a, n) \<in> set (allocations g ob). po2 a \<and> a \<le> 2 ^ 32) \<and> EmplaceImpl g ob 0 < 2 ^ 63"

lemma aligned_size_nat:
  assumes "po2 a" "a \<le> 2 ^ 32" "align_up a n < 2 ^ 63"
  shows "aligned_size (of_nat a) (of_nat n) = of_nat (align_up a n)"
proof -
  obtain k where k: "a = 2 ^ k" using assms(1) by (auto simp: po2_def)
  have "k \<le> 32"
  proof (rule ccontr)
    assume "\<not> k \<le> 32"
    then have "(2 :: nat) ^ 32 < 2 ^ k" by (intro power_strict_increasing) simp_all
    then show False using assms(2) k by simp
  qed
  have "n \<le> align_up a n" using align_up_bounds(2) po2_pos [OF assms(1)] by blast
  then have n: "n < 2 ^ 63" using assms(3) by simp
  then have un: "unat (of_nat n :: u64) = n" by (simp add: unat_of_nat take_bit_nat_eq_self)
  have "unat (of_nat n :: u64) + (2 ^ k - 1) < 2 ^ 64" using un n k assms(2) by simp
  from Align_correct [OF _ this] have "unat (Align (2 ^ k) (of_nat n)) = align_up a n" using \<open>k \<le> 32\<close> un k by simp
  moreover have "aligned_size (of_nat a) (of_nat n) = Align (2 ^ k) (of_nat n)" by (simp add: aligned_size_def Align_def k)
  moreover have "of_nat (unat (Align (2 ^ k) (of_nat n))) = Align (2 ^ k) (of_nat n)" by simp
  ultimately show ?thesis by metis
qed

lemma padded_nat:
  assumes "\<forall>(a, n) \<in> set prog. po2 a \<and> a \<le> 2 ^ 32" "sum_list (map (\<lambda>(a, n). align_up a n) prog) < 2 ^ 63"
  shows "padded prog = of_nat (sum_list (map (\<lambda>(a, n). align_up a n) prog))"
  using assms
proof (induction prog)
  case (Cons x prog)
  obtain a n where x: "x = (a, n)" by fastforce
  have "align_up a n < 2 ^ 63" "sum_list (map (\<lambda>(a, n). align_up a n) prog) < 2 ^ 63" using Cons.prems(2) x by simp_all
  then show ?case using Cons aligned_size_nat [of a n] x by (simp add: padded_def)
qed (simp add: padded_def)

lemma out_addresses:
  "list_all (\<lambda>(off, p). p = m_start s + off) (fst (run_allocations (\<lambda>s n. Out_Allocate n s) prog s))"
proof (induction prog arbitrary: s)
  case (Cons x prog)
  obtain a n where x: "x = (a, n)" by fastforce
  let ?s1 = "s\<lparr>m_offset := m_offset s + aligned_size (of_nat a) (of_nat n)\<rparr>"
  obtain ps s2 where r: "run_allocations (\<lambda>s n. Out_Allocate n s) prog ?s1 = (ps, s2)" by fastforce
  have "list_all (\<lambda>(off, p). p = m_start s + off) ps" using Cons [of ?s1] r by simp
  then show ?case using x r by (simp add: Aligning_Allocate_def Out_Allocate_def)
qed simp

lemma sum_list_take_le: "sum_list (take i xs) \<le> sum_list (xs :: nat list)"
  by (metis append_take_drop_id le_add1 sum_list_append)

lemma sum_take_Suc: "i < length xs \<Longrightarrow> sum_list (map f (take (Suc i) xs)) = sum_list (map f (take i xs)) + (f (xs ! i) :: nat)"
  by (simp add: take_Suc_conv_app_nth)

text \<open>Property C39: \<open>Emplace\<close> writes an object inside the memory that it has allocated for it. The counting pass measures the size of
  the layout; every piece that the second pass constructs lies within the allocated bytes, behind the piece before it, at the
  address that belongs to its offset.\<close>

theorem emplace_inside_allocation:
  assumes "sane g ob" "EmplacePasses g ob allocate_below = (total_size, writes)"
  shows "unat total_size = EmplaceImpl g ob 0 \<and> length writes = length (allocations g ob)
    \<and> (\<forall>i < length writes. snd (writes ! i) = allocate_below total_size + fst (writes ! i)
        \<and> unat (fst (writes ! i)) + snd (allocations g ob ! i) \<le> unat total_size)
    \<and> (\<forall>i. Suc i < length writes \<longrightarrow>
        unat (fst (writes ! i)) + snd (allocations g ob ! i) \<le> unat (fst (writes ! Suc i)))"
proof -
  let ?prog = "allocations g ob" and ?f = "\<lambda>(a, n). align_up a n"
  let ?sum = "\<lambda>i. sum_list (map ?f (take i ?prog))"
  have ok: "\<forall>(a, n) \<in> set ?prog. po2 a \<and> a \<le> 2 ^ 32" and total: "sum_list (map ?f ?prog) = EmplaceImpl g ob 0" "EmplaceImpl g ob 0 < 2 ^ 63"
    using assms(1) allocations_EmplaceImpl(1) [of g ob 0] by (simp_all add: sane_def)
  have le: "?sum i \<le> EmplaceImpl g ob 0" for i
    using sum_list_take_le [of i "map ?f ?prog"] total(1) by (simp add: take_map)
  have pad: "unat (padded (take i ?prog)) = ?sum i" for i
  proof -
    have "\<forall>(a, n) \<in> set (take i ?prog). po2 a \<and> a \<le> 2 ^ 32" using ok by (meson in_set_takeD)
    then have "padded (take i ?prog) = of_nat (?sum i)" using le [of i] total(2) by (intro padded_nat) simp_all
    then show ?thesis using le [of i] total(2) by (simp add: unat_of_nat take_bit_nat_eq_self)
  qed
  have t: "total_size = padded ?prog" using assms(2) counting.run_tell [of ?prog 0] by (simp add: EmplacePasses_def Let_def)
  have ut: "unat total_size = EmplaceImpl g ob 0" using pad [of "length ?prog"] total(1) t by simp
  have w: "writes = fst (run_allocations (\<lambda>s n. Out_Allocate n s) ?prog \<lparr>m_start = allocate_below total_size, m_offset = 0\<rparr>)"
    using assms(2) by (auto simp: EmplacePasses_def Let_def)
  have pos: "map fst writes = map (\<lambda>i. padded (take i ?prog)) [0..<length ?prog]"
    using contiguous.run_positions [of ?prog "\<lparr>m_start = allocate_below total_size, m_offset = 0\<rparr>"] w by simp
  from arg_cong [OF pos, of length] have len: "length writes = length ?prog" by simp
  have off: "unat (fst (writes ! i)) = ?sum i" if "i < length writes" for i
  proof -
    have "fst (writes ! i) = map fst writes ! i" using that by simp
    also have "\<dots> = padded (take i ?prog)" using pos that len by simp
    finally show ?thesis using pad by simp
  qed
  have step: "?sum i + snd (?prog ! i) \<le> ?sum (Suc i)" if "i < length writes" for i
  proof -
    obtain a n where an: "?prog ! i = (a, n)" by fastforce
    then have "po2 a" using ok that len nth_mem by fastforce
    then have "n \<le> align_up a n" using align_up_bounds(2) po2_pos by blast
    then show ?thesis using sum_take_Suc [of i ?prog ?f] that len an by simp
  qed
  have addr: "snd (writes ! i) = allocate_below total_size + fst (writes ! i)" if "i < length writes" for i
  proof -
    have "list_all (\<lambda>(off, p). p = allocate_below total_size + off) writes"
      using out_addresses [of "\<lparr>m_start = allocate_below total_size, m_offset = 0\<rparr>" ?prog, folded w] by simp
    then have "(\<lambda>(off, p). p = allocate_below total_size + off) (writes ! i)" using that by (simp add: list_all_length)
    then show ?thesis by (cases "writes ! i") simp
  qed
  have inside: "unat (fst (writes ! i)) + snd (?prog ! i) \<le> unat total_size" if "i < length writes" for i
    using off [OF that] step [OF that] le [of "Suc i"] ut by linarith
  have next_piece: "unat (fst (writes ! i)) + snd (?prog ! i) \<le> unat (fst (writes ! Suc i))" if "Suc i < length writes" for i
    using off [of i] off [OF that] step [of i] that by linarith
  show ?thesis using ut len addr inside next_piece by blast
qed

theorem emplace_inside_allocation_witness:
  "sane 4 (String 5) \<and> allocations 4 (String 5) = [(1, 4), (4, 5)] \<and>
   unat (fst (EmplacePasses 4 (String 5) (\<lambda>n. 1000))) = 12"
proof -
  have a: "allocations 4 (String 5) = [(1, 4), (4, 5)]"
    by (simp add: String_def DependentArray_def next_part_alignment_def)
  have e: "EmplaceImpl 4 (String 5) 0 = 12" using allocations_EmplaceImpl(1) [of 4 "String 5" 0] a by (simp add: align_up_def)
  have "po2 1" "po2 4" unfolding po2_def by (rule exI [of _ 0], simp, rule exI [of _ 2], simp)
  then have s: "sane 4 (String 5)" by (simp add: sane_def a e)
  obtain t ws where "EmplacePasses 4 (String 5) (\<lambda>n. 1000) = (t, ws)" by fastforce
  then show ?thesis using emplace_inside_allocation [OF s] a e s by simp
qed

subsection \<open>Reading\<close>

text \<open>\<open>Extract\<close> from a contiguous stream: the address of the object.\<close>

definition In_Extract :: "nat \<Rightarrow> vobj \<Rightarrow> in_stream \<Rightarrow> (u64 \<times> in_stream) option" where
  "In_Extract g ob s =
     (let s = (if g < ComputeMaxAlignment ob then In_Align (of_nat (ComputeMaxAlignment ob)) s else s)
      in do { sz \<leftarrow> SizeOf g ob (unat (In_NumContiguousAhead s)); Some (In_Get s, In_Advance (of_nat sz) s) })"

text \<open>While the aligned offset is inside the stream, this is \<open>StreamExtract\<close>. Behind the end, the number of bytes ahead wraps
  around, and an object is found where there are no bytes.\<close>

lemma In_Extract_inside:
  assumes "po2 (ComputeMaxAlignment ob)" "ComputeMaxAlignment ob \<le> 2 ^ 32"
    and "align_stream g ob (unat (i_offset s)) \<le> unat (i_size s)" "unat (i_size s) < 2 ^ 63"
  shows "map_option (\<lambda>(p, s'). p) (In_Extract g ob s) =
    map_option (\<lambda>(pos, end). i_start s + of_nat pos) (StreamExtract g (unat (i_size s)) ob (unat (i_offset s)))"
proof -
  let ?a = "ComputeMaxAlignment ob"
  define s' where "s' = (if g < ?a then In_Align (of_nat ?a) s else s)"
  have off: "unat (i_offset s') = align_stream g ob (unat (i_offset s))"
  proof (cases "g < ?a")
    case True
    then have "align_up ?a (unat (i_offset s)) < 2 ^ 63" using assms(3,4) by (simp add: align_stream_def)
    then have "aligned_size (of_nat ?a) (of_nat (unat (i_offset s))) = of_nat (align_up ?a (unat (i_offset s)))"
      using aligned_size_nat [OF assms(1,2)] by blast
    then have "i_offset s' = of_nat (align_up ?a (unat (i_offset s)))"
      using True by (simp add: s'_def In_Align_def Align_def aligned_size_def)
    then show ?thesis
      using True \<open>align_up ?a (unat (i_offset s)) < 2 ^ 63\<close> by (simp add: align_stream_def unat_of_nat take_bit_nat_eq_self)
  qed (simp add: s'_def align_stream_def)
  have same: "i_size s' = i_size s" "i_start s' = i_start s" by (simp_all add: s'_def In_Align_def)
  have "unat (In_NumContiguousAhead s') = unat (i_size s) - align_stream g ob (unat (i_offset s))"
    using off same assms(3) by (simp add: In_NumContiguousAhead_def unat_sub word_le_nat_alt)
  moreover have "of_nat (align_stream g ob (unat (i_offset s))) = i_offset s'" using off by (metis of_nat_unat ucast_id)
  ultimately show ?thesis
    using same by (cases "SizeOf g ob (unat (In_NumContiguousAhead s'))")
      (simp_all add: In_Extract_def StreamExtract_def Let_def In_Get_def flip: s'_def)
qed

theorem extract_past_end:
  "In_Extract 4 (VObj 8 8 False NoPayload) \<lparr>i_start = 1000, i_size = 4, i_offset = 4\<rparr> =
     Some (1008, \<lparr>i_start = 1000, i_size = 4, i_offset = 16\<rparr>)"
proof -
  have "unat (- 4 :: u64) = 18446744073709551612" by simp
  then show ?thesis
    by (simp add: In_Extract_def In_Align_def Align_def In_NumContiguousAhead_def In_Get_def In_Advance_def align_up_def)
qed

end
