(* ===== verification/Transaction_Buffer.thy ===== *)
theory Transaction_Buffer
  imports Vss_Layout
begin

text \<open>
  \<open>TransactionBuffer\<close> (\<open>driver/TransactionBuffer.hpp\<close>): the growing store of a transaction's
  actions, a chain of chunks each of which starts with a header. The chain is the list of its
  chunks, \<open>m_tail\<close> is the index of the chunk being filled (\<open>None\<close> is \<open>nullptr\<close>); after \<open>Clear\<close> the
  chunks stay for reuse. Offsets count from the start of a chunk. The memory resource is the
  parameter \<open>alloc\<close>, which says whether a chunk of a size can be had, and \<open>dealloc\<close>; \<open>N\<close> is the
  template parameter \<open>t_min_chunk_size\<close>.
\<close>

record chunk =
  total_size :: nat
  allocated :: nat

record 'r buffer =
  m_res :: 'r
  chunks :: "chunk list"
  m_tail :: "nat option"
  m_offset :: nat
  m_had_allocation_failure :: bool

type_synonym position = "nat option \<times> nat"

definition g_initial_offset :: nat where
  "g_initial_offset = 32"

definition g_alignment :: nat where
  "g_alignment = 4"

definition new_buffer :: "'r \<Rightarrow> 'r buffer" where
  "new_buffer r = \<lparr>m_res = r, chunks = [], m_tail = None, m_offset = g_initial_offset,
     m_had_allocation_failure = False\<rparr>"

definition MoveBuffer :: "'r buffer \<Rightarrow> 'r buffer \<times> 'r buffer" where
  "MoveBuffer from = (from, from\<lparr>chunks := []\<rparr>)"

text \<open>\<open>DeleteFrom\<close> a chunk of the chain returns it and everything behind it.\<close>

definition DeleteFrom :: "(nat \<Rightarrow> 'r \<Rightarrow> 'r) \<Rightarrow> nat \<Rightarrow> 'r buffer \<Rightarrow> 'r buffer" where
  "DeleteFrom dealloc c b =
     b\<lparr>m_res := fold (\<lambda>ch r. dealloc (total_size ch) r) (drop c (chunks b)) (m_res b),
       chunks := take c (chunks b)\<rparr>"

definition DestroyBuffer :: "(nat \<Rightarrow> 'r \<Rightarrow> 'r) \<Rightarrow> 'r buffer \<Rightarrow> 'r buffer" where
  "DestroyBuffer dealloc b = DeleteFrom dealloc 0 b"

text \<open>Move assignment: the target, the source, and the resource of the overwritten buffer.\<close>

definition AssignBuffer ::
  "(nat \<Rightarrow> 'r \<Rightarrow> 'r) \<Rightarrow> 'r buffer \<Rightarrow> 'r buffer \<Rightarrow> 'r buffer \<times> 'r buffer \<times> 'r" where
  "AssignBuffer dealloc to from =
     (from, from\<lparr>chunks := []\<rparr>, m_res (DeleteFrom dealloc 0 to))"

definition Clear :: "'r buffer \<Rightarrow> 'r buffer" where
  "Clear b = b\<lparr>m_tail := None, m_offset := g_initial_offset\<rparr>"

text \<open>The chunk \<open>c\<close> becomes the tail, empty.\<close>

definition reuse_chunk :: "nat \<Rightarrow> 'r buffer \<Rightarrow> 'r buffer" where
  "reuse_chunk c b =
     b\<lparr>chunks := (chunks b)[c := (chunks b ! c)\<lparr>allocated := g_initial_offset\<rparr>],
       m_tail := Some c, m_offset := g_initial_offset\<rparr>"

text \<open>\<open>make_chunk\<close>, appended to the chain as its new tail.\<close>

definition append_chunk ::
  "(nat \<Rightarrow> 'r \<Rightarrow> bool \<times> 'r) \<Rightarrow> nat \<Rightarrow> 'r buffer \<Rightarrow> bool \<times> 'r buffer" where
  "append_chunk alloc sz b =
     (case alloc sz (m_res b) of (ok, r) \<Rightarrow>
        if ok then
          (True, b\<lparr>m_res := r,
                   chunks := chunks b @ [\<lparr>total_size = sz, allocated = g_initial_offset\<rparr>],
                   m_tail := Some (length (chunks b)), m_offset := g_initial_offset\<rparr>)
        else (False, b\<lparr>m_res := r, m_had_allocation_failure := True\<rparr>))"

definition GoToNextChunk ::
  "(nat \<Rightarrow> 'r \<Rightarrow> bool \<times> 'r) \<Rightarrow> (nat \<Rightarrow> 'r \<Rightarrow> 'r) \<Rightarrow> nat \<Rightarrow> nat \<Rightarrow> 'r buffer \<Rightarrow> bool \<times> 'r buffer"
where
  "GoToNextChunk alloc dealloc N min_data_size b =
     (let sz = max (g_initial_offset + min_data_size) N;
          nxt = (case m_tail b of None \<Rightarrow> 0 | Some t \<Rightarrow> Suc t)
      in if nxt < length (chunks b) then
           if sz \<le> total_size (chunks b ! nxt) then (True, reuse_chunk nxt b)
           else append_chunk alloc sz (DeleteFrom dealloc nxt b)
         else append_chunk alloc sz b)"

definition Allocate ::
  "(nat \<Rightarrow> 'r \<Rightarrow> bool \<times> 'r) \<Rightarrow> (nat \<Rightarrow> 'r \<Rightarrow> 'r) \<Rightarrow> nat \<Rightarrow> nat \<Rightarrow> 'r buffer \<Rightarrow> position \<times> 'r buffer"
where
  "Allocate alloc dealloc N n b =
     (let (ok, b) =
            (case m_tail b of
               Some t \<Rightarrow>
                 if m_offset b + n \<le> total_size (chunks b ! t) then (True, b)
                 else GoToNextChunk alloc dealloc N n b
             | None \<Rightarrow> GoToNextChunk alloc dealloc N n b)
      in case (ok, m_tail b) of
           (True, Some t) \<Rightarrow>
             ((Some t, m_offset b),
              b\<lparr>m_offset := m_offset b + n,
                chunks := (chunks b)[t := (chunks b ! t)\<lparr>allocated := m_offset b + n\<rparr>]\<rparr>)
         | _ \<Rightarrow> ((None, g_initial_offset), b))"

text \<open>\<open>Align\<close> moves the end of the tail chunk; \<open>None\<close> is the failed assertion.\<close>

definition AlignBuffer :: "nat \<Rightarrow> 'r buffer \<Rightarrow> 'r buffer option" where
  "AlignBuffer a b =
     (let offset = align_up a (m_offset b); b' = b\<lparr>m_offset := offset\<rparr>
      in case m_tail b of
           None \<Rightarrow> Some b'
         | Some t \<Rightarrow>
             do { assert_that (offset \<le> total_size (chunks b ! t));
                  Some (b'\<lparr>chunks := (chunks b)[t := (chunks b ! t)\<lparr>allocated := offset\<rparr>]\<rparr>) })"

definition Begin :: "'r buffer \<Rightarrow> position" where
  "Begin b = (if m_tail b = None then None else Some 0, g_initial_offset)"

definition End :: "'r buffer \<Rightarrow> position" where
  "End b = (m_tail b, m_offset b)"

text \<open>\<open>Distance\<close> and \<open>FromDistance\<close> count bytes of data; the subtractions and the addition of
  \<open>FromDistance\<close> wrap around at 64 bits.\<close>

fun distance_loop :: "chunk list \<Rightarrow> nat \<Rightarrow> nat option \<Rightarrow> nat" where
  "distance_loop [] i target = 0"
| "distance_loop (c # cs) i target =
     (if Some i = target then 0
      else (allocated c - g_initial_offset) + distance_loop cs (Suc i) target)"

definition Distance :: "position \<Rightarrow> 'r buffer \<Rightarrow> nat" where
  "Distance pos b = distance_loop (chunks b) 0 (fst pos) + snd pos - g_initial_offset"

definition add64 :: "nat \<Rightarrow> nat \<Rightarrow> nat" where
  "add64 x y = (x + y) mod 2 ^ 64"

definition sub64 :: "nat \<Rightarrow> nat \<Rightarrow> nat" where
  "sub64 x y = (x + 2 ^ 64 - y) mod 2 ^ 64"

fun from_distance_loop :: "chunk list \<Rightarrow> nat \<Rightarrow> nat option \<Rightarrow> nat \<Rightarrow> position" where
  "from_distance_loop [] i tail distance = (None, add64 distance g_initial_offset)"
| "from_distance_loop (c # cs) i tail distance =
     (if Some i \<noteq> tail \<and> allocated c - g_initial_offset \<le> distance
      then from_distance_loop cs (Suc i) tail (sub64 distance (allocated c))
      else (Some i, add64 distance g_initial_offset))"

definition FromDistance :: "nat \<Rightarrow> 'r buffer \<Rightarrow> position" where
  "FromDistance distance b =
     (if chunks b = [] then (None, g_initial_offset)
      else from_distance_loop (chunks b) 0 (m_tail b) distance)"

text \<open>\<open>ForEachChunk\<close>: the chunks it visits, with the number of data bytes of each.\<close>

definition ForEachChunk :: "'r buffer \<Rightarrow> (nat \<times> nat) list" where
  "ForEachChunk b =
     (case m_tail b of
        None \<Rightarrow> []
      | Some t \<Rightarrow> map (\<lambda>i. (i, allocated (chunks b ! i) - g_initial_offset)) [0..<Suc t])"

subsection \<open>Reading\<close>

text \<open>An input stream is a chunk and an offset; the chunk must exist.\<close>

record input_stream =
  is_chunk :: nat
  is_offset :: nat

definition From :: "position \<Rightarrow> input_stream option" where
  "From pos = do { c \<leftarrow> fst pos; Some \<lparr>is_chunk = c, is_offset = snd pos\<rparr> }"

definition Tell :: "input_stream \<Rightarrow> position" where
  "Tell s = (Some (is_chunk s), is_offset s)"

definition NumContiguousAhead :: "'r buffer \<Rightarrow> input_stream \<Rightarrow> nat" where
  "NumContiguousAhead b s = sub64 (allocated (chunks b ! is_chunk s)) (is_offset s)"

definition Advance :: "'r buffer \<Rightarrow> nat \<Rightarrow> input_stream \<Rightarrow> input_stream" where
  "Advance b n s =
     (let offset = is_offset s + n in
      if allocated (chunks b ! is_chunk s) \<le> offset \<and> Suc (is_chunk s) < length (chunks b)
      then \<lparr>is_chunk = Suc (is_chunk s), is_offset = g_initial_offset\<rparr>
      else s\<lparr>is_offset := offset\<rparr>)"

subsection \<open>Invariant\<close>

definition buffer_inv :: "'r buffer \<Rightarrow> bool" where
  "buffer_inv b \<longleftrightarrow>
     (\<forall>c \<in> set (chunks b). g_initial_offset \<le> allocated c \<and> allocated c \<le> total_size c) \<and>
     (case m_tail b of
        None \<Rightarrow> m_offset b = g_initial_offset
      | Some t \<Rightarrow> t < length (chunks b) \<and> allocated (chunks b ! t) = m_offset b)"

lemma set_list_update_all:
  assumes "\<forall>x \<in> set xs. P x" "P v"
  shows "\<forall>x \<in> set (xs[i := v]). P x"
  using assms set_update_subset_insert [of xs i v] by auto

lemma append_chunk_inv:
  assumes "\<forall>c \<in> set (chunks b). g_initial_offset \<le> allocated c \<and> allocated c \<le> total_size c"
    and "append_chunk alloc sz b = (True, b')" "g_initial_offset \<le> sz"
  shows "buffer_inv b' \<and> m_tail b' = Some (length (chunks b)) \<and> m_offset b' = g_initial_offset \<and>
    total_size (chunks b' ! length (chunks b)) = sz \<and>
    chunks b' = chunks b @ [\<lparr>total_size = sz, allocated = g_initial_offset\<rparr>]"
  using assms by (auto simp: append_chunk_def buffer_inv_def split: prod.splits if_splits)

text \<open>The index of the chunk after the tail.\<close>

definition next_index :: "'r buffer \<Rightarrow> nat" where
  "next_index b = (case m_tail b of None \<Rightarrow> 0 | Some t \<Rightarrow> Suc t)"

lemma next_index_le: "buffer_inv b \<Longrightarrow> next_index b \<le> length (chunks b)"
  by (auto simp: buffer_inv_def next_index_def split: option.splits)

definition chunks_ok :: "chunk list \<Rightarrow> bool" where
  "chunks_ok cs \<longleftrightarrow> (\<forall>c \<in> set cs. g_initial_offset \<le> allocated c \<and> allocated c \<le> total_size c)"

lemma chunks_ok_take: "chunks_ok cs \<Longrightarrow> chunks_ok (take n cs)"
  by (auto simp: chunks_ok_def dest: in_set_takeD)

lemma chunks_ok_nth:
  "chunks_ok cs \<Longrightarrow> i < length cs \<Longrightarrow>
     g_initial_offset \<le> allocated (cs ! i) \<and> allocated (cs ! i) \<le> total_size (cs ! i)"
  by (simp add: chunks_ok_def)

lemma chunks_ok_update:
  assumes "chunks_ok cs" "g_initial_offset \<le> allocated c" "allocated c \<le> total_size c"
  shows "chunks_ok (cs[i := c])"
  using assms set_update_subset_insert [of cs i c] by (auto simp: chunks_ok_def)

lemma buffer_inv_chunks_ok: "buffer_inv b \<Longrightarrow> chunks_ok (chunks b)"
  by (simp add: buffer_inv_def chunks_ok_def)

lemma append_chunk_spec:
  assumes "chunks_ok (chunks b)" "append_chunk alloc sz b = (ok, b')" "g_initial_offset \<le> sz"
  shows "if ok then buffer_inv b' \<and> m_tail b' = Some (length (chunks b)) \<and>
        m_offset b' = g_initial_offset \<and>
        chunks b' = chunks b @ [\<lparr>total_size = sz, allocated = g_initial_offset\<rparr>]
      else m_tail b' = m_tail b \<and> m_offset b' = m_offset b \<and> chunks b' = chunks b"
  using assms
  by (auto simp: append_chunk_def buffer_inv_def chunks_ok_def split: prod.splits if_splits)

lemma GoToNextChunk_eq:
  "GoToNextChunk alloc dealloc N n b =
     (if next_index b < length (chunks b) then
        if max (g_initial_offset + n) N \<le> total_size (chunks b ! next_index b)
        then (True, reuse_chunk (next_index b) b)
        else append_chunk alloc (max (g_initial_offset + n) N) (DeleteFrom dealloc (next_index b) b)
      else append_chunk alloc (max (g_initial_offset + n) N) b)"
  unfolding GoToNextChunk_def next_index_def Let_def ..

lemma GoToNextChunk_spec:
  assumes "buffer_inv b" "GoToNextChunk alloc dealloc N n b = (ok, b')"
  shows "if ok then buffer_inv b' \<and> m_tail b' = Some (next_index b) \<and>
        m_offset b' = g_initial_offset \<and>
        g_initial_offset + n \<le> total_size (chunks b' ! next_index b) \<and>
        take (next_index b) (chunks b') = take (next_index b) (chunks b) \<and>
        (next_index b = length (chunks b) \<longrightarrow> length (chunks b') = Suc (next_index b))
      else buffer_inv b' \<and> m_tail b' = m_tail b \<and> m_offset b' = m_offset b \<and>
        take (next_index b) (chunks b') = take (next_index b) (chunks b)"
proof -
  let ?sz = "max (g_initial_offset + n) N" and ?i = "next_index b"
  have ok: "chunks_ok (chunks b)" using assms(1) by (rule buffer_inv_chunks_ok)
  have tail: "m_tail b = None \<and> m_offset b = g_initial_offset \<and> ?i = 0 \<or>
      (\<exists>t. m_tail b = Some t \<and> ?i = Suc t \<and> t < length (chunks b) \<and>
         allocated (chunks b ! t) = m_offset b)"
    using assms(1) by (auto simp: buffer_inv_def next_index_def split: option.splits)
  have keep: "buffer_inv b'" if "m_tail b' = m_tail b" "m_offset b' = m_offset b"
    "take ?i (chunks b') = take ?i (chunks b)" "chunks_ok (chunks b')"
  proof -
    have "t < length (chunks b') \<and> chunks b' ! t = chunks b ! t" if "m_tail b = Some t" for t
    proof -
      have i: "?i = Suc t" "t < length (chunks b)" using tail that by auto
      have "length (take (Suc t) (chunks b')) = Suc t"
        using \<open>take ?i (chunks b') = _\<close> i by simp
      moreover have "take (Suc t) (chunks b') ! t = take (Suc t) (chunks b) ! t"
        using \<open>take ?i (chunks b') = _\<close> i by simp
      ultimately show ?thesis by (simp add: min_def split: if_splits)
    qed
    then show ?thesis using that tail by (auto simp: buffer_inv_def chunks_ok_def)
  qed
  consider (reuse) "?i < length (chunks b)" "?sz \<le> total_size (chunks b ! ?i)"
    | (replace) "?i < length (chunks b)" "\<not> ?sz \<le> total_size (chunks b ! ?i)"
    | (new) "?i = length (chunks b)"
    using next_index_le [OF assms(1)] by fastforce
  then show ?thesis
  proof cases
    case reuse
    then have "ok" "b' = reuse_chunk ?i b"
      using assms(2) by (simp_all add: GoToNextChunk_eq del: max.bounded_iff)
    moreover have "chunks_ok ((chunks b)[?i := (chunks b ! ?i)\<lparr>allocated := g_initial_offset\<rparr>])"
      using reuse ok by (intro chunks_ok_update) auto
    ultimately show ?thesis
      using reuse by (auto simp: reuse_chunk_def buffer_inv_def chunks_ok_def)
  next
    case replace
    then have a: "append_chunk alloc ?sz (DeleteFrom dealloc ?i b) = (ok, b')"
      using assms(2) by (simp add: GoToNextChunk_eq del: max.bounded_iff)
    have "chunks_ok (chunks (DeleteFrom dealloc ?i b))"
      using ok by (simp add: DeleteFrom_def chunks_ok_take)
    from append_chunk_spec [OF this a] replace keep ok show ?thesis
      by (auto simp: DeleteFrom_def nth_append chunks_ok_take)
  next
    case new
    then have a: "append_chunk alloc ?sz b = (ok, b')"
      using assms(2) by (simp add: GoToNextChunk_eq del: max.bounded_iff)
    from append_chunk_spec [OF ok a] new keep ok show ?thesis
      by (auto simp: nth_append)
  qed
qed

subsection \<open>Allocation\<close>

lemma Allocate_spec_case:
  assumes "buffer_inv b"
  shows "case Allocate alloc dealloc N n b of ((c, off), b') \<Rightarrow> buffer_inv b' \<and>
    (case c of
       Some t \<Rightarrow> End b' = (Some t, off + n) \<and> off + n \<le> total_size (chunks b' ! t) \<and>
         (t = next_index b \<and> off = g_initial_offset \<or> m_tail b = Some t \<and> off = m_offset b) \<and>
         take t (chunks b') = take t (chunks b)
     | None \<Rightarrow> End b' = End b \<and> take (next_index b) (chunks b') = take (next_index b) (chunks b))"
proof (cases "\<exists>t. m_tail b = Some t \<and> m_offset b + n \<le> total_size (chunks b ! t)")
  case True
  then obtain t where t: "m_tail b = Some t" "m_offset b + n \<le> total_size (chunks b ! t)" by blast
  have t': "t < length (chunks b)" "g_initial_offset \<le> m_offset b"
    using chunks_ok_nth [OF buffer_inv_chunks_ok [OF assms], of t] assms t
    by (auto simp: buffer_inv_def)
  have "chunks_ok ((chunks b)[t := (chunks b ! t)\<lparr>allocated := m_offset b + n\<rparr>])"
    using t t' buffer_inv_chunks_ok [OF assms] by (intro chunks_ok_update) auto
  then show ?thesis
    using t t' by (auto simp: Allocate_def End_def buffer_inv_def chunks_ok_def)
next
  case False
  obtain ok b1 where g: "GoToNextChunk alloc dealloc N n b = (ok, b1)" by force
  note spec = GoToNextChunk_spec [OF assms g]
  have alloc: "Allocate alloc dealloc N n b =
      (case (ok, m_tail b1) of
         (True, Some t) \<Rightarrow>
           ((Some t, m_offset b1),
            b1\<lparr>m_offset := m_offset b1 + n,
               chunks := (chunks b1)[t := (chunks b1 ! t)\<lparr>allocated := m_offset b1 + n\<rparr>]\<rparr>)
       | _ \<Rightarrow> ((None, g_initial_offset), b1))"
    using False g by (auto simp: Allocate_def Let_def split: option.split)
  show ?thesis
  proof (cases ok)
    case False
    then show ?thesis using spec alloc by (simp add: End_def)
  next
    case True
    let ?t = "next_index b"
    have t: "m_tail b1 = Some ?t" "m_offset b1 = g_initial_offset" "?t < length (chunks b1)"
      "g_initial_offset + n \<le> total_size (chunks b1 ! ?t)"
      "take ?t (chunks b1) = take ?t (chunks b)" "chunks_ok (chunks b1)"
      using spec True by (auto simp: buffer_inv_def chunks_ok_def)
    have "chunks_ok ((chunks b1)[?t := (chunks b1 ! ?t)\<lparr>allocated := g_initial_offset + n\<rparr>])"
      using t by (intro chunks_ok_update) auto
    then show ?thesis
      using t alloc True by (auto simp: End_def buffer_inv_def chunks_ok_def)
  qed
qed

lemma Allocate_Some:
  assumes "buffer_inv b" "Allocate alloc dealloc N n b = ((Some t, off), b')"
  shows "buffer_inv b' \<and> m_tail b' = Some t \<and> m_offset b' = off + n \<and>
    off + n \<le> total_size (chunks b' ! t) \<and> take t (chunks b') = take t (chunks b) \<and>
    (t = next_index b \<and> off = g_initial_offset \<or> m_tail b = Some t \<and> off = m_offset b)"
  using Allocate_spec_case [OF assms(1), where alloc = alloc and dealloc = dealloc and N = N and n = n]
    assms(2) by (simp add: End_def)

text \<open>When the resource has to be asked and refuses: the tail chunk has no room, the chunk behind it is missing or too
  small, and there is no memory for a new one after the chunks behind the tail were returned.\<close>

definition refused ::
  "(nat \<Rightarrow> 'r \<Rightarrow> bool \<times> 'r) \<Rightarrow> (nat \<Rightarrow> 'r \<Rightarrow> 'r) \<Rightarrow> nat \<Rightarrow> nat \<Rightarrow> 'r buffer \<Rightarrow> bool" where
  "refused alloc dealloc N n b \<longleftrightarrow>
     (case m_tail b of None \<Rightarrow> True | Some t \<Rightarrow> total_size (chunks b ! t) < m_offset b + n) \<and>
     (next_index b < length (chunks b) \<longrightarrow>
        total_size (chunks b ! next_index b) < max (g_initial_offset + n) N) \<and>
     \<not> fst (alloc (max (g_initial_offset + n) N) (m_res (DeleteFrom dealloc (next_index b) b)))"

lemma DeleteFrom_none: "length (chunks b) \<le> c \<Longrightarrow> DeleteFrom dealloc c b = b"
  by (simp add: DeleteFrom_def)

lemma GoToNextChunk_failure:
  assumes "GoToNextChunk alloc dealloc N n b = (ok, b')"
  shows "m_had_allocation_failure b' = (m_had_allocation_failure b \<or> \<not> ok)"
    and "ok \<Longrightarrow> m_tail b' \<noteq> None"
    and "ok \<longleftrightarrow> (next_index b < length (chunks b) \<and>
           max (g_initial_offset + n) N \<le> total_size (chunks b ! next_index b)) \<or>
         fst (alloc (max (g_initial_offset + n) N) (m_res (DeleteFrom dealloc (next_index b) b)))"
  using assms DeleteFrom_none [of b "next_index b" dealloc]
  by (auto simp: GoToNextChunk_eq append_chunk_def reuse_chunk_def DeleteFrom_def
      split: prod.splits if_splits simp del: max.bounded_iff)

lemma Allocate_failure:
  assumes "Allocate alloc dealloc N n b = ((c, off), b')"
  shows "(c = None \<longleftrightarrow> refused alloc dealloc N n b) \<and>
    m_had_allocation_failure b' = (m_had_allocation_failure b \<or> c = None)"
proof (cases "\<exists>t. m_tail b = Some t \<and> m_offset b + n \<le> total_size (chunks b ! t)")
  case True
  then obtain t where "m_tail b = Some t" "m_offset b + n \<le> total_size (chunks b ! t)" by blast
  then show ?thesis using assms by (auto simp: Allocate_def refused_def split: option.splits)
next
  case False
  obtain ok b1 where g: "GoToNextChunk alloc dealloc N n b = (ok, b1)" by force
  have "(c = None \<longleftrightarrow> \<not> ok) \<and> m_had_allocation_failure b' = m_had_allocation_failure b1"
  proof (cases ok)
    case True
    then obtain t where "m_tail b1 = Some t" using GoToNextChunk_failure(2) [OF g] by blast
    moreover have "Allocate alloc dealloc N n b = ((Some t, m_offset b1), b1\<lparr>m_offset := m_offset b1 + n,
        chunks := (chunks b1)[t := (chunks b1 ! t)\<lparr>allocated := m_offset b1 + n\<rparr>]\<rparr>)"
      using False g True calculation by (auto simp: Allocate_def Let_def split: option.split)
    ultimately show ?thesis using assms True by auto
  next
    case nok: False
    then show ?thesis using False g assms by (auto simp: Allocate_def Let_def split: option.splits)
  qed
  moreover have "refused alloc dealloc N n b \<longleftrightarrow> \<not> ok"
    using False GoToNextChunk_failure(3) [OF g]
    by (auto simp: refused_def not_le split: option.split simp del: max.bounded_iff)
  ultimately show ?thesis using GoToNextChunk_failure(1) [OF g] by simp
qed

text \<open>Property C23: an allocation fails exactly when there is no room in the tail chunk or the chunk behind it and the resource refuses a
  new one. One that succeeds returns a block inside its chunk, behind the header
  and behind everything allocated in that chunk before; it is then the allocated end of the chunk,
  and the chunks filled earlier are untouched. One that fails
  returns no position, changes neither the end of the buffer nor what was allocated, and is remembered:
  \<open>m_had_allocation_failure\<close> is set by it and by nothing else.\<close>

theorem Allocate_correct:
  assumes "buffer_inv b"
  shows "case Allocate alloc dealloc N n b of ((c, off), b') \<Rightarrow> buffer_inv b' \<and>
    (case c of
       Some t \<Rightarrow> End b' = (Some t, off + n) \<and> off + n \<le> total_size (chunks b' ! t) \<and>
         (t = next_index b \<and> off = g_initial_offset \<or> m_tail b = Some t \<and> off = m_offset b) \<and>
         take t (chunks b') = take t (chunks b)
     | None \<Rightarrow> End b' = End b \<and> take (next_index b) (chunks b') = take (next_index b) (chunks b)) \<and>
    (c = None \<longleftrightarrow> refused alloc dealloc N n b) \<and>
    m_had_allocation_failure b' = (m_had_allocation_failure b \<or> c = None)"
proof -
  obtain c off b' where a: "Allocate alloc dealloc N n b = ((c, off), b')" by (metis surj_pair)
  show ?thesis
    using Allocate_spec_case [OF assms, where alloc = alloc and dealloc = dealloc and N = N and n = n]
      Allocate_failure [OF a]
    unfolding a prod.case by blast
qed

definition always :: "nat \<Rightarrow> unit \<Rightarrow> bool \<times> unit" where
  "always n r = (True, r)"

definition never :: "nat \<Rightarrow> unit \<Rightarrow> bool \<times> unit" where
  "never n r = (False, r)"

definition forget :: "nat \<Rightarrow> unit \<Rightarrow> unit" where
  "forget n r = r"

lemma new_buffer_inv [simp]: "buffer_inv (new_buffer r)"
  by (simp add: new_buffer_def buffer_inv_def)

theorem Allocate_correct_witness:
  "buffer_inv (new_buffer ()) \<and>
   (\<exists>b'. Allocate always forget 64 100 (new_buffer ()) = ((Some 0, 32), b') \<and> buffer_inv b' \<and>
      End b' = (Some 0, 132) \<and> \<not> m_had_allocation_failure b') \<and>
   (\<exists>b'. Allocate never forget 64 100 (new_buffer ()) = ((None, 32), b') \<and> m_had_allocation_failure b')"
proof -
  obtain b' where b': "Allocate always forget 64 100 (new_buffer ()) = ((Some 0, 32), b')"
    by (simp add: Allocate_def new_buffer_def GoToNextChunk_def append_chunk_def always_def
        g_initial_offset_def)
  obtain b2 where b2: "Allocate never forget 64 100 (new_buffer ()) = ((None, 32), b2)"
    by (simp add: Allocate_def new_buffer_def GoToNextChunk_def append_chunk_def never_def
        g_initial_offset_def)
  have "\<not> m_had_allocation_failure (new_buffer ())" by (simp add: new_buffer_def)
  with b' b2 show ?thesis
    using Allocate_correct [OF new_buffer_inv [of "()"], where alloc = always and dealloc = forget and N = 64 and n = 100]
      Allocate_correct [OF new_buffer_inv [of "()"], where alloc = never and dealloc = forget and N = 64 and n = 100]
    by simp
qed

subsection \<open>Reading back what was written\<close>

text \<open>A sequence of allocations, all of which succeed; the positions they return.\<close>

fun allocate_all ::
  "(nat \<Rightarrow> 'r \<Rightarrow> bool \<times> 'r) \<Rightarrow> (nat \<Rightarrow> 'r \<Rightarrow> 'r) \<Rightarrow> nat \<Rightarrow> nat list \<Rightarrow> 'r buffer \<Rightarrow>
     (position list \<times> 'r buffer) option"
where
  "allocate_all alloc dealloc N [] b = Some ([], b)"
| "allocate_all alloc dealloc N (n # ns) b =
     (case Allocate alloc dealloc N n b of
        ((None, _), b') \<Rightarrow> None
      | (pos, b') \<Rightarrow> do { (ps, b'') \<leftarrow> allocate_all alloc dealloc N ns b'; Some (pos # ps, b'') })"

text \<open>A reader that advances by the same sizes; the positions it stands at, and where it ends.\<close>

fun read_all :: "'r buffer \<Rightarrow> nat list \<Rightarrow> input_stream \<Rightarrow> position list \<times> position" where
  "read_all b [] s = ([], Tell s)"
| "read_all b (n # ns) s =
     (case read_all b ns (Advance b n s) of (ps, e) \<Rightarrow> (Tell s # ps, e))"

text \<open>No chunk is left over from an earlier use.\<close>

definition no_stale :: "'r buffer \<Rightarrow> bool" where
  "no_stale b \<longleftrightarrow> next_index b = length (chunks b)"

lemma Allocate_no_stale:
  assumes "buffer_inv b" "no_stale b" "Allocate alloc dealloc N n b = ((Some t, off), b')"
  shows "no_stale b'"
proof (cases "\<exists>t. m_tail b = Some t \<and> m_offset b + n \<le> total_size (chunks b ! t)")
  case True
  then show ?thesis
    using assms(2,3) by (auto simp: Allocate_def no_stale_def next_index_def)
next
  case False
  obtain ok b1 where g: "GoToNextChunk alloc dealloc N n b = (ok, b1)" by force
  have "no_stale b1 \<and> (no_stale b1 \<longrightarrow> no_stale b')" if ok
    using GoToNextChunk_spec [OF assms(1) g] that False g assms(2,3)
    by (auto simp: Allocate_def Let_def no_stale_def next_index_def split: option.splits)
  moreover have ok
    using False g assms(3) by (auto simp: Allocate_def Let_def split: option.splits bool.splits)
  ultimately show ?thesis by blast
qed

text \<open>Later allocations only grow the tail chunk and keep what lies before it.\<close>

lemma allocate_all_later:
  assumes "buffer_inv b" "no_stale b" "m_tail b = Some t"
    "allocate_all alloc dealloc N ns b = Some (ps, F)"
  shows "buffer_inv F \<and> no_stale F \<and> take t (chunks F) = take t (chunks b) \<and>
    t < length (chunks F) \<and> m_offset b \<le> allocated (chunks F ! t)"
  using assms
proof (induction ns arbitrary: b t ps)
  case Nil
  then show ?case by (auto simp: buffer_inv_def)
next
  case (Cons n ns)
  obtain t1 off b1 ps1 where a: "Allocate alloc dealloc N n b = ((Some t1, off), b1)"
    "allocate_all alloc dealloc N ns b1 = Some (ps1, F)"
    using Cons.prems(4) by (auto split: prod.splits option.splits Option.bind_splits)
  have s: "buffer_inv b1" "m_tail b1 = Some t1" "m_offset b1 = off + n"
    "take t1 (chunks b1) = take t1 (chunks b)"
    "t1 = Suc t \<or> t1 = t \<and> off = m_offset b"
    using Allocate_Some [OF Cons.prems(1) a(1)] Cons.prems(3) by (auto simp: next_index_def)
  have ns: "no_stale b1" using Allocate_no_stale [OF Cons.prems(1,2) a(1)] .
  note IH = Cons.IH [OF s(1) ns s(2) a(2)]
  show ?case
  proof (cases "t1 = t")
    case True
    then show ?thesis using IH s by auto
  next
    case False
    then have t1: "t1 = Suc t" "t < length (chunks b)" using s(5) Cons.prems(1,3)
      by (auto simp: buffer_inv_def)
    have tk: "take (Suc t) (chunks F) = take (Suc t) (chunks b)" using IH s(4) t1 by simp
    then have "take t (chunks F) = take t (chunks b)" "chunks F ! t = chunks b ! t"
      using IH t1 by (metis take_take min.absorb1 le_SucI order_refl, metis lessI nth_take)
    then show ?thesis using IH t1 Cons.prems(1,3) by (auto simp: buffer_inv_def)
  qed
qed

lemma allocate_all_tail:
  assumes "buffer_inv b" "allocate_all alloc dealloc N ns b = Some (ps, F)"
    "m_tail b \<noteq> None \<or> ns \<noteq> []"
  shows "m_tail F \<noteq> None"
  using assms
proof (induction ns arbitrary: b ps)
  case (Cons n ns)
  obtain t1 off b1 ps1 where a: "Allocate alloc dealloc N n b = ((Some t1, off), b1)"
    "allocate_all alloc dealloc N ns b1 = Some (ps1, F)"
    using Cons.prems(2) by (auto split: prod.splits option.splits Option.bind_splits)
  show ?case using Cons.IH [OF _ a(2)] Allocate_Some [OF Cons.prems(1) a(1)] by auto
qed simp

text \<open>Where a reader of the finished buffer \<open>F\<close> stands when the writer had reached \<open>b\<close>.\<close>

definition reader_at :: "'r buffer \<Rightarrow> 'r buffer \<Rightarrow> input_stream" where
  "reader_at b F =
     (case m_tail b of
        None \<Rightarrow> \<lparr>is_chunk = 0, is_offset = g_initial_offset\<rparr>
      | Some t \<Rightarrow>
          if allocated (chunks F ! t) \<le> m_offset b \<and> Suc t < length (chunks F)
          then \<lparr>is_chunk = Suc t, is_offset = g_initial_offset\<rparr>
          else \<lparr>is_chunk = t, is_offset = m_offset b\<rparr>)"

lemma reader_step:
  assumes "buffer_inv b" "no_stale b" "0 < n"
    "Allocate alloc dealloc N n b = ((Some t1, off), b1)"
    "allocate_all alloc dealloc N ns b1 = Some (ps, F)"
  shows "Tell (reader_at b F) = (Some t1, off) \<and> Advance F n (reader_at b F) = reader_at b1 F"
proof -
  have s: "buffer_inv b1" "m_tail b1 = Some t1" "m_offset b1 = off + n"
    "take t1 (chunks b1) = take t1 (chunks b)"
    "t1 = next_index b \<and> off = g_initial_offset \<or> m_tail b = Some t1 \<and> off = m_offset b"
    using Allocate_Some [OF assms(1,4)] by auto
  have ns: "no_stale b1" using Allocate_no_stale [OF assms(1,2,4)] .
  note later = allocate_all_later [OF s(1) ns s(2) assms(5)]
  have at: "reader_at b F = \<lparr>is_chunk = t1, is_offset = off\<rparr>"
  proof (cases "m_tail b")
    case None
    then show ?thesis using s(5) by (simp add: reader_at_def next_index_def)
  next
    case (Some t)
    show ?thesis
    proof (cases "t1 = t")
      case True
      then have "off = m_offset b" using s(5) Some by (auto simp: next_index_def)
      then show ?thesis using True Some later s(3) assms(3) by (simp add: reader_at_def)
    next
      case False
      then have t1: "t1 = Suc t" "off = g_initial_offset" "t < length (chunks b)"
        using s(5) Some assms(1) by (auto simp: next_index_def buffer_inv_def)
      then have "chunks F ! t = chunks b ! t"
        using later s(4) by (metis lessI nth_take)
      then show ?thesis using t1 Some later assms(1) by (simp add: reader_at_def buffer_inv_def)
    qed
  qed
  then show ?thesis using s(2,3) by (auto simp: Tell_def Advance_def reader_at_def Let_def)
qed

lemma read_all_positions:
  assumes "buffer_inv b" "no_stale b" "\<forall>n \<in> set ns. 0 < n"
    "allocate_all alloc dealloc N ns b = Some (ps, F)" "m_tail b \<noteq> None \<or> ns \<noteq> []"
  shows "read_all F ns (reader_at b F) = (ps, End F)"
  using assms
proof (induction ns arbitrary: b ps)
  case Nil
  then show ?case by (auto simp: reader_at_def End_def Tell_def no_stale_def next_index_def)
next
  case (Cons n ns)
  obtain t1 off b1 ps1 where a: "Allocate alloc dealloc N n b = ((Some t1, off), b1)"
    "allocate_all alloc dealloc N ns b1 = Some (ps1, F)" "ps = (Some t1, off) # ps1"
    using Cons.prems(4) by (auto split: prod.splits option.splits Option.bind_splits)
  have s: "buffer_inv b1" "m_tail b1 = Some t1"
    using Allocate_Some [OF Cons.prems(1) a(1)] by auto
  have ns: "no_stale b1" using Allocate_no_stale [OF Cons.prems(1,2) a(1)] .
  show ?case
    using reader_step [OF Cons.prems(1,2) _ a(1,2)] Cons.IH [OF s(1) ns _ a(2)] Cons.prems(3) s(2) a(3)
    by simp
qed



subsection \<open>Distances\<close>

lemma distance_loop_sum:
  assumes "c < length cs"
  shows "distance_loop cs i (Some (i + c)) =
    (\<Sum>j \<leftarrow> [0..<c]. allocated (cs ! j) - g_initial_offset)"
  using assms
proof (induction cs arbitrary: i c)
  case (Cons ch cs)
  show ?case
  proof (cases c)
    case (Suc d)
    then have "distance_loop cs (Suc i) (Some (Suc i + d)) =
        (\<Sum>j \<leftarrow> [0..<d]. allocated (cs ! j) - g_initial_offset)"
      using Cons.IH [of d "Suc i"] Cons.prems Suc by simp
    moreover have "[0..<c] = 0 # map Suc [0..<d]"
      using Suc by (metis map_Suc_upt upt_conv_Cons zero_less_Suc)
    ultimately show ?thesis using Suc by (simp add: comp_def)
  qed simp
qed simp

text \<open>The distance of the end of a buffer is the number of data bytes \<open>ForEachChunk\<close>
  visits, and a position in the first chunk survives the way to its distance and back.\<close>

theorem Distance_correct:
  assumes "buffer_inv b" "m_tail b = Some t"
  shows "Distance (End b) b = sum_list (map snd (ForEachChunk b))
    \<and> (\<forall>off. g_initial_offset \<le> off \<and> off < allocated (chunks b ! 0) \<and> off < 2 ^ 64 \<longrightarrow>
         FromDistance (Distance (Some 0, off) b) b = (Some 0, off))"
proof (intro conjI allI impI)
  have t: "t < length (chunks b)" "allocated (chunks b ! t) = m_offset b"
    using assms by (auto simp: buffer_inv_def)
  have "g_initial_offset \<le> m_offset b"
    using chunks_ok_nth [OF buffer_inv_chunks_ok [OF assms(1)] t(1)] t(2) by simp
  then show "Distance (End b) b = sum_list (map snd (ForEachChunk b))"
    using distance_loop_sum [OF t(1), of 0] t assms(2)
    by (simp add: Distance_def End_def ForEachChunk_def comp_def)
  fix off
  assume "g_initial_offset \<le> off \<and> off < allocated (chunks b ! 0) \<and> off < 2 ^ 64"
  then show "FromDistance (Distance (Some 0, off) b) b = (Some 0, off)"
    using t by (cases "chunks b") (auto simp: Distance_def FromDistance_def add64_def)
qed

definition two_chunks :: "unit buffer" where
  "two_chunks = \<lparr>m_res = (), chunks = [\<lparr>total_size = 64, allocated = 60\<rparr>,
     \<lparr>total_size = 64, allocated = 48\<rparr>], m_tail = Some 1, m_offset = 48,
     m_had_allocation_failure = False\<rparr>"

theorem Distance_correct_witness:
  "buffer_inv two_chunks \<and> m_tail two_chunks = Some 1 \<and> Distance (End two_chunks) two_chunks = 44 \<and>
   FromDistance (Distance (Some 0, 40) two_chunks) two_chunks = (Some 0, 40)"
proof -
  have inv: "buffer_inv two_chunks" "m_tail two_chunks = Some 1"
    by (simp_all add: two_chunks_def buffer_inv_def g_initial_offset_def)
  have "sum_list (map snd (ForEachChunk two_chunks)) = 44"
    "g_initial_offset \<le> 40 \<and> 40 < allocated (chunks two_chunks ! 0) \<and> (40 :: nat) < 2 ^ 64"
    by (simp_all add: two_chunks_def ForEachChunk_def g_initial_offset_def)
  with Distance_correct [OF inv] inv show ?thesis by auto
qed

text \<open>A position in a later chunk does not survive: \<open>FromDistance\<close> subtracts the header of every
  chunk it passes, although \<open>Distance\<close> did not count it: the position found lies in the header.\<close>

lemma FromDistance_loses_position:
  "Distance (Some 1, 40) two_chunks = 36
   \<and> FromDistance 36 two_chunks = (Some 1, 8)"
  by (simp add: two_chunks_def Distance_def FromDistance_def g_initial_offset_def sub64_def add64_def)

text \<open>A reader of a buffer that is filled again after \<open>Clear\<close> leaves the tail chunk for a chunk of
  the previous use, so it never meets \<open>End\<close>.\<close>

lemma reader_passes_end:
  "let b = snd (Allocate always forget 64 12 (Clear two_chunks));
       s = \<lparr>is_chunk = 0, is_offset = 32\<rparr>
   in From (Begin b) = Some s \<and> End b = (Some 0, 44) \<and> Tell (Advance b 12 s) = (Some 1, 32)"
  by (simp add: two_chunks_def Allocate_def Clear_def GoToNextChunk_def reuse_chunk_def
      g_initial_offset_def Advance_def Tell_def From_def Begin_def End_def Let_def)

text \<open>A chunk made for one large object may end at an odd multiple of four; aligning behind that
  object to eight fails the assertion.\<close>

lemma align_after_large_object_asserts:
  "AlignBuffer 8 (snd (Allocate always forget 64 68 (new_buffer ()))) = None"
  by (simp add: new_buffer_def Allocate_def GoToNextChunk_def append_chunk_def always_def
      g_initial_offset_def AlignBuffer_def align_up_def)

end
