(* ===== verification/Actions.thy ===== *)
theory Actions
  imports Vss_Layout
begin

text \<open>
  The actions of the drivers: \<open>driver/UniqueIDs.hpp\<close>, \<open>driver/AnyAction.hpp\<close>, \<open>driver/Action.hpp\<close>,
  \<open>driver/CommonActions.hpp\<close>, the \<open>*Action.hpp\<close> files of the drivers, and the formatting of
  structures, \<open>util/miscellaneous/Formatting.hpp\<close>.

  An action is a variant with a 32-bit discriminant. Its options are the constructors of \<open>action\<close>;
  bit streams are lists of bits, least significant first. Enumerations that arrive in a transaction
  stay 32-bit numbers, since nothing keeps them inside their enumerators.
\<close>

subsection \<open>Identifiers\<close>

datatype driver_id = ByteStream | Jtag | ExecutionGate | APB | JtagChain | RVDTM

definition all_drivers :: "driver_id list" where
  "all_drivers = [ByteStream, Jtag, ExecutionGate, APB, JtagChain, RVDTM]"

fun DriverID :: "driver_id \<Rightarrow> nat" where
  "DriverID ByteStream = 0"
| "DriverID Jtag = 1000"
| "DriverID ExecutionGate = 2000"
| "DriverID APB = 3000"
| "DriverID JtagChain = 4000"
| "DriverID RVDTM = 5000"

datatype action_kind =
    ASkipCycles | AWriteBytes | AReadBytes | APutTMS | APutTDI | APutTDIGetTDO
  | ASetExecutionGateMode | AAPBWrite | AAPBRead | AAPBSetPSEL
  | AJCForgetChainStructure | AJCSetIRLength | AJCGoToState | AJCSelectTAP | AJCWriteIR
  | AJCWriteDR | AJCShiftDR | ARVWriteDMI | ARVReadDMI

fun ActionID :: "action_kind \<Rightarrow> nat" where
  "ActionID ASkipCycles = 1"
| "ActionID AWriteBytes = 1 + DriverID ByteStream"
| "ActionID AReadBytes = 2 + DriverID ByteStream"
| "ActionID APutTMS = 1 + DriverID Jtag"
| "ActionID APutTDI = 2 + DriverID Jtag"
| "ActionID APutTDIGetTDO = 3 + DriverID Jtag"
| "ActionID ASetExecutionGateMode = 1 + DriverID ExecutionGate"
| "ActionID AAPBWrite = 1 + DriverID APB"
| "ActionID AAPBRead = 2 + DriverID APB"
| "ActionID AAPBSetPSEL = 3 + DriverID APB"
| "ActionID AJCForgetChainStructure = 1 + DriverID JtagChain"
| "ActionID AJCSetIRLength = 2 + DriverID JtagChain"
| "ActionID AJCGoToState = 3 + DriverID JtagChain"
| "ActionID AJCSelectTAP = 4 + DriverID JtagChain"
| "ActionID AJCWriteIR = 5 + DriverID JtagChain"
| "ActionID AJCWriteDR = 6 + DriverID JtagChain"
| "ActionID AJCShiftDR = 7 + DriverID JtagChain"
| "ActionID ARVWriteDMI = 1 + DriverID RVDTM"
| "ActionID ARVReadDMI = 2 + DriverID RVDTM"

definition InvalidAction :: nat where
  "InvalidAction = 0"

text \<open>The action variant of each driver, in the order of its options.\<close>

fun driver_actions :: "driver_id \<Rightarrow> action_kind list" where
  "driver_actions ByteStream = [AWriteBytes, AReadBytes]"
| "driver_actions Jtag = [APutTMS, APutTDI, APutTDIGetTDO]"
| "driver_actions ExecutionGate = [ASetExecutionGateMode]"
| "driver_actions APB = [ASkipCycles, AAPBWrite, AAPBRead, AAPBSetPSEL]"
| "driver_actions JtagChain =
     [AJCForgetChainStructure, AJCSetIRLength, AJCGoToState, AJCSelectTAP, AJCWriteIR, AJCWriteDR,
      AJCShiftDR]"
| "driver_actions RVDTM = [ARVWriteDMI, ARVReadDMI, ASkipCycles]"

text \<open>\<open>JoinActions\<close>: the variant that can hold an action of any driver.\<close>

definition AnyAction :: "action_kind list" where
  "AnyAction = concat (map driver_actions all_drivers)"

text \<open>\<open>ActionByDriver::ForID\<close> calls its function for the drivers with the identifier.\<close>

definition ForID :: "nat \<Rightarrow> driver_id list" where
  "ForID i = filter (\<lambda>d. DriverID d = i) all_drivers"

text \<open>What \<open>Visit\<close> of a variant with the given options takes an action with a discriminant for.\<close>

definition visit_kind :: "action_kind list \<Rightarrow> nat \<Rightarrow> action_kind option" where
  "visit_kind options d = ForOption ActionID options d"

subsection \<open>Actions\<close>

datatype action =
    SkipCycles u32
  | WriteBytes "u8 list"
  | ReadBytes u32
  | PutTMS "bool list"
  | PutTDI "bool list" bool
  | PutTDIGetTDO "bool list" bool
  | SetExecutionGateMode u32
  | APBWrite u32 u32
  | APBRead u32
  | APBSetPSEL u32
  | JCForgetChainStructure
  | JCSetIRLength u32 u32
  | JCGoToState u32 u32
  | JCSelectTAP u32
  | JCWriteIR u32
  | JCWriteDR "bool list"
  | JCShiftDR "bool list"
  | RVWriteDMI u32 u32
  | RVReadDMI u32

fun kind :: "action \<Rightarrow> action_kind" where
  "kind (SkipCycles n) = ASkipCycles"
| "kind (WriteBytes bs) = AWriteBytes"
| "kind (ReadBytes n) = AReadBytes"
| "kind (PutTMS bs) = APutTMS"
| "kind (PutTDI bs l) = APutTDI"
| "kind (PutTDIGetTDO bs l) = APutTDIGetTDO"
| "kind (SetExecutionGateMode m) = ASetExecutionGateMode"
| "kind (APBWrite a d) = AAPBWrite"
| "kind (APBRead a) = AAPBRead"
| "kind (APBSetPSEL p) = AAPBSetPSEL"
| "kind JCForgetChainStructure = AJCForgetChainStructure"
| "kind (JCSetIRLength t l) = AJCSetIRLength"
| "kind (JCGoToState s w) = AJCGoToState"
| "kind (JCSelectTAP t) = AJCSelectTAP"
| "kind (JCWriteIR v) = AJCWriteIR"
| "kind (JCWriteDR bs) = AJCWriteDR"
| "kind (JCShiftDR bs) = AJCShiftDR"
| "kind (RVWriteDMI a d) = ARVWriteDMI"
| "kind (RVReadDMI a) = ARVReadDMI"

text \<open>The layouts of the actions and of their outputs: the members of the struct and its payload.
  A class without members and without payload is empty. Payloads depend on the number of bytes or
  bits.\<close>

definition SkipCycles_layout :: vobj where
  "SkipCycles_layout = VObj 4 4 False NoPayload"

definition SkipCycles_Out :: vobj where
  "SkipCycles_Out = VObj 1 1 True NoPayload"

definition WriteBytes_layout :: "nat \<Rightarrow> vobj" where
  "WriteBytes_layout count = VObj 4 4 False (Parts [DependentArray 1 1 count])"

definition WriteBytes_Out :: vobj where
  "WriteBytes_Out = VObj 4 4 False NoPayload"

definition ReadBytes_layout :: vobj where
  "ReadBytes_layout = VObj 4 4 False NoPayload"

definition ReadBytes_Out :: "nat \<Rightarrow> vobj" where
  "ReadBytes_Out count = VObj 4 4 False (Parts [DependentArray 1 1 count])"

definition PutTMS_layout :: "nat \<Rightarrow> vobj" where
  "PutTMS_layout count = VObj 4 4 False (Parts [DependentBits 4 4 count])"

definition PutTMS_Out :: vobj where
  "PutTMS_Out = VObj 4 4 False NoPayload"

definition PutTDI_layout :: "nat \<Rightarrow> vobj" where
  "PutTDI_layout count = VObj 4 4 False (Parts [DependentBits 4 4 count])"

definition PutTDI_Out :: vobj where
  "PutTDI_Out = VObj 4 4 False NoPayload"

definition PutTDIGetTDO_layout :: "nat \<Rightarrow> vobj" where
  "PutTDIGetTDO_layout count = VObj 4 4 False (Parts [DependentBits 4 4 count])"

definition PutTDIGetTDO_Out :: "nat \<Rightarrow> vobj" where
  "PutTDIGetTDO_Out count = VObj 4 4 False (Parts [DependentBits 4 4 count])"

definition SetExecutionGateMode_layout :: vobj where
  "SetExecutionGateMode_layout = VObj 4 4 False NoPayload"

definition SetExecutionGateMode_Out :: vobj where
  "SetExecutionGateMode_Out = VObj 4 4 False NoPayload"

definition APBWrite_layout :: vobj where
  "APBWrite_layout = VObj 8 4 False NoPayload"

definition APBWrite_Out :: vobj where
  "APBWrite_Out = VObj 1 1 True NoPayload"

definition APBRead_layout :: vobj where
  "APBRead_layout = VObj 4 4 False NoPayload"

definition APBRead_Out :: vobj where
  "APBRead_Out = VObj 4 4 False NoPayload"

definition APBSetPSEL_layout :: vobj where
  "APBSetPSEL_layout = VObj 4 4 False NoPayload"

definition APBSetPSEL_Out :: vobj where
  "APBSetPSEL_Out = VObj 1 1 True NoPayload"

definition JCForgetChainStructure_layout :: vobj where
  "JCForgetChainStructure_layout = VObj 1 1 True NoPayload"

definition JCForgetChainStructure_Out :: vobj where
  "JCForgetChainStructure_Out = VObj 1 1 True NoPayload"

definition JCSetIRLength_layout :: vobj where
  "JCSetIRLength_layout = VObj 8 4 False NoPayload"

definition JCSetIRLength_Out :: vobj where
  "JCSetIRLength_Out = VObj 1 1 True NoPayload"

definition JCGoToState_layout :: vobj where
  "JCGoToState_layout = VObj 8 4 False NoPayload"

definition JCGoToState_Out :: vobj where
  "JCGoToState_Out = VObj 1 1 True NoPayload"

definition JCSelectTAP_layout :: vobj where
  "JCSelectTAP_layout = VObj 4 4 False NoPayload"

definition JCSelectTAP_Out :: vobj where
  "JCSelectTAP_Out = VObj 1 1 True NoPayload"

definition JCWriteIR_layout :: vobj where
  "JCWriteIR_layout = VObj 4 4 False NoPayload"

definition JCWriteIR_Out :: vobj where
  "JCWriteIR_Out = VObj 1 1 True NoPayload"

definition JCWriteDR_layout :: "nat \<Rightarrow> vobj" where
  "JCWriteDR_layout count = VObj 4 4 False (Parts [DependentBits 4 4 count])"

definition JCWriteDR_Out :: vobj where
  "JCWriteDR_Out = VObj 1 1 True NoPayload"

definition JCShiftDR_layout :: "nat \<Rightarrow> vobj" where
  "JCShiftDR_layout count = VObj 4 4 False (Parts [DependentBits 4 4 count])"

definition JCShiftDR_Out :: "nat \<Rightarrow> vobj" where
  "JCShiftDR_Out count = VObj 4 4 False (Parts [DependentBits 4 4 count])"

definition RVWriteDMI_layout :: vobj where
  "RVWriteDMI_layout = VObj 8 4 False NoPayload"

definition RVWriteDMI_Out :: vobj where
  "RVWriteDMI_Out = VObj 1 1 True NoPayload"

definition RVReadDMI_layout :: vobj where
  "RVReadDMI_layout = VObj 4 4 False NoPayload"

definition RVReadDMI_Out :: vobj where
  "RVReadDMI_Out = VObj 4 4 False NoPayload"

lemmas action_layouts [simp] =
  SkipCycles_layout_def SkipCycles_Out_def WriteBytes_layout_def WriteBytes_Out_def
  ReadBytes_layout_def ReadBytes_Out_def PutTMS_layout_def PutTMS_Out_def PutTDI_layout_def
  PutTDI_Out_def PutTDIGetTDO_layout_def PutTDIGetTDO_Out_def SetExecutionGateMode_layout_def
  SetExecutionGateMode_Out_def APBWrite_layout_def APBWrite_Out_def APBRead_layout_def
  APBRead_Out_def APBSetPSEL_layout_def APBSetPSEL_Out_def JCForgetChainStructure_layout_def
  JCForgetChainStructure_Out_def JCSetIRLength_layout_def JCSetIRLength_Out_def
  JCGoToState_layout_def JCGoToState_Out_def JCSelectTAP_layout_def JCSelectTAP_Out_def
  JCWriteIR_layout_def JCWriteIR_Out_def JCWriteDR_layout_def JCWriteDR_Out_def
  JCShiftDR_layout_def JCShiftDR_Out_def RVWriteDMI_layout_def RVWriteDMI_Out_def
  RVReadDMI_layout_def RVReadDMI_Out_def

text \<open>The layouts by action.\<close>

fun action_layout :: "action \<Rightarrow> vobj" where
  "action_layout (SkipCycles n) = SkipCycles_layout"
| "action_layout (WriteBytes bs) = WriteBytes_layout (length bs)"
| "action_layout (ReadBytes n) = ReadBytes_layout"
| "action_layout (PutTMS bs) = PutTMS_layout (length bs)"
| "action_layout (PutTDI bs l) = PutTDI_layout (length bs)"
| "action_layout (PutTDIGetTDO bs l) = PutTDIGetTDO_layout (length bs)"
| "action_layout (SetExecutionGateMode m) = SetExecutionGateMode_layout"
| "action_layout (APBWrite a d) = APBWrite_layout"
| "action_layout (APBRead a) = APBRead_layout"
| "action_layout (APBSetPSEL p) = APBSetPSEL_layout"
| "action_layout JCForgetChainStructure = JCForgetChainStructure_layout"
| "action_layout (JCSetIRLength t l) = JCSetIRLength_layout"
| "action_layout (JCGoToState s w) = JCGoToState_layout"
| "action_layout (JCSelectTAP t) = JCSelectTAP_layout"
| "action_layout (JCWriteIR v) = JCWriteIR_layout"
| "action_layout (JCWriteDR bs) = JCWriteDR_layout (length bs)"
| "action_layout (JCShiftDR bs) = JCShiftDR_layout (length bs)"
| "action_layout (RVWriteDMI a d) = RVWriteDMI_layout"
| "action_layout (RVReadDMI a) = RVReadDMI_layout"

fun out_layout :: "action \<Rightarrow> vobj" where
  "out_layout (SkipCycles n) = SkipCycles_Out"
| "out_layout (WriteBytes bs) = WriteBytes_Out"
| "out_layout (ReadBytes n) = ReadBytes_Out (unat n)"
| "out_layout (PutTMS bs) = PutTMS_Out"
| "out_layout (PutTDI bs l) = PutTDI_Out"
| "out_layout (PutTDIGetTDO bs l) = PutTDIGetTDO_Out (length bs)"
| "out_layout (SetExecutionGateMode m) = SetExecutionGateMode_Out"
| "out_layout (APBWrite a d) = APBWrite_Out"
| "out_layout (APBRead a) = APBRead_Out"
| "out_layout (APBSetPSEL p) = APBSetPSEL_Out"
| "out_layout JCForgetChainStructure = JCForgetChainStructure_Out"
| "out_layout (JCSetIRLength t l) = JCSetIRLength_Out"
| "out_layout (JCGoToState s w) = JCGoToState_Out"
| "out_layout (JCSelectTAP t) = JCSelectTAP_Out"
| "out_layout (JCWriteIR v) = JCWriteIR_Out"
| "out_layout (JCWriteDR bs) = JCWriteDR_Out"
| "out_layout (JCShiftDR bs) = JCShiftDR_Out (length bs)"
| "out_layout (RVWriteDMI a d) = RVWriteDMI_Out"
| "out_layout (RVReadDMI a) = RVReadDMI_Out"

text \<open>What \<open>TransactionBuilder::Add\<close> emplaces, and what an iterator extracts: an action variant whose
  \<open>SizeOfPayload\<close> visits the option.\<close>

definition written_action :: "action \<Rightarrow> vobj" where
  "written_action a = VariantOption (action_layout a)"

definition read_action_size :: "nat \<Rightarrow> action \<Rightarrow> nat \<Rightarrow> nat option" where
  "read_action_size post a max_size =
     (if max_size < 4 then None
      else do { n \<leftarrow> VariantSizeOfPayload (action_layout a) (max_size - 4);
                let aligned_size = align_up post n;
                if max_size - 4 < aligned_size then None else Some (4 + aligned_size) })"

subsection \<open>Formatting\<close>

text \<open>\<open>PrintingStructureFormatter\<close>: items are separated by a blank.\<close>

datatype format_item = FName string | FValue string | FField string string

fun item_text :: "format_item \<Rightarrow> string" where
  "item_text (FName n) = n"
| "item_text (FValue v) = v"
| "item_text (FField n v) = n @ ''='' @ v"

fun print_items :: "bool \<Rightarrow> format_item list \<Rightarrow> string" where
  "print_items is_first [] = []"
| "print_items is_first (i # is) =
     (if is_first then [] else '' '') @ item_text i @ print_items False is"

definition print_structure :: "format_item list \<Rightarrow> string" where
  "print_structure is = print_items True is"

definition show_hex :: "nat \<Rightarrow> string" where
  "show_hex n = ''0x'' @ show_base 16 n"

text \<open>\<open>{:02x}\<close> of a byte.\<close>

definition show_byte :: "u8 \<Rightarrow> string" where
  "show_byte b = (let t = show_base 16 (unat b) in if length t < 2 then ''0'' @ t else t)"

fun join_bytes :: "u8 list \<Rightarrow> string" where
  "join_bytes [] = []"
| "join_bytes [b] = show_byte b"
| "join_bytes (b # bs) = show_byte b @ '' '' @ join_bytes bs"

definition format_bytes :: "u8 list \<Rightarrow> string" where
  "format_bytes bs = show_nat (length bs) @ '' ['' @ join_bytes bs @ '']''"

definition bit_text :: "bool \<Rightarrow> bool list \<Rightarrow> string" where
  "bit_text reverse bs =
     ''('' @ show_nat (length bs) @ '' '' @
     (if reverse then ''lsb-right) '' @ rev (map (\<lambda>b. if b then CHR ''1'' else CHR ''0'') bs)
      else ''lsb-left) '' @ map (\<lambda>b. if b then CHR ''1'' else CHR ''0'') bs)"

definition format_gate_mode :: "u32 \<Rightarrow> string" where
  "format_gate_mode m =
     (if m = 1 then ''Always stall if no pending requests''
      else if m = 2 then ''Force stall''
      else if m = 3 then ''No stall''
      else if m = 4 then ''Terminated''
      else ''Stall if no pending requests and the target is idle'')"

definition state_names :: "string list" where
  "state_names = [''TestLogicReset'', ''RunTestIdle'', ''SelectDR'', ''CaptureDR'', ''ShiftDR'',
     ''Exit1DR'', ''PauseDR'', ''Exit2DR'', ''UpdateDR'', ''SelectIR'', ''CaptureIR'', ''ShiftIR'',
     ''Exit1IR'', ''PauseIR'', ''Exit2IR'', ''UpdateIR'']"

definition format_state :: "u32 \<Rightarrow> string" where
  "format_state s =
     (if unat s < length state_names then state_names ! unat s else ''<unknown>'')"

text \<open>\<open>Format\<close> of every action.\<close>

definition SkipCycles_Format :: "u32 \<Rightarrow> format_item list" where
  "SkipCycles_Format n = [FName ''Skip-C'', FValue (show_nat (unat n))]"

definition WriteBytes_Format :: "u8 list \<Rightarrow> format_item list" where
  "WriteBytes_Format bs = [FName ''WRITE'', FValue (format_bytes bs)]"

definition ReadBytes_Format :: "u32 \<Rightarrow> format_item list" where
  "ReadBytes_Format n = [FName ''READ'', FValue (show_nat (unat n))]"

definition PutTMS_Format :: "bool list \<Rightarrow> format_item list" where
  "PutTMS_Format bs = [FName ''TMS <-'', FValue (bit_text False bs)]"

definition PutTDI_Format :: "bool list \<Rightarrow> format_item list" where
  "PutTDI_Format bs = [FName ''TDI <-'', FValue (bit_text True bs)]"

definition PutTDIGetTDO_Format :: "bool list \<Rightarrow> format_item list" where
  "PutTDIGetTDO_Format bs = [FName ''TDI-TDO <-'', FValue (bit_text True bs)]"

definition SetExecutionGateMode_Format :: "u32 \<Rightarrow> format_item list" where
  "SetExecutionGateMode_Format m = [FName ''SET-MODE'', FValue (format_gate_mode m)]"

definition APBWrite_Format :: "u32 \<Rightarrow> u32 \<Rightarrow> format_item list" where
  "APBWrite_Format a d =
     [FName ''APB-W'', FValue (show_hex (unat a) @ '' <-''), FValue (show_hex (unat d))]"

definition APBRead_Format :: "u32 \<Rightarrow> format_item list" where
  "APBRead_Format a = [FName ''APB-R'', FValue (show_hex (unat a))]"

definition APBSetPSEL_Format :: "u32 \<Rightarrow> format_item list" where
  "APBSetPSEL_Format p = [FName ''APB-Set-PSEL'', FValue (show_hex (unat p))]"

definition JCForgetChainStructure_Format :: "format_item list" where
  "JCForgetChainStructure_Format = [FName ''Forget-Chain-Structure'']"

definition JCSetIRLength_Format :: "u32 \<Rightarrow> u32 \<Rightarrow> format_item list" where
  "JCSetIRLength_Format t l =
     [FName ''Set-IR-Length'', FField ''TAP'' (show_nat (unat t)), FField ''length'' (show_nat (unat l))]"

definition JCGoToState_Format :: "u32 \<Rightarrow> u32 \<Rightarrow> format_item list" where
  "JCGoToState_Format s w =
     [FName ''->'', FValue (format_state s)] @
     (if w \<noteq> 0 then [FValue (''+ wait '' @ show_nat (unat w))] else [])"

definition JCSelectTAP_Format :: "u32 \<Rightarrow> format_item list" where
  "JCSelectTAP_Format t = [FName ''Select-TAP'', FValue (show_nat (unat t))]"

definition JCWriteIR_Format :: "u32 \<Rightarrow> format_item list" where
  "JCWriteIR_Format v = [FName ''IR <-'', FValue (show_nat (unat v))]"

definition JCWriteDR_Format :: "bool list \<Rightarrow> format_item list" where
  "JCWriteDR_Format bs = [FName ''DR <-'', FValue (bit_text True bs)]"

definition JCShiftDR_Format :: "bool list \<Rightarrow> format_item list" where
  "JCShiftDR_Format bs = [FName ''DR <->'', FValue (bit_text True bs)]"

definition RVWriteDMI_Format :: "u32 \<Rightarrow> u32 \<Rightarrow> format_item list" where
  "RVWriteDMI_Format a d =
     [FName ''DMI-W'', FValue (show_hex (unat a) @ '' <-''), FValue (show_hex (unat d))]"

definition RVReadDMI_Format :: "u32 \<Rightarrow> format_item list" where
  "RVReadDMI_Format a = [FName ''DMI-R'', FValue (show_hex (unat a))]"

fun Format :: "action \<Rightarrow> format_item list" where
  "Format (SkipCycles n) = SkipCycles_Format n"
| "Format (WriteBytes bs) = WriteBytes_Format bs"
| "Format (ReadBytes n) = ReadBytes_Format n"
| "Format (PutTMS bs) = PutTMS_Format bs"
| "Format (PutTDI bs l) = PutTDI_Format bs"
| "Format (PutTDIGetTDO bs l) = PutTDIGetTDO_Format bs"
| "Format (SetExecutionGateMode m) = SetExecutionGateMode_Format m"
| "Format (APBWrite a d) = APBWrite_Format a d"
| "Format (APBRead a) = APBRead_Format a"
| "Format (APBSetPSEL p) = APBSetPSEL_Format p"
| "Format JCForgetChainStructure = JCForgetChainStructure_Format"
| "Format (JCSetIRLength t l) = JCSetIRLength_Format t l"
| "Format (JCGoToState s w) = JCGoToState_Format s w"
| "Format (JCSelectTAP t) = JCSelectTAP_Format t"
| "Format (JCWriteIR v) = JCWriteIR_Format v"
| "Format (JCWriteDR bs) = JCWriteDR_Format bs"
| "Format (JCShiftDR bs) = JCShiftDR_Format bs"
| "Format (RVWriteDMI a d) = RVWriteDMI_Format a d"
| "Format (RVReadDMI a) = RVReadDMI_Format a"

text \<open>The formatter of an action variant: a discriminant that no option has is printed as such.\<close>

definition format_action :: "nat + action \<Rightarrow> string" where
  "format_action a =
     (case a of Inl d \<Rightarrow> ''Action '' @ show_nat d | Inr act \<Rightarrow> print_structure (Format act))"

lemma print_items_join: "i # is = xs \<Longrightarrow>
  print_structure xs = item_text i @ concat (map (\<lambda>j. '' '' @ item_text j) is)"
proof -
  have "print_items False js = concat (map (\<lambda>j. '' '' @ item_text j) js)" for js
    by (induction js) simp_all
  then show "i # is = xs \<Longrightarrow> ?thesis" by (auto simp: print_structure_def)
qed

subsection \<open>Properties\<close>

text \<open>Inside the variant of one driver the discriminants are distinct, so \<open>Visit\<close> of an
  action gives the action its own option. In the variant of all drivers they are not: there,
  \<open>SkipCycles\<close> is taken for \<open>WriteBytes\<close>, and it is the only action that is taken for another.\<close>

theorem action_dispatch:
  "(k \<in> set (driver_actions d) \<longrightarrow> visit_kind (driver_actions d) (ActionID k) = Some k) \<and>
   visit_kind AnyAction (ActionID k) = Some (if k = ASkipCycles then AWriteBytes else k)"
proof
  show "k \<in> set (driver_actions d) \<longrightarrow> visit_kind (driver_actions d) (ActionID k) = Some k"
    by (cases d; cases k) (simp_all add: visit_kind_def)
  show "visit_kind AnyAction (ActionID k) = Some (if k = ASkipCycles then AWriteBytes else k)"
    by (cases k) (simp_all add: visit_kind_def AnyAction_def all_drivers_def)
qed

theorem action_dispatch_witness:
  "AAPBRead \<in> set (driver_actions APB) \<and>
   visit_kind (driver_actions APB) 3002 = Some AAPBRead \<and>
   visit_kind AnyAction 1 = Some AWriteBytes"
  using action_dispatch [of AAPBRead APB] action_dispatch [of ASkipCycles APB] by simp

lemma po2_4: "po2 4"
  unfolding po2_def by (rule exI [of _ 2]) simp

lemmas layout_defs =
  written_action_def VariantOption_def DependentArray_def DependentBits_def next_part_alignment_def
  hsize_def

lemma action_layout_regular:
  "regular 4 (written_action a)" "ComputeMaxAlignment (written_action a) = 4"
  "regular 1 (action_layout a)" "misalignment (action_layout a) = 0"
  by (cases a; simp add: layout_defs po2_4 align_up_def misalignment_def)+

lemma out_layout_regular:
  "regular 4 (out_layout a)" "po2 (ComputeMaxAlignment (out_layout a))"
  by (cases a; simp add: layout_defs po2_4 align_up_def)+

lemma written_action_esize: "esize 4 (written_action a) = 4 + align_up 4 (esize 1 (action_layout a))"
proof -
  have "regular 4 (action_layout a)"
    using action_layout_regular(1) [of a]
    by (simp add: written_action_def VariantOption_def next_part_alignment_def)
  from esize_align [OF this] show ?thesis
    using action_layout_regular(2) [of a]
    by (cases a) (simp_all add: written_action_def VariantOption_def hsize_def align_up_def
        next_part_alignment_def DependentArray_def DependentBits_def)
qed

text \<open>Property C30: the actions and outputs of a transaction can be read back. Every action, emplaced
  as an option of its variant, has a regular layout for the buffer's alignment; an iterator, which
  reads it as a variant, computes exactly the size that was written and refuses exactly a buffer
  that is too short. So a sequence of actions is extracted at the positions where it was emplaced,
  and so is the sequence of their outputs.\<close>

theorem actions_read_back:
  "read_action_size 4 a max_size =
     (if EmplaceImpl 4 (written_action a) 0 \<le> max_size
      then Some (EmplaceImpl 4 (written_action a) 0) else None)
   \<and> (let ins = map written_action as; outs = map out_layout as in
      extract_all 4 (snd (emplace_all 4 ins x)) ins x = Some (emplace_all 4 ins x) \<and>
      extract_all 4 (snd (emplace_all 4 outs y)) outs y = Some (emplace_all 4 outs y))"
proof
  have "SizeOf 1 (action_layout a) mx =
      (if esize 1 (action_layout a) \<le> mx then Some (esize 1 (action_layout a)) else None)" for mx
    by (rule SizeOf_esize [OF action_layout_regular(3)])
  moreover have "esize 1 (action_layout a) \<le> align_up 4 (esize 1 (action_layout a))"
    by (rule align_up_bounds) simp
  ultimately show "read_action_size 4 a max_size =
     (if EmplaceImpl 4 (written_action a) 0 \<le> max_size
      then Some (EmplaceImpl 4 (written_action a) 0) else None)"
    using written_action_esize [of a]
    by (auto simp: read_action_size_def VariantSizeOfPayload_def action_layout_regular(4) Let_def
        simp flip: esize_def)
  have ins: "\<forall>ob \<in> set (map written_action as). regular 4 ob \<and> po2 (ComputeMaxAlignment ob)"
    by (auto simp: action_layout_regular po2_4)
  have outs: "\<forall>ob \<in> set (map out_layout as). regular 4 ob \<and> po2 (ComputeMaxAlignment ob)"
    by (auto simp: out_layout_regular)
  from extract_emplace_all [OF ins, of x] extract_emplace_all [OF outs, of y]
  show "let ins = map written_action as; outs = map out_layout as in
      extract_all 4 (snd (emplace_all 4 ins x)) ins x = Some (emplace_all 4 ins x) \<and>
      extract_all 4 (snd (emplace_all 4 outs y)) outs y = Some (emplace_all 4 outs y)"
    by (simp add: Let_def)
qed

end
