(* ===== verification/Errors.thy ===== *)
theory Errors
  imports Actions
begin

text \<open>
  Errors (\<open>driver/Error.hpp\<close> and the causes of \<open>driver/jtag/JtagChainAction.hpp\<close>): the cause of a
  failure, the error of a transaction, which also names the failed action, and the free-standing
  \<open>Error\<close>. A cause is a variant like an action; the text of \<open>errno\<close> values is the parameter \<open>strerror\<close>.
\<close>

datatype cause =
    CauseUnsupportedAction
  | CauseAllocationFailure
  | CauseStringMessage string
  | CauseNestedError "action_error option"
  | CauseTerminated string
  | CauseErrno string int int
  | CauseInvalidArgument string
  | CauseTimeoutInCycles u32
  | CauseTargetError
  | CauseInvalidJtagTapID u32 u32
  | CauseInvalidJtagState u32
  | CauseUnstableJtagState u32
  | CauseIRLengthTooBig u32 u32
  | CauseFailedToClearErrorFlag string u32
  | CauseInvalidVersion string u32
  | CauseValueOutOfRange string u64 u64 u64
  | CauseMaxLatencyReached u32
and action_error = ActionError (failed: "nat + action") (cause_of: cause)

fun CauseID :: "cause \<Rightarrow> nat" where
  "CauseID CauseUnsupportedAction = 0"
| "CauseID CauseAllocationFailure = 1"
| "CauseID (CauseStringMessage m) = 2"
| "CauseID (CauseNestedError e) = 3"
| "CauseID (CauseTerminated e) = 5"
| "CauseID (CauseErrno f r e) = 6"
| "CauseID (CauseInvalidArgument a) = 7"
| "CauseID (CauseTimeoutInCycles n) = 8"
| "CauseID CauseTargetError = 9"
| "CauseID (CauseInvalidJtagTapID r m) = 10"
| "CauseID (CauseInvalidJtagState s) = 11"
| "CauseID (CauseUnstableJtagState s) = 12"
| "CauseID (CauseIRLengthTooBig r m) = 13"
| "CauseID (CauseFailedToClearErrorFlag f v) = 14"
| "CauseID (CauseInvalidVersion c v) = 15"
| "CauseID (CauseValueOutOfRange n v l h) = 16"
| "CauseID (CauseMaxLatencyReached n) = 17"

subsection \<open>The error of a transaction\<close>

text \<open>\<open>ActionError::EmplacePayload\<close>: the failed action as it could be extracted, \<open>None\<close> for a null
  pointer and \<open>Inl\<close> for an unknown discriminant.\<close>

definition MakeActionError :: "(nat + action) option \<Rightarrow> cause \<Rightarrow> action_error" where
  "MakeActionError failed_action c =
     (case failed_action of
        Some (Inr a) \<Rightarrow> ActionError (Inr a) c
      | Some (Inl d) \<Rightarrow> ActionError (Inl d) c
      | None \<Rightarrow> ActionError (Inl InvalidAction) c)"

definition FailedAction :: "action_error \<Rightarrow> action option" where
  "FailedAction e = (case failed e of Inl d \<Rightarrow> None | Inr a \<Rightarrow> Some a)"

definition FailedActionID :: "action_error \<Rightarrow> nat" where
  "FailedActionID e = (case failed e of Inl d \<Rightarrow> d | Inr a \<Rightarrow> ActionID (kind a))"

text \<open>\<open>CauseNestedError\<close> of an error that was lost holds an allocation failure instead.\<close>

definition show_int :: "int \<Rightarrow> string" where
  "show_int i = (if i < 0 then ''-'' @ show_nat (nat (- i)) else show_nat (nat i))"

definition quoted :: "string \<Rightarrow> string" where
  "quoted s = CHR 0x27 # s @ [CHR 0x27]"

text \<open>The layouts of the causes and their texts. \<open>String\<close> payloads are described by their length.\<close>

definition CauseUnsupportedAction_layout :: vobj where
  "CauseUnsupportedAction_layout = VObj 1 1 True NoPayload"

definition CauseUnsupportedAction_Format :: "format_item list" where
  "CauseUnsupportedAction_Format = [FName ''Unsupported action'']"

definition CauseAllocationFailure_layout :: vobj where
  "CauseAllocationFailure_layout = VObj 1 1 True NoPayload"

definition CauseAllocationFailure_Format :: "format_item list" where
  "CauseAllocationFailure_Format = [FName ''Allocation failure'']"

definition CauseStringMessage_layout :: "nat \<Rightarrow> vobj" where
  "CauseStringMessage_layout len = VObj 1 1 True (Parts [String len])"

definition CauseStringMessage_Format :: "string \<Rightarrow> format_item list" where
  "CauseStringMessage_Format m = [FValue m]"

definition CauseTerminated_layout :: "nat \<Rightarrow> vobj" where
  "CauseTerminated_layout len = VObj 1 1 True (Parts [String len])"

definition CauseTerminated_Format :: "string \<Rightarrow> format_item list" where
  "CauseTerminated_Format e = [FValue (e @ '' is already terminated'')]"

definition CauseErrno_layout :: "nat \<Rightarrow> vobj" where
  "CauseErrno_layout len = VObj 8 4 False (Parts [String len])"

definition CauseErrno_Format :: "(int \<Rightarrow> string) \<Rightarrow> string \<Rightarrow> int \<Rightarrow> int \<Rightarrow> format_item list" where
  "CauseErrno_Format strerror f r e =
     [FValue (quoted f @ '' returned '' @ show_int r @ '',''),
      FField ''errno'' (show_int e @ '' ('' @ strerror e @ '')'')]"

definition CauseInvalidArgument_layout :: "nat \<Rightarrow> vobj" where
  "CauseInvalidArgument_layout len = VObj 1 1 True (Parts [String len])"

definition CauseInvalidArgument_Format :: "string \<Rightarrow> format_item list" where
  "CauseInvalidArgument_Format a = [FValue (''Invalid value of argument '' @ quoted a)]"

definition CauseTimeoutInCycles_layout :: vobj where
  "CauseTimeoutInCycles_layout = VObj 4 4 False NoPayload"

definition CauseTimeoutInCycles_Format :: "u32 \<Rightarrow> format_item list" where
  "CauseTimeoutInCycles_Format n = [FValue (''Timeout after '' @ show_nat (unat n) @ '' cycles'')]"

definition CauseTargetError_layout :: vobj where
  "CauseTargetError_layout = VObj 1 1 True NoPayload"

definition CauseTargetError_Format :: "format_item list" where
  "CauseTargetError_Format =
     [FValue ''The target indicated an error without details'']"

definition CauseInvalidJtagTapID_layout :: vobj where
  "CauseInvalidJtagTapID_layout = VObj 8 4 False NoPayload"

definition CauseInvalidJtagTapID_Format :: "u32 \<Rightarrow> u32 \<Rightarrow> format_item list" where
  "CauseInvalidJtagTapID_Format r m =
     [FValue (''Invalid TAP ID '' @ show_nat (unat r) @ '', max valid ID is '' @ show_nat (unat m))]"

definition CauseInvalidJtagState_layout :: vobj where
  "CauseInvalidJtagState_layout = VObj 4 4 False NoPayload"

definition CauseInvalidJtagState_Format :: "u32 \<Rightarrow> format_item list" where
  "CauseInvalidJtagState_Format s = [FValue (''Invalid JTAG state '' @ show_nat (unat s))]"

definition CauseUnstableJtagState_layout :: vobj where
  "CauseUnstableJtagState_layout = VObj 4 4 False NoPayload"

definition CauseUnstableJtagState_Format :: "u32 \<Rightarrow> format_item list" where
  "CauseUnstableJtagState_Format s =
     [FValue (''Cannot wait in '' @ format_state s @ '' state - it is unstable'')]"

definition CauseIRLengthTooBig_layout :: vobj where
  "CauseIRLengthTooBig_layout = VObj 8 4 False NoPayload"

definition CauseIRLengthTooBig_Format :: "u32 \<Rightarrow> u32 \<Rightarrow> format_item list" where
  "CauseIRLengthTooBig_Format r m =
     [FValue (''The specified IR length '' @ show_nat (unat r) @
        '' is greater than the maximum supported length '' @ show_nat (unat m))]"

definition CauseFailedToClearErrorFlag_layout :: "nat \<Rightarrow> vobj" where
  "CauseFailedToClearErrorFlag_layout len = VObj 4 4 False (Parts [String len])"

definition CauseFailedToClearErrorFlag_Format :: "string \<Rightarrow> u32 \<Rightarrow> format_item list" where
  "CauseFailedToClearErrorFlag_Format f v =
     [FValue (''Failed to clear '' @ quoted f), FField ''value'' (show_hex (unat v))]"

definition CauseInvalidVersion_layout :: "nat \<Rightarrow> vobj" where
  "CauseInvalidVersion_layout len = VObj 4 4 False (Parts [String len])"

definition CauseInvalidVersion_Format :: "string \<Rightarrow> u32 \<Rightarrow> format_item list" where
  "CauseInvalidVersion_Format c v =
     [FValue (''Invalid '' @ c @ '' version '' @ quoted (show_nat (unat v)))]"

definition CauseValueOutOfRange_layout :: "nat \<Rightarrow> vobj" where
  "CauseValueOutOfRange_layout len = VObj 24 8 False (Parts [String len])"

definition CauseValueOutOfRange_Format :: "string \<Rightarrow> u64 \<Rightarrow> u64 \<Rightarrow> u64 \<Rightarrow> format_item list" where
  "CauseValueOutOfRange_Format n v l h =
     [FValue (n @ '' = '' @ show_hex (unat v) @ '' is out of supported range ['' @ show_hex (unat l) @
        '' : '' @ show_hex (unat h) @ '']'')]"

definition CauseMaxLatencyReached_layout :: vobj where
  "CauseMaxLatencyReached_layout = VObj 4 4 False NoPayload"

definition CauseMaxLatencyReached_Format :: "u32 \<Rightarrow> format_item list" where
  "CauseMaxLatencyReached_Format n =
     [FValue (''Reached the maximum allowed latency of '' @ show_nat (unat n) @
        '' during the calibration'')]"

lemmas cause_layouts [simp] =
  CauseUnsupportedAction_layout_def CauseAllocationFailure_layout_def
  CauseStringMessage_layout_def CauseTerminated_layout_def CauseErrno_layout_def
  CauseInvalidArgument_layout_def CauseTimeoutInCycles_layout_def CauseTargetError_layout_def
  CauseInvalidJtagTapID_layout_def CauseInvalidJtagState_layout_def
  CauseUnstableJtagState_layout_def CauseIRLengthTooBig_layout_def
  CauseFailedToClearErrorFlag_layout_def CauseInvalidVersion_layout_def
  CauseValueOutOfRange_layout_def CauseMaxLatencyReached_layout_def

text \<open>The layout of a cause; that of a nested error depends on the copied error and is left out.\<close>

fun cause_layout :: "cause \<Rightarrow> vobj option" where
  "cause_layout CauseUnsupportedAction = Some CauseUnsupportedAction_layout"
| "cause_layout CauseAllocationFailure = Some CauseAllocationFailure_layout"
| "cause_layout (CauseStringMessage m) = Some (CauseStringMessage_layout (length m))"
| "cause_layout (CauseTerminated e) = Some (CauseTerminated_layout (length e))"
| "cause_layout (CauseErrno f r e) = Some (CauseErrno_layout (length f))"
| "cause_layout (CauseInvalidArgument a) = Some (CauseInvalidArgument_layout (length a))"
| "cause_layout (CauseTimeoutInCycles n) = Some CauseTimeoutInCycles_layout"
| "cause_layout CauseTargetError = Some CauseTargetError_layout"
| "cause_layout (CauseInvalidJtagTapID r m) = Some CauseInvalidJtagTapID_layout"
| "cause_layout (CauseInvalidJtagState s) = Some CauseInvalidJtagState_layout"
| "cause_layout (CauseUnstableJtagState s) = Some CauseUnstableJtagState_layout"
| "cause_layout (CauseIRLengthTooBig r m) = Some CauseIRLengthTooBig_layout"
| "cause_layout (CauseFailedToClearErrorFlag f v) = Some (CauseFailedToClearErrorFlag_layout (length f))"
| "cause_layout (CauseInvalidVersion c v) = Some (CauseInvalidVersion_layout (length c))"
| "cause_layout (CauseValueOutOfRange n v l h) = Some (CauseValueOutOfRange_layout (length n))"
| "cause_layout (CauseMaxLatencyReached n) = Some CauseMaxLatencyReached_layout"
| "cause_layout (CauseNestedError e) = None"

text \<open>The formatter of \<open>AnyAction\<close> prints an action as the option its discriminant is visited as. Where
  that is another action it reads the bytes of one action as another, which has no value here.\<close>

definition format_any_action :: "action \<Rightarrow> string option" where
  "format_any_action a =
     (if visit_kind AnyAction (ActionID (kind a)) = Some (kind a)
      then Some (print_structure (Format a)) else None)"

fun format_cause :: "(int \<Rightarrow> string) \<Rightarrow> cause \<Rightarrow> string option"
  and format_action_error :: "(int \<Rightarrow> string) \<Rightarrow> action_error \<Rightarrow> string option" where
  "format_cause strerror CauseUnsupportedAction =
     Some (print_structure CauseUnsupportedAction_Format)"
| "format_cause strerror CauseAllocationFailure =
     Some (print_structure CauseAllocationFailure_Format)"
| "format_cause strerror (CauseStringMessage m) =
     Some (print_structure (CauseStringMessage_Format m))"
| "format_cause strerror (CauseTerminated e) = Some (print_structure (CauseTerminated_Format e))"
| "format_cause strerror (CauseErrno f r e) =
     Some (print_structure (CauseErrno_Format strerror f r e))"
| "format_cause strerror (CauseInvalidArgument a) =
     Some (print_structure (CauseInvalidArgument_Format a))"
| "format_cause strerror (CauseTimeoutInCycles n) =
     Some (print_structure (CauseTimeoutInCycles_Format n))"
| "format_cause strerror CauseTargetError = Some (print_structure CauseTargetError_Format)"
| "format_cause strerror (CauseInvalidJtagTapID r m) =
     Some (print_structure (CauseInvalidJtagTapID_Format r m))"
| "format_cause strerror (CauseInvalidJtagState s) =
     Some (print_structure (CauseInvalidJtagState_Format s))"
| "format_cause strerror (CauseUnstableJtagState s) =
     Some (print_structure (CauseUnstableJtagState_Format s))"
| "format_cause strerror (CauseIRLengthTooBig r m) =
     Some (print_structure (CauseIRLengthTooBig_Format r m))"
| "format_cause strerror (CauseFailedToClearErrorFlag f v) =
     Some (print_structure (CauseFailedToClearErrorFlag_Format f v))"
| "format_cause strerror (CauseInvalidVersion c v) =
     Some (print_structure (CauseInvalidVersion_Format c v))"
| "format_cause strerror (CauseValueOutOfRange n v l h) =
     Some (print_structure (CauseValueOutOfRange_Format n v l h))"
| "format_cause strerror (CauseMaxLatencyReached n) =
     Some (print_structure (CauseMaxLatencyReached_Format n))"
| "format_cause strerror (CauseNestedError e) =
     (case e of
        None \<Rightarrow> Some (print_structure CauseAllocationFailure_Format)
      | Some err \<Rightarrow> format_action_error strerror err)"
| "format_action_error strerror (ActionError f c) =
     do { cause_text \<leftarrow> format_cause strerror c;
          case f of
            Inl d \<Rightarrow> Some (''Action '' @ show_nat d @ '' => FAILED: '' @ cause_text)
          | Inr a \<Rightarrow>
              do { action_text \<leftarrow> format_any_action a;
                   Some (action_text @ '' => FAILED, cause: '' @ cause_text) } }"

subsection \<open>Free-standing errors\<close>

text \<open>\<open>Error\<close>: the flag \<open>m_failed_to_allocate_buffer\<close>, which one constructor leaves without a value
  (\<open>None\<close>), and the cause in its buffer. Reading the flag while it has no value is undefined.\<close>

record error =
  m_failed_to_allocate_buffer :: "bool option"
  m_buffer :: "cause option"

definition ErrorSuccess :: error where
  "ErrorSuccess = \<lparr>m_failed_to_allocate_buffer = Some False, m_buffer = None\<rparr>"

definition ErrorDefault :: error where
  "ErrorDefault = \<lparr>m_failed_to_allocate_buffer = Some True, m_buffer = None\<rparr>"

definition ErrorMake :: "bool \<Rightarrow> cause \<Rightarrow> error" where
  "ErrorMake allocated c =
     (if allocated then \<lparr>m_failed_to_allocate_buffer = None, m_buffer = Some c\<rparr> else ErrorDefault)"

definition ErrorCopy :: "bool \<Rightarrow> error \<Rightarrow> error option" where
  "ErrorCopy allocated from =
     do { failed_to_allocate \<leftarrow> m_failed_to_allocate_buffer from;
          if failed_to_allocate then Some ErrorDefault
          else do { c \<leftarrow> m_buffer from; Some (ErrorMake allocated c) } }"

definition ErrorBool :: "error \<Rightarrow> bool option" where
  "ErrorBool e = do { f \<leftarrow> m_failed_to_allocate_buffer e; Some (f \<or> m_buffer e \<noteq> None) }"

definition ErrorGetCause :: "error \<Rightarrow> cause option" where
  "ErrorGetCause e = m_buffer e"

definition format_error :: "(int \<Rightarrow> string) \<Rightarrow> error \<Rightarrow> string option" where
  "format_error strerror e =
     do { is_error \<leftarrow> ErrorBool e;
          if \<not> is_error then Some ''Success''
          else case ErrorGetCause e of
                 None \<Rightarrow> Some ''Unknown error: The cause is lost due to an allocation failure''
               | Some c \<Rightarrow> format_cause strerror c }"

text \<open>An error that has a cause leaves the flag without a value, so asking whether it is an error
  reads an indeterminate \<open>bool\<close>.\<close>

lemma ErrorMake_indeterminate: "ErrorBool (ErrorMake True c) = None \<and> ErrorCopy b (ErrorMake True c) = None"
  by (simp add: ErrorBool_def ErrorMake_def ErrorCopy_def)

subsection \<open>The layout of an error\<close>

text \<open>How \<open>ActionError::Option<C>\<close> is written for a known action and how \<open>ActionError\<close> is read: the
  writer knows the alignment of the cause, the reader only that of a \<open>Cause\<close> variant, which is
  four.\<close>

definition action_copy :: "action \<Rightarrow> vobj" where
  "action_copy a =
     VObj 4 4 False (Raw (misalignment (action_layout a) + esize 1 (action_layout a)))"

definition error_written :: "action \<Rightarrow> vobj \<Rightarrow> vobj" where
  "error_written a c = VObj 1 1 True (Parts [VariantOption (action_copy a), VariantOption c])"

definition error_read :: "action \<Rightarrow> nat \<Rightarrow> vobj" where
  "error_read a n =
     VObj 1 1 True (Parts [VObj 4 4 False (Raw (esize 1 (action_copy a))), VObj 4 4 False (Raw n)])"

lemma cause_alignment:
  "cause_layout c = Some l \<Longrightarrow> CauseID c \<noteq> 16 \<Longrightarrow> ComputeMaxAlignment l \<le> 4"
  by (cases c) (auto simp: String_def DependentArray_def)

text \<open>Whatever the failed action, the reader of an error finds the cause where it was
  written, unless the cause is \<open>CauseValueOutOfRange\<close>, whose 64-bit members need more than the
  alignment of the variant: for a failed DMI read that cause is written at offset 16 and looked for
  at offset 12.\<close>

theorem error_cause_position:
  assumes "esize 1 (action_layout a) < 2 ^ 63" and "cause_layout c = Some l"
  shows "(CauseID c \<noteq> 16 \<longrightarrow>
      Get 1 (error_read a n) =
        Some (part_offsets 4 [VariantOption (action_copy a), VariantOption l] 0 ! 1)) \<and>
   part_offsets 4 [VariantOption (action_copy (RVReadDMI 0)),
     VariantOption (CauseValueOutOfRange_layout 7)] 0 ! 1 = 16 \<and>
   Get 1 (error_read (RVReadDMI 0) n) = Some 12"
proof (intro conjI impI)
  let ?e = "esize 1 (action_layout a)"
  have al: "align_up 4 (4 + ?e) = 4 + align_up 4 ?e" by (rule align_up_add) simp_all
  have "align_up 4 ?e < ?e + 4" by (rule align_up_bounds) simp
  then have "8 + align_up 4 ?e \<le> 2 ^ 64 - 1" using assms by simp
  moreover have "esize 1 (action_copy a) = 4 + ?e"
    by (simp add: action_copy_def hsize_def action_layout_regular)
  ultimately show "Get 1 (error_read a n) =
      Some (part_offsets 4 [VariantOption (action_copy a), VariantOption l] 0 ! 1)"
    if "CauseID c \<noteq> 16"
    using cause_alignment [OF assms(2) that] al
    by (simp add: error_read_def Get_def next_part_alignment_def VariantOption_def action_copy_def
        action_layout_regular align_up_def [of 4 4] max_def)
  show "part_offsets 4 [VariantOption (action_copy (RVReadDMI 0)),
     VariantOption (CauseValueOutOfRange_layout 7)] 0 ! 1 = 16"
    by (simp add: VariantOption_def action_copy_def String_def
        next_part_alignment_def misalignment_def hsize_def align_up_def DependentArray_def)
  show "Get 1 (error_read (RVReadDMI 0) n) = Some 12"
    by (simp add: error_read_def Get_def next_part_alignment_def action_copy_def misalignment_def
        hsize_def align_up_def)
qed

theorem error_cause_position_witness:
  "esize 1 (action_layout (RVReadDMI 5)) < 2 ^ 63 \<and>
   cause_layout (CauseTimeoutInCycles 9) = Some CauseTimeoutInCycles_layout \<and>
   Get 1 (error_read (RVReadDMI 5) 4) =
     Some (part_offsets 4 [VariantOption (action_copy (RVReadDMI 5)),
       VariantOption CauseTimeoutInCycles_layout] 0 ! 1)"
proof -
  have "esize 1 (action_layout (RVReadDMI 5)) < 2 ^ 63" by (simp add: hsize_def)
  from error_cause_position [OF this, of "CauseTimeoutInCycles 9" CauseTimeoutInCycles_layout 4] this
  show ?thesis by simp
qed

end
