(* ===== verification/Transaction.thy ===== *)
theory Transaction
  imports Errors
begin

text \<open>
  Transactions (\<open>driver/Driver.hpp\<close>, \<open>driver/DriverImpl.hpp\<close>): the builder that collects actions, the
  status that says which of them are complete, the view a driver has of a transaction in progress,
  and \<open>Driver::Schedule\<close>.

  The buffers of a transaction are modelled by what is in them: the list of its actions, \<open>Inl\<close> for
  one whose discriminant the driver's variant does not know, and the list of outputs. A position is
  the index of an action; the end of the buffer is the number of actions. That positions, sizes and
  iteration agree with the bytes is the subject of the theories on layouts and buffers.
\<close>

subsection \<open>The chain of dependent transactions\<close>

text \<open>A transaction and the transactions it is part of, innermost first, with driver and description.
  \<open>length\<close> counts the outer ones.\<close>

record dependent =
  dep_chain :: "(string \<times> string) list"
  dep_length :: nat

definition extend_dependent :: "dependent option \<Rightarrow> string \<Rightarrow> string \<Rightarrow> dependent" where
  "extend_dependent d driver_name tx_description =
     (case d of
        None \<Rightarrow> \<lparr>dep_chain = [(driver_name, tx_description)], dep_length = 0\<rparr>
      | Some p \<Rightarrow> \<lparr>dep_chain = (driver_name, tx_description) # dep_chain p, dep_length = 1 + dep_length p\<rparr>)"

fun format_chain :: "(string \<times> string) list \<Rightarrow> string" where
  "format_chain [] = []"
| "format_chain [(n, d)] = ''('' @ n @ '') '' @ d"
| "format_chain ((n, d) # rest) = format_chain rest @ '' -> ('' @ n @ '') '' @ d"

fun parse_spec :: "string \<Rightarrow> bool \<times> nat \<Rightarrow> bool \<times> nat" where
  "parse_spec [] st = st"
| "parse_spec (c # cs) (is_indentation, additional) =
     (if c = CHR 0x7D then (is_indentation, additional)
      else parse_spec cs
        (if c = CHR ''i'' then True else is_indentation,
         if of_char c \<ge> (48 :: nat) \<and> of_char c \<le> (57 :: nat) then of_char c - 48 else additional))"

definition format_dependent :: "string \<Rightarrow> dependent \<Rightarrow> string" where
  "format_dependent spec d =
     (case parse_spec spec (False, 0) of (is_indentation, additional) \<Rightarrow>
        if is_indentation then concat (replicate (dep_length d + additional) ''| '')
        else format_chain (dep_chain d))"

subsection \<open>Building\<close>

record 'o builder =
  b_ins :: "(nat + action) list"
  b_outs :: "'o list"
  b_allocation_failure :: bool
  b_dependent :: dependent

text \<open>\<open>Add\<close>: the action and its output are emplaced; each may find no memory.\<close>

definition Add :: "bool \<Rightarrow> bool \<Rightarrow> action \<Rightarrow> 'o \<Rightarrow> 'o builder \<Rightarrow> nat \<times> 'o builder" where
  "Add in_allocated out_allocated a out b =
     (length (b_ins b),
      b\<lparr>b_ins := (if in_allocated then b_ins b @ [Inr a] else b_ins b),
        b_outs := (if out_allocated then b_outs b @ [out] else b_outs b),
        b_allocation_failure := (b_allocation_failure b \<or> \<not> in_allocated \<or> \<not> out_allocated)\<rparr>)"

definition Initiate :: "string \<Rightarrow> string \<Rightarrow> dependent option \<Rightarrow> bool \<Rightarrow> 'o builder" where
  "Initiate driver_name tx_description d failed_before =
     \<lparr>b_ins = [], b_outs = [], b_allocation_failure = failed_before,
      b_dependent = extend_dependent d driver_name tx_description\<rparr>"

subsection \<open>Status\<close>

record 'o status =
  s_ins :: "(nat + action) list"
  s_outs :: "'o list"
  s_allocation_failure :: bool
  s_dependent :: dependent
  m_first_incomplete :: nat
  m_error :: "action_error option"

definition StatusOf :: "'o builder \<Rightarrow> 'o status" where
  "StatusOf b =
     \<lparr>s_ins = b_ins b, s_outs = b_outs b, s_allocation_failure = b_allocation_failure b,
      s_dependent = b_dependent b, m_first_incomplete = 0, m_error = None\<rparr>"

definition status_end :: "'o status \<Rightarrow> nat" where
  "status_end s = length (s_ins s)"

definition status_ok :: "'o status \<Rightarrow> bool" where
  "status_ok s \<longleftrightarrow> \<not> s_allocation_failure s \<and> m_first_incomplete s = status_end s"

text \<open>\<open>Iterator::operator*\<close>: the extracted action and its output, and \<open>operator bool\<close> of the pair.\<close>

definition deref :: "'o status \<Rightarrow> nat \<Rightarrow> (nat + action) option \<times> 'o option" where
  "deref s i =
     (if i < length (s_ins s)
      then (Some (s_ins s ! i),
            if isl (s_ins s ! i) \<or> length (s_outs s) \<le> i then None else Some (s_outs s ! i))
      else (None, None))"

definition act_ok :: "'o status \<Rightarrow> nat \<Rightarrow> bool" where
  "act_ok s i = (fst (deref s i) \<noteq> None \<and> snd (deref s i) \<noteq> None)"

text \<open>\<open>Iterator::operator++\<close>: behind an action that is not recognised there is only the end.\<close>

definition next_position :: "'o status \<Rightarrow> nat \<Rightarrow> nat" where
  "next_position s i =
     (if i < length (s_ins s) \<and> \<not> isl (s_ins s ! i) then Suc i else status_end s)"

definition Incomplete :: "'o status \<Rightarrow> (nat + action) list" where
  "Incomplete s = drop (m_first_incomplete s) (s_ins s)"

definition Complete :: "'o status \<Rightarrow> (nat + action) list" where
  "Complete s = take (m_first_incomplete s) (s_ins s)"

subsection \<open>In progress\<close>

definition Done :: "nat \<Rightarrow> 'o status \<Rightarrow> 'o status" where
  "Done i s = s\<lparr>m_first_incomplete := next_position s i\<rparr>"

definition Undo :: "nat \<Rightarrow> 'o status \<Rightarrow> 'o status" where
  "Undo i s = s\<lparr>m_first_incomplete := i\<rparr>"

text \<open>\<open>FailImpl\<close> replaces the error; it is lost when the buffer for it cannot be had.\<close>

definition FailImpl :: "bool \<Rightarrow> nat \<Rightarrow> cause \<Rightarrow> 'o status \<Rightarrow> 'o status" where
  "FailImpl error_allocated i c s =
     s\<lparr>m_error := (if error_allocated then Some (MakeActionError (fst (deref s i)) c) else None)\<rparr>"

definition Fail :: "bool \<Rightarrow> cause \<Rightarrow> 'o status \<Rightarrow> 'o status" where
  "Fail error_allocated c s =
     (if status_ok s then s else FailImpl error_allocated (m_first_incomplete s) c s)"

definition FailCause :: "bool \<Rightarrow> cause option \<Rightarrow> 'o status \<Rightarrow> 'o status" where
  "FailCause error_allocated c s =
     (case c of None \<Rightarrow> s | Some cs \<Rightarrow> Fail error_allocated cs s)"

definition FailAt :: "bool \<Rightarrow> nat \<Rightarrow> cause \<Rightarrow> 'o status \<Rightarrow> 'o status" where
  "FailAt error_allocated i c s = FailImpl error_allocated i c s"

subsection \<open>Scheduling\<close>

text \<open>The first position from \<open>i\<close> at which the loop of \<open>Schedule\<close> meets an action that is not valid.\<close>

function first_invalid :: "'o status \<Rightarrow> nat \<Rightarrow> nat option" where
  "first_invalid s i =
     (if status_end s \<le> i then None
      else if \<not> act_ok s i then Some i
      else first_invalid s (next_position s i))"
  by pat_completeness auto
termination
  by (relation "measure (\<lambda>(s, i). status_end s - i)") (auto simp: next_position_def status_end_def)

declare first_invalid.simps [simp del]

text \<open>\<open>Schedule\<close>: \<open>execute\<close> is the driver's \<open>Execute\<close>, \<open>None\<close> when its frame cannot be allocated;
  \<open>frame\<close> says whether the frame of \<open>ScheduleAsync\<close> can be. The second component tells whether the
  driver was given the transaction.\<close>

definition Schedule ::
  "bool \<Rightarrow> bool \<Rightarrow> ('o status \<Rightarrow> 'o status option) \<Rightarrow> 'o builder \<Rightarrow> 'o status \<times> bool" where
  "Schedule error_allocated frame execute b =
     (let before = StatusOf b in
      if b_allocation_failure b then (before, False)
      else if status_ok before then (before, False)
      else case first_invalid before 0 of
             Some i \<Rightarrow> (FailAt error_allocated i CauseUnsupportedAction before, False)
           | None \<Rightarrow>
               if \<not> frame then (before, False)
               else (case execute before of None \<Rightarrow> (before, False) | Some after \<Rightarrow> (after, True)))"

subsection \<open>Properties\<close>

definition all_known :: "'o builder \<Rightarrow> bool" where
  "all_known b \<longleftrightarrow> (\<forall>a \<in> set (b_ins b). \<not> isl a) \<and> length (b_outs b) = length (b_ins b)"

lemma first_invalid_None:
  "first_invalid s i = None \<longleftrightarrow> (\<forall>j. i \<le> j \<and> j < status_end s \<longrightarrow> act_ok s j)"
proof (induction s i rule: first_invalid.induct)
  case (1 s i)
  show ?case
  proof (cases "i < status_end s \<and> act_ok s i")
    case True
    then have "next_position s i = Suc i"
      by (auto simp: next_position_def act_ok_def deref_def status_end_def split: if_splits)
    with 1 True show ?thesis
      by (subst first_invalid.simps) (auto simp: not_le Suc_le_eq, metis le_neq_implies_less)
  next
    case False
    then show ?thesis by (subst first_invalid.simps) auto
  qed
qed

lemma first_invalid_Some:
  "first_invalid s i = Some j \<Longrightarrow>
     i \<le> j \<and> j < status_end s \<and> \<not> act_ok s j \<and> (\<forall>k. i \<le> k \<and> k < j \<longrightarrow> act_ok s k)"
proof (induction s i rule: first_invalid.induct)
  case (1 s i)
  show ?case
  proof (cases "i < status_end s \<and> act_ok s i")
    case True
    then have n: "next_position s i = Suc i"
      by (auto simp: next_position_def act_ok_def deref_def status_end_def split: if_splits)
    have "first_invalid s (Suc i) = Some j"
      using 1(2) True n by (subst (asm) first_invalid.simps) simp
    with 1(1) True n show ?thesis
      by (auto simp: not_le Suc_le_eq) (metis le_neq_implies_less)
  next
    case False
    then show ?thesis
      using 1(2) by (subst (asm) first_invalid.simps) (auto split: if_splits)
  qed
qed

lemma all_known_iff:
  assumes "length (b_outs b) = length (b_ins b)"
  shows "all_known b \<longleftrightarrow> (\<forall>j < status_end (StatusOf b). act_ok (StatusOf b) j)"
  using assms
  by (auto simp: all_known_def act_ok_def deref_def StatusOf_def status_end_def all_set_conv_all_nth)

text \<open>Property C27: a transaction that lost nothing to an allocation failure, is not empty and has only
  known actions is given to the driver, once the frame of the coroutine is there, and its status is what the driver
  makes of it; if the driver has no memory for its own frame the transaction comes back untouched. The driver sees no other
  transaction. An empty transaction
  succeeds at once; one that lost an action does not succeed; and an unknown action is reported as
  the failed one, the first of them, with nothing executed.\<close>

theorem Schedule_correct:
  assumes "length (b_outs b) = length (b_ins b)"
  shows "case Schedule error_allocated frame execute b of (s, executed) \<Rightarrow>
    (executed \<longrightarrow> \<not> b_allocation_failure b \<and> b_ins b \<noteq> [] \<and> all_known b \<and>
       execute (StatusOf b) = Some s)
    \<and> (\<not> executed \<longrightarrow> s_ins s = b_ins b \<and> m_first_incomplete s = 0 \<and>
       (status_ok s \<longleftrightarrow> \<not> b_allocation_failure b \<and> b_ins b = []))
    \<and> (\<not> b_allocation_failure b \<and> error_allocated \<and> \<not> all_known b \<longrightarrow>
       (\<exists>i d. i < length (b_ins b) \<and> b_ins b ! i = Inl d \<and> (\<forall>j < i. \<not> isl (b_ins b ! j)) \<and>
          m_error s = Some (ActionError (Inl d) CauseUnsupportedAction)))
    \<and> (\<not> b_allocation_failure b \<and> b_ins b \<noteq> [] \<and> all_known b \<and> frame \<longrightarrow>
       (case execute (StatusOf b) of
          None \<Rightarrow> s = StatusOf b \<and> \<not> executed
        | Some after \<Rightarrow> s = after \<and> executed))"
proof -
  let ?s = "StatusOf b"
  have simps: "s_ins ?s = b_ins b" "s_outs ?s = b_outs b" "m_first_incomplete ?s = 0"
    "s_allocation_failure ?s = b_allocation_failure b" "m_error ?s = None"
    "status_end ?s = length (b_ins b)"
    by (simp_all add: StatusOf_def status_end_def)
  have empty: "all_known b" if "b_ins b = []" using that assms by (simp add: all_known_def)
  show ?thesis
  proof (cases "b_allocation_failure b \<or> b_ins b = []")
    case True
    then show ?thesis
      using simps empty by (auto simp: Schedule_def Let_def status_ok_def)
  next
    case False
    then have n: "\<not> status_ok ?s" using simps by (auto simp: status_ok_def)
    show ?thesis
    proof (cases "first_invalid ?s 0")
      case None
      then have "all_known b"
        using first_invalid_None [of ?s 0] all_known_iff [OF assms] by simp
      with None False n simps show ?thesis
        by (auto simp: Schedule_def Let_def split: option.split)
    next
      case (Some i)
      note inv = first_invalid_Some [OF Some]
      then obtain d where d: "b_ins b ! i = Inl d" "i < length (b_ins b)"
        using simps assms by (auto simp: act_ok_def deref_def isl_def split: if_splits)
      have before: "\<forall>j < i. \<not> isl (b_ins b ! j)"
        using inv simps d by (auto simp: act_ok_def deref_def split: if_splits)
      have "\<not> all_known b"
        using d nth_mem [OF d(2)] by (metis all_known_def isl_def)
      with Some False n simps d before show ?thesis
        by (auto simp: Schedule_def Let_def FailAt_def FailImpl_def MakeActionError_def deref_def
            status_ok_def status_end_def)
    qed
  qed
qed

definition two_actions :: "unit builder" where
  "two_actions = \<lparr>b_ins = [Inr (APBRead 4), Inl 77], b_outs = [(), ()], b_allocation_failure = False,
     b_dependent = \<lparr>dep_chain = [], dep_length = 0\<rparr>\<rparr>"

definition known_action :: "unit builder" where
  "known_action = two_actions\<lparr>b_ins := [Inr (APBRead 4)], b_outs := [()]\<rparr>"

theorem Schedule_correct_witness:
  "length (b_outs two_actions) = length (b_ins two_actions) \<and>
   m_error (fst (Schedule True True Some two_actions)) =
     Some (ActionError (Inl 77) CauseUnsupportedAction) \<and>
   Schedule True True (\<lambda>s. Some (Done 0 s)) known_action = (Done 0 (StatusOf known_action), True)"
proof (intro conjI)
  show l: "length (b_outs two_actions) = length (b_ins two_actions)" by (simp add: two_actions_def)
  have k: "\<not> b_allocation_failure two_actions \<and> True \<and> \<not> all_known two_actions"
    by (simp add: all_known_def two_actions_def)
  obtain s e where se: "Schedule True True Some two_actions = (s, e)" by force
  note spec = Schedule_correct [OF l, where error_allocated = True and frame = True and execute = Some,
      unfolded se prod.case]
  obtain i d where i: "i < length (b_ins two_actions)" "b_ins two_actions ! i = Inl d"
    "m_error s = Some (ActionError (Inl d) CauseUnsupportedAction)"
    using mp [OF conjunct1 [OF conjunct2 [OF conjunct2 [OF spec]]] k] by blast
  then have "d = 77" by (auto simp: two_actions_def nth_Cons' less_Suc_eq split: if_splits)
  then show "m_error (fst (Schedule True True Some two_actions)) =
      Some (ActionError (Inl 77) CauseUnsupportedAction)" using i(3) se by simp
next
  have l: "length (b_outs known_action) = length (b_ins known_action)"
    by (simp add: two_actions_def known_action_def)
  have k: "\<not> b_allocation_failure known_action \<and> b_ins known_action \<noteq> [] \<and> all_known known_action \<and> True"
    by (simp add: all_known_def two_actions_def known_action_def)
  obtain s e where se: "Schedule True True (\<lambda>s. Some (Done 0 s)) known_action = (s, e)" by force
  note spec = Schedule_correct [OF l, where error_allocated = True and frame = True and execute = "\<lambda>s. Some (Done 0 s)",
      unfolded se prod.case]
  show "Schedule True True (\<lambda>s. Some (Done 0 s)) known_action = (Done 0 (StatusOf known_action), True)"
    using mp [OF conjunct2 [OF conjunct2 [OF conjunct2 [OF spec]]] k] se by simp
qed

end
