(* ===== verification/Transaction_Storage.thy ===== *)
theory Transaction_Storage
  imports Transaction "HOL-Library.Multiset"
begin

text \<open>
  The buffers of transactions and who holds them (\<open>TransactionStorage\<close>, the constructors, assignments and destructors
  of \<open>TransactionStatus\<close>, \<open>FailImpl\<close> and \<open>Initiate\<close>, in \<open>driver/Driver.hpp\<close> and \<open>driver/DriverImpl.hpp\<close>).

  A buffer is reduced to what its life cycle depends on: the chain of chunks it holds, null or a number, and
  whether an allocation in it has failed. Chains are numbered in the order in which they come to exist. The pool of a driver is
  \<open>FreeList\<close> reduced to its values; \<open>room\<close> tells whether it finds memory for one more item. The chains that destructors gave
  back to the memory resource are recorded. Builders, statuses and transactions in progress are objects that differ only in
  their error buffer, which a builder does not have.
\<close>

subsection \<open>Buffers and the pool\<close>

record tbuf =
  tb_chain :: "nat option"
  tb_failed :: bool

definition move_tbuf :: "tbuf \<Rightarrow> tbuf \<times> tbuf" where
  "move_tbuf b = (b, b\<lparr>tb_chain := None\<rparr>)"

definition fresh_tbuf :: tbuf where
  "fresh_tbuf = \<lparr>tb_chain = None, tb_failed = False\<rparr>"

record world =
  pool :: "tbuf list"
  deleted :: "nat list"
  next_chain :: nat

definition take_or_make :: "world \<Rightarrow> tbuf \<times> world" where
  "take_or_make w = (case pool w of [] \<Rightarrow> (fresh_tbuf, w) | b # bs \<Rightarrow> (b, w\<lparr>pool := bs\<rparr>))"

text \<open>\<open>FreeList::Free\<close>: without memory for the item the value is left where it was.\<close>

definition free_tbuf :: "bool \<Rightarrow> tbuf \<Rightarrow> world \<Rightarrow> tbuf \<times> world" where
  "free_tbuf room b w =
     (if room then (case move_tbuf b of (moved, left_over) \<Rightarrow> (left_over, w\<lparr>pool := moved # pool w\<rparr>)) else (b, w))"

definition destroy_tbuf :: "tbuf \<Rightarrow> world \<Rightarrow> world" where
  "destroy_tbuf b w = (case tb_chain b of None \<Rightarrow> w | Some c \<Rightarrow> w\<lparr>deleted := c # deleted w\<rparr>)"

text \<open>\<open>TransactionBuffer::operator=\<close>: the old chain is released.\<close>

definition assign_tbuf :: "tbuf \<Rightarrow> tbuf \<Rightarrow> world \<Rightarrow> tbuf \<times> tbuf \<times> world" where
  "assign_tbuf dest from w =
     (case move_tbuf from of (moved, left_over) \<Rightarrow> (moved, left_over, destroy_tbuf dest w))"

subsection \<open>Storage\<close>

record storage =
  owner :: bool
  ins :: tbuf
  outs :: tbuf

definition move_storage :: "storage \<Rightarrow> storage \<times> storage" where
  "move_storage s =
     (case (move_tbuf (ins s), move_tbuf (outs s)) of
        ((i, i'), (out, out')) \<Rightarrow> (\<lparr>owner = owner s, ins = i, outs = out\<rparr>, \<lparr>owner = False, ins = i', outs = out'\<rparr>))"

definition free_unless_failed :: "bool \<Rightarrow> tbuf \<Rightarrow> world \<Rightarrow> tbuf \<times> world" where
  "free_unless_failed room b w = (if tb_failed b then (b, w) else free_tbuf room b w)"

definition FreeResources :: "bool \<Rightarrow> storage \<Rightarrow> world \<Rightarrow> storage \<times> world" where
  "FreeResources room s w =
     (if \<not> owner s then (s, w)
      else case free_unless_failed room (ins s) w of
             (i, w) \<Rightarrow>
               (case free_unless_failed room (outs s) w of
                  (out, w) \<Rightarrow> (\<lparr>owner = False, ins = i, outs = out\<rparr>, w)))"

definition destroy_storage :: "bool \<Rightarrow> storage \<Rightarrow> world \<Rightarrow> world" where
  "destroy_storage room s w =
     (case FreeResources room s w of (s, w) \<Rightarrow> destroy_tbuf (ins s) (destroy_tbuf (outs s) w))"

text \<open>The result is the assigned storage, what is left of the other one, and the world.\<close>

definition assign_storage :: "bool \<Rightarrow> storage \<Rightarrow> storage \<Rightarrow> world \<Rightarrow> storage \<times> storage \<times> world" where
  "assign_storage room dest from w =
     (case FreeResources room dest w of
        (dest, w) \<Rightarrow>
          (case assign_tbuf (ins dest) (ins from) w of
             (i, i', w) \<Rightarrow>
               (case assign_tbuf (outs dest) (outs from) w of
                  (out, out', w) \<Rightarrow>
                    (\<lparr>owner = owner from, ins = i, outs = out\<rparr>, \<lparr>owner = False, ins = i', outs = out'\<rparr>, w))))"

subsection \<open>Statuses\<close>

record tobj =
  storage :: storage
  error_buffer :: "tbuf option"

text \<open>The error buffer goes to the pool if the storage has an owner, and is destroyed otherwise.\<close>

definition drop_error :: "bool \<Rightarrow> tobj \<Rightarrow> world \<Rightarrow> world" where
  "drop_error room t w =
     (case error_buffer t of
        None \<Rightarrow> w
      | Some b \<Rightarrow>
          if owner (storage t) then (case free_tbuf room b w of (b, w) \<Rightarrow> destroy_tbuf b w) else destroy_tbuf b w)"

definition destroy_status :: "bool \<Rightarrow> tobj \<Rightarrow> world \<Rightarrow> world" where
  "destroy_status room t w = destroy_storage room (storage t) (drop_error room t w)"

definition move_status :: "tobj \<Rightarrow> tobj \<times> tobj" where
  "move_status t =
     (case move_storage (storage t) of
        (s, s') \<Rightarrow> (\<lparr>storage = s, error_buffer = error_buffer t\<rparr>, \<lparr>storage = s', error_buffer = None\<rparr>))"

definition assign_status :: "bool \<Rightarrow> tobj \<Rightarrow> tobj \<Rightarrow> world \<Rightarrow> tobj \<times> tobj \<times> world" where
  "assign_status room dest from w =
     (case assign_storage room (storage dest) (storage from) (drop_error room dest w) of
        (s, s', w) \<Rightarrow> (\<lparr>storage = s, error_buffer = error_buffer from\<rparr>, \<lparr>storage = s', error_buffer = None\<rparr>, w))"

text \<open>\<open>Initiate\<close> without and with a status to reuse. The reused buffers are cleared, which keeps their chains and their flags.\<close>

definition initiate :: "world \<Rightarrow> tobj \<times> world" where
  "initiate w =
     (case take_or_make w of
        (i, w) \<Rightarrow> (case take_or_make w of (out, w) \<Rightarrow> (\<lparr>storage = \<lparr>owner = True, ins = i, outs = out\<rparr>, error_buffer = None\<rparr>, w)))"

definition initiate_reuse :: "tobj \<Rightarrow> tobj \<times> tobj" where
  "initiate_reuse t =
     (case move_storage (storage t) of (s, s') \<Rightarrow> (\<lparr>storage = s, error_buffer = None\<rparr>, t\<lparr>storage := s'\<rparr>))"

text \<open>Emplacing into a buffer: the first object needs a chain, and memory may not be there.\<close>

definition emplace :: "bool \<Rightarrow> tbuf \<Rightarrow> world \<Rightarrow> tbuf \<times> world" where
  "emplace allocated b w =
     (if \<not> allocated then (b\<lparr>tb_failed := True\<rparr>, w)
      else case tb_chain b of
             None \<Rightarrow> (b\<lparr>tb_chain := Some (next_chain w)\<rparr>, w\<lparr>next_chain := Suc (next_chain w)\<rparr>)
           | Some c \<Rightarrow> (b, w))"

text \<open>\<open>FailImpl\<close>: an earlier error buffer is destroyed, and the new one if the error does not fit into it. \<open>None\<close> is the use of a null owner.\<close>

definition fail_impl :: "bool \<Rightarrow> tobj \<Rightarrow> world \<Rightarrow> (tobj \<times> world) option" where
  "fail_impl allocated t w =
     (if \<not> owner (storage t) then None
      else case take_or_make w of
             (b, w) \<Rightarrow>
               (let w = (case error_buffer t of None \<Rightarrow> w | Some old \<Rightarrow> destroy_tbuf old w)
                in case emplace allocated b w of
                     (b, w) \<Rightarrow>
                       Some (if tb_failed b then (t\<lparr>error_buffer := None\<rparr>, destroy_tbuf b w)
                             else (t\<lparr>error_buffer := Some b\<rparr>, w))))"

subsection \<open>A program of transactions\<close>

datatype storage_op =
    OpInitiate
  | OpReuse nat
  | OpMove nat
  | OpAssign nat nat
  | OpDestroy nat
  | OpAddIn nat bool
  | OpAddOut nat bool
  | OpFail nat bool

text \<open>Objects keep their places. A destroyed object is one that holds nothing.\<close>

definition gone :: tobj where
  "gone = \<lparr>storage = \<lparr>owner = False, ins = fresh_tbuf, outs = fresh_tbuf\<rparr>, error_buffer = None\<rparr>"

fun perform :: "bool \<Rightarrow> storage_op \<Rightarrow> tobj list \<times> world \<Rightarrow> (tobj list \<times> world) option" where
  "perform room OpInitiate (ts, w) = (case initiate w of (t, w) \<Rightarrow> Some (ts @ [t], w))"
| "perform room (OpReuse i) (ts, w) =
     (if i < length ts then (case initiate_reuse (ts ! i) of (t, t') \<Rightarrow> Some (ts[i := t'] @ [t], w)) else Some (ts, w))"
| "perform room (OpMove i) (ts, w) =
     (if i < length ts then (case move_status (ts ! i) of (t, t') \<Rightarrow> Some (ts[i := t'] @ [t], w)) else Some (ts, w))"
| "perform room (OpAssign i j) (ts, w) =
     (if i < length ts \<and> j < length ts \<and> i \<noteq> j
      then (case assign_status room (ts ! i) (ts ! j) w of (t, t', w) \<Rightarrow> Some (ts[i := t, j := t'], w)) else Some (ts, w))"
| "perform room (OpDestroy i) (ts, w) =
     (if i < length ts then Some (ts[i := gone], destroy_status room (ts ! i) w) else Some (ts, w))"
| "perform room (OpAddIn i allocated) (ts, w) =
     (if i < length ts \<and> owner (storage (ts ! i))
      then (case emplace allocated (ins (storage (ts ! i))) w of
              (b, w) \<Rightarrow> Some (ts[i := (ts ! i)\<lparr>storage := (storage (ts ! i))\<lparr>ins := b\<rparr>\<rparr>], w))
      else Some (ts, w))"
| "perform room (OpAddOut i allocated) (ts, w) =
     (if i < length ts \<and> owner (storage (ts ! i))
      then (case emplace allocated (outs (storage (ts ! i))) w of
              (b, w) \<Rightarrow> Some (ts[i := (ts ! i)\<lparr>storage := (storage (ts ! i))\<lparr>outs := b\<rparr>\<rparr>], w))
      else Some (ts, w))"
| "perform room (OpFail i allocated) (ts, w) =
     (if i < length ts then map_option (\<lambda>(t, w). (ts[i := t], w)) (fail_impl allocated (ts ! i) w) else Some (ts, w))"

fun perform_all :: "(bool \<times> storage_op) list \<Rightarrow> tobj list \<times> world \<Rightarrow> (tobj list \<times> world) option" where
  "perform_all [] st = Some st"
| "perform_all ((room, op) # ops) st = do { st \<leftarrow> perform room op st; perform_all ops st }"

definition start :: "tobj list \<times> world" where
  "start = ([], \<lparr>pool = [], deleted = [], next_chain = 0\<rparr>)"

subsection \<open>Every chain has one holder\<close>

definition held :: "tbuf \<Rightarrow> nat multiset" where
  "held b = (case tb_chain b of None \<Rightarrow> {#} | Some c \<Rightarrow> {#c#})"

definition held_storage :: "storage \<Rightarrow> nat multiset" where
  "held_storage s = held (ins s) + held (outs s)"

definition held_obj :: "tobj \<Rightarrow> nat multiset" where
  "held_obj t = held_storage (storage t) + (case error_buffer t of None \<Rightarrow> {#} | Some b \<Rightarrow> held b)"

definition held_world :: "world \<Rightarrow> nat multiset" where
  "held_world w = sum_list (map held (pool w)) + mset (deleted w)"

definition all_chains :: "tobj list \<times> world \<Rightarrow> nat multiset" where
  "all_chains st = sum_list (map held_obj (fst st)) + held_world (snd st)"

lemma held_simps [simp]:
  "held \<lparr>tb_chain = None, tb_failed = f\<rparr> = {#}" "held fresh_tbuf = {#}" "held (b\<lparr>tb_chain := None\<rparr>) = {#}"
  "held (b\<lparr>tb_failed := f\<rparr>) = held b" "held (b\<lparr>tb_chain := Some c\<rparr>) = {#c#}"
  by (simp_all add: held_def fresh_tbuf_def)

lemma take_or_make_held: "take_or_make w = (b, w') \<Longrightarrow> held b + held_world w' = held_world w \<and> next_chain w' = next_chain w"
  by (auto simp: take_or_make_def held_world_def split: list.splits)

lemma destroy_tbuf_held [simp]:
  "held_world (destroy_tbuf b w) = held b + held_world w" "next_chain (destroy_tbuf b w) = next_chain w"
  by (simp_all add: destroy_tbuf_def held_world_def held_def split: option.splits)

lemma free_tbuf_held: "free_tbuf room b w = (b', w') \<Longrightarrow> held b' + held_world w' = held b + held_world w \<and> next_chain w' = next_chain w"
  by (auto simp: free_tbuf_def move_tbuf_def held_world_def split: if_splits)

lemma free_unless_failed_held:
  "free_unless_failed room b w = (b', w') \<Longrightarrow> held b' + held_world w' = held b + held_world w \<and> next_chain w' = next_chain w"
  by (auto simp: free_unless_failed_def dest: free_tbuf_held split: if_splits)

lemma FreeResources_held:
  assumes "FreeResources room s w = (s', w')"
  shows "held_storage s' + held_world w' = held_storage s + held_world w" "next_chain w' = next_chain w"
  using assms
  by (auto simp: FreeResources_def held_storage_def split: if_splits prod.splits dest!: free_unless_failed_held)
     (metis add.assoc add.commute)

lemma destroy_storage_held:
  "held_world (destroy_storage room s w) = held_storage s + held_world w" "next_chain (destroy_storage room s w) = next_chain w"
proof -
  obtain s' w' where f: "FreeResources room s w = (s', w')" by fastforce
  show "held_world (destroy_storage room s w) = held_storage s + held_world w" "next_chain (destroy_storage room s w) = next_chain w"
    using FreeResources_held [OF f] f by (simp_all add: destroy_storage_def held_storage_def add.assoc)
qed

lemma assign_storage_held:
  assumes "assign_storage room dest from w = (s, s', w')"
  shows "held_storage s + held_storage s' + held_world w' = held_storage dest + held_storage from + held_world w"
    "next_chain w' = next_chain w"
proof -
  obtain d w1 where f: "FreeResources room dest w = (d, w1)" by fastforce
  have "held_storage s + held_storage s' = held_storage from" "held_world w' = held_storage d + held_world w1" "next_chain w' = next_chain w1"
    using assms f by (auto simp: assign_storage_def assign_tbuf_def move_tbuf_def held_storage_def)
  then show "held_storage s + held_storage s' + held_world w' = held_storage dest + held_storage from + held_world w"
    "next_chain w' = next_chain w"
    using FreeResources_held [OF f] by (simp_all add: ac_simps)
qed

lemma drop_error_held:
  "held_world (drop_error room t w) = (case error_buffer t of None \<Rightarrow> {#} | Some b \<Rightarrow> held b) + held_world w"
  "next_chain (drop_error room t w) = next_chain w"
  by (auto simp: drop_error_def split: option.splits prod.splits dest!: free_tbuf_held)

lemma move_storage_held: "move_storage s = (s1, s2) \<Longrightarrow> held_storage s1 + held_storage s2 = held_storage s"
  by (auto simp: move_storage_def move_tbuf_def held_storage_def)

lemma destroy_status_held:
  "held_world (destroy_status room t w) = held_obj t + held_world w" "next_chain (destroy_status room t w) = next_chain w"
  by (simp_all add: destroy_status_def destroy_storage_held drop_error_held held_obj_def add.assoc)

lemma move_status_held: "move_status t = (t1, t2) \<Longrightarrow> held_obj t1 + held_obj t2 = held_obj t"
  by (auto simp: move_status_def held_obj_def ac_simps dest!: move_storage_held split: prod.splits)

lemma initiate_reuse_held: "initiate_reuse t = (t1, t2) \<Longrightarrow> held_obj t1 + held_obj t2 = held_obj t"
  by (auto simp: initiate_reuse_def held_obj_def ac_simps dest!: move_storage_held split: prod.splits)

lemma assign_status_held:
  assumes "assign_status room dest from w = (t, t', w')"
  shows "held_obj t + held_obj t' + held_world w' = held_obj dest + held_obj from + held_world w" "next_chain w' = next_chain w"
proof -
  obtain st st' where a: "assign_storage room (storage dest) (storage from) (drop_error room dest w) = (st, st', w')"
    and t: "t = \<lparr>storage = st, error_buffer = error_buffer from\<rparr>" "t' = \<lparr>storage = st', error_buffer = None\<rparr>"
    using assms by (auto simp: assign_status_def split: prod.splits)
  show "held_obj t + held_obj t' + held_world w' = held_obj dest + held_obj from + held_world w" "next_chain w' = next_chain w"
    using assign_storage_held [OF a] by (simp_all add: t held_obj_def drop_error_held ac_simps)
qed

lemma initiate_held: "initiate w = (t, w') \<Longrightarrow> held_obj t + held_world w' = held_world w \<and> next_chain w' = next_chain w"
  by (auto simp: initiate_def held_obj_def held_storage_def split: prod.splits dest!: take_or_make_held) (metis add.assoc add.commute)

text \<open>What a step may add is the next chain.\<close>

definition grows :: "nat multiset \<Rightarrow> nat \<Rightarrow> nat multiset \<Rightarrow> nat \<Rightarrow> bool" where
  "grows before n after n' \<longleftrightarrow> after = before \<and> n' = n \<or> after = add_mset n before \<and> n' = Suc n"

lemma emplace_held:
  "emplace allocated b w = (b', w') \<Longrightarrow> grows (held b + held_world w) (next_chain w) (held b' + held_world w') (next_chain w')"
  by (auto simp: emplace_def grows_def held_world_def held_def split: if_splits option.splits)

lemma fail_impl_held:
  assumes "fail_impl allocated t w = Some (t', w')"
  shows "grows (held_obj t + held_world w) (next_chain w) (held_obj t' + held_world w') (next_chain w')"
proof -
  obtain b w1 where t: "take_or_make w = (b, w1)" by fastforce
  define w2 where "w2 = (case error_buffer t of None \<Rightarrow> w1 | Some old \<Rightarrow> destroy_tbuf old w1)"
  obtain b3 w3 where e: "emplace allocated b w2 = (b3, w3)" by fastforce
  have "held_obj t' + held_world w' = held_storage (storage t) + (held b3 + held_world w3)" "next_chain w' = next_chain w3"
    using assms t e by (auto simp: fail_impl_def w2_def Let_def held_obj_def add.assoc split: if_splits)
  moreover have "held_obj t + held_world w = held_storage (storage t) + (held b + held_world w2)" "next_chain w2 = next_chain w"
    using take_or_make_held [OF t] by (auto simp: held_obj_def w2_def ac_simps split: option.splits)
  ultimately show ?thesis using emplace_held [OF e] by (auto simp: grows_def)
qed

lemma exchange:
  fixes a :: "'m :: cancel_comm_monoid_add"
  assumes "S' + a = S + b" "a + w + X = b + w'"
  shows "S' + w' = S + w + X"
proof -
  have "S' + w' + a = (S' + a) + w'" by (simp add: ac_simps)
  also have "\<dots> = S + (b + w')" by (simp add: assms(1) ac_simps)
  also have "\<dots> = S + w + X + a" by (simp add: assms(2) [symmetric] ac_simps)
  finally show ?thesis by simp
qed

lemma exchange_twice:
  fixes a :: "'m :: cancel_comm_monoid_add"
  assumes "S2 + b = S1 + y" "S1 + a = S + x"
  shows "S2 + (a + b) = S + (x + y)"
proof -
  have "S2 + (a + b) = (S2 + b) + a" by (simp add: ac_simps)
  also have "\<dots> = (S1 + a) + y" unfolding assms(1) by (simp add: ac_simps)
  also have "\<dots> = S + (x + y)" unfolding assms(2) by (simp add: ac_simps)
  finally show ?thesis .
qed

lemma replace_held:
  assumes "i < length ts" "grows (held_obj (ts ! i) + held_world w) n (held_obj t + held_world w') n'"
  shows "grows (all_chains (ts, w)) n (all_chains (ts[i := t], w')) n'"
proof -
  note ex = exchange [OF sum_list_map_update [OF assms(1), of held_obj t], of "held_world w" _ "held_world w'"]
  from ex [of "{#}"] ex [of "{#n#}"] show ?thesis
    using assms(2) by (auto simp: grows_def all_chains_def)
qed

lemma split_held:
  assumes "i < length ts" "held_obj t + held_obj t' = held_obj (ts ! i)"
  shows "all_chains (ts[i := t'] @ [t], w) = all_chains (ts, w)"
  using exchange [OF sum_list_map_update [OF assms(1), of held_obj t'], of "{#}" "{#}" "held_obj t"] assms(2)
  by (simp add: all_chains_def add.commute)

lemma perform_held:
  assumes "perform room op (ts, w) = Some (ts', w')"
  shows "grows (all_chains (ts, w)) (next_chain w) (all_chains (ts', w')) (next_chain w')"
proof (cases op)
  case OpInitiate
  then show ?thesis using assms by (auto simp: grows_def all_chains_def ac_simps split: prod.splits dest!: initiate_held)
next
  case (OpReuse i)
  then show ?thesis
    using assms split_held [of i ts _ _ w] initiate_reuse_held by (auto simp: grows_def split: if_splits prod.splits)
next
  case (OpMove i)
  then show ?thesis
    using assms split_held [of i ts _ _ w] move_status_held by (auto simp: grows_def split: if_splits prod.splits)
next
  case (OpAssign i j)
  show ?thesis
  proof (cases "i < length ts \<and> j < length ts \<and> i \<noteq> j")
    case True
    obtain t t' w1 where a: "assign_status room (ts ! i) (ts ! j) w = (t, t', w1)" by (metis prod_cases3)
    then have r: "ts' = ts[i := t, j := t']" "w' = w1" using assms OpAssign True by auto
    let ?S = "sum_list (map held_obj ts)" and ?S1 = "sum_list (map held_obj (ts[i := t]))"
      and ?S2 = "sum_list (map held_obj (ts[i := t, j := t']))"
    have one: "?S1 + held_obj (ts ! i) = ?S + held_obj t" using True by (intro sum_list_map_update) simp
    have two: "?S2 + held_obj (ts ! j) = ?S1 + held_obj t'"
      using sum_list_map_update [of j "ts[i := t]" held_obj t'] True by simp
    have "?S2 + (held_obj (ts ! i) + held_obj (ts ! j)) = ?S + (held_obj t + held_obj t')"
      using exchange_twice [OF two one] .
    from exchange [OF this, of "held_world w" "{#}" "held_world w1"] have "all_chains (ts', w') = all_chains (ts, w)"
      using assign_status_held(1) [OF a] r by (simp add: all_chains_def ac_simps)
    then show ?thesis using assign_status_held(2) [OF a] r by (simp add: grows_def)
  qed (use assms OpAssign in \<open>auto simp: grows_def\<close>)
next
  case (OpDestroy i)
  have "held_obj gone = {#}" by (simp add: gone_def held_obj_def held_storage_def)
  then show ?thesis
    using assms OpDestroy replace_held [of i ts w "next_chain w" gone "destroy_status room (ts ! i) w" "next_chain w"]
    by (auto simp: grows_def destroy_status_held split: if_splits)
next
  case (OpAddIn i allocated)
  show ?thesis
  proof (cases "i < length ts \<and> owner (storage (ts ! i))")
    case True
    obtain b w1 where e: "emplace allocated (ins (storage (ts ! i))) w = (b, w1)" by fastforce
    let ?t = "(ts ! i)\<lparr>storage := (storage (ts ! i))\<lparr>ins := b\<rparr>\<rparr>"
    have "grows (held_obj (ts ! i) + held_world w) (next_chain w) (held_obj ?t + held_world w1) (next_chain w1)"
      using emplace_held [OF e] by (auto simp: grows_def held_obj_def held_storage_def ac_simps)
    then show ?thesis using replace_held assms True e OpAddIn by auto
  qed (use assms OpAddIn in \<open>auto simp: grows_def\<close>)
next
  case (OpAddOut i allocated)
  show ?thesis
  proof (cases "i < length ts \<and> owner (storage (ts ! i))")
    case True
    obtain b w1 where e: "emplace allocated (outs (storage (ts ! i))) w = (b, w1)" by fastforce
    let ?t = "(ts ! i)\<lparr>storage := (storage (ts ! i))\<lparr>outs := b\<rparr>\<rparr>"
    have "grows (held_obj (ts ! i) + held_world w) (next_chain w) (held_obj ?t + held_world w1) (next_chain w1)"
      using emplace_held [OF e] by (auto simp: grows_def held_obj_def held_storage_def ac_simps)
    then show ?thesis using replace_held assms True e OpAddOut by auto
  qed (use assms OpAddOut in \<open>auto simp: grows_def\<close>)
next
  case (OpFail i allocated)
  show ?thesis
  proof (cases "i < length ts")
    case True
    then obtain t where t: "fail_impl allocated (ts ! i) w = Some (t, w')" "ts' = ts[i := t]"
      using assms OpFail by auto
    then show ?thesis using replace_held [OF True fail_impl_held] by simp
  qed (use assms OpFail in \<open>simp add: grows_def\<close>)
qed

lemma perform_all_held:
  assumes "perform_all ops st = Some st'" "all_chains st = mset [0..<next_chain (snd st)]"
  shows "all_chains st' = mset [0..<next_chain (snd st')]"
  using assms
proof (induction ops arbitrary: st)
  case (Cons rop ops)
  obtain room op where rop: "rop = (room, op)" by fastforce
  obtain st1 where st1: "perform room op st = Some st1" "perform_all ops st1 = Some st'"
    using Cons.prems(1) rop by (auto simp: bind_eq_Some_conv)
  have "grows (all_chains st) (next_chain (snd st)) (all_chains st1) (next_chain (snd st1))"
    using perform_held [of room op "fst st" "snd st" "fst st1" "snd st1"] st1(1) by simp
  then have "all_chains st1 = mset [0..<next_chain (snd st1)]"
    using Cons.prems(2) by (auto simp: grows_def simp del: mset_upt)
  then show ?case using Cons.IH st1(2) by blast
qed simp

text \<open>The pool has only buffers in which no allocation has failed.\<close>

definition pool_sound :: "world \<Rightarrow> bool" where
  "pool_sound w \<longleftrightarrow> (\<forall>b \<in> set (pool w). \<not> tb_failed b)"

definition error_sound :: "tobj \<Rightarrow> bool" where
  "error_sound t \<longleftrightarrow> (\<forall>b. error_buffer t = Some b \<longrightarrow> \<not> tb_failed b)"

lemma sound_basic:
  "pool_sound w \<Longrightarrow> take_or_make w = (b, w') \<Longrightarrow> pool_sound w' \<and> \<not> tb_failed b"
  "pool_sound (destroy_tbuf b w) = pool_sound w"
  "pool_sound w \<Longrightarrow> \<not> tb_failed b \<Longrightarrow> free_tbuf room b w = (b', w') \<Longrightarrow> pool_sound w'"
  "pool_sound w \<Longrightarrow> free_unless_failed room b w = (b', w') \<Longrightarrow> pool_sound w'"
  "pool_sound w \<Longrightarrow> emplace allocated b w = (b', w') \<Longrightarrow> pool_sound w'"
  by (auto simp: pool_sound_def take_or_make_def fresh_tbuf_def destroy_tbuf_def free_unless_failed_def free_tbuf_def
      move_tbuf_def emplace_def split: list.splits option.splits if_splits)

lemma sound_FreeResources: "pool_sound w \<Longrightarrow> FreeResources room s w = (s', w') \<Longrightarrow> pool_sound w'"
  by (auto simp: FreeResources_def split: if_splits prod.splits) (metis sound_basic(4))+

lemma sound_storage:
  assumes "pool_sound w"
  shows "assign_storage room d f w = (d', f', w'') \<Longrightarrow> pool_sound w''" "pool_sound (destroy_storage room s w)"
  using assms
  by (auto simp: assign_storage_def assign_tbuf_def move_tbuf_def destroy_storage_def sound_basic(2)
      split: prod.splits dest: sound_FreeResources)

lemma sound_drop_error: "pool_sound w \<Longrightarrow> error_sound t \<Longrightarrow> pool_sound (drop_error room t w)"
  by (auto simp: drop_error_def error_sound_def sound_basic(2) split: option.splits prod.splits dest: sound_basic(3))

lemma fail_impl_sound:
  assumes "fail_impl allocated t w = Some (t', w')" "pool_sound w" "error_sound t"
  shows "pool_sound w' \<and> error_sound t'"
proof -
  obtain b w1 where t: "take_or_make w = (b, w1)" by fastforce
  define w2 where "w2 = (case error_buffer t of None \<Rightarrow> w1 | Some old \<Rightarrow> destroy_tbuf old w1)"
  obtain b3 w3 where e: "emplace allocated b w2 = (b3, w3)" by fastforce
  have "pool_sound w3"
    using sound_basic(1) [OF assms(2) t] sound_basic(5) [OF _ e] by (simp add: w2_def sound_basic(2) split: option.splits)
  then show ?thesis
    using assms(1,3) t e by (auto simp: fail_impl_def w2_def Let_def error_sound_def sound_basic(2) split: if_splits)
qed

lemma error_sound_made:
  "initiate w = (t, w') \<Longrightarrow> error_sound t" "initiate_reuse t = (t1, t2) \<Longrightarrow> error_sound t \<Longrightarrow> error_sound t1 \<and> error_sound t2"
  "move_status t = (t1, t2) \<Longrightarrow> error_sound t \<Longrightarrow> error_sound t1 \<and> error_sound t2"
  "assign_status room d f w = (d', f', w'') \<Longrightarrow> error_sound f \<Longrightarrow> error_sound d' \<and> error_sound f'"
  by (auto simp: initiate_def initiate_reuse_def move_status_def assign_status_def error_sound_def split: prod.splits)

lemma error_sound_storage [simp]: "error_sound (t\<lparr>storage := s\<rparr>) = error_sound t"
  by (simp add: error_sound_def)

lemma list_all_update: "list_all P xs \<Longrightarrow> P x \<Longrightarrow> list_all P (xs[i := x])"
  by (auto simp: list_all_iff dest!: subsetD [OF set_update_subset_insert])

lemma perform_sound:
  assumes "perform room op (ts, w) = Some (ts', w')" "pool_sound w" "list_all error_sound ts"
  shows "pool_sound w' \<and> list_all error_sound ts'"
proof -
  have nth: "error_sound (ts ! i)" if "i < length ts" for i using assms(3) that by (simp add: list_all_length)
  have gone: "error_sound gone" by (simp add: gone_def error_sound_def)
  show ?thesis
  proof (cases op)
    case OpInitiate
    obtain t w1 where i: "initiate w = (t, w1)" by fastforce
    then have "pool_sound w1" using assms(2) by (auto simp: initiate_def split: prod.splits dest: sound_basic(1))
    then show ?thesis using assms(1,3) OpInitiate i error_sound_made(1) by auto
  next
    case (OpAssign i j)
    obtain t t' w1 where a: "assign_status room (ts ! i) (ts ! j) w = (t, t', w1)" by (metis prod_cases3)
    then have "pool_sound w1" if "i < length ts"
      using that nth sound_storage(1) sound_drop_error assms(2) by (fastforce simp: assign_status_def split: prod.splits)
    then show ?thesis
      using assms OpAssign a nth error_sound_made(4) [OF a] by (auto split: if_splits intro!: list_all_update)
  next
    case (OpFail i allocated)
    then show ?thesis using assms nth fail_impl_sound by (fastforce split: if_splits intro!: list_all_update)
  next
    case (OpReuse i)
    then show ?thesis
      using assms nth error_sound_made(2) by (auto split: if_splits prod.splits intro!: list_all_update)
  next
    case (OpMove i)
    then show ?thesis
      using assms nth error_sound_made(3) by (auto split: if_splits prod.splits intro!: list_all_update)
  next
    case (OpDestroy i)
    then show ?thesis
      using assms nth gone by (auto simp: destroy_status_def sound_storage(2) sound_drop_error split: if_splits intro!: list_all_update)
  next
    case (OpAddIn i allocated)
    then show ?thesis
      using assms nth by (auto split: if_splits prod.splits intro!: list_all_update dest: sound_basic(5))
  next
    case (OpAddOut i allocated)
    then show ?thesis
      using assms nth by (auto split: if_splits prod.splits intro!: list_all_update dest: sound_basic(5))
  qed
qed

lemma perform_all_sound:
  assumes "perform_all ops st = Some st'" "pool_sound (snd st)" "list_all error_sound (fst st)"
  shows "pool_sound (snd st') \<and> list_all error_sound (fst st')"
  using assms
proof (induction ops arbitrary: st)
  case (Cons rop ops)
  obtain room op where rop: "rop = (room, op)" by fastforce
  obtain st1 where st1: "perform room op st = Some st1" "perform_all ops st1 = Some st'"
    using Cons.prems(1) rop by (auto simp: bind_eq_Some_conv)
  then show ?case
    using Cons.IH [OF st1(2)] perform_sound [of room op "fst st" "snd st" "fst st1" "snd st1"] Cons.prems(2,3) by simp
qed simp

text \<open>Property C14: however transactions are initiated, filled, reused, moved, assigned, failed and destroyed, every chain of
  chunks is in one place: in the pool, in one buffer of one object, or given back to the memory resource, once. None is
  lost, and none is shared by two transactions. The pool hands out only buffers in which no allocation has failed.\<close>

theorem buffers_have_one_holder:
  assumes "perform_all ops start = Some (ts, w)"
  shows "(\<forall>c < next_chain w. count (sum_list (map held_obj ts)) c + count (sum_list (map held (pool w))) c + count_list (deleted w) c = 1)
    \<and> (\<forall>b \<in> set (pool w). \<not> tb_failed b)"
proof -
  have "all_chains start = mset [0..<next_chain (snd start)]" by (simp add: start_def all_chains_def held_world_def)
  then have all: "all_chains (ts, w) = mset [0..<next_chain w]" using perform_all_held [OF assms] by simp
  have "count (sum_list (map held_obj ts)) c + count (sum_list (map held (pool w))) c + count_list (deleted w) c = 1"
    if "c < next_chain w" for c
  proof -
    have "count (all_chains (ts, w)) c = 1" using that by (simp add: all)
    then show ?thesis by (simp add: all_chains_def held_world_def count_mset)
  qed
  moreover have "pool_sound w" using perform_all_sound [OF assms] by (simp add: start_def pool_sound_def)
  ultimately show ?thesis by (simp add: pool_sound_def)
qed

definition sample_ops :: "(bool \<times> storage_op) list" where
  "sample_ops = [(True, OpInitiate), (True, OpAddIn 0 True), (True, OpAddOut 0 True), (True, OpFail 0 True), (True, OpInitiate),
     (True, OpAddIn 1 True), (True, OpAssign 0 1), (True, OpDestroy 0), (False, OpInitiate), (False, OpAddIn 2 False), (False, OpDestroy 2)]"

theorem buffers_have_one_holder_witness:
  "\<exists>ts w. perform_all sample_ops start = Some (ts, w) \<and> length (pool w) = 3 \<and> next_chain w = 4 \<and>
     (\<forall>c < 4. count (sum_list (map held_obj ts)) c + count (sum_list (map held (pool w))) c + count_list (deleted w) c = 1)"
proof -
  have "case perform_all sample_ops start of Some (ts, w) \<Rightarrow> length (pool w) = 3 \<and> next_chain w = 4 | None \<Rightarrow> False"
    by code_simp
  then obtain ts w where r: "perform_all sample_ops start = Some (ts, w)" "length (pool w) = 3" "next_chain w = 4"
    by (auto split: option.splits)
  then show ?thesis using buffers_have_one_holder [OF r(1)] by auto
qed

text \<open>A status in whose buffers an allocation has failed keeps the failure when it is reused, since clearing a
  buffer does not reset it: the transaction built on it is never executed, whatever memory there is by then, and has no error.
  A transaction that is initiated afresh is not affected.\<close>

theorem reuse_never_recovers:
  assumes "tb_failed (ins (storage t)) \<or> tb_failed (outs (storage t))" "initiate_reuse t = (t1, t2)"
    and "b_allocation_failure b \<longleftrightarrow> tb_failed (ins (storage t1)) \<or> tb_failed (outs (storage t1))"
  shows "(tb_failed (ins (storage t1)) \<or> tb_failed (outs (storage t1)))
    \<and> Schedule error_allocated frame execute b = (StatusOf b, False)
    \<and> \<not> status_ok (StatusOf b) \<and> m_error (StatusOf b) = None"
proof -
  have "tb_failed (ins (storage t1)) \<or> tb_failed (outs (storage t1))"
    using assms(1,2) by (auto simp: initiate_reuse_def move_storage_def move_tbuf_def)
  then show ?thesis using assms(3) by (simp add: Schedule_def Let_def StatusOf_def status_ok_def)
qed

theorem reuse_never_recovers_witness:
  "\<exists>t t1 t2 w. perform_all [(True, OpInitiate), (True, OpAddIn 0 False)] start = Some ([t], w) \<and> initiate_reuse t = (t1, t2) \<and>
     Schedule True True Some (Initiate ''d'' ''t'' None True :: unit builder) = (StatusOf (Initiate ''d'' ''t'' None True), False)"
proof -
  define t where "t = \<lparr>storage = \<lparr>owner = True, ins = \<lparr>tb_chain = None, tb_failed = True\<rparr>, outs = fresh_tbuf\<rparr>, error_buffer = None\<rparr>"
  obtain t1 t2 where r: "initiate_reuse t = (t1, t2)" by fastforce
  have f: "tb_failed (ins (storage t)) \<or> tb_failed (outs (storage t))" by (simp add: t_def)
  have "tb_failed (ins (storage t1)) \<or> tb_failed (outs (storage t1))"
    using r f by (auto simp: initiate_reuse_def move_storage_def move_tbuf_def)
  then have "b_allocation_failure (Initiate ''d'' ''t'' None True :: unit builder) \<longleftrightarrow>
      tb_failed (ins (storage t1)) \<or> tb_failed (outs (storage t1))"
    by (simp add: Initiate_def)
  from reuse_never_recovers [OF f r this, of True True Some]
  have "Schedule True True Some (Initiate ''d'' ''t'' None True :: unit builder) = (StatusOf (Initiate ''d'' ''t'' None True), False)"
    by blast
  moreover have "\<exists>w. perform_all [(True, OpInitiate), (True, OpAddIn 0 False)] start = Some ([t], w)"
    by (simp add: start_def initiate_def take_or_make_def fresh_tbuf_def emplace_def t_def)
  ultimately show ?thesis using r by blast
qed

end
