(* ===== verification/Transaction_Access.thy ===== *)
theory Transaction_Access
  imports Transaction
begin

text \<open>
  How clients and drivers get at the actions, outputs and errors of a transaction (\<open>driver/Driver.hpp\<close>): typed
  positions, \<open>ActionOutVariant\<close>, iteration over a range, \<open>Outs\<close>, the error of a status, and \<open>Driver::Do\<close>.

  A type of action is a value of \<open>action_kind\<close>; \<open>d\<close> is the driver whose variant is visited. A pointer is an \<open>option\<close>.
\<close>

subsection \<open>An action with its output\<close>

record 'o variant =
  v_pos :: nat
  v_action :: "(nat + action) option"
  v_out :: "'o option"

definition variant_at :: "'o status \<Rightarrow> nat \<Rightarrow> 'o variant" where
  "variant_at s i = \<lparr>v_pos = i, v_action = fst (deref s i), v_out = snd (deref s i)\<rparr>"

definition discriminant :: "nat + action \<Rightarrow> nat" where
  "discriminant a = (case a of Inl n \<Rightarrow> n | Inr act \<Rightarrow> ActionID (kind act))"

definition GetID :: "'o variant \<Rightarrow> nat option" where
  "GetID v = map_option discriminant (v_action v)"

text \<open>\<open>As\<close> of a variant compares discriminants; an action of another type with the same discriminant is
  taken for one of the requested type.\<close>

definition As :: "action_kind \<Rightarrow> 'o variant \<Rightarrow> ((nat + action) \<times> 'o) option" where
  "As k v =
     (case (v_action v, v_out v) of
        (Some a, Some out) \<Rightarrow> if ActionID k = discriminant a then Some (a, out) else None
      | _ \<Rightarrow> None)"

definition OutAs :: "action_kind \<Rightarrow> 'o variant \<Rightarrow> 'o option" where
  "OutAs k v = map_option snd (As k v)"

text \<open>\<open>Visit\<close>: the result of the function for the type that the variant has, \<open>None\<close> for one it does not know.\<close>

definition Visit :: "driver_id \<Rightarrow> (action_kind \<Rightarrow> nat + action \<Rightarrow> 'o \<Rightarrow> 'r) \<Rightarrow> 'o variant \<Rightarrow> 'r option" where
  "Visit d func v =
     (case (v_action v, v_out v) of
        (Some a, Some out) \<Rightarrow> map_option (\<lambda>k. func k a out) (visit_kind (driver_actions d) (discriminant a))
      | _ \<Rightarrow> None)"

subsection \<open>Typed positions\<close>

text \<open>\<open>Get\<close> of a builder, and \<open>As\<close> and \<open>Out\<close> of a status, at a position with its type.\<close>

definition Get :: "action_kind \<Rightarrow> nat \<Rightarrow> 'o builder \<Rightarrow> (nat + action) option" where
  "Get k i b =
     (if i < length (b_ins b) \<and> discriminant (b_ins b ! i) = ActionID k then Some (b_ins b ! i) else None)"

definition StatusAs :: "action_kind \<Rightarrow> nat \<Rightarrow> 'o status \<Rightarrow> ((nat + action) \<times> 'o) option" where
  "StatusAs k i s = As k (variant_at s i)"

definition StatusOut :: "action_kind \<Rightarrow> nat \<Rightarrow> 'o status \<Rightarrow> 'o option" where
  "StatusOut k i s = OutAs k (variant_at s i)"

text \<open>Several calls of \<open>Add\<close>: the positions they return and the builder.\<close>

fun add_all :: "(action \<times> 'o) list \<Rightarrow> 'o builder \<Rightarrow> nat list \<times> 'o builder" where
  "add_all [] b = ([], b)"
| "add_all ((a, out) # rest) b =
     (case Add True True a out b of (i, b) \<Rightarrow> (case add_all rest b of (is, b) \<Rightarrow> (i # is, b)))"

subsection \<open>Iteration\<close>

text \<open>A loop over \<open>ActionRange\<close>: it starts at \<open>i\<close> and ends when it has reached \<open>stop\<close>. \<open>None\<close> is a loop without end.\<close>

partial_function (option) range_loop :: "'o status \<Rightarrow> nat \<Rightarrow> nat \<Rightarrow> nat list option" where
  "range_loop s stop i =
     (if i = stop then Some [] else do { rest \<leftarrow> range_loop s stop (next_position s i); Some (i # rest) })"

declare range_loop.simps [code]

definition visit_incomplete :: "'o status \<Rightarrow> nat list option" where
  "visit_incomplete s = range_loop s (status_end s) (m_first_incomplete s)"

definition visit_complete :: "'o status \<Rightarrow> nat list option" where
  "visit_complete s = range_loop s (m_first_incomplete s) 0"

subsection \<open>Outs\<close>

text \<open>\<open>Outs<Ts...>\<close>. With several types the outputs are the arguments of one call, which the compiler may evaluate in
  any order: \<open>order\<close> is the order. Every evaluation takes the output where the iterator is and moves it on.\<close>

fun eval_outs :: "'o status \<Rightarrow> action_kind list \<Rightarrow> nat list \<Rightarrow> nat \<Rightarrow> 'o option list \<Rightarrow> 'o option list" where
  "eval_outs s ks [] i results = results"
| "eval_outs s ks (j # order) i results =
     (if i = status_end s then eval_outs s ks order i results
      else eval_outs s ks order (next_position s i) (results[j := StatusOut (ks ! j) i s]))"

definition Outs :: "action_kind list \<Rightarrow> nat list \<Rightarrow> 'o status \<Rightarrow> 'o option list" where
  "Outs ks order s =
     (if length ks = 1 then [StatusOut (hd ks) 0 s] else eval_outs s ks order 0 (replicate (length ks) None))"

subsection \<open>The error\<close>

definition StatusFailedAction :: "'o status \<Rightarrow> action option" where
  "StatusFailedAction s = Option.bind (m_error s) FailedAction"

definition StatusFailedActionID :: "'o status \<Rightarrow> nat option" where
  "StatusFailedActionID s = map_option FailedActionID (m_error s)"

definition GetCause :: "'o status \<Rightarrow> cause option" where
  "GetCause s = map_option cause_of (m_error s)"

definition CauseAs :: "nat \<Rightarrow> 'o status \<Rightarrow> cause option" where
  "CauseAs cause_id s = (case GetCause s of None \<Rightarrow> None | Some c \<Rightarrow> if CauseID c = cause_id then Some c else None)"

subsection \<open>Do\<close>

text \<open>\<open>DoImpl\<close> with one tuple of arguments for each type. \<open>failed_before\<close> is the state of the buffers that are used.\<close>

definition DoImpl ::
  "bool \<Rightarrow> bool \<Rightarrow> ('o status \<Rightarrow> 'o status option) \<Rightarrow> string \<Rightarrow> string \<Rightarrow> bool \<Rightarrow> dependent option \<Rightarrow> (action \<times> 'o) list \<Rightarrow> 'o status \<times> bool"
where
  "DoImpl error_allocated frame execute driver_name name failed_before d actions =
     Schedule error_allocated frame execute (snd (add_all actions (Initiate driver_name name d failed_before)))"

definition Do :: "bool \<Rightarrow> bool \<Rightarrow> ('o status \<Rightarrow> 'o status option) \<Rightarrow> string \<Rightarrow> string \<Rightarrow> (action \<times> 'o) list \<Rightarrow> 'o status \<times> bool" where
  "Do error_allocated frame execute driver_name name actions =
     DoImpl error_allocated frame execute driver_name name False None actions"

definition DoReuse ::
  "bool \<Rightarrow> bool \<Rightarrow> ('o status \<Rightarrow> 'o status option) \<Rightarrow> string \<Rightarrow> string \<Rightarrow> 'o status \<Rightarrow> (action \<times> 'o) list \<Rightarrow> 'o status \<times> bool"
where
  "DoReuse error_allocated frame execute driver_name name reuse actions =
     DoImpl error_allocated frame execute driver_name name (s_allocation_failure reuse) None actions"

definition DoDep ::
  "bool \<Rightarrow> bool \<Rightarrow> ('o status \<Rightarrow> 'o status option) \<Rightarrow> string \<Rightarrow> 'o status \<Rightarrow> string \<Rightarrow> (action \<times> 'o) list \<Rightarrow> 'o status \<times> bool"
where
  "DoDep error_allocated frame execute driver_name dependent_tx name actions =
     DoImpl error_allocated frame execute driver_name name False (Some (s_dependent dependent_tx)) actions"

definition DoDepReuse ::
  "bool \<Rightarrow> bool \<Rightarrow> ('o status \<Rightarrow> 'o status option) \<Rightarrow> string \<Rightarrow> 'o status \<Rightarrow> string \<Rightarrow> 'o status \<Rightarrow> (action \<times> 'o) list \<Rightarrow> 'o status \<times> bool"
where
  "DoDepReuse error_allocated frame execute driver_name dependent_tx name reuse actions =
     DoImpl error_allocated frame execute driver_name name (s_allocation_failure reuse) (Some (s_dependent dependent_tx)) actions"

text \<open>\<open>MakeEmptyStatus\<close>: a status to start a chain of reuse with.\<close>

definition MakeEmptyStatus :: "string \<Rightarrow> 'o status" where
  "MakeEmptyStatus driver_name =
     StatusOf \<lparr>b_ins = [], b_outs = [], b_allocation_failure = False, b_dependent = \<lparr>dep_chain = [(driver_name, [])], dep_length = 0\<rparr>\<rparr>"

lemma DoReuse_empty:
  "DoReuse e frame execute driver_name name (MakeEmptyStatus driver_name) actions = Do e frame execute driver_name name actions"
  by (simp add: DoReuse_def Do_def MakeEmptyStatus_def StatusOf_def)

subsection \<open>Typed positions name their action\<close>

lemma add_all_result:
  "add_all acts b = ([length (b_ins b)..<length (b_ins b) + length acts],
     b\<lparr>b_ins := b_ins b @ map (Inr \<circ> fst) acts, b_outs := b_outs b @ map snd acts\<rparr>)"
proof (induction acts arbitrary: b)
  case (Cons x acts)
  have "[n..<n + Suc m] = n # [Suc n..<Suc n + m]" for n m by (simp add: upt_conv_Cons del: upt.simps)
  then show ?case using Cons by (cases x) (simp add: Add_def del: upt.simps)
qed simp

text \<open>In the variant of one driver discriminants are distinct.\<close>

lemma driver_discriminants:
  "k \<in> set (driver_actions d) \<Longrightarrow> k' \<in> set (driver_actions d) \<Longrightarrow> ActionID k = ActionID k' \<longleftrightarrow> k = k'"
  by (cases d) auto

lemma StatusAs_known:
  assumes "i < length (s_ins s)" "s_ins s ! i = Inr a" "length (s_outs s) = length (s_ins s)"
  shows "StatusAs k i s = (if ActionID k = ActionID (kind a) then Some (Inr a, s_outs s ! i) else None)"
  using assms by (simp add: StatusAs_def As_def variant_at_def deref_def discriminant_def)

text \<open>Property C38: the position that \<open>Add\<close> returns for an action names this action, in the builder and later in the
  status, as long as the transaction is one of a driver's actions: read with the type of the action it gives the action and its
  own output, read with any other type of that driver it gives null, and a visitor is called with its type.\<close>

theorem typed_positions:
  assumes "add_all acts (Initiate name text dep failed_before) = (ps, b)" "i < length acts"
    and "s_ins s = b_ins b" "length (s_outs s) = length (s_ins s)"
    and "kind (fst (acts ! i)) \<in> set (driver_actions d)" "k \<in> set (driver_actions d)"
  shows "length ps = length acts
    \<and> Get k (ps ! i) b = (if k = kind (fst (acts ! i)) then Some (Inr (fst (acts ! i))) else None)
    \<and> StatusAs k (ps ! i) s = (if k = kind (fst (acts ! i)) then Some (Inr (fst (acts ! i)), s_outs s ! i) else None)
    \<and> StatusOut (kind (fst (acts ! i))) (ps ! i) (StatusOf b) = Some (snd (acts ! i))
    \<and> Visit d func (variant_at s (ps ! i)) = Some (func (kind (fst (acts ! i))) (Inr (fst (acts ! i))) (s_outs s ! i))"
proof -
  have ps: "ps = [0..<length acts]" and b: "b_ins b = map (Inr \<circ> fst) acts" "b_outs b = map snd acts"
    using assms(1) by (auto simp: add_all_result Initiate_def)
  have nth: "b_ins b ! i = Inr (fst (acts ! i))" "i < length (b_ins b)" "b_outs b ! i = snd (acts ! i)" using assms(2) b by simp_all
  have id: "ActionID k = ActionID (kind (fst (acts ! i))) \<longleftrightarrow> k = kind (fst (acts ! i))"
    using driver_discriminants assms(5,6) by blast
  have visit: "visit_kind (driver_actions d) (ActionID (kind (fst (acts ! i)))) = Some (kind (fst (acts ! i)))"
    using action_dispatch assms(5) by blast
  have "StatusAs k i s = (if k = kind (fst (acts ! i)) then Some (Inr (fst (acts ! i)), s_outs s ! i) else None)"
    using StatusAs_known [of i s "fst (acts ! i)" k] assms(3,4) nth id by simp
  moreover have "StatusOut (kind (fst (acts ! i))) i (StatusOf b) = Some (snd (acts ! i))"
    using StatusAs_known [of i "StatusOf b" "fst (acts ! i)" "kind (fst (acts ! i))"] nth b
    by (simp add: StatusOf_def StatusOut_def OutAs_def StatusAs_def)
  moreover have "Visit d func (variant_at s i) = Some (func (kind (fst (acts ! i))) (Inr (fst (acts ! i))) (s_outs s ! i))"
    using assms(3,4) nth visit by (simp add: Visit_def variant_at_def deref_def discriminant_def)
  moreover have "Get k i b = (if k = kind (fst (acts ! i)) then Some (Inr (fst (acts ! i))) else None)"
    using nth id by (auto simp: Get_def discriminant_def)
  ultimately show ?thesis using ps assms(2) by simp
qed

theorem typed_positions_witness:
  "StatusAs AAPBWrite 1 (StatusOf (snd (add_all [(APBRead 4, 0 :: nat), (APBWrite 8 5, 1)] (Initiate ''apb'' ''t'' None False)))) = Some (Inr (APBWrite 8 5), 1) \<and>
   StatusAs AAPBRead 1 (StatusOf (snd (add_all [(APBRead 4, 0 :: nat), (APBWrite 8 5, 1)] (Initiate ''apb'' ''t'' None False)))) = None"
proof -
  let ?acts = "[(APBRead 4, 0 :: nat), (APBWrite 8 5, 1)]"
  obtain ps b where a: "add_all ?acts (Initiate ''apb'' ''t'' None False) = (ps, b)" by fastforce
  have b: "b_ins b = map (Inr \<circ> fst) ?acts" "b_outs b = map snd ?acts" "ps = [0, 1]" using a by (auto simp: add_all_result Initiate_def)
  have s: "s_ins (StatusOf b) = b_ins b" "s_outs (StatusOf b) = b_outs b" "length (s_outs (StatusOf b)) = length (s_ins (StatusOf b))"
    using b by (simp_all add: StatusOf_def)
  have k: "kind (fst (?acts ! 1)) \<in> set (driver_actions APB)" "AAPBWrite \<in> set (driver_actions APB)" "AAPBRead \<in> set (driver_actions APB)" "1 < length ?acts"
    by simp_all
  have e: "snd (add_all ?acts (Initiate ''apb'' ''t'' None False)) = b" by (simp only: a snd_conv)
  show ?thesis
    unfolding e
    using typed_positions [OF a k(4) s(1,3) k(1,2), of "\<lambda>k a out. ()"] typed_positions [OF a k(4) s(1,3) k(1,3), of "\<lambda>k a out. ()"] b s(2)
    by simp
qed

subsection \<open>Iteration ends\<close>

text \<open>The actions before a position are known.\<close>

definition known_before :: "'o status \<Rightarrow> nat \<Rightarrow> bool" where
  "known_before s stop \<longleftrightarrow> stop \<le> status_end s \<and> (\<forall>i < stop. \<not> isl (s_ins s ! i))"

lemma range_loop_known:
  assumes "known_before s stop" "i \<le> stop"
  shows "range_loop s stop i = Some [i..<stop]"
  using assms(2)
proof (induction "stop - i" arbitrary: i)
  case 0
  then show ?case by (subst range_loop.simps) simp
next
  case (Suc n)
  then have "i < stop" by simp
  then have "next_position s i = Suc i" using assms(1) by (simp add: known_before_def next_position_def status_end_def)
  then show ?case using Suc \<open>i < stop\<close> by (subst range_loop.simps) (simp add: upt_conv_Cons)
qed

text \<open>At the end of the transaction the iterator stays where it is.\<close>

lemma range_loop_stuck:
  assumes "range_loop s stop i = Some visited"
  shows "i = status_end s \<longrightarrow> stop = status_end s"
proof (rule range_loop.raw_induct [OF _ assms, where P = "\<lambda>s stop i visited. i = status_end s \<longrightarrow> stop = status_end s"])
  fix loop :: "'a status \<Rightarrow> nat \<Rightarrow> nat \<Rightarrow> nat list option" and s stop i visited
  assume IH: "\<And>s stop i visited. loop s stop i = Some visited \<Longrightarrow> i = status_end s \<longrightarrow> stop = status_end s"
    and body: "(if i = stop then Some [] else do { rest \<leftarrow> loop s stop (next_position s i); Some (i # rest) }) = Some visited"
  show "i = status_end s \<longrightarrow> stop = status_end s"
    using body IH [of s stop "status_end s"] by (auto simp: bind_eq_Some_conv next_position_def status_end_def split: if_splits)
qed

text \<open>A loop over the complete or the incomplete actions ends and visits each of them once and in order, when
  the actions before its end are known, as \<open>Schedule\<close> makes sure. With an unknown action before the first incomplete one, a
  loop over the complete actions would pass its end and never return.\<close>

theorem iteration_ends:
  assumes "m_first_incomplete s \<le> status_end s"
  shows "(known_before s (m_first_incomplete s) \<longrightarrow> visit_complete s = Some [0..<m_first_incomplete s])
    \<and> (known_before s (status_end s) \<longrightarrow> visit_incomplete s = Some [m_first_incomplete s..<status_end s])
    \<and> (\<forall>i < m_first_incomplete s. known_before s i \<and> isl (s_ins s ! i) \<and> m_first_incomplete s < status_end s \<longrightarrow> visit_complete s = None)"
proof -
  have "visit_complete s = None" if i: "i < m_first_incomplete s" "known_before s i" "isl (s_ins s ! i)" "m_first_incomplete s < status_end s" for i
  proof -
    have pass: "range_loop s (m_first_incomplete s) k = None" if "k \<le> i" for k
      using that
    proof (induction "i - k" arbitrary: k)
      case 0
      then have "k = i" by simp
      then have "next_position s k = status_end s" using i by (simp add: next_position_def)
      moreover have "range_loop s (m_first_incomplete s) (status_end s) = None"
        using range_loop_stuck [of s "m_first_incomplete s" "status_end s"] i(4) by (cases "range_loop s (m_first_incomplete s) (status_end s)") auto
      ultimately show ?case using \<open>k = i\<close> i(1) by (subst range_loop.simps) simp
    next
      case (Suc n)
      then have "next_position s k = Suc k" using i(2) by (auto simp: known_before_def next_position_def status_end_def)
      then show ?case using Suc i(1) by (subst range_loop.simps) simp
    qed
    show ?thesis using pass [of 0] by (simp add: visit_complete_def)
  qed
  then show ?thesis
    using assms by (auto simp: visit_complete_def visit_incomplete_def range_loop_known)
qed

theorem iteration_ends_witness:
  "visit_incomplete (StatusOf (snd (add_all [(APBRead 4, 0 :: nat), (APBWrite 8 5, 1)] (Initiate ''apb'' ''t'' None False)))) = Some [0, 1]"
proof -
  let ?s = "StatusOf (snd (add_all [(APBRead 4, 0 :: nat), (APBWrite 8 5, 1)] (Initiate ''apb'' ''t'' None False)))"
  have "m_first_incomplete ?s = 0" "status_end ?s = 2" "known_before ?s (status_end ?s)"
    by (auto simp: add_all_result StatusOf_def Initiate_def status_end_def known_before_def less_Suc_eq numeral_2_eq_2)
  then show ?thesis using iteration_ends [of ?s] by (simp add: upt_conv_Cons)
qed

subsection \<open>Outs and the order of evaluation\<close>

lemma eval_outs_in_order:
  assumes "known_before s (status_end s)" "length ks \<le> status_end s" "i + n = length ks" "length results = length ks"
  shows "eval_outs s ks [i..<i + n] i results = take i results @ map (\<lambda>j. StatusOut (ks ! j) j s) [i..<i + n]"
  using assms(3,4)
proof (induction n arbitrary: i results)
  case 0
  then show ?case by simp
next
  case (Suc n)
  have i: "i < status_end s" "\<not> isl (s_ins s ! i)" using Suc.prems assms(1,2) by (auto simp: known_before_def)
  then have "next_position s i = Suc i" by (simp add: next_position_def status_end_def)
  moreover have "[i..<i + Suc n] = i # [Suc i..<Suc i + n]" by (simp add: upt_conv_Cons)
  ultimately show ?case
    using Suc.IH [of "Suc i" "results[i := StatusOut (ks ! i) i s]"] Suc.prems i
    by (simp add: take_Suc_conv_app_nth del: upt.simps)
qed

text \<open>Evaluated from left to right, the outputs are those of the actions in order. Evaluated from right to left, as the
  language permits, the first output is looked for where the second action is.\<close>

theorem Outs_depends_on_order:
  "(\<forall>s :: 'o status. \<forall>ks. known_before s (status_end s) \<and> length ks \<le> status_end s \<and> length ks \<noteq> 1 \<longrightarrow>
      Outs ks [0..<length ks] s = map (\<lambda>j. StatusOut (ks ! j) j s) [0..<length ks])
   \<and> (let s = StatusOf (snd (add_all [(APBRead 4, 0 :: nat), (APBWrite 8 5, 1)] (Initiate ''apb'' ''t'' None False))) in
      Outs [AAPBRead, AAPBWrite] [0, 1] s = [Some 0, Some 1] \<and> Outs [AAPBRead, AAPBWrite] [1, 0] s = [None, None])"
proof (intro conjI allI impI)
  fix s :: "'o status" and ks :: "action_kind list"
  assume "known_before s (status_end s) \<and> length ks \<le> status_end s \<and> length ks \<noteq> 1"
  then show "Outs ks [0..<length ks] s = map (\<lambda>j. StatusOut (ks ! j) j s) [0..<length ks]"
    using eval_outs_in_order [of s ks 0 "length ks" "replicate (length ks) None"] by (simp add: Outs_def)
next
  show "let s = StatusOf (snd (add_all [(APBRead 4, 0 :: nat), (APBWrite 8 5, 1)] (Initiate ''apb'' ''t'' None False))) in
      Outs [AAPBRead, AAPBWrite] [0, 1] s = [Some 0, Some 1] \<and> Outs [AAPBRead, AAPBWrite] [1, 0] s = [None, None]"
    by code_simp
qed

subsection \<open>Do\<close>

text \<open>\<open>Do\<close> and its variants give the driver exactly the actions of the call, in order, with their fresh outputs and
  nothing complete, as a transaction inside the one it depends on; what they return is what the driver made of it. Only a failed
  allocation in the reused buffers keeps the driver from seeing it.\<close>

theorem Do_executes:
  fixes d :: "dependent option"
  assumes "acts \<noteq> []" "execute (StatusOf (Initiate driver_name name d failed_before)
      \<lparr>s_ins := map (Inr \<circ> fst) acts, s_outs := map snd acts\<rparr>) = Some after"
  shows "DoImpl e True execute driver_name name failed_before d acts =
      (if failed_before
       then (StatusOf (Initiate driver_name name d True)\<lparr>s_ins := map (Inr \<circ> fst) acts, s_outs := map snd acts\<rparr>, False)
       else (after, True))
    \<and> dep_chain (b_dependent (snd (add_all acts (Initiate driver_name name d failed_before)))) =
      (driver_name, name) # (case d of None \<Rightarrow> [] | Some p \<Rightarrow> dep_chain p)"
proof -
  let ?b = "snd (add_all acts (Initiate driver_name name d failed_before))"
  let ?s = "StatusOf (Initiate driver_name name d failed_before)\<lparr>s_ins := map (Inr \<circ> fst) acts, s_outs := map snd acts\<rparr>"
  have s: "StatusOf ?b = ?s" by (simp add: add_all_result Initiate_def StatusOf_def)
  have b: "b_allocation_failure ?b = failed_before" by (simp add: add_all_result Initiate_def)
  have "first_invalid ?s 0 = None"
    by (simp add: first_invalid_None act_ok_def deref_def status_end_def)
  moreover have "\<not> status_ok ?s" using assms(1) by (simp add: status_ok_def status_end_def StatusOf_def)
  ultimately have "DoImpl e True execute driver_name name failed_before d acts =
      (if failed_before
       then (StatusOf (Initiate driver_name name d True)\<lparr>s_ins := map (Inr \<circ> fst) acts, s_outs := map snd acts\<rparr>, False)
       else (after, True))"
    using assms(2) s b by (auto simp: DoImpl_def Schedule_def Let_def)
  moreover have "dep_chain (b_dependent ?b) = (driver_name, name) # (case d of None \<Rightarrow> [] | Some p \<Rightarrow> dep_chain p)"
    by (simp add: add_all_result Initiate_def extend_dependent_def split: option.splits)
  ultimately show ?thesis by blast
qed

definition complete_all :: "'o status \<Rightarrow> 'o status option" where
  "complete_all s = Some (s\<lparr>m_first_incomplete := status_end s\<rparr>)"

theorem Do_executes_witness:
  "snd (DoImpl True True complete_all ''apb'' ''t'' False None [(APBRead 4, 0 :: nat)]) \<and>
   m_first_incomplete (fst (DoImpl True True complete_all ''apb'' ''t'' False None [(APBRead 4, 0 :: nat)])) = 1"
proof -
  let ?acts = "[(APBRead 4, 0 :: nat)]"
  let ?s = "StatusOf (Initiate ''apb'' ''t'' None False)\<lparr>s_ins := map (Inr \<circ> fst) ?acts, s_outs := map snd ?acts\<rparr>"
  have "complete_all ?s = Some (?s\<lparr>m_first_incomplete := 1\<rparr>)" by (simp add: complete_all_def status_end_def)
  from Do_executes [of ?acts complete_all "''apb''" "''t''" None False, OF _ this] show ?thesis by simp
qed

end
