(* ===== verification/Logging.thy ===== *)
theory Logging
  imports Edr_Prelude
begin

text \<open>
  \<open>Spinlock\<close> and its guard (\<open>util/miscellaneous/Spinlock.hpp\<close>), and the logger with its outputs
  (\<open>driver/Logger.hpp\<close>).

  The lock is a step relation of threads over the atomic flag. The logger is a sequential model, as all of it that
  touches the buffer runs under the lock. Its memory resource is a parameter: what the k-th allocation
  does. Blocks are numbered by the allocations. Releasing a block with another size than it was allocated
  with, or writing to one that is released, is \<open>None\<close>. A message is given as its formatted text.
\<close>

subsection \<open>Spinlock\<close>

text \<open>A guard is what its pointer is: set or null.\<close>

definition test_and_set :: "bool \<Rightarrow> bool \<times> bool" where
  "test_and_set flag = (flag, True)"

definition Unlock :: "bool \<Rightarrow> bool" where
  "Unlock flag = False"

definition SpinlockGuard_move :: "bool \<Rightarrow> bool \<times> bool" where
  "SpinlockGuard_move guard = (guard, False)"

definition SpinlockGuard_destroy :: "bool \<Rightarrow> bool \<Rightarrow> bool" where
  "SpinlockGuard_destroy guard flag = (if guard then Unlock flag else flag)"

definition SpinlockGuard_Release :: "bool \<Rightarrow> bool \<Rightarrow> bool \<times> bool" where
  "SpinlockGuard_Release guard flag = (False, if guard then Unlock flag else flag)"

text \<open>A thread is in the loop of \<open>Lock\<close> or not, and has guards.\<close>

record lock_thread =
  spinning :: bool
  guards :: "bool list"

record lock_state =
  lock_flag :: bool
  threads :: "lock_thread list"

inductive lock_step :: "lock_state \<Rightarrow> lock_state \<Rightarrow> bool" where
  start: "i < length (threads s) \<Longrightarrow> threads s ! i = \<lparr>spinning = False, guards = g\<rparr> \<Longrightarrow>
    lock_step s (s\<lparr>threads := (threads s)[i := \<lparr>spinning = True, guards = g\<rparr>]\<rparr>)"
| try_lock: "i < length (threads s) \<Longrightarrow> threads s ! i = \<lparr>spinning = True, guards = g\<rparr> \<Longrightarrow>
    test_and_set (lock_flag s) = (was_set, flag) \<Longrightarrow>
    lock_step s \<lparr>lock_flag = flag, threads = (threads s)[i := \<lparr>spinning = was_set, guards = (if was_set then g else g @ [True])\<rparr>]\<rparr>"
| move: "i < length (threads s) \<Longrightarrow> threads s ! i = \<lparr>spinning = False, guards = g\<rparr> \<Longrightarrow> k < length g \<Longrightarrow>
    SpinlockGuard_move (g ! k) = (to_guard, from_guard) \<Longrightarrow>
    lock_step s (s\<lparr>threads := (threads s)[i := \<lparr>spinning = False, guards = g[k := from_guard] @ [to_guard]\<rparr>]\<rparr>)"
| release: "i < length (threads s) \<Longrightarrow> threads s ! i = \<lparr>spinning = False, guards = g\<rparr> \<Longrightarrow> k < length g \<Longrightarrow>
    SpinlockGuard_Release (g ! k) (lock_flag s) = (guard, flag) \<Longrightarrow>
    lock_step s \<lparr>lock_flag = flag, threads = (threads s)[i := \<lparr>spinning = False, guards = g[k := guard]\<rparr>]\<rparr>"
| destroy: "i < length (threads s) \<Longrightarrow> threads s ! i = \<lparr>spinning = False, guards = g\<rparr> \<Longrightarrow> k < length g \<Longrightarrow>
    SpinlockGuard_destroy (g ! k) (lock_flag s) = flag \<Longrightarrow>
    lock_step s \<lparr>lock_flag = flag, threads = (threads s)[i := \<lparr>spinning = False, guards = take k g @ drop (Suc k) g\<rparr>]\<rparr>"

inductive lock_run :: "nat \<Rightarrow> lock_state \<Rightarrow> bool" for n where
  init: "lock_run n \<lparr>lock_flag = False, threads = replicate n \<lparr>spinning = False, guards = []\<rparr>\<rparr>"
| step: "lock_run n s \<Longrightarrow> lock_step s s' \<Longrightarrow> lock_run n s'"

text \<open>The engaged guards of a thread and of all threads.\<close>

definition engaged :: "lock_thread \<Rightarrow> nat" where
  "engaged t = length (filter id (guards t))"

definition total_engaged :: "lock_state \<Rightarrow> nat" where
  "total_engaged s = sum_list (map engaged (threads s))"

definition lock_inv :: "lock_state \<Rightarrow> bool" where
  "lock_inv s \<longleftrightarrow> total_engaged s = (if lock_flag s then 1 else 0)"

lemma engaged_split:
  assumes "k < length g"
  shows "length (filter id g) = length (filter id (take k g)) + (if g ! k then 1 else 0) + length (filter id (drop (Suc k) g))"
proof -
  have "filter id g = filter id (take k g @ g ! k # drop (Suc k) g)" using id_take_nth_drop [OF assms] by simp
  then show ?thesis by simp
qed

lemma filter_update:
  "k < length g \<Longrightarrow> length (filter id (g[k := b])) + (if g ! k then 1 else 0) = length (filter id g) + (if b then 1 else 0)"
  using engaged_split [of k g] engaged_split [of k "g[k := b]"] by simp

lemma filter_remove:
  "k < length g \<Longrightarrow> length (filter id (take k g @ drop (Suc k) g)) + (if g ! k then 1 else 0) = length (filter id g)"
  using engaged_split [of k g] by simp

lemma lock_step_inv: "lock_step s s' \<Longrightarrow> lock_inv s \<Longrightarrow> lock_inv s'"
proof (induction rule: lock_step.induct)
  case (start i s g)
  then show ?case
    using sum_list_map_update [of i "threads s" engaged "\<lparr>spinning = True, guards = g\<rparr>"]
    by (simp add: lock_inv_def total_engaged_def engaged_def)
next
  case (try_lock i s g was_set flag)
  then show ?case
    using sum_list_map_update [of i "threads s" engaged "\<lparr>spinning = was_set, guards = (if was_set then g else g @ [True])\<rparr>"]
    by (auto simp: lock_inv_def total_engaged_def engaged_def test_and_set_def split: if_splits)
next
  case (move i s g k to_guard from_guard)
  then show ?case
    using sum_list_map_update [of i "threads s" engaged "\<lparr>spinning = False, guards = g[k := from_guard] @ [to_guard]\<rparr>"]
      filter_update [of k g from_guard]
    by (simp add: lock_inv_def total_engaged_def engaged_def SpinlockGuard_move_def split: if_splits)
next
  case (release i s g k guard flag)
  then show ?case
    using sum_list_map_update [of i "threads s" engaged "\<lparr>spinning = False, guards = g[k := guard]\<rparr>"] filter_update [of k g guard]
    by (auto simp: lock_inv_def total_engaged_def engaged_def SpinlockGuard_Release_def Unlock_def split: if_splits)
next
  case (destroy i s g k flag)
  then show ?case
    using sum_list_map_update [of i "threads s" engaged "\<lparr>spinning = False, guards = take k g @ drop (Suc k) g\<rparr>"] filter_remove [of k g]
    by (auto simp: lock_inv_def total_engaged_def engaged_def SpinlockGuard_destroy_def Unlock_def split: if_splits)
qed

lemma lock_run_inv: "lock_run n s \<Longrightarrow> lock_inv s"
proof (induction rule: lock_run.induct)
  case init
  have "sum_list (map engaged (replicate n \<lparr>spinning = False, guards = []\<rparr>)) = 0"
    by (simp add: engaged_def)
  then show ?case by (simp add: lock_inv_def total_engaged_def)
qed (rule lock_step_inv)

lemma engaged_total: "i < length (threads s) \<Longrightarrow> i \<noteq> j \<Longrightarrow> j < length (threads s) \<Longrightarrow>
    engaged (threads s ! i) + engaged (threads s ! j) \<le> total_engaged s"
proof -
  assume ij: "i < length (threads s)" "i \<noteq> j" "j < length (threads s)"
  let ?t = "(threads s ! i)\<lparr>guards := []\<rparr>"
  have "engaged (threads s ! j) = engaged ((threads s)[i := ?t] ! j)" using ij by simp
  also have "\<dots> \<le> sum_list (map engaged ((threads s)[i := ?t]))"
    using ij by (intro member_le_sum_list) (auto intro!: imageI nth_mem simp del: nth_list_update_neq)
  finally show ?thesis
    using sum_list_map_update [OF ij(1), of engaged ?t] by (simp add: total_engaged_def engaged_def)
qed

text \<open>Property C17: in every interleaving of threads that take the lock, move their guards, release and destroy
  them, at most one thread has an engaged guard; the flag is set exactly while one exists; and when none exists, the next
  attempt of a waiting thread takes the lock.\<close>

theorem spinlock_excludes:
  assumes "lock_run n s"
  shows "(\<forall>i j. i < length (threads s) \<and> j < length (threads s) \<and> True \<in> set (guards (threads s ! i)) \<and>
      True \<in> set (guards (threads s ! j)) \<longrightarrow> i = j)
    \<and> (lock_flag s \<longleftrightarrow> (\<exists>t \<in> set (threads s). True \<in> set (guards t)))
    \<and> (\<forall>i < length (threads s). spinning (threads s ! i) \<and> (\<forall>t \<in> set (threads s). True \<notin> set (guards t)) \<longrightarrow>
         lock_step s \<lparr>lock_flag = True, threads = (threads s)[i := \<lparr>spinning = False, guards = guards (threads s ! i) @ [True]\<rparr>]\<rparr>)"
proof -
  have inv: "total_engaged s = (if lock_flag s then 1 else 0)" using lock_run_inv [OF assms] by (simp add: lock_inv_def)
  have eng: "True \<in> set (guards t) \<longleftrightarrow> 0 < engaged t" for t by (auto simp: engaged_def filter_empty_conv)
  have flag: "lock_flag s \<longleftrightarrow> (\<exists>t \<in> set (threads s). True \<in> set (guards t))"
  proof -
    have "(\<exists>t \<in> set (threads s). 0 < engaged t) \<longleftrightarrow> total_engaged s \<noteq> 0" by (auto simp: total_engaged_def)
    then show ?thesis using inv by (simp add: eng split: if_splits)
  qed
  have excl: "i = j" if "i < length (threads s)" "j < length (threads s)" "0 < engaged (threads s ! i)" "0 < engaged (threads s ! j)" for i j
  proof (rule ccontr)
    assume "i \<noteq> j"
    then have "2 \<le> total_engaged s" using engaged_total [OF that(1) _ that(2)] that(3,4) by fastforce
    then show False using inv by (simp split: if_splits)
  qed
  have "lock_step s \<lparr>lock_flag = True, threads = (threads s)[i := \<lparr>spinning = False, guards = guards (threads s ! i) @ [True]\<rparr>]\<rparr>"
    if "i < length (threads s)" "spinning (threads s ! i)" "\<forall>t \<in> set (threads s). True \<notin> set (guards t)" for i
    using lock_step.try_lock [of i s "guards (threads s ! i)" False True] that flag by (simp add: test_and_set_def)
  then show ?thesis using flag excl by (auto simp: eng)
qed

definition contended :: lock_state where
  "contended = \<lparr>lock_flag = True, threads = [\<lparr>spinning = False, guards = [False, True]\<rparr>, \<lparr>spinning = True, guards = []\<rparr>]\<rparr>"

lemma contended_run: "lock_run 2 contended"
proof -
  let ?o = "\<lparr>spinning = False, guards = []\<rparr>" and ?w = "\<lparr>spinning = True, guards = []\<rparr>"
  have "lock_run 2 \<lparr>lock_flag = False, threads = [?o, ?o]\<rparr>" using lock_run.init [of 2] by (simp add: numeral_2_eq_2)
  then have "lock_run 2 \<lparr>lock_flag = False, threads = [?w, ?o]\<rparr>"
    by (rule lock_run.step) (use lock_step.start [of 0 "\<lparr>lock_flag = False, threads = [?o, ?o]\<rparr>" "[]"] in simp)
  then have "lock_run 2 \<lparr>lock_flag = True, threads = [\<lparr>spinning = False, guards = [True]\<rparr>, ?o]\<rparr>"
    by (rule lock_run.step) (use lock_step.try_lock [of 0 "\<lparr>lock_flag = False, threads = [?w, ?o]\<rparr>" "[]" False True]
        in \<open>simp add: test_and_set_def\<close>)
  then have "lock_run 2 \<lparr>lock_flag = True, threads = [\<lparr>spinning = False, guards = [False, True]\<rparr>, ?o]\<rparr>"
    by (rule lock_run.step)
      (use lock_step.move [of 0 "\<lparr>lock_flag = True, threads = [\<lparr>spinning = False, guards = [True]\<rparr>, ?o]\<rparr>" "[True]" 0 True False]
        in \<open>simp add: SpinlockGuard_move_def\<close>)
  then show ?thesis
    unfolding contended_def
    by (rule lock_run.step)
      (use lock_step.start [of 1 "\<lparr>lock_flag = True, threads = [\<lparr>spinning = False, guards = [False, True]\<rparr>, ?o]\<rparr>" "[]"] in simp)
qed

theorem spinlock_excludes_witness:
  "lock_run 2 contended \<and> (lock_flag contended \<longleftrightarrow> (\<exists>t \<in> set (threads contended). True \<in> set (guards t)))"
  using spinlock_excludes [OF contended_run] contended_run by blast

subsection \<open>Outputs\<close>

datatype LogLevel = ERROR | WARNING | INFO | DEBUG | TRACE

fun level_value :: "LogLevel \<Rightarrow> nat" where
  "level_value ERROR = 0"
| "level_value WARNING = 1"
| "level_value INFO = 2"
| "level_value DEBUG = 3"
| "level_value TRACE = 4"

record std_streams =
  std_err :: string
  std_out :: string

definition newline :: string where
  "newline = [CHR 0x0A]"

definition StdStreams_AddLine :: "LogLevel \<Rightarrow> string \<Rightarrow> std_streams \<Rightarrow> std_streams" where
  "StdStreams_AddLine level message out =
     (if level = ERROR \<or> level = WARNING then out\<lparr>std_err := std_err out @ message @ newline\<rparr>
      else out\<lparr>std_out := std_out out @ message @ newline\<rparr>)"

text \<open>The file may not have been opened.\<close>

definition File_AddLine :: "LogLevel \<Rightarrow> string \<Rightarrow> string option \<Rightarrow> string option" where
  "File_AddLine level message m_file = (case m_file of None \<Rightarrow> None | Some file \<Rightarrow> Some (file @ message @ newline))"

subsection \<open>The logger\<close>

text \<open>A memory resource returns a block, returns null or throws; the resources of the standard library throw.\<close>

datatype allocation = Block | Null | Throws

record 'o logger =
  m_out :: 'o
  m_log_level :: LogLevel
  m_buffer :: "nat option"
  m_size :: nat
  blocks :: "nat \<Rightarrow> string option"
  allocations :: nat

definition Logger :: "'o \<Rightarrow> LogLevel \<Rightarrow> 'o logger" where
  "Logger out level = \<lparr>m_out = out, m_log_level = level, m_buffer = None, m_size = 0, blocks = Map.empty, allocations = 0\<rparr>"

definition SetLevel :: "LogLevel \<Rightarrow> 'o logger \<Rightarrow> 'o logger" where
  "SetLevel level l = l\<lparr>m_log_level := level\<rparr>"

fun GetPrefix :: "LogLevel \<Rightarrow> string" where
  "GetPrefix ERROR = ''[ERROR] ''"
| "GetPrefix INFO = ''[INFO] ''"
| "GetPrefix DEBUG = ''[DEBUG] ''"
| "GetPrefix TRACE = ''[TRACE] ''"
| "GetPrefix WARNING = ''[WARNING] ''"

definition deallocate :: "nat option \<Rightarrow> nat \<Rightarrow> 'o logger \<Rightarrow> 'o logger option" where
  "deallocate block n l =
     (case block of
        None \<Rightarrow> Some l
      | Some b \<Rightarrow> (case blocks l b of
                     None \<Rightarrow> None
                   | Some c \<Rightarrow> if length c = n then Some (l\<lparr>blocks := (blocks l)(b := None)\<rparr>) else None))"

definition lost_line :: string where
  "lost_line = ''Failed to allocate a log line buffer!''"

text \<open>\<open>Allocate\<close>: its result, or \<open>None\<close> for an exception.\<close>

definition Allocate ::
  "(nat \<Rightarrow> allocation) \<Rightarrow> (LogLevel \<Rightarrow> string \<Rightarrow> 'o \<Rightarrow> 'o) \<Rightarrow> nat \<Rightarrow> 'o logger \<Rightarrow> (bool option \<times> 'o logger) option"
where
  "Allocate resource AddLine n l =
     (if n \<le> m_size l then Some (Some True, l)
      else do {
        l \<leftarrow> deallocate (m_buffer l) (m_size l) l;
        let k = allocations l; l = l\<lparr>allocations := Suc k\<rparr> in
        case resource k of
          Block \<Rightarrow> Some (Some True, l\<lparr>m_buffer := Some k, m_size := n, blocks := (blocks l)(k := Some (replicate n (CHR 0x00)))\<rparr>)
        | Null \<Rightarrow> Some (Some False, l\<lparr>m_buffer := None, m_size := 0, m_out := AddLine ERROR lost_line (m_out l)\<rparr>)
        | Throws \<Rightarrow> Some (None, l) })"

text \<open>\<open>std::format_to_n\<close> into the buffer.\<close>

definition put_text :: "nat \<Rightarrow> string \<Rightarrow> 'o logger \<Rightarrow> 'o logger option" where
  "put_text offset t l =
     do { b \<leftarrow> m_buffer l; c \<leftarrow> blocks l b;
          if offset + length t \<le> length c
          then Some (l\<lparr>blocks := (blocks l)(b := Some (take offset c @ t @ drop (offset + length t) c))\<rparr>)
          else None }"

definition view :: "nat \<Rightarrow> 'o logger \<Rightarrow> string option" where
  "view n l = do { b \<leftarrow> m_buffer l; c \<leftarrow> blocks l b; if n \<le> length c then Some (take n c) else None }"

text \<open>\<open>Log\<close>: whether an exception leaves it, and the logger.\<close>

definition Log ::
  "(nat \<Rightarrow> allocation) \<Rightarrow> (LogLevel \<Rightarrow> string \<Rightarrow> 'o \<Rightarrow> 'o) \<Rightarrow> LogLevel \<Rightarrow> string \<Rightarrow> 'o logger \<Rightarrow> (bool \<times> 'o logger) option"
where
  "Log resource AddLine level message l =
     (let prefix_size = length (GetPrefix level); total = prefix_size + length message
      in do {
        (allocated, l) \<leftarrow> Allocate resource AddLine total l;
        case allocated of
          None \<Rightarrow> Some (True, l)
        | Some ok \<Rightarrow>
            if \<not> ok then Some (False, l)
            else do {
              l \<leftarrow> put_text 0 (GetPrefix level) l;
              l \<leftarrow> put_text prefix_size message l;
              line \<leftarrow> view total l;
              Some (False, l\<lparr>m_out := AddLine level line (m_out l)\<rparr>) } })"

text \<open>\<open>Error\<close>, \<open>Warning\<close>, \<open>Info\<close>, \<open>Debug\<close> and \<open>Trace\<close> are this function with their level.\<close>

definition LogAt ::
  "(nat \<Rightarrow> allocation) \<Rightarrow> (LogLevel \<Rightarrow> string \<Rightarrow> 'o \<Rightarrow> 'o) \<Rightarrow> LogLevel \<Rightarrow> string \<Rightarrow> 'o logger \<Rightarrow> (bool \<times> 'o logger) option"
where
  "LogAt resource AddLine level message l =
     (if level_value (m_log_level l) \<ge> level_value level then Log resource AddLine level message l else Some (False, l))"

text \<open>A program logs messages; an exception ends it.\<close>

fun log_all ::
  "(nat \<Rightarrow> allocation) \<Rightarrow> (LogLevel \<Rightarrow> string \<Rightarrow> 'o \<Rightarrow> 'o) \<Rightarrow> (LogLevel \<times> string) list \<Rightarrow> 'o logger \<Rightarrow> (bool \<times> 'o logger) option"
where
  "log_all resource AddLine [] l = Some (False, l)"
| "log_all resource AddLine ((level, message) # rest) l =
     do { (raised, l) \<leftarrow> LogAt resource AddLine level message l;
          if raised then Some (True, l) else log_all resource AddLine rest l }"

subsection \<open>Every message is one line\<close>

text \<open>The logger holds at most one block, and knows its size.\<close>

definition logger_ok :: "'o logger \<Rightarrow> bool" where
  "logger_ok l \<longleftrightarrow>
     (case m_buffer l of
        None \<Rightarrow> m_size l = 0 \<and> blocks l = Map.empty
      | Some b \<Rightarrow> (\<exists>c. blocks l = [b \<mapsto> c] \<and> length c = m_size l))"

lemma logger_okE:
  assumes "logger_ok l" "0 < n" "n \<le> m_size l"
  obtains b c where "m_buffer l = Some b" "blocks l = [b \<mapsto> c]" "length c = m_size l"
  using assms by (auto simp: logger_ok_def split: option.splits)

lemma Allocate_result:
  assumes "logger_ok l"
  shows "\<exists>r l'. Allocate resource AddLine n l = Some (r, l') \<and> m_log_level l' = m_log_level l \<and>
    (r = Some True \<and> n \<le> m_size l' \<and> logger_ok l' \<and> m_out l' = m_out l \<or>
     r = Some False \<and> logger_ok l' \<and> m_out l' = AddLine ERROR lost_line (m_out l) \<and> resource (allocations l) = Null \<or>
     r = None \<and> resource (allocations l) = Throws)"
proof (cases "n \<le> m_size l")
  case True
  then show ?thesis using assms by (simp add: Allocate_def)
next
  case False
  have "\<exists>l1. deallocate (m_buffer l) (m_size l) l = Some l1 \<and> blocks l1 = Map.empty \<and> l1\<lparr>blocks := blocks l\<rparr> = l"
    using assms by (auto simp: deallocate_def logger_ok_def split: option.splits)
  then obtain l1 where l1: "deallocate (m_buffer l) (m_size l) l = Some l1" "blocks l1 = Map.empty" "l1\<lparr>blocks := blocks l\<rparr> = l"
    by blast
  have same: "m_log_level l1 = m_log_level l" "m_out l1 = m_out l" "allocations l1 = allocations l"
    using l1(3) by (metis logger.select_convs logger.surjective logger.update_convs(5))+
  show ?thesis
    using False l1(1,2) same
    by (cases "resource (allocations l)")
      (auto simp: Allocate_def Let_def logger_ok_def intro!: exI [of _ "replicate n (CHR 0x00)"])
qed

lemma Log_result:
  assumes "logger_ok l" "resource (allocations l) \<noteq> Throws"
  shows "\<exists>l' line. Log resource AddLine level message l = Some (False, l') \<and> logger_ok l' \<and> m_log_level l' = m_log_level l \<and>
    m_out l' = AddLine (fst line) (snd line) (m_out l) \<and>
    (line = (level, GetPrefix level @ message) \<or> line = (ERROR, lost_line) \<and> resource (allocations l) = Null)"
proof -
  let ?p = "GetPrefix level" and ?n = "length (GetPrefix level) + length message"
  obtain r l1 where a: "Allocate resource AddLine ?n l = Some (r, l1)" "m_log_level l1 = m_log_level l"
    "r = Some True \<and> ?n \<le> m_size l1 \<and> logger_ok l1 \<and> m_out l1 = m_out l \<or>
     r = Some False \<and> logger_ok l1 \<and> m_out l1 = AddLine ERROR lost_line (m_out l) \<and> resource (allocations l) = Null"
    using Allocate_result [OF assms(1), of resource AddLine ?n] assms(2) by blast
  show ?thesis
  proof (cases "r = Some True")
    case True
    have "0 < ?n" by (cases level) simp_all
    then obtain b c where c: "m_buffer l1 = Some b" "blocks l1 = [b \<mapsto> c]" "length c = m_size l1" "?n \<le> length c"
      using logger_okE [of l1 ?n] a(3) True by auto
    define c' where "c' = ?p @ message @ drop ?n c"
    have content: "take (length ?p) (?p @ drop (length ?p) c) @ message @ drop ?n (?p @ drop (length ?p) c) = c'"
      using c(4) by (simp add: c'_def add.commute)
    have "Log resource AddLine level message l =
        Some (False, l1\<lparr>blocks := [b \<mapsto> c'], m_out := AddLine level (?p @ message) (m_out l1)\<rparr>)"
      using a(1) True c content by (simp add: Log_def Let_def put_text_def view_def c'_def)
    moreover have "length c' = m_size l1" using c by (simp add: c'_def)
    ultimately show ?thesis using a(2,3) True c by (auto simp: logger_ok_def)
  next
    case False
    then show ?thesis using a by (auto simp: Log_def Let_def)
  qed
qed

text \<open>The messages that a level lets through, and the line a message becomes.\<close>

definition enabled :: "LogLevel \<Rightarrow> LogLevel \<times> string \<Rightarrow> bool" where
  "enabled threshold msg \<longleftrightarrow> level_value (fst msg) \<le> level_value threshold"

definition line_of :: "LogLevel \<times> string \<Rightarrow> LogLevel \<times> string" where
  "line_of msg = (fst msg, GetPrefix (fst msg) @ snd msg)"

definition add_lines :: "(LogLevel \<Rightarrow> string \<Rightarrow> 'o \<Rightarrow> 'o) \<Rightarrow> (LogLevel \<times> string) list \<Rightarrow> 'o \<Rightarrow> 'o" where
  "add_lines AddLine lines = fold (\<lambda>line. AddLine (fst line) (snd line)) lines"

lemma log_all_result:
  assumes "logger_ok l" "\<forall>k. resource k \<noteq> Throws"
  shows "\<exists>l' lines. log_all resource AddLine msgs l = Some (False, l') \<and> logger_ok l' \<and>
    m_out l' = add_lines AddLine lines (m_out l) \<and>
    list_all2 (\<lambda>msg line. line = line_of msg \<or> line = (ERROR, lost_line) \<and> (\<exists>k. resource k = Null))
      (filter (enabled (m_log_level l)) msgs) lines"
  using assms(1)
proof (induction msgs arbitrary: l)
  case Nil
  then show ?case by (simp add: add_lines_def)
next
  case (Cons msg msgs)
  obtain level message where msg: "msg = (level, message)" by fastforce
  show ?case
  proof (cases "enabled (m_log_level l) msg")
    case True
    obtain l1 line where l1: "Log resource AddLine level message l = Some (False, l1)" "logger_ok l1" "m_log_level l1 = m_log_level l"
      "m_out l1 = AddLine (fst line) (snd line) (m_out l)"
      "line = (level, GetPrefix level @ message) \<or> line = (ERROR, lost_line) \<and> resource (allocations l) = Null"
      using Log_result [OF Cons.prems, of resource AddLine level message] assms(2) by blast
    obtain l' lines where l': "log_all resource AddLine msgs l1 = Some (False, l')" "logger_ok l'"
      "m_out l' = add_lines AddLine lines (m_out l1)"
      "list_all2 (\<lambda>msg line. line = line_of msg \<or> line = (ERROR, lost_line) \<and> (\<exists>k. resource k = Null))
        (filter (enabled (m_log_level l1)) msgs) lines"
      using Cons.IH [OF l1(2)] by blast
    have "m_out l' = add_lines AddLine (line # lines) (m_out l)" using l'(3) l1(4) by (simp add: add_lines_def)
    moreover have "list_all2 (\<lambda>msg line. line = line_of msg \<or> line = (ERROR, lost_line) \<and> (\<exists>k. resource k = Null))
        (filter (enabled (m_log_level l)) (msg # msgs)) (line # lines)"
      using l'(4) l1(3,5) True msg by (auto simp: line_of_def)
    moreover have "log_all resource AddLine (msg # msgs) l = Some (False, l')"
      using l'(1) l1(1) True msg by (simp add: LogAt_def enabled_def)
    ultimately show ?thesis using l'(2) by blast
  next
    case False
    then show ?thesis using Cons msg by (simp add: LogAt_def enabled_def)
  qed
qed

lemma list_all2_map: "list_all2 (\<lambda>x y. y = f x) xs ys \<Longrightarrow> ys = map f xs"
  by (induction rule: list_all2_induct) simp_all

text \<open>As long as the memory resource does not throw, a program's messages at the enabled
  levels become one line each, in their order: the prefix of the level and the whole message, whatever longer message was
  formatted before, or the line that tells of a lost one where the resource has no memory. The logger never writes outside its
  buffer and never releases it twice.\<close>

theorem logger_writes_lines:
  assumes "\<forall>k. resource k \<noteq> Throws"
  shows "\<exists>l lines. log_all resource AddLine msgs (Logger out level) = Some (False, l) \<and> logger_ok l \<and>
    m_out l = add_lines AddLine lines out \<and> length lines = length (filter (enabled level) msgs) \<and>
    (\<forall>i < length lines. lines ! i = line_of (filter (enabled level) msgs ! i) \<or> lines ! i = (ERROR, lost_line)) \<and>
    ((\<forall>k. resource k = Block) \<longrightarrow> lines = map line_of (filter (enabled level) msgs))"
proof -
  let ?l = "Logger out level"
  have l: "logger_ok ?l" "m_out ?l = out" "m_log_level ?l = level" by (simp_all add: Logger_def logger_ok_def)
  obtain l' lines where r: "log_all resource AddLine msgs ?l = Some (False, l')" "logger_ok l'" "m_out l' = add_lines AddLine lines out"
    and all: "list_all2 (\<lambda>msg line. line = line_of msg \<or> line = (ERROR, lost_line) \<and> (\<exists>k. resource k = Null))
      (filter (enabled level) msgs) lines"
    using log_all_result [OF l(1) assms, of AddLine msgs] l(2,3) by auto
  have "lines = map line_of (filter (enabled level) msgs)" if "\<forall>k. resource k = Block"
    using all that by (intro list_all2_map) simp
  moreover have "\<forall>i < length lines. lines ! i = line_of (filter (enabled level) msgs ! i) \<or> lines ! i = (ERROR, lost_line)"
    using list_all2_nthD2 [OF all] by blast
  ultimately show ?thesis using r list_all2_lengthD [OF all] by (intro exI [of _ l'] exI [of _ lines]) simp
qed

theorem logger_writes_lines_witness:
  "\<exists>l. log_all (\<lambda>k. Block) StdStreams_AddLine [(INFO, ''one''), (TRACE, ''two''), (ERROR, ''3'')] (Logger \<lparr>std_err = [], std_out = []\<rparr> DEBUG) =
     Some (False, l) \<and> m_out l = \<lparr>std_err = ''[ERROR] 3'' @ newline, std_out = ''[INFO] one'' @ newline\<rparr>"
proof -
  have "\<forall>k :: nat. Block \<noteq> Throws" "\<forall>k :: nat. Block = Block" by simp_all
  then obtain l where "log_all (\<lambda>k. Block) StdStreams_AddLine [(INFO, ''one''), (TRACE, ''two''), (ERROR, ''3'')]
      (Logger \<lparr>std_err = [], std_out = []\<rparr> DEBUG) = Some (False, l)"
    "m_out l = add_lines StdStreams_AddLine (map line_of (filter (enabled DEBUG) [(INFO, ''one''), (TRACE, ''two''), (ERROR, ''3'')]))
      \<lparr>std_err = [], std_out = []\<rparr>"
    using logger_writes_lines [of "\<lambda>k. Block" StdStreams_AddLine "[(INFO, ''one''), (TRACE, ''two''), (ERROR, ''3'')]"
        "\<lparr>std_err = [], std_out = []\<rparr>" DEBUG] by blast
  then show ?thesis by (simp add: add_lines_def enabled_def line_of_def StdStreams_AddLine_def)
qed

text \<open>What reaches the standard streams.\<close>

lemma add_lines_std:
  "add_lines StdStreams_AddLine lines out =
     out\<lparr>std_err := std_err out @ concat (map (\<lambda>x. snd x @ newline) (filter (\<lambda>x. level_value (fst x) \<le> 1) lines)),
         std_out := std_out out @ concat (map (\<lambda>x. snd x @ newline) (filter (\<lambda>x. \<not> level_value (fst x) \<le> 1) lines))\<rparr>"
proof (induction lines arbitrary: out)
  case (Cons x lines)
  have "level_value (fst x) \<le> 1 \<longleftrightarrow> fst x = ERROR \<or> fst x = WARNING" by (cases "fst x") simp_all
  then show ?case using Cons by (simp add: add_lines_def StdStreams_AddLine_def)
qed (simp add: add_lines_def)

text \<open>A resource that throws, as those of the standard library do, leaves the released
  buffer in the logger: the next message that fits into it is written to released memory.\<close>

theorem throwing_resource_dangles:
  "\<exists>l. log_all (\<lambda>k. if k = 1 then Throws else Block) File_AddLine [(INFO, ''short''), (INFO, ''longer'')] (Logger (Some []) TRACE) = Some (True, l) \<and>
     LogAt (\<lambda>k. Block) File_AddLine INFO ''tiny'' l = None"
proof -
  have "(case log_all (\<lambda>k. if k = 1 then Throws else Block) File_AddLine [(INFO, ''short''), (INFO, ''longer'')] (Logger (Some []) TRACE) of
      Some (raised, l) \<Rightarrow> raised \<and> LogAt (\<lambda>k. Block) File_AddLine INFO ''tiny'' l = None
    | None \<Rightarrow> False)"
    by (simp add: LogAt_def Log_def Let_def Allocate_def Logger_def deallocate_def put_text_def view_def)
  then show ?thesis by (auto split: option.splits)
qed

end
