(* ===== verification/Jtag_Tap.thy ===== *)
theory Jtag_Tap
  imports Edr_Prelude
begin

text \<open>
  The JTAG state machine of \<open>driver/jtag/JtagChain.cpp\<close> and \<open>driver/jtag/JtagChainAction.hpp\<close>: the
  steps of a TAP controller, the table of TMS sequences between any two states that the code computes
  at compile time, and the sequences that keep a TAP where it is.

  The table is computed by a search that stops at a state it has already reached with fewer bits. Its
  depth is bounded by the number of states, so the fuel of \<open>ComputeTransitionsImpl\<close> is 16, and the
  theorems below show that no search runs out of it.
\<close>

datatype jc_state =
    TestLogicReset | RunTestIdle
  | SelectDR | CaptureDR | ShiftDR | Exit1DR | PauseDR | Exit2DR | UpdateDR
  | SelectIR | CaptureIR | ShiftIR | Exit1IR | PauseIR | Exit2IR | UpdateIR
  | Unknown

fun JCStateID :: "jc_state \<Rightarrow> nat" where
  "JCStateID TestLogicReset = 0"
| "JCStateID RunTestIdle = 1"
| "JCStateID SelectDR = 2"
| "JCStateID CaptureDR = 3"
| "JCStateID ShiftDR = 4"
| "JCStateID Exit1DR = 5"
| "JCStateID PauseDR = 6"
| "JCStateID Exit2DR = 7"
| "JCStateID UpdateDR = 8"
| "JCStateID SelectIR = 9"
| "JCStateID CaptureIR = 10"
| "JCStateID ShiftIR = 11"
| "JCStateID Exit1IR = 12"
| "JCStateID PauseIR = 13"
| "JCStateID Exit2IR = 14"
| "JCStateID UpdateIR = 15"
| "JCStateID Unknown = 16"

definition tap_states :: "jc_state list" where
  "tap_states = [TestLogicReset, RunTestIdle, SelectDR, CaptureDR, ShiftDR, Exit1DR, PauseDR, Exit2DR,
     UpdateDR, SelectIR, CaptureIR, ShiftIR, Exit1IR, PauseIR, Exit2IR, UpdateIR]"

text \<open>A number of a transaction as a state; everything from 16 on is not a state.\<close>

definition state_of :: "u32 \<Rightarrow> jc_state" where
  "state_of n = (if unat n < 16 then tap_states ! unat n else Unknown)"

text \<open>\<open>g_jc_steps\<close>: the states after a clock with TMS low and with TMS high. \<open>Unknown\<close> has no entry.\<close>

fun g_jc_steps :: "jc_state \<Rightarrow> jc_state \<times> jc_state" where
  "g_jc_steps TestLogicReset = (RunTestIdle, TestLogicReset)"
| "g_jc_steps RunTestIdle = (RunTestIdle, SelectDR)"
| "g_jc_steps SelectDR = (CaptureDR, SelectIR)"
| "g_jc_steps CaptureDR = (ShiftDR, Exit1DR)"
| "g_jc_steps ShiftDR = (ShiftDR, Exit1DR)"
| "g_jc_steps Exit1DR = (PauseDR, UpdateDR)"
| "g_jc_steps PauseDR = (PauseDR, Exit2DR)"
| "g_jc_steps Exit2DR = (ShiftDR, UpdateDR)"
| "g_jc_steps UpdateDR = (RunTestIdle, SelectDR)"
| "g_jc_steps SelectIR = (CaptureIR, TestLogicReset)"
| "g_jc_steps CaptureIR = (ShiftIR, Exit1IR)"
| "g_jc_steps ShiftIR = (ShiftIR, Exit1IR)"
| "g_jc_steps Exit1IR = (PauseIR, UpdateIR)"
| "g_jc_steps PauseIR = (PauseIR, Exit2IR)"
| "g_jc_steps Exit2IR = (ShiftIR, UpdateIR)"
| "g_jc_steps UpdateIR = (RunTestIdle, SelectDR)"
| "g_jc_steps Unknown = (Unknown, Unknown)"

definition tap_step :: "jc_state \<Rightarrow> bool \<Rightarrow> jc_state" where
  "tap_step s tms = (if tms then snd (g_jc_steps s) else fst (g_jc_steps s))"

definition tap_walk :: "jc_state \<Rightarrow> bool list \<Rightarrow> jc_state" where
  "tap_walk s tms = foldl tap_step s tms"

lemma tap_walk_simps [simp]:
  "tap_walk s [] = s"
  "tap_walk s (b # bs) = tap_walk (tap_step s b) bs"
  "tap_walk s (bs @ cs) = tap_walk (tap_walk s bs) cs"
  by (simp_all add: tap_walk_def)

subsection \<open>The table of transitions\<close>

record jc_transition =
  bits :: u32
  num_bits :: u32

definition no_transition :: jc_transition where
  "no_transition = \<lparr>bits = 0, num_bits = - 1\<rparr>"

text \<open>One row of the table, for one origin, as a list indexed by the state reached.\<close>

fun ComputeTransitionsImpl ::
  "nat \<Rightarrow> jc_state \<Rightarrow> u32 \<Rightarrow> u32 \<Rightarrow> jc_transition list \<Rightarrow> jc_transition list option"
where
  "ComputeTransitionsImpl 0 cur b n row = None"
| "ComputeTransitionsImpl (Suc fuel) cur b n row =
     (if num_bits (row ! JCStateID cur) < n then Some row
      else
        do { row1 \<leftarrow> ComputeTransitionsImpl fuel (fst (g_jc_steps cur)) b (n + 1)
               (row[JCStateID cur := \<lparr>bits = b, num_bits = n\<rparr>]);
             ComputeTransitionsImpl fuel (snd (g_jc_steps cur)) (b OR push_bit (unat n) 1) (n + 1) row1 })"

definition ComputeTransitions :: "jc_state \<Rightarrow> jc_transition list option" where
  "ComputeTransitions origin = ComputeTransitionsImpl 16 origin 0 0 (replicate 16 no_transition)"

definition g_jc_transitions :: "jc_state \<Rightarrow> jc_state \<Rightarrow> jc_transition" where
  "g_jc_transitions origin target =
     (case ComputeTransitions origin of
        None \<Rightarrow> no_transition
      | Some row \<Rightarrow> row ! JCStateID target)"

text \<open>The bits of a transition in the order in which they are clocked.\<close>

definition tms_bits :: "jc_transition \<Rightarrow> bool list" where
  "tms_bits t = map (bit (bits t)) [0..<unat (num_bits t)]"

subsection \<open>Waiting\<close>

definition g_zeros :: u64 where
  "g_zeros = 0"

definition g_ones :: u64 where
  "g_ones = 0xFFFFFFFFFFFFFFFF"

definition g_unstable :: u64 where
  "g_unstable = 0xCCCCCCCC"

fun g_waiting_sequences :: "jc_state \<Rightarrow> u64" where
  "g_waiting_sequences TestLogicReset = g_ones"
| "g_waiting_sequences RunTestIdle = g_zeros"
| "g_waiting_sequences ShiftDR = g_zeros"
| "g_waiting_sequences PauseDR = g_zeros"
| "g_waiting_sequences ShiftIR = g_zeros"
| "g_waiting_sequences PauseIR = g_zeros"
| "g_waiting_sequences _ = g_unstable"

subsection \<open>Properties\<close>

text \<open>The states that can be reached with exactly \<open>n\<close> clocks.\<close>

fun reach_in :: "nat \<Rightarrow> jc_state \<Rightarrow> jc_state list" where
  "reach_in 0 s = [s]"
| "reach_in (Suc n) s =
     remdups (concat (map (\<lambda>t. [fst (g_jc_steps t), snd (g_jc_steps t)]) (reach_in n s)))"

lemma reach_in_walk: "t \<in> set (reach_in n s) \<longleftrightarrow> (\<exists>tms. length tms = n \<and> tap_walk s tms = t)"
proof (induction n arbitrary: t)
  case 0
  show ?case by auto
next
  case (Suc n)
  have "t \<in> set (reach_in (Suc n) s) \<longleftrightarrow>
      (\<exists>u \<in> set (reach_in n s). \<exists>b. t = tap_step u b)"
    by (auto simp: tap_step_def)
  also have "\<dots> \<longleftrightarrow> (\<exists>tms b. length tms = n \<and> t = tap_step (tap_walk s tms) b)"
    unfolding Bex_def Suc.IH by blast
  also have "\<dots> \<longleftrightarrow> (\<exists>tms. length tms = Suc n \<and> tap_walk s tms = t)"
  proof
    assume "\<exists>tms b. length tms = n \<and> t = tap_step (tap_walk s tms) b"
    then obtain tms b where "length tms = n" "t = tap_step (tap_walk s tms) b" by blast
    then show "\<exists>tms. length tms = Suc n \<and> tap_walk s tms = t"
      by (intro exI [of _ "tms @ [b]"]) simp
  next
    assume "\<exists>tms. length tms = Suc n \<and> tap_walk s tms = t"
    then obtain ys y where "length ys = n" "tap_walk s (ys @ [y]) = t"
      by (auto simp: length_Suc_conv_rev)
    then show "\<exists>tms b. length tms = n \<and> t = tap_step (tap_walk s tms) b"
      by (intro exI [of _ ys] exI [of _ y]) simp
  qed
  finally show ?case .
qed

definition row_ok :: "jc_state \<Rightarrow> jc_transition list \<Rightarrow> bool" where
  "row_ok s row \<longleftrightarrow>
     list_all (\<lambda>t. let tr = row ! JCStateID t in
        num_bits tr \<le> 8 \<and> tap_walk s (tms_bits tr) = t \<and>
        list_all (\<lambda>n. t \<notin> set (reach_in n s)) [0..<unat (num_bits tr)]) tap_states"

lemma rows_ok:
  "list_all (\<lambda>s. case ComputeTransitions s of None \<Rightarrow> False | Some row \<Rightarrow> row_ok s row) tap_states"
  by code_simp

lemma in_tap_states [simp]: "s \<in> set tap_states \<longleftrightarrow> s \<noteq> Unknown"
  by (cases s) (simp_all add: tap_states_def)

lemma transition_ok:
  assumes "s \<noteq> Unknown" "t \<noteq> Unknown"
  shows "num_bits (g_jc_transitions s t) \<le> 8" "tap_walk s (tms_bits (g_jc_transitions s t)) = t"
    "n < unat (num_bits (g_jc_transitions s t)) \<Longrightarrow> t \<notin> set (reach_in n s)"
proof -
  obtain row where row: "ComputeTransitions s = Some row" "row_ok s row"
    using bspec [OF rows_ok [unfolded list_all_iff], of s] assms(1)
    by (auto split: option.splits)
  then have tr: "g_jc_transitions s t = row ! JCStateID t" by (simp add: g_jc_transitions_def)
  from row(2) assms(2) show "num_bits (g_jc_transitions s t) \<le> 8"
    "tap_walk s (tms_bits (g_jc_transitions s t)) = t"
    "n < unat (num_bits (g_jc_transitions s t)) \<Longrightarrow> t \<notin> set (reach_in n s)"
    by (auto simp: row_ok_def list_all_iff tr Let_def)
qed

lemma length_tms_bits [simp]: "length (tms_bits t) = unat (num_bits t)"
  by (simp add: tms_bits_def)

lemma transition_length:
  assumes "s \<noteq> Unknown" "t \<noteq> Unknown"
  shows "length (tms_bits (g_jc_transitions s t)) \<le> 8"
  using transition_ok(1) [OF assms] by (simp add: word_le_nat_alt)

text \<open>Property C22: for any two states of a TAP, the TMS sequence of the table, clocked into the state
  machine, leads from the first to the second; it has at most eight bits, and no sequence that does
  it is shorter.\<close>

theorem transitions_shortest:
  assumes "s \<noteq> Unknown" "t \<noteq> Unknown"
  shows "tap_walk s (tms_bits (g_jc_transitions s t)) = t
    \<and> length (tms_bits (g_jc_transitions s t)) \<le> 8
    \<and> (\<forall>tms. tap_walk s tms = t \<longrightarrow> length (tms_bits (g_jc_transitions s t)) \<le> length tms)"
proof (intro conjI allI impI)
  show "tap_walk s (tms_bits (g_jc_transitions s t)) = t" by (rule transition_ok(2) [OF assms])
  show "length (tms_bits (g_jc_transitions s t)) \<le> 8" by (rule transition_length [OF assms])
  fix tms
  assume "tap_walk s tms = t"
  then have "t \<in> set (reach_in (length tms) s)" by (auto simp: reach_in_walk)
  then show "length (tms_bits (g_jc_transitions s t)) \<le> length tms"
    using transition_ok(3) [OF assms, of "length tms"] by (auto simp: not_less [symmetric])
qed

theorem transitions_shortest_witness:
  "tap_walk RunTestIdle (tms_bits (g_jc_transitions RunTestIdle ShiftIR)) = ShiftIR \<and>
   length (tms_bits (g_jc_transitions RunTestIdle ShiftIR)) \<le> length [True, True, False, False]"
  using transitions_shortest [of RunTestIdle ShiftIR]
  by (auto simp: tap_step_def dest: spec [of _ "[True, True, False, False]"])

lemma tap_walk_replicate: "tap_step s b = s \<Longrightarrow> tap_walk s (replicate n b) = s"
  by (induction n) simp_all

lemma waiting_bits:
  assumes "n \<le> 64"
  shows "map (bit (g_zeros)) [0..<n] = replicate n False" "map (bit (g_ones)) [0..<n] = replicate n True"
proof -
  have ones: "g_ones = mask 64" by (simp add: g_ones_def mask_eq_exp_minus_1)
  show "map (bit (g_ones)) [0..<n] = replicate n True"
    unfolding ones using assms by (intro nth_equalityI) (auto simp: bit_mask_iff)
  show "map (bit (g_zeros)) [0..<n] = replicate n False"
    by (intro nth_equalityI) (auto simp: g_zeros_def)
qed

lemma waiting_stays:
  assumes "g_waiting_sequences s \<noteq> g_unstable" "n \<le> 64"
  shows "tap_walk s (map (bit (g_waiting_sequences s)) [0..<n]) = s"
  using assms by (cases s) (simp_all add: waiting_bits tap_walk_replicate tap_step_def)

text \<open>A waiting sequence keeps the TAP in its state for any number of the 64 clocks it
  holds, and the states without one are exactly those that no value of TMS keeps.\<close>

theorem waiting_correct:
  assumes "s \<noteq> Unknown"
  shows "(g_waiting_sequences s \<noteq> g_unstable \<longrightarrow>
      (\<forall>n \<le> 64. tap_walk s (map (bit (g_waiting_sequences s)) [0..<n]) = s))
    \<and> (g_waiting_sequences s = g_unstable \<longleftrightarrow> (\<forall>b. tap_step s b \<noteq> s))"
proof
  show "g_waiting_sequences s \<noteq> g_unstable \<longrightarrow>
      (\<forall>n \<le> 64. tap_walk s (map (bit (g_waiting_sequences s)) [0..<n]) = s)"
    using waiting_stays by blast
  have "\<exists>b. tap_step s b = s" if "g_waiting_sequences s \<noteq> g_unstable"
    using that by (cases s) (auto simp: tap_step_def intro: exI [of _ True] exI [of _ False])
  moreover have "\<forall>b. tap_step s b \<noteq> s" if "g_waiting_sequences s = g_unstable"
    using that assms by (cases s) (auto simp: tap_step_def g_unstable_def g_zeros_def g_ones_def)
  ultimately show "g_waiting_sequences s = g_unstable \<longleftrightarrow> (\<forall>b. tap_step s b \<noteq> s)" by blast
qed

theorem waiting_correct_witness:
  "tap_walk PauseDR (map (bit (g_waiting_sequences PauseDR)) [0..<50]) = PauseDR"
proof -
  have "g_waiting_sequences PauseDR \<noteq> g_unstable" by (simp add: g_unstable_def g_zeros_def)
  with waiting_correct [of PauseDR] show ?thesis by simp
qed

end
