(* ===== verification/Jtag_Chain.thy ===== *)
theory Jtag_Chain
  imports Transaction Jtag_Tap
begin

text \<open>
  The JTAG chain driver (\<open>driver/jtag/JtagChain.cpp\<close>, \<open>JtagChain.h\<close>): \<open>JtagChainImpl::Visitor\<close> and
  \<open>Execute\<close>. A transaction of the chain is walked twice. The first walk translates it into JTAG
  actions; the second, when these have been executed, marks the actions of the chain as done and
  copies the captured bits into their outputs. Both walks are the same visitor: it has a builder in
  the first (\<open>v_building\<close>) and an iterator into the JTAG status in the second.

  The driver receives a transaction only when all its actions are valid, so that an iterator is an
  index and \<open>++\<close> is the next index. Written bits are lists, least significant first: \<open>v_tms\<close> is what
  was written to \<open>m_tms_stream\<close> since it was renewed. \<open>None\<close> is a failed assertion, the use of an
  empty optional or null pointer, or an index outside of an array; a result carries the \<open>bool\<close> that
  the code returns.
\<close>

subsection \<open>State\<close>

definition g_max_num_taps :: nat where
  "g_max_num_taps = 256"

definition g_max_ir_length :: nat where
  "g_max_ir_length = 32"

definition g_max_tms_bits :: nat where
  "g_max_tms_bits = 64"

type_synonym single_ir = "nat \<times> u32"

record chain_state =
  cs_state :: jc_state
  selected_tap :: nat
  last_written_single_ir :: "single_ir option"

record jtag_chain =
  m_state :: chain_state
  m_ir_lengths :: "nat list"
  m_num_taps :: nat

definition new_chain :: jtag_chain where
  "new_chain =
     \<lparr>m_state = \<lparr>cs_state = Unknown, selected_tap = 0, last_written_single_ir = None\<rparr>,
      m_ir_lengths = 1 # replicate (g_max_num_taps - 1) 0, m_num_taps = 1\<rparr>"

text \<open>\<open>v_alloc\<close> tells for each \<open>Add\<close> to the builder whether the action and its output find memory,
  \<open>v_error_alloc\<close> whether an error does.\<close>

record visitor =
  m_chain :: jtag_chain
  m_ctx :: "bool list status"
  v_building :: bool
  m_jbuilder :: "bool list builder"
  v_adds :: nat
  v_alloc :: "nat \<Rightarrow> bool \<times> bool"
  v_error_alloc :: bool
  m_jstatus :: "bool list status"
  m_jit :: nat
  v_state :: chain_state
  v_tms :: "bool list"
  m_selected_tap_on_first_tdi_sit :: nat
  m_first_tdi_sit :: "nat option"
  m_current_tdi_operation :: "action_kind option"
  m_last_tdied_tap :: nat
  m_total_tdi :: nat
  m_maybe_single_ir :: "single_ir option"

type_synonym visit = "(bool \<times> visitor) option"

text \<open>\<open>if (!step) return false;\<close>\<close>

definition and_then :: "visit \<Rightarrow> (visitor \<Rightarrow> visit) \<Rightarrow> visit" where
  "and_then r f =
     (case r of None \<Rightarrow> None | Some (ok, v) \<Rightarrow> if ok then f v else Some (False, v))"

definition TranslatingVisitor ::
  "jtag_chain \<Rightarrow> bool list status \<Rightarrow> bool list builder \<Rightarrow> (nat \<Rightarrow> bool \<times> bool) \<Rightarrow> bool \<Rightarrow>
     nat \<Rightarrow> chain_state \<Rightarrow> visitor"
where
  "TranslatingVisitor chain ctx jbuilder alloc error_alloc adds st =
     \<lparr>m_chain = chain, m_ctx = ctx, v_building = True, m_jbuilder = jbuilder, v_adds = adds,
      v_alloc = alloc, v_error_alloc = error_alloc, m_jstatus = StatusOf jbuilder, m_jit = 0,
      v_state = st, v_tms = [], m_selected_tap_on_first_tdi_sit = 0, m_first_tdi_sit = None,
      m_current_tdi_operation = None, m_last_tdied_tap = 0, m_total_tdi = 0,
      m_maybe_single_ir = None\<rparr>"

definition CompletingVisitor ::
  "jtag_chain \<Rightarrow> bool list status \<Rightarrow> bool list status \<Rightarrow> bool \<Rightarrow> nat \<Rightarrow> chain_state \<Rightarrow> visitor"
where
  "CompletingVisitor chain ctx jstatus error_alloc jbegin st =
     \<lparr>m_chain = chain, m_ctx = ctx, v_building = False,
      m_jbuilder = Initiate [] [] None False, v_adds = 0, v_alloc = (\<lambda>_. (False, False)),
      v_error_alloc = error_alloc, m_jstatus = jstatus, m_jit = jbegin,
      v_state = st, v_tms = [], m_selected_tap_on_first_tdi_sit = 0, m_first_tdi_sit = None,
      m_current_tdi_operation = None, m_last_tdied_tap = 0, m_total_tdi = 0,
      m_maybe_single_ir = None\<rparr>"

text \<open>The calls of the visitor on its transaction and builder.\<close>

definition v_Add :: "action \<Rightarrow> visitor \<Rightarrow> visitor" where
  "v_Add a v =
     v\<lparr>m_jbuilder := snd (Add (fst (v_alloc v (v_adds v))) (snd (v_alloc v (v_adds v))) a [] (m_jbuilder v)),
       v_adds := Suc (v_adds v)\<rparr>"

definition v_Done :: "nat \<Rightarrow> visitor \<Rightarrow> visitor" where
  "v_Done i v = v\<lparr>m_ctx := Done i (m_ctx v)\<rparr>"

definition v_FailAt :: "nat \<Rightarrow> cause \<Rightarrow> visitor \<Rightarrow> visitor" where
  "v_FailAt i c v = v\<lparr>m_ctx := FailAt (v_error_alloc v) i c (m_ctx v)\<rparr>"

definition v_FailNested :: "visitor \<Rightarrow> visitor" where
  "v_FailNested v =
     v\<lparr>m_ctx := Fail (v_error_alloc v) (CauseNestedError (m_error (m_jstatus v))) (m_ctx v)\<rparr>"

text \<open>\<open>m_jend\<close>: the end of the completed JTAG actions.\<close>

definition m_jend :: "visitor \<Rightarrow> nat" where
  "m_jend v = m_first_incomplete (m_jstatus v)"

subsection \<open>TMS\<close>

definition FlushTMS :: "visitor \<Rightarrow> visit" where
  "FlushTMS v =
     (if v_tms v = [] then Some (True, v)
      else if v_building v then Some (True, (v_Add (PutTMS (v_tms v)) v)\<lparr>v_tms := []\<rparr>)
      else if m_jit v = m_jend v then Some (False, v_FailNested v)
      else Some (True, v\<lparr>m_jit := Suc (m_jit v), v_tms := []\<rparr>))"

text \<open>The free room of \<open>m_tms_stream\<close>.\<close>

definition tms_room :: "visitor \<Rightarrow> nat" where
  "tms_room v = g_max_tms_bits - length (v_tms v)"

definition GoToState :: "jc_state \<Rightarrow> visitor \<Rightarrow> visit" where
  "GoToState st v =
     (if cs_state (v_state v) = Unknown \<or> st = Unknown then None
      else
        let transition = g_jc_transitions (cs_state (v_state v)) st
        in and_then
             (if tms_room v < unat (num_bits transition) then FlushTMS v else Some (True, v))
             (\<lambda>v. if unat (num_bits transition) \<le> tms_room v
                  then Some (True, v\<lparr>v_tms := v_tms v @ tms_bits transition,
                                     v_state := (v_state v)\<lparr>cs_state := st\<rparr>\<rparr>)
                  else None))"

text \<open>The loop that waits in a state: the sequence is written in portions of the free room.\<close>

function wait_loop :: "u64 \<Rightarrow> nat \<Rightarrow> visitor \<Rightarrow> visit" where
  "wait_loop waiting_sequence to_wait v =
     (if to_wait = 0 then Some (True, v)
      else case (if tms_room v = 0 then FlushTMS v else Some (True, v)) of
             None \<Rightarrow> None
           | Some (False, v) \<Rightarrow> Some (False, v)
           | Some (True, v) \<Rightarrow>
               (let this_time = min to_wait (tms_room v)
                in if this_time = 0 then None
                   else wait_loop waiting_sequence (to_wait - this_time)
                          (v\<lparr>v_tms := v_tms v @ map (bit waiting_sequence) [0..<this_time]\<rparr>)))"
  by pat_completeness auto
termination
  by (relation "measure (\<lambda>(_, n, _). n)") auto

declare wait_loop.simps [simp del]

subsection \<open>TDI\<close>

text \<open>The bits for the instruction registers of the TAPs \<open>a, \<dots>, b - 1\<close>, from the highest down.\<close>

definition bypass_instructions :: "nat list \<Rightarrow> nat \<Rightarrow> nat \<Rightarrow> bool list" where
  "bypass_instructions lens a b = concat (map (\<lambda>t. replicate (lens ! t) True) (rev [a..<b]))"

definition value_bits :: "nat \<Rightarrow> u32 \<Rightarrow> bool list" where
  "value_bits n w = map (bit w) [0..<n]"

text \<open>The loop of \<open>FlushTDI\<close> over the actions of one shift, with everything written to \<open>dest\<close> so far. The
  number of zeros is an unsigned difference.\<close>

definition bypass_zeros :: "nat \<Rightarrow> nat \<Rightarrow> nat" where
  "bypass_zeros last_shifted_tap sel =
     (if last_shifted_tap \<noteq> sel then unat (of_nat last_shifted_tap - 1 - of_nat sel :: u32) else 0)"

fun tdi_loop ::
  "nat list \<Rightarrow> action_kind \<Rightarrow> action list \<Rightarrow> nat \<Rightarrow> nat \<Rightarrow> bool list \<Rightarrow> (nat \<times> bool list) option"
where
  "tdi_loop lens oper [] sel last_shifted_tap dest = Some (last_shifted_tap, dest)"
| "tdi_loop lens oper (a # as) sel last_shifted_tap dest =
     (case a of
        JCSelectTAP t \<Rightarrow> tdi_loop lens oper as (unat t) last_shifted_tap dest
      | _ \<Rightarrow>
          if oper = AJCWriteIR then
            (case a of
               JCWriteIR ir_value \<Rightarrow>
                 if last_shifted_tap \<le> sel then None
                 else tdi_loop lens oper as sel sel
                        (dest @ bypass_instructions lens (Suc sel) last_shifted_tap @
                         value_bits (lens ! sel) ir_value)
             | _ \<Rightarrow> None)
          else
            (case a of
               JCWriteDR source \<Rightarrow>
                 tdi_loop lens oper as sel sel
                   (dest @ replicate (bypass_zeros last_shifted_tap sel) False @ source)
             | JCShiftDR source \<Rightarrow>
                 tdi_loop lens oper as sel sel
                   (dest @ replicate (bypass_zeros last_shifted_tap sel) False @ source)
             | _ \<Rightarrow> None))"

definition tdi_tail :: "nat list \<Rightarrow> action_kind \<Rightarrow> nat \<Rightarrow> bool list" where
  "tdi_tail lens oper last_shifted_tap =
     (if oper = AJCWriteIR then bypass_instructions lens 0 last_shifted_tap
      else replicate last_shifted_tap False)"

text \<open>The actions between two iterators of the transaction.\<close>

definition actions_between :: "nat \<Rightarrow> nat \<Rightarrow> 'o status \<Rightarrow> action list" where
  "actions_between i j s = map projr (take (j - i) (drop i (s_ins s)))"

text \<open>Writing beyond the end of \<open>dest\<close> has no effect; its number of bits is a field of 31 bits. Bits
  that were never written have no value.\<close>

definition emit_tdi :: "nat \<Rightarrow> visitor \<Rightarrow> visit" where
  "emit_tdi send v =
     do { oper \<leftarrow> m_current_tdi_operation v;
          first \<leftarrow> m_first_tdi_sit v;
          let lens = m_ir_lengths (m_chain v);
          (last_shifted_tap, dest) \<leftarrow>
            tdi_loop lens oper (actions_between first send (m_ctx v))
              (m_selected_tap_on_first_tdi_sit v) (m_num_taps (m_chain v)) [];
          let dest = dest @ tdi_tail lens oper last_shifted_tap;
          let n = m_total_tdi v mod 2 ^ 31;
          if \<not> fst (v_alloc v (v_adds v)) \<or> length dest < n then None
          else
            Some (True, v_Add (if oper = AJCShiftDR then PutTDIGetTDO (take n dest) True
                               else PutTDI (take n dest) True) v) }"

text \<open>The loop that completes the actions of one shift: \<open>tdo\<close> are the captured bits that were not
  consumed yet.\<close>

fun tdo_loop :: "nat list \<Rightarrow> nat \<Rightarrow> nat \<Rightarrow> bool list option \<Rightarrow> bool list status \<Rightarrow> bool list status option"
where
  "tdo_loop [] sel last_shifted_tap tdo ctx = Some ctx"
| "tdo_loop (i # is) sel last_shifted_tap tdo ctx =
     (case s_ins ctx ! i of
        Inr (JCSelectTAP t) \<Rightarrow> tdo_loop is (unat t) last_shifted_tap tdo (Done i ctx)
      | Inr (JCShiftDR source) \<Rightarrow>
          (case tdo of
             None \<Rightarrow> None
           | Some captured \<Rightarrow>
               (let captured = drop (bypass_zeros last_shifted_tap sel) captured
                in tdo_loop is sel sel (Some (drop (length source) captured))
                     (Done i (ctx\<lparr>s_outs := (s_outs ctx)[i := take (length source) captured]\<rparr>))))
      | _ \<Rightarrow> tdo_loop is sel sel tdo (Done i ctx))"

definition complete_tdi :: "nat \<Rightarrow> visitor \<Rightarrow> visit" where
  "complete_tdi send v =
     do { first \<leftarrow> m_first_tdi_sit v;
          if m_jit v = m_jend v then
            Some (False, v_FailNested (v\<lparr>m_ctx := Undo first (m_ctx v)\<rparr>))
          else do {
            let tdo = (case s_ins (m_jstatus v) ! m_jit v of
                         Inr (PutTDIGetTDO bs l) \<Rightarrow> Some (s_outs (m_jstatus v) ! m_jit v)
                       | _ \<Rightarrow> None);
            ctx \<leftarrow> tdo_loop [first..<send] (m_selected_tap_on_first_tdi_sit v)
                     (m_num_taps (m_chain v)) tdo (m_ctx v);
            Some (True, v\<lparr>m_jit := Suc (m_jit v), m_ctx := ctx\<rparr>) } }"

definition done_range :: "nat \<Rightarrow> nat \<Rightarrow> 'o status \<Rightarrow> 'o status" where
  "done_range i j s = fold Done [i..<j] s"

definition FlushTDI :: "nat \<Rightarrow> visitor \<Rightarrow> visit" where
  "FlushTDI send v =
     (case m_current_tdi_operation v of
        None \<Rightarrow> Some (True, v)
      | Some oper \<Rightarrow>
          if oper = AJCWriteIR \<and> m_maybe_single_ir v = last_written_single_ir (v_state v) then
            do { first \<leftarrow> m_first_tdi_sit v;
                 Some (True,
                   v\<lparr>m_ctx := (if v_building v then m_ctx v else done_range first send (m_ctx v)),
                     m_first_tdi_sit := None, m_current_tdi_operation := None\<rparr>) }
          else
            and_then (GoToState (if oper = AJCWriteIR then ShiftIR else ShiftDR) v)
              (\<lambda>v. and_then (FlushTMS v)
                (\<lambda>v. and_then (if v_building v then emit_tdi send v else complete_tdi send v)
                  (\<lambda>v. Some (True,
                     v\<lparr>v_state := (v_state v)\<lparr>
                         cs_state := (if cs_state (v_state v) = ShiftIR then Exit1IR else Exit1DR),
                         last_written_single_ir := m_maybe_single_ir v\<rparr>,
                       m_first_tdi_sit := None, m_current_tdi_operation := None\<rparr>)))))"

subsection \<open>The actions\<close>

definition done_if_completing :: "nat \<Rightarrow> visitor \<Rightarrow> visit" where
  "done_if_completing i v = Some (True, if v_building v then v else v_Done i v)"

definition visit_JCForgetChainStructure :: "nat \<Rightarrow> visitor \<Rightarrow> visit" where
  "visit_JCForgetChainStructure sit v =
     and_then (FlushTDI sit v)
       (\<lambda>v. let v = (if v_building v
                      then v\<lparr>m_chain := (m_chain v)\<lparr>m_num_taps := 1,
                               m_ir_lengths := (m_ir_lengths (m_chain v))[0 := 1],
                               m_state := (m_state (m_chain v))\<lparr>selected_tap := 0\<rparr>\<rparr>\<rparr>
                      else v)
            in done_if_completing sit (v\<lparr>v_state := (v_state v)\<lparr>selected_tap := 0\<rparr>\<rparr>))"

definition visit_JCSetIRLength :: "u32 \<Rightarrow> u32 \<Rightarrow> nat \<Rightarrow> visitor \<Rightarrow> visit" where
  "visit_JCSetIRLength tap_id len sit v =
     (if g_max_ir_length < unat len
      then Some (False, v_FailAt sit (CauseIRLengthTooBig len (of_nat g_max_ir_length)) v)
      else and_then (FlushTDI sit v)
        (\<lambda>v. if g_max_num_taps \<le> unat tap_id
             then Some (False, v_FailAt sit (CauseInvalidJtagTapID tap_id (of_nat (g_max_num_taps - 1))) v)
             else
               let lens = fold (\<lambda>i ls. ls[i := 1]) [m_num_taps (m_chain v)..<unat tap_id]
                            (m_ir_lengths (m_chain v));
                   v = (if v_building v
                        then v\<lparr>m_chain := (m_chain v)\<lparr>m_num_taps := unat tap_id + 1,
                                 m_ir_lengths := lens[unat tap_id := unat len]\<rparr>\<rparr>
                        else v)
               in done_if_completing sit v))"

text \<open>The cycles spent in the state that was reached.\<close>

definition wait_there :: "u32 \<Rightarrow> nat \<Rightarrow> visitor \<Rightarrow> visit" where
  "wait_there wait_there_cycles sit v =
     (let waiting_sequence = g_waiting_sequences (cs_state (v_state v))
      in if wait_there_cycles \<noteq> 0 \<and> waiting_sequence = g_unstable
         then Some (False, v_FailAt sit
                (CauseUnstableJtagState (of_nat (JCStateID (cs_state (v_state v))))) v)
         else and_then (wait_loop waiting_sequence (unat wait_there_cycles) v)
                (done_if_completing sit))"

definition visit_JCGoToState :: "u32 \<Rightarrow> u32 \<Rightarrow> nat \<Rightarrow> visitor \<Rightarrow> visit" where
  "visit_JCGoToState st wait_there_cycles sit v =
     and_then (FlushTDI sit v)
       (\<lambda>v. if cs_state (v_state v) = Unknown then None
            else if JCStateID Unknown \<le> unat st
            then Some (False, v_FailAt sit (CauseInvalidJtagState st) v)
            else and_then (GoToState (state_of st) v) (wait_there wait_there_cycles sit))"

definition visit_JCSelectTAP :: "u32 \<Rightarrow> nat \<Rightarrow> visitor \<Rightarrow> visit" where
  "visit_JCSelectTAP tap_id sit v =
     (if m_num_taps (m_chain v) \<le> unat tap_id
      then Some (False, v_FailAt sit
             (CauseInvalidJtagTapID tap_id (of_nat (m_num_taps (m_chain v)))) v)
      else done_if_completing sit (v\<lparr>v_state := (v_state v)\<lparr>selected_tap := unat tap_id\<rparr>\<rparr>))"

text \<open>The first action of a shift.\<close>

definition start_tdi :: "action_kind \<Rightarrow> nat \<Rightarrow> visitor \<Rightarrow> visitor" where
  "start_tdi oper sit v =
     v\<lparr>m_selected_tap_on_first_tdi_sit := selected_tap (v_state v), m_first_tdi_sit := Some sit,
       m_current_tdi_operation := Some oper, m_last_tdied_tap := m_num_taps (m_chain v),
       m_total_tdi := 0\<rparr>"

text \<open>The bits of an action are added to those of the pending shift.\<close>

definition join_IR :: "u32 \<Rightarrow> nat \<Rightarrow> visitor \<Rightarrow> visit" where
  "join_IR ir_value sit v =
     (if m_num_taps (m_chain v) \<le> selected_tap (v_state v) then None
      else
        let v = (if m_current_tdi_operation v = None
                 then (start_tdi AJCWriteIR sit v)
                        \<lparr>m_maybe_single_ir := Some (selected_tap (v_state v), ir_value)\<rparr>
                 else v\<lparr>m_maybe_single_ir := None\<rparr>)
        in Some (True,
             v\<lparr>m_total_tdi :=
                 (m_total_tdi v +
                  (\<Sum>t \<leftarrow> rev [selected_tap (v_state v)..<m_last_tdied_tap v]. m_ir_lengths (m_chain v) ! t))
                 mod 2 ^ 32,
               m_last_tdied_tap := selected_tap (v_state v)\<rparr>))"

definition visit_JCWriteIR :: "u32 \<Rightarrow> nat \<Rightarrow> visitor \<Rightarrow> visit" where
  "visit_JCWriteIR ir_value sit v =
     and_then
       (if m_current_tdi_operation v \<noteq> None \<and>
           (m_current_tdi_operation v \<noteq> Some AJCWriteIR \<or>
            m_last_tdied_tap v \<le> selected_tap (v_state v))
        then FlushTDI sit v else Some (True, v))
       (join_IR ir_value sit)"

text \<open>\<open>JCWriteDR\<close> and \<open>JCShiftDR\<close> have one handler.\<close>

definition join_DR :: "action_kind \<Rightarrow> bool list \<Rightarrow> nat \<Rightarrow> visitor \<Rightarrow> visit" where
  "join_DR oper source sit v =
     (if m_num_taps (m_chain v) \<le> selected_tap (v_state v) then None
      else
        let v = (if m_current_tdi_operation v = None then start_tdi oper sit v else v)
        in Some (True,
             v\<lparr>m_total_tdi :=
                 (m_total_tdi v +
                  (if m_last_tdied_tap v \<noteq> selected_tap (v_state v)
                   then m_last_tdied_tap v - 1 - selected_tap (v_state v) else 0) +
                  length source) mod 2 ^ 32,
               m_last_tdied_tap := selected_tap (v_state v)\<rparr>))"

definition visit_DR :: "action_kind \<Rightarrow> bool list \<Rightarrow> nat \<Rightarrow> visitor \<Rightarrow> visit" where
  "visit_DR oper source sit v =
     and_then
       (if m_current_tdi_operation v \<noteq> None \<and>
           (m_current_tdi_operation v \<noteq> Some oper \<or>
            m_last_tdied_tap v < selected_tap (v_state v))
        then FlushTDI sit v else Some (True, v))
       (join_DR oper source sit)"

text \<open>\<open>Visit\<close>: an action of another driver has no handler and ends the walk.\<close>

definition visit_action :: "nat \<Rightarrow> visitor \<Rightarrow> visit" where
  "visit_action sit v =
     (case s_ins (m_ctx v) ! sit of
        Inr JCForgetChainStructure \<Rightarrow> visit_JCForgetChainStructure sit v
      | Inr (JCSetIRLength tap_id len) \<Rightarrow> visit_JCSetIRLength tap_id len sit v
      | Inr (JCGoToState st n) \<Rightarrow> visit_JCGoToState st n sit v
      | Inr (JCSelectTAP tap_id) \<Rightarrow> visit_JCSelectTAP tap_id sit v
      | Inr (JCWriteIR ir_value) \<Rightarrow> visit_JCWriteIR ir_value sit v
      | Inr (JCWriteDR source) \<Rightarrow> visit_DR AJCWriteDR source sit v
      | Inr (JCShiftDR source) \<Rightarrow> visit_DR AJCShiftDR source sit v
      | _ \<Rightarrow> Some (False, v))"

fun visit_all :: "nat list \<Rightarrow> visitor \<Rightarrow> visit" where
  "visit_all [] v = Some (True, v)"
| "visit_all (i # is) v = and_then (visit_action i v) (visit_all is)"

subsection \<open>Execute\<close>

text \<open>The walk over the incomplete actions and the two flushes behind it.\<close>

definition walk :: "nat \<Rightarrow> nat \<Rightarrow> visitor \<Rightarrow> visit" where
  "walk first send v =
     and_then (visit_all [first..<send] v)
       (\<lambda>v. and_then (FlushTDI send v) FlushTMS)"

definition translator ::
  "bool list builder \<Rightarrow> (nat \<Rightarrow> bool \<times> bool) \<Rightarrow> bool \<Rightarrow> jtag_chain \<Rightarrow> bool list status \<Rightarrow> visitor"
where
  "translator jbuilder alloc error_alloc chain tx =
     (let v = TranslatingVisitor chain tx jbuilder alloc error_alloc 0 (m_state chain)
      in if cs_state (m_state chain) = Unknown
         then (v_Add (PutTMS (replicate 5 True)) v)
                \<lparr>v_state := (m_state chain)\<lparr>cs_state := TestLogicReset\<rparr>\<rparr>
         else v)"

text \<open>\<open>Execute\<close>: \<open>jtag\<close> is \<open>Schedule\<close> of the JTAG driver together with waiting for its task. The result is
  the chain and the finished transaction. The code gives its mutex up around the wait, so that another
  transaction of the chain may be translated meanwhile; here the chain stays as it is.\<close>

definition set_unknown :: "jtag_chain \<Rightarrow> jtag_chain" where
  "set_unknown chain = chain\<lparr>m_state := (m_state chain)\<lparr>cs_state := Unknown\<rparr>\<rparr>"

definition Execute ::
  "bool list builder \<Rightarrow> (bool list builder \<Rightarrow> bool list status) \<Rightarrow> (nat \<Rightarrow> bool \<times> bool) \<Rightarrow>
     bool \<Rightarrow> jtag_chain \<Rightarrow> bool list status \<Rightarrow> (jtag_chain \<times> bool list status) option"
where
  "Execute jbuilder jtag alloc error_alloc chain tx =
     do { let begin = m_first_incomplete tx;
          let old_state = m_state chain;
          (ok, v) \<leftarrow> walk begin (status_end tx) (translator jbuilder alloc error_alloc chain tx);
          if \<not> ok then Some (m_chain v, m_ctx v)
          else do {
            let chain = (m_chain v)\<lparr>m_state := v_state v\<rparr>;
            let jstatus = jtag (m_jbuilder v);
            let reset = (cs_state old_state = Unknown);
            if reset \<and> m_first_incomplete jstatus = 0 then
              Some (set_unknown chain,
                    Fail error_alloc (CauseNestedError (m_error jstatus)) (m_ctx v))
            else do {
              let completer = CompletingVisitor chain (m_ctx v) jstatus error_alloc
                    (if reset then 1 else 0)
                    (if reset then old_state\<lparr>cs_state := TestLogicReset\<rparr> else old_state);
              (ok, c) \<leftarrow> walk begin (status_end tx) completer;
              Some (if ok then chain else set_unknown chain, m_ctx c) } } }"

subsection \<open>Invariants of a walk\<close>

definition keeps :: "(visitor \<Rightarrow> bool) \<Rightarrow> visit \<Rightarrow> bool" where
  "keeps P r = (case r of None \<Rightarrow> True | Some (_, v) \<Rightarrow> P v)"

lemma keeps_simps [simp]: "keeps P None" "keeps P (Some (ok, v)) = P v"
  by (simp_all add: keeps_def)

lemma keeps_and_then: "keeps P r \<Longrightarrow> (\<And>v. P v \<Longrightarrow> keeps P (f v)) \<Longrightarrow> keeps P (and_then r f)"
  by (cases r) (auto simp: and_then_def split: prod.splits)

lemma and_then_simps [simp]:
  "and_then None f = None" "and_then (Some (True, v)) f = f v"
  "and_then (Some (False, v)) f = Some (False, v)"
  by (simp_all add: and_then_def)

lemma and_then_SomeE:
  assumes "and_then r f = Some (ok, v')"
  obtains v where "r = Some (True, v)" "f v = Some (ok, v')" | "r = Some (False, v')" "\<not> ok"
  using assms by (auto simp: and_then_def split: option.splits if_splits)

text \<open>A property that the visitor's steps keep is kept by the whole walk.\<close>

locale walk_invariant =
  fixes P :: "visitor \<Rightarrow> bool" and n :: nat
  assumes action: "P v \<Longrightarrow> i < n \<Longrightarrow> keeps P (visit_action i v)"
    and flush_tdi: "P v \<Longrightarrow> keeps P (FlushTDI i v)"
    and flush_tms: "P v \<Longrightarrow> keeps P (FlushTMS v)"
begin

lemma visit_all_keeps: "P v \<Longrightarrow> list_all (\<lambda>i. i < n) is \<Longrightarrow> keeps P (visit_all is v)"
  by (induction "is" arbitrary: v) (auto intro!: keeps_and_then action)

lemma walk_keeps: "P v \<Longrightarrow> send \<le> n \<Longrightarrow> keeps P (walk first send v)"
  unfolding walk_def by (intro keeps_and_then visit_all_keeps flush_tdi flush_tms) (auto simp: list_all_iff)

end

subsection \<open>The TAP follows\<close>

text \<open>The values of TMS that an action of the JTAG driver clocks into the TAPs.\<close>

fun tms_of :: "action \<Rightarrow> bool list" where
  "tms_of (PutTMS bs) = bs"
| "tms_of (PutTDI bs last_tms) = (if bs = [] then [] else replicate (length bs - 1) False @ [last_tms])"
| "tms_of (PutTDIGetTDO bs last_tms) =
     (if bs = [] then [] else replicate (length bs - 1) False @ [last_tms])"
| "tms_of _ = []"

fun shifts_nothing :: "nat + action \<Rightarrow> bool" where
  "shifts_nothing (Inr (PutTDI bs l)) = (bs = [])"
| "shifts_nothing (Inr (PutTDIGetTDO bs l)) = (bs = [])"
| "shifts_nothing _ = False"

definition clocked :: "(nat + action) list \<Rightarrow> bool list" where
  "clocked as = concat (map (\<lambda>a. case a of Inl _ \<Rightarrow> [] | Inr act \<Rightarrow> tms_of act) as)"

lemma clocked_simps [simp]:
  "clocked [] = []" "clocked (as @ bs) = clocked as @ clocked bs"
  "clocked [Inr a] = tms_of a"
  by (simp_all add: clocked_def)

definition tracks :: "jc_state \<Rightarrow> visitor \<Rightarrow> bool" where
  "tracks s v \<longleftrightarrow>
     v_building v \<and> (\<forall>n. fst (v_alloc v n)) \<and> cs_state (v_state v) \<noteq> Unknown \<and>
     length (v_tms v) \<le> g_max_tms_bits \<and>
     (\<not> list_ex shifts_nothing (b_ins (m_jbuilder v)) \<longrightarrow>
      tap_walk s (clocked (b_ins (m_jbuilder v)) @ v_tms v) = cs_state (v_state v))"

lemma FlushTMS_tracks: "tracks s v \<Longrightarrow> keeps (tracks s) (FlushTMS v)"
  by (auto simp: FlushTMS_def tracks_def v_Add_def Add_def)

lemma FlushTMS_building:
  "v_building v \<Longrightarrow> FlushTMS v = Some (True, if v_tms v = [] then v else (v_Add (PutTMS (v_tms v)) v)\<lparr>v_tms := []\<rparr>)"
  by (simp add: FlushTMS_def)

lemma GoToState_tracks: "tracks s v \<Longrightarrow> keeps (tracks s) (GoToState st v)"
  by (simp add: GoToState_def Let_def tracks_def FlushTMS_building)
     (auto simp: tms_room_def transition_ok(2) v_Add_def Add_def)

lemma wait_tracks:
  assumes "tracks s v" "cs_state (v_state v) = st" "g_waiting_sequences st \<noteq> g_unstable"
  shows "keeps (tracks s) (wait_loop (g_waiting_sequences st) n v)"
  using assms(1,2)
proof (induction n arbitrary: v rule: less_induct)
  case (less n)
  let ?w = "if tms_room v = 0 then (if v_tms v = [] then v else (v_Add (PutTMS (v_tms v)) v)\<lparr>v_tms := []\<rparr>) else v"
  let ?n = "min n (tms_room ?w)"
  let ?x = "?w\<lparr>v_tms := v_tms ?w @ map (bit (g_waiting_sequences st)) [0..<?n]\<rparr>"
  have b: "v_building v" using less.prems by (simp add: tracks_def)
  then have w: "(if tms_room v = 0 then FlushTMS v else Some (True, v)) = Some (True, ?w)"
    by (simp add: FlushTMS_building)
  have tw: "tracks s ?w" using FlushTMS_tracks [OF less.prems(1)] less.prems(1) w
    by (simp add: keeps_def split: if_splits)
  have st: "cs_state (v_state ?w) = st" using less.prems by (simp add: v_Add_def)
  have room: "tms_room ?w \<le> 64" by (simp add: tms_room_def g_max_tms_bits_def)
  have "tracks s ?x"
    using tw st room waiting_stays [OF assms(3), of ?n]
    by (auto simp: tracks_def tms_room_def)
  then have "keeps (tracks s) (wait_loop (g_waiting_sequences st) (n - ?n) ?x)" if "?n \<noteq> 0"
    using that st by (intro less.IH) auto
  then show ?case
    using less.prems(1) by (subst wait_loop.simps) (auto simp: w Let_def)
qed

lemma shift_clocks:
  assumes "sh = ShiftIR \<or> sh = ShiftDR" "bs \<noteq> []"
  shows "tap_walk sh (replicate (length bs - 1) False @ [True]) =
    (if sh = ShiftIR then Exit1IR else Exit1DR)"
  using assms by (auto simp: tap_walk_replicate tap_step_def)

lemma emit_tdi_result:
  assumes "emit_tdi send v = Some (ok, v')"
  obtains bs a where "ok" "v' = v_Add a v" "a = PutTDI bs True \<or> a = PutTDIGetTDO bs True"
    "m_current_tdi_operation v = Some AJCShiftDR \<longrightarrow> a = PutTDIGetTDO bs True"
  using assms by (auto simp: emit_tdi_def Let_def split: bind_splits if_splits prod.splits)

lemma emit_tracks:
  assumes "tracks s v" "v_tms v = []" "cs_state (v_state v) = sh" "sh = ShiftIR \<or> sh = ShiftDR"
    and "emit_tdi send v = Some (ok, v')"
  shows "tracks s (v'\<lparr>v_state := (v_state v')\<lparr>
      cs_state := (if cs_state (v_state v') = ShiftIR then Exit1IR else Exit1DR),
      last_written_single_ir := m_maybe_single_ir v'\<rparr>,
    m_first_tdi_sit := None, m_current_tdi_operation := None\<rparr>)"
proof -
  from assms(5) obtain bs a where a: "v' = v_Add a v" "a = PutTDI bs True \<or> a = PutTDIGetTDO bs True"
    by (rule emit_tdi_result)
  have e: "tap_walk sh (tms_of a) = (if sh = ShiftIR then Exit1IR else Exit1DR)" if "bs \<noteq> []"
    using a(2) that shift_clocks [OF assms(4) that] by auto
  show ?thesis
    using assms(1-4) a e by (auto simp: tracks_def v_Add_def Add_def)
qed

lemma FlushTMS_result:
  assumes "FlushTMS v = Some (True, v')"
  shows "v_tms v' = []" "v_state v' = v_state v" "v_building v' = v_building v"
    "m_current_tdi_operation v' = m_current_tdi_operation v"
  using assms by (auto simp: FlushTMS_def v_Add_def split: if_splits)

lemma GoToState_result:
  assumes "GoToState st v = Some (True, v')"
  shows "cs_state (v_state v') = st" "st \<noteq> Unknown"
    "m_current_tdi_operation v' = m_current_tdi_operation v"
  using assms FlushTMS_result
  by (auto simp: GoToState_def Let_def elim!: and_then_SomeE split: if_splits)

lemma keeps_I: "(\<And>ok v. r = Some (ok, v) \<Longrightarrow> P v) \<Longrightarrow> keeps P r"
  by (auto simp: keeps_def split: option.splits)

lemma keepsD: "keeps P r \<Longrightarrow> r = Some (ok, v) \<Longrightarrow> P v"
  by simp

lemma keeps_and_thenI:
  "(\<And>v. r = Some (False, v) \<Longrightarrow> P v) \<Longrightarrow> (\<And>v. r = Some (True, v) \<Longrightarrow> keeps P (f v)) \<Longrightarrow>
   keeps P (and_then r f)"
  by (cases r) (auto simp: and_then_def split: prod.splits)

lemma FlushTDI_tracks:
  assumes "tracks s v"
  shows "keeps (tracks s) (FlushTDI send v)"
proof (cases "m_current_tdi_operation v")
  case None
  then show ?thesis using assms by (simp add: FlushTDI_def)
next
  case (Some oper)
  let ?sh = "if oper = AJCWriteIR then ShiftIR else ShiftDR"
  show ?thesis
  proof (cases "oper = AJCWriteIR \<and> m_maybe_single_ir v = last_written_single_ir (v_state v)")
    case True
    then show ?thesis using assms Some
      by (auto simp: FlushTDI_def tracks_def intro!: keeps_I split: bind_splits)
  next
    case False
    note gt = GoToState_tracks [OF assms, of ?sh]
    have fl: "tracks s w" if "GoToState ?sh v = Some (ok, v1)" "FlushTMS v1 = Some (ok', w)" for ok ok' v1 w
      using keepsD [OF FlushTMS_tracks that(2)] keepsD [OF gt that(1)] by blast
    show ?thesis
      unfolding FlushTDI_def
      using Some False
    proof (simp only: option.case if_False, intro keeps_and_thenI, goal_cases)
      case (1 w)
      then show ?case using keepsD [OF gt] by blast
    next
      case (2 v1 w)
      then show ?case using fl by blast
    next
      case (3 v1 v2 w)
      then have t2: "tracks s v2" using fl by blast
      then show ?case using 3 by (auto simp: tracks_def elim: emit_tdi_result)
    next
      case (4 v1 v2 v3)
      then have t2: "tracks s v2" using fl by blast
      moreover have "v_tms v2 = []" "cs_state (v_state v2) = ?sh"
        using 4 FlushTMS_result [of v1 v2] GoToState_result [of ?sh v v1] by auto
      moreover have "emit_tdi send v2 = Some (True, v3)"
        using 4 t2 by (simp add: tracks_def)
      ultimately show ?case using emit_tracks [of s v2 ?sh send True v3] by simp
    qed
  qed
qed

lemma tracks_updates [simp]:
  "tracks s (v_FailAt i c v) = tracks s v" "tracks s (v_Done i v) = tracks s v"
  "tracks s (m_chain_update f v) = tracks s v"
  "tracks s (m_selected_tap_on_first_tdi_sit_update g v) = tracks s v"
  "tracks s (m_first_tdi_sit_update h v) = tracks s v"
  "tracks s (m_current_tdi_operation_update k v) = tracks s v"
  "tracks s (m_last_tdied_tap_update g v) = tracks s v"
  "tracks s (m_total_tdi_update g v) = tracks s v"
  "tracks s (m_maybe_single_ir_update l v) = tracks s v"
  "tracks s (v\<lparr>v_state := (v_state v)\<lparr>selected_tap := n\<rparr>\<rparr>) = tracks s v"
  by (simp_all add: tracks_def v_FailAt_def v_Done_def)

lemma wait_tracks_any:
  assumes "tracks s v" "\<not> (n \<noteq> 0 \<and> g_waiting_sequences (cs_state (v_state v)) = g_unstable)"
  shows "keeps (tracks s) (wait_loop (g_waiting_sequences (cs_state (v_state v))) n v)"
  using assms wait_tracks [OF assms(1) refl] by (cases "n = 0") (auto simp: wait_loop.simps [of _ 0])

lemma visit_action_tracks:
  assumes "tracks s v"
  shows "keeps (tracks s) (visit_action i v)"
proof -
  have dn: "keeps (tracks s) (done_if_completing i w)" if "tracks s w" for w
    using that by (simp add: done_if_completing_def)
  have go: "keeps (tracks s) (visit_JCGoToState st n i v)" for st n
    unfolding visit_JCGoToState_def wait_there_def Let_def
    by (intro keeps_and_then FlushTDI_tracks assms)
      (auto intro!: keeps_and_then GoToState_tracks wait_tracks_any dn simp: unat_eq_zero)
  have fo: "keeps (tracks s) (visit_JCForgetChainStructure i v)"
    unfolding visit_JCForgetChainStructure_def Let_def
    by (intro keeps_and_then FlushTDI_tracks assms dn) (auto intro!: dn)
  have se: "keeps (tracks s) (visit_JCSetIRLength tap_id len i v)" for tap_id len
    unfolding visit_JCSetIRLength_def Let_def
    using assms by (auto intro!: keeps_and_then FlushTDI_tracks dn)
  have tap: "keeps (tracks s) (visit_JCSelectTAP tap_id i v)" for tap_id
    unfolding visit_JCSelectTAP_def using assms by (auto intro!: dn)
  have ir: "keeps (tracks s) (visit_JCWriteIR ir_value i v)" for ir_value
    unfolding visit_JCWriteIR_def join_IR_def Let_def
    using assms by (intro keeps_and_then) (auto simp: start_tdi_def intro: FlushTDI_tracks)
  have dr: "keeps (tracks s) (visit_DR oper source i v)" for oper source
    unfolding visit_DR_def join_DR_def Let_def
    using assms by (intro keeps_and_then) (auto simp: start_tdi_def intro: FlushTDI_tracks)
  show ?thesis
    using go fo se tap ir dr assms
    by (auto simp: visit_action_def split: sum.splits action.splits)
qed

interpretation tap_tracking: walk_invariant "tracks s" n for s n
  by unfold_locales (rule visit_action_tracks FlushTDI_tracks FlushTMS_tracks; assumption)+

lemma reset_sequence:
  "s \<noteq> Unknown \<Longrightarrow> tap_walk s (replicate 5 True) = TestLogicReset"
  by (cases s) (simp_all add: tap_step_def eval_nat_numeral)

lemma walk_tracks_tap:
  assumes "walk first send
      (translator (Initiate name text d False) (\<lambda>_. (True, out_allocated)) error_alloc chain tx) = Some (ok, v)"
    and "cs_state (m_state chain) = Unknown \<or> cs_state (m_state chain) = s" "s \<noteq> Unknown"
    and "\<not> list_ex shifts_nothing (b_ins (m_jbuilder v))"
  shows "tap_walk s (clocked (b_ins (m_jbuilder v)) @ v_tms v) = cs_state (v_state v) \<and>
    cs_state (v_state v) \<noteq> Unknown \<and> (ok \<longrightarrow> v_tms v = [])"
proof -
  let ?v = "translator (Initiate name text d False) (\<lambda>_. (True, out_allocated)) error_alloc chain tx"
  have "tracks s ?v"
    using assms(2,3)
    by (auto simp: tracks_def translator_def TranslatingVisitor_def v_Add_def Add_def Initiate_def
        Let_def g_max_tms_bits_def reset_sequence)
  from keepsD [OF tap_tracking.walk_keeps [OF this order_refl] assms(1)] have "tracks s v" .
  moreover have "v_tms v = []" if ok
    using assms(1) that unfolding walk_def by (auto elim!: and_then_SomeE dest: FlushTMS_result)
  ultimately show ?thesis using assms(4) by (simp add: tracks_def)
qed

text \<open>Property C4: the TAP is where the driver believes it to be. When a transaction is translated, the
  TMS values of the emitted actions, clocked from the state recorded by the driver (from any state at
  all when none is recorded) lead to the state recorded for the next transaction, whether
  translation succeeds or stops at an action; with the TMS bits that were not emitted yet in the
  second case. The condition is that no emitted shift is empty: it would leave the TAP in the
  shift state.\<close>

theorem translation_tracks_tap:
  assumes "walk first send
      (translator (Initiate name text d False) (\<lambda>_. (True, out_allocated)) error_alloc chain tx) = Some (ok, v)"
    and "cs_state (m_state chain) = Unknown \<or> cs_state (m_state chain) = s" "s \<noteq> Unknown"
    and "\<not> list_ex shifts_nothing (b_ins (m_jbuilder v))"
  shows "tap_walk s (clocked (b_ins (m_jbuilder v)) @ v_tms v) = cs_state (v_state v) \<and>
    cs_state (v_state v) \<noteq> Unknown \<and> (ok \<longrightarrow> v_tms v = [])"
  by (rule walk_tracks_tap [OF assms])

definition status_of :: "action list \<Rightarrow> bool list status" where
  "status_of as = StatusOf \<lparr>b_ins = map Inr as, b_outs = map (\<lambda>_. []) as, b_allocation_failure = False,
     b_dependent = extend_dependent None [] []\<rparr>"

definition sample_walk :: "action list \<Rightarrow> visit" where
  "sample_walk as = walk 0 (length as)
     (translator (Initiate ''jtag'' ''Shift bits'' None False) (\<lambda>_. (True, True)) True new_chain (status_of as))"

lemma sample_transitions:
  "g_jc_transitions TestLogicReset ShiftDR = \<lparr>bits = 2, num_bits = 4\<rparr>"
  "g_jc_transitions Exit1DR RunTestIdle = \<lparr>bits = 1, num_bits = 2\<rparr>"
  by code_simp+

lemmas visitor_defs =
  walk_def translator_def TranslatingVisitor_def new_chain_def status_of_def StatusOf_def Initiate_def
  v_Add_def Add_def visit_action_def visit_DR_def join_DR_def start_tdi_def FlushTDI_def GoToState_def FlushTMS_def
  tms_room_def g_max_tms_bits_def tms_bits_def emit_tdi_def actions_between_def tdi_tail_def
  bypass_zeros_def visit_JCGoToState_def wait_there_def state_of_def tap_states_def wait_loop.simps [of _ 0]
  done_if_completing_def

lemma sample_translation:
  "map_option (\<lambda>(ok, v). (ok, b_ins (m_jbuilder v), v_tms v, cs_state (v_state v)))
     (sample_walk [JCWriteDR [True, False, True], JCGoToState 1 0]) =
   Some (True, [Inr (PutTMS (replicate 5 True)), Inr (PutTMS [False, True, False, False]),
     Inr (PutTDI [True, False, True] True), Inr (PutTMS [True, False])], [], RunTestIdle)"
  by (simp add: sample_walk_def visitor_defs sample_transitions Let_def upt_rec)

theorem translation_tracks_tap_witness:
  "\<exists>v. sample_walk [JCWriteDR [True, False, True], JCGoToState 1 0] = Some (True, v) \<and>
     tap_walk PauseIR (clocked (b_ins (m_jbuilder v)) @ v_tms v) = RunTestIdle"
proof -
  obtain v where v: "sample_walk [JCWriteDR [True, False, True], JCGoToState 1 0] = Some (True, v)"
    "b_ins (m_jbuilder v) = [Inr (PutTMS (replicate 5 True)), Inr (PutTMS [False, True, False, False]),
       Inr (PutTDI [True, False, True] True), Inr (PutTMS [True, False])]"
    "cs_state (v_state v) = RunTestIdle"
    using sample_translation by auto
  from translation_tracks_tap [OF v(1) [unfolded sample_walk_def], of PauseIR] v show ?thesis
    by (auto simp: new_chain_def)
qed

end
