(* ===== verification/Jtag_Completion.thy ===== *)
theory Jtag_Completion
  imports Jtag_Chain "HOL-Library.Sublist"
begin

text \<open>
  The second walk of \<open>JtagChainImpl::Execute\<close> (\<open>driver/jtag/JtagChain.cpp\<close>): the completing visitor
  goes through the transaction in step with what the translating visitor did, so that it meets
  every JTAG action at the place for which it was emitted, and completes the transaction. Then the
  data of single shifts: which bits go out, and which captured bits come back.
\<close>

subsection \<open>Completion\<close>

text \<open>While a transaction without structural actions is translated, the chain and the transaction stay
  as they are and the builder only grows.\<close>

fun structural :: "nat + action \<Rightarrow> bool" where
  "structural (Inr JCForgetChainStructure) = True"
| "structural (Inr (JCSetIRLength t l)) = True"
| "structural _ = False"

definition only_grows :: "(nat + action) list \<Rightarrow> jtag_chain \<Rightarrow> bool list status \<Rightarrow> visitor \<Rightarrow> bool" where
  "only_grows acts c tx v \<longleftrightarrow>
     v_building v \<and> m_chain v = c \<and> s_ins (m_ctx v) = s_ins tx \<and>
     m_first_incomplete (m_ctx v) = m_first_incomplete tx \<and>
     s_allocation_failure (m_ctx v) = s_allocation_failure tx \<and>
     (\<forall>n. fst (v_alloc v n)) \<and> prefix acts (b_ins (m_jbuilder v)) \<and>
     \<not> list_ex structural (s_ins tx)"

lemma only_grows_updates [simp]:
  "only_grows acts c tx (v_FailAt i cs v) = only_grows acts c tx v"
  "only_grows acts c tx (m_selected_tap_on_first_tdi_sit_update g v) = only_grows acts c tx v"
  "only_grows acts c tx (m_first_tdi_sit_update h v) = only_grows acts c tx v"
  "only_grows acts c tx (m_current_tdi_operation_update k v) = only_grows acts c tx v"
  "only_grows acts c tx (m_last_tdied_tap_update g v) = only_grows acts c tx v"
  "only_grows acts c tx (m_total_tdi_update g v) = only_grows acts c tx v"
  "only_grows acts c tx (m_maybe_single_ir_update l v) = only_grows acts c tx v"
  "only_grows acts c tx (v_state_update f v) = only_grows acts c tx v"
  "only_grows acts c tx (v_tms_update e v) = only_grows acts c tx v"
  by (simp_all add: only_grows_def v_FailAt_def FailAt_def FailImpl_def)

lemma v_Add_grows: "only_grows acts c tx v \<Longrightarrow> only_grows acts c tx (v_Add a v)"
  by (auto simp: only_grows_def v_Add_def Add_def intro: prefix_prefix)

lemma FlushTMS_grows: "only_grows acts c tx v \<Longrightarrow> keeps (only_grows acts c tx) (FlushTMS v)"
  by (simp add: FlushTMS_building only_grows_def) (auto simp: v_Add_def Add_def intro: prefix_prefix)

lemma GoToState_grows: "only_grows acts c tx v \<Longrightarrow> keeps (only_grows acts c tx) (GoToState st v)"
  unfolding GoToState_def Let_def by (auto intro!: keeps_and_then FlushTMS_grows)

lemma wait_keeps:
  assumes "\<And>v. P v \<Longrightarrow> keeps P (FlushTMS v)" "\<And>v x. P v \<Longrightarrow> P (v\<lparr>v_tms := x\<rparr>)" "P v"
  shows "keeps P (wait_loop w n v)"
  using assms(3)
proof (induction n arbitrary: v rule: less_induct)
  case (less n)
  have "keeps P (if tms_room v = 0 then FlushTMS v else Some (True, v))"
    using less.prems assms(1) by auto
  then show ?case
    using less.prems less.IH assms(2)
    by (subst wait_loop.simps) (auto simp: Let_def split: option.splits prod.splits bool.splits)
qed

lemma wait_grows: "only_grows acts c tx v \<Longrightarrow> keeps (only_grows acts c tx) (wait_loop w n v)"
  by (rule wait_keeps) (simp_all add: FlushTMS_grows)

lemma emit_grows: "only_grows acts c tx v \<Longrightarrow> keeps (only_grows acts c tx) (emit_tdi send v)"
  by (auto intro!: keeps_I elim!: emit_tdi_result v_Add_grows)

lemma FlushTDI_grows: "only_grows acts c tx v \<Longrightarrow> keeps (only_grows acts c tx) (FlushTDI send v)"
proof -
  assume v: "only_grows acts c tx v"
  have em: "keeps (only_grows acts c tx) (if v_building w then emit_tdi send w else complete_tdi send w)"
    if "only_grows acts c tx w" for w
    using that emit_grows [OF that] by (simp add: only_grows_def)
  have sk: "keeps (only_grows acts c tx) (do { first \<leftarrow> m_first_tdi_sit v;
      Some (True, v\<lparr>m_ctx := (if v_building v then m_ctx v else done_range first send (m_ctx v)),
        m_first_tdi_sit := None, m_current_tdi_operation := None\<rparr>) })"
    using v by (auto intro!: keeps_I split: bind_splits simp: only_grows_def)
  show ?thesis
    unfolding FlushTDI_def
    using v sk
    by (auto split: option.split intro!: keeps_and_then GoToState_grows FlushTMS_grows em)
qed

lemma visit_action_grows:
  assumes "only_grows acts c tx v" "i < length (s_ins tx)"
  shows "keeps (only_grows acts c tx) (visit_action i v)"
proof -
  have dn: "keeps (only_grows acts c tx) (done_if_completing i w)" if "only_grows acts c tx w" for w
    using that by (simp add: done_if_completing_def only_grows_def)
  have go: "keeps (only_grows acts c tx) (visit_JCGoToState st n i v)" for st n
    unfolding visit_JCGoToState_def wait_there_def Let_def
    by (intro keeps_and_then FlushTDI_grows assms)
      (auto intro!: keeps_and_then GoToState_grows wait_grows dn)
  have tap: "keeps (only_grows acts c tx) (visit_JCSelectTAP tap_id i v)" for tap_id
    unfolding visit_JCSelectTAP_def using assms by (auto intro!: dn)
  have ir: "keeps (only_grows acts c tx) (visit_JCWriteIR ir_value i v)" for ir_value
    unfolding visit_JCWriteIR_def join_IR_def Let_def
    using assms by (intro keeps_and_then) (auto simp: start_tdi_def intro: FlushTDI_grows)
  have dr: "keeps (only_grows acts c tx) (visit_DR oper source i v)" for oper source
    unfolding visit_DR_def join_DR_def Let_def
    using assms by (intro keeps_and_then) (auto simp: start_tdi_def intro: FlushTDI_grows)
  have "\<not> structural (s_ins tx ! i)" using assms by (auto simp: only_grows_def list_ex_iff)
  then show ?thesis
    using go tap ir dr assms
    by (auto simp: visit_action_def only_grows_def [of acts c tx v] split: sum.splits action.splits)
qed

interpretation growing: walk_invariant "only_grows acts c tx" "length (s_ins tx)" for acts c tx
  by unfold_locales (rule visit_action_grows FlushTDI_grows FlushTMS_grows; assumption)+

text \<open>The completing visitor in step with the translating one: \<open>k\<close> is the next action, \<open>js\<close> is the
  JTAG transaction as it was finally scheduled and executed.\<close>

definition pending :: "nat \<Rightarrow> action_kind option \<Rightarrow> nat option \<Rightarrow> bool list status \<Rightarrow> bool" where
  "pending k oper first ctx \<longleftrightarrow>
     (case oper of
        None \<Rightarrow> m_first_incomplete ctx = k
      | Some ac \<Rightarrow>
          \<exists>f < k. first = Some f \<and>
            (\<forall>i \<in> {f..<k}. \<exists>a. s_ins ctx ! i = Inr a \<and> kind a \<in> {ac, AJCSelectTAP}))"

definition in_step :: "(nat + action) list \<Rightarrow> nat \<Rightarrow> visitor \<Rightarrow> visitor \<Rightarrow> bool" where
  "in_step js k t c \<longleftrightarrow>
     v_building t \<and> (\<forall>n. fst (v_alloc t n)) \<and> \<not> v_building c \<and>
     v_state c = v_state t \<and> v_tms c = v_tms t \<and>
     m_selected_tap_on_first_tdi_sit c = m_selected_tap_on_first_tdi_sit t \<and>
     m_first_tdi_sit c = m_first_tdi_sit t \<and>
     m_current_tdi_operation c = m_current_tdi_operation t \<and>
     m_last_tdied_tap c = m_last_tdied_tap t \<and> m_maybe_single_ir c = m_maybe_single_ir t \<and>
     m_num_taps (m_chain c) = m_num_taps (m_chain t) \<and>
     s_ins (m_ctx c) = s_ins (m_ctx t) \<and> list_all (\<lambda>a. \<not> isl a) (s_ins (m_ctx c)) \<and>
     k \<le> length (s_ins (m_ctx c)) \<and>
     s_ins (m_jstatus c) = js \<and> m_jend c \<le> length js \<and> m_jit c \<le> m_jend c \<and>
     m_jit c = length (b_ins (m_jbuilder t)) \<and>
     \<not> list_ex structural (s_ins (m_ctx c)) \<and>
     pending k (m_current_tdi_operation c) (m_first_tdi_sit c) (m_ctx c)"

abbreviation emitted :: "visitor \<Rightarrow> (nat + action) list" where
  "emitted v \<equiv> b_ins (m_jbuilder v)"

text \<open>What a step of the completing visitor has to do when the translating one has done it: the same,
  or stop, and then the JTAG transaction was not executed to its end.\<close>

definition stops :: "(nat + action) list \<Rightarrow> visit \<Rightarrow> bool" where
  "stops js r \<longleftrightarrow> (\<exists>c'. r = Some (False, c') \<and> m_jend c' < length js)"

definition matches :: "(nat + action) list \<Rightarrow> nat \<Rightarrow> visit \<Rightarrow> visitor \<Rightarrow> bool" where
  "matches js k r t' \<longleftrightarrow> (\<exists>c'. r = Some (True, c') \<and> in_step js k t' c') \<or> stops js r"

lemma matches_True [intro]: "in_step js k t' c' \<Longrightarrow> matches js k (Some (True, c')) t'"
  by (auto simp: matches_def)

lemma stops_and_then [simp]: "stops js r \<Longrightarrow> stops js (and_then r f)"
  by (auto simp: stops_def)

lemma stops_matches [simp]: "stops js r \<Longrightarrow> matches js k r t'"
  by (simp add: matches_def)

lemma matchesE:
  assumes "matches js k r t'"
  obtains c' where "r = Some (True, c')" "in_step js k t' c'" | "stops js r"
  using assms by (auto simp: matches_def)

lemma matches_and_then:
  assumes "matches js k r t1" "\<And>c1. in_step js k t1 c1 \<Longrightarrow> matches js k' (f c1) t2"
  shows "matches js k' (and_then r f) t2"
  using assms by (auto elim!: matchesE)

lemma in_step_tms: "in_step js k t c \<Longrightarrow> in_step js k (t\<lparr>v_tms := x\<rparr>) (c\<lparr>v_tms := x\<rparr>)"
  by (auto simp: in_step_def m_jend_def)

lemma in_step_state: "in_step js k t c \<Longrightarrow> in_step js k (t\<lparr>v_state := x\<rparr>) (c\<lparr>v_state := x\<rparr>)"
  by (auto simp: in_step_def m_jend_def)

lemma in_step_emit:
  "in_step js k t c \<Longrightarrow> m_jit c \<noteq> m_jend c \<Longrightarrow> in_step js k (v_Add a t) (c\<lparr>m_jit := Suc (m_jit c)\<rparr>)"
  by (auto simp: in_step_def m_jend_def v_Add_def Add_def)

lemma in_step_same:
  "in_step js k t c \<Longrightarrow> v_state c = v_state t \<and> v_tms c = v_tms t \<and> tms_room c = tms_room t \<and>
     m_current_tdi_operation c = m_current_tdi_operation t \<and> m_first_tdi_sit c = m_first_tdi_sit t \<and>
     m_maybe_single_ir c = m_maybe_single_ir t \<and> m_last_tdied_tap c = m_last_tdied_tap t \<and>
     m_num_taps (m_chain c) = m_num_taps (m_chain t) \<and> s_ins (m_ctx c) = s_ins (m_ctx t) \<and>
     m_selected_tap_on_first_tdi_sit c = m_selected_tap_on_first_tdi_sit t \<and>
     v_building t \<and> \<not> v_building c"
  by (simp add: in_step_def tms_room_def)

lemma in_step_grows: "in_step js k t c \<Longrightarrow> only_grows (emitted t) (m_chain t) (m_ctx t) t"
  by (auto simp: in_step_def only_grows_def)

lemma v_FailNested_jend [simp]: "m_jend (v_FailNested c) = m_jend c"
  by (simp add: v_FailNested_def m_jend_def)

lemma FlushTMS_in_step:
  assumes "in_step js k t c" "FlushTMS t = Some (True, t')" "prefix (emitted t') js"
  shows "matches js k (FlushTMS c) t'"
proof (cases "v_tms t = []")
  case True
  then show ?thesis using assms in_step_same [OF assms(1)] by (auto simp: FlushTMS_def)
next
  case False
  have t': "t' = (v_Add (PutTMS (v_tms t)) t)\<lparr>v_tms := []\<rparr>"
    using assms(1,2) False by (simp add: in_step_def FlushTMS_building)
  have "emitted t' = emitted t @ [Inr (PutTMS (v_tms t))]"
    using assms(1) by (simp add: t' v_Add_def Add_def in_step_def)
  then have "m_jit c < length js"
    using assms(1,3) by (auto dest!: prefix_length_le simp: in_step_def)
  then show ?thesis
    using in_step_same [OF assms(1)] False in_step_tms [OF in_step_emit [OF assms(1)]]
    by (auto simp: FlushTMS_def t' matches_def stops_def)
qed

lemma GoToState_in_step:
  assumes "in_step js k t c" "GoToState st t = Some (True, t')" "prefix (emitted t') js"
  shows "matches js k (GoToState st c) t'"
proof -
  note same = in_step_same [OF assms(1)]
  let ?n = "unat (num_bits (g_jc_transitions (cs_state (v_state t)) st))"
  obtain t1 where t1: "(if tms_room t < ?n then FlushTMS t else Some (True, t)) = Some (True, t1)"
    "?n \<le> tms_room t1"
    "t' = t1\<lparr>v_tms := v_tms t1 @ tms_bits (g_jc_transitions (cs_state (v_state t)) st),
             v_state := (v_state t1)\<lparr>cs_state := st\<rparr>\<rparr>"
    "cs_state (v_state t) \<noteq> Unknown" "st \<noteq> Unknown"
    using assms(2) by (auto simp: GoToState_def Let_def elim!: and_then_SomeE split: if_splits)
  have "emitted t1 = emitted t'" by (simp add: t1(3))
  then have m: "matches js k (if tms_room c < ?n then FlushTMS c else Some (True, c)) t1"
    using t1(1) assms(1,3) FlushTMS_in_step [OF assms(1), of t1] same
    by (auto split: if_splits)
  have "matches js k (if ?n \<le> tms_room c1 then Some (True, c1\<lparr>v_tms := v_tms c1 @
      tms_bits (g_jc_transitions (cs_state (v_state t)) st),
      v_state := (v_state c1)\<lparr>cs_state := st\<rparr>\<rparr>) else None) t'"
    if c1: "in_step js k t1 c1" for c1
    using in_step_same [OF c1] in_step_state [OF in_step_tms [OF c1]] t1(2)
    by (auto simp: t1(3))
  from matches_and_then [OF m this] show ?thesis
    using same t1(4,5) by (simp add: GoToState_def Let_def)
qed

lemma wait_in_step:
  assumes "in_step js k t c" "wait_loop w n t = Some (True, t')" "prefix (emitted t') js"
  shows "matches js k (wait_loop w n c) t'"
  using assms(1,2)
proof (induction n arbitrary: t c rule: less_induct)
  case (less n)
  note same = in_step_same [OF less.prems(1)]
  show ?case
  proof (cases "n = 0")
    case True
    then show ?thesis using less.prems by (auto simp: wait_loop.simps [of _ 0])
  next
    case False
    let ?next = "\<lambda>u. u\<lparr>v_tms := v_tms u @ map (bit w) [0..<min n (tms_room u)]\<rparr>"
    obtain t1 where t1: "(if tms_room t = 0 then FlushTMS t else Some (True, t)) = Some (True, t1)"
      "min n (tms_room t1) \<noteq> 0"
      "wait_loop w (n - min n (tms_room t1)) (?next t1) = Some (True, t')"
      using less.prems(2) False
      by (subst (asm) wait_loop.simps) (auto simp: Let_def split: option.splits bool.splits if_splits)
    let ?m = "min n (tms_room t1)"
    have g1: "only_grows (emitted t) (m_chain t) (m_ctx t) t1"
      using t1(1) in_step_grows [OF less.prems(1)] keepsD [OF FlushTMS_grows]
      by (auto split: if_splits)
    then have "only_grows (emitted t1) (m_chain t) (m_ctx t) t1" by (simp add: only_grows_def)
    then have "only_grows (emitted t1) (m_chain t) (m_ctx t) t'"
      using keepsD [OF wait_grows t1(3)] by simp
    then have "prefix (emitted t1) js"
      using assms(3) by (auto simp: only_grows_def dest: prefix_order.trans)
    then have m: "matches js k (if tms_room c = 0 then FlushTMS c else Some (True, c)) t1"
      using t1(1) less.prems(1) FlushTMS_in_step [OF less.prems(1), of t1] same
      by (auto split: if_splits)
    have loop: "wait_loop w n c = and_then (if tms_room c = 0 then FlushTMS c else Some (True, c))
        (\<lambda>u. if min n (tms_room u) = 0 then None else wait_loop w (n - min n (tms_room u)) (?next u))"
      using False by (subst wait_loop.simps) (auto simp: and_then_def Let_def split: option.splits bool.splits)
    have "matches js k (wait_loop w (n - ?m) (?next c1)) t'" if c1: "in_step js k t1 c1" for c1
      using in_step_same [OF c1] t1 False in_step_tms [OF c1, of "v_tms t1 @ map (bit w) [0..<?m]"]
      by (intro less.IH [of _ "?next t1"]) auto
    then show ?thesis
      unfolding loop using t1(2) in_step_same
      by (intro matches_and_then [OF m]) (auto simp: min_def split: if_splits)
  qed
qed

lemma Done_simps [simp]:
  "s_ins (Done i s) = s_ins s" "s_outs (Done i s) = s_outs s"
  "s_allocation_failure (Done i s) = s_allocation_failure s"
  "i < length (s_ins s) \<Longrightarrow> \<not> isl (s_ins s ! i) \<Longrightarrow> m_first_incomplete (Done i s) = Suc i"
  by (simp_all add: Done_def next_position_def)

lemma done_range_result:
  assumes "f < k" "k \<le> length (s_ins s)" "list_all (\<lambda>a. \<not> isl a) (s_ins s)"
  shows "s_ins (done_range f k s) = s_ins s" "m_first_incomplete (done_range f k s) = k"
    "s_allocation_failure (done_range f k s) = s_allocation_failure s"
proof -
  have ins: "s_ins (fold Done js s) = s_ins s \<and>
      s_allocation_failure (fold Done js s) = s_allocation_failure s" for js
    by (induction js arbitrary: s) simp_all
  obtain m where m: "k = Suc m" "f \<le> m" using assms(1) by (cases k) auto
  show "s_ins (done_range f k s) = s_ins s" "m_first_incomplete (done_range f k s) = k"
    "s_allocation_failure (done_range f k s) = s_allocation_failure s"
    using assms(2,3) m by (simp_all add: done_range_def ins list_all_length)
qed

lemma tdo_loop_result:
  assumes "\<forall>i \<in> set is. i < length (s_ins ctx) \<and>
      (\<exists>a. s_ins ctx ! i = Inr a \<and> kind a \<in> {ac, AJCSelectTAP})"
    and "ac = AJCShiftDR \<longrightarrow> tdo \<noteq> None"
  shows "\<exists>ctx'. tdo_loop is sel lst tdo ctx = Some ctx' \<and> s_ins ctx' = s_ins ctx \<and>
    s_allocation_failure ctx' = s_allocation_failure ctx \<and>
    (is \<noteq> [] \<longrightarrow> m_first_incomplete ctx' = Suc (last is))"
  using assms
proof (induction "is" arbitrary: sel lst tdo ctx)
  case Nil
  then show ?case by simp
next
  case (Cons i "is")
  let ?ok = "\<lambda>r c. \<exists>ctx'. r = Some ctx' \<and> s_ins ctx' = s_ins c \<and>
    s_allocation_failure ctx' = s_allocation_failure c \<and> m_first_incomplete ctx' = Suc (last (i # is))"
  obtain a where a: "s_ins ctx ! i = Inr a" "kind a \<in> {ac, AJCSelectTAP}" "i < length (s_ins ctx)"
    using Cons.prems(1) by auto
  have step: "?ok (tdo_loop is sel' lst' tdo' (Done i c)) ctx"
    if "s_ins c = s_ins ctx" "s_allocation_failure c = s_allocation_failure ctx"
      "ac = AJCShiftDR \<longrightarrow> tdo' \<noteq> None" for sel' lst' tdo' c
    using Cons.IH [of "Done i c" tdo' sel' lst'] Cons.prems(1) that a by (cases "is = []") auto
  have "?ok (tdo_loop (i # is) sel lst tdo ctx) ctx"
    using a(1,2) Cons.prems(2)
    by (cases a) (auto simp del: last.simps simp: Let_def intro!: step)
  then show ?case by simp
qed

lemma complete_in_step:
  assumes "in_step js k t c" "m_current_tdi_operation t \<noteq> None"
    and "emit_tdi k t = Some (True, t')" "prefix (emitted t') js"
  shows "stops js (complete_tdi k c) \<or> m_jit c < m_jend c \<and>
    (\<exists>ctx. complete_tdi k c = Some (True, c\<lparr>m_jit := Suc (m_jit c), m_ctx := ctx\<rparr>) \<and>
      s_ins ctx = s_ins (m_ctx c) \<and> m_first_incomplete ctx = k)"
proof -
  obtain bs a where a: "t' = v_Add a t" "m_current_tdi_operation t = Some AJCShiftDR \<longrightarrow> a = PutTDIGetTDO bs True"
    using assms(3) by (rule emit_tdi_result) auto
  have "emitted t' = emitted t @ [Inr a]"
    using assms(1) by (simp add: a(1) v_Add_def Add_def in_step_def)
  then have lt: "m_jit c < length js" and nth: "js ! m_jit c = Inr a"
    using assms(1,4) by (auto simp: in_step_def prefix_def)
  obtain ac f where pend: "m_current_tdi_operation c = Some ac" "m_first_tdi_sit c = Some f" "f < k"
    "\<forall>i \<in> {f..<k}. \<exists>b. s_ins (m_ctx c) ! i = Inr b \<and> kind b \<in> {ac, AJCSelectTAP}"
  proof -
    have "pending k (m_current_tdi_operation c) (m_first_tdi_sit c) (m_ctx c)"
      "m_current_tdi_operation c \<noteq> None"
      using assms(1,2) by (auto simp: in_step_def)
    then show ?thesis using that by (auto simp: pending_def)
  qed
  let ?tdo = "case js ! m_jit c of Inr (PutTDIGetTDO bs l) \<Rightarrow> Some (s_outs (m_jstatus c) ! m_jit c) | _ \<Rightarrow> None"
  have "ac = AJCShiftDR \<longrightarrow> ?tdo \<noteq> None"
    using a(2) nth pend(1) in_step_same [OF assms(1)] by auto
  moreover have "\<forall>i \<in> set [f..<k]. i < length (s_ins (m_ctx c)) \<and>
      (\<exists>a. s_ins (m_ctx c) ! i = Inr a \<and> kind a \<in> {ac, AJCSelectTAP})"
    using assms(1) pend(4) by (auto simp: in_step_def)
  ultimately obtain ctx where "tdo_loop [f..<k] (m_selected_tap_on_first_tdi_sit c)
      (m_num_taps (m_chain c)) ?tdo (m_ctx c) = Some ctx" "s_ins ctx = s_ins (m_ctx c)"
    "m_first_incomplete ctx = Suc (last [f..<k])"
    using tdo_loop_result [of "[f..<k]" "m_ctx c" ac ?tdo] pend(3) by fastforce
  moreover have js: "m_jit c \<le> m_jend c" "s_ins (m_jstatus c) = js"
    using assms(1) by (auto simp: in_step_def)
  moreover have "stops js (complete_tdi k c)" if "m_jit c = m_jend c"
    using that pend(2) lt by (auto simp: complete_tdi_def stops_def v_FailNested_def m_jend_def)
  ultimately show ?thesis
    using pend(2,3) by (cases "m_jit c = m_jend c") (auto simp: complete_tdi_def Let_def)
qed

text \<open>The end of \<open>FlushTDI\<close>.\<close>

definition end_tdi :: "visitor \<Rightarrow> visitor" where
  "end_tdi v = v\<lparr>v_state := (v_state v)\<lparr>
       cs_state := (if cs_state (v_state v) = ShiftIR then Exit1IR else Exit1DR),
       last_written_single_ir := m_maybe_single_ir v\<rparr>,
     m_first_tdi_sit := None, m_current_tdi_operation := None\<rparr>"

definition shift_tdi :: "action_kind \<Rightarrow> nat \<Rightarrow> visitor \<Rightarrow> visit" where
  "shift_tdi oper send v =
     and_then (GoToState (if oper = AJCWriteIR then ShiftIR else ShiftDR) v)
       (\<lambda>v. and_then (FlushTMS v)
         (\<lambda>v. and_then (if v_building v then emit_tdi send v else complete_tdi send v)
           (\<lambda>v. Some (True, end_tdi v))))"

lemma FlushTDI_shift:
  "FlushTDI send v =
     (case m_current_tdi_operation v of
        None \<Rightarrow> Some (True, v)
      | Some oper \<Rightarrow>
          if oper = AJCWriteIR \<and> m_maybe_single_ir v = last_written_single_ir (v_state v) then
            do { first \<leftarrow> m_first_tdi_sit v;
                 Some (True,
                   v\<lparr>m_ctx := (if v_building v then m_ctx v else done_range first send (m_ctx v)),
                     m_first_tdi_sit := None, m_current_tdi_operation := None\<rparr>) }
          else shift_tdi oper send v)"
  by (simp only: FlushTDI_def shift_tdi_def end_tdi_def)

lemma FlushTDI_ends: "FlushTDI send v = Some (True, v') \<Longrightarrow> m_current_tdi_operation v' = None"
  by (auto simp: FlushTDI_shift shift_tdi_def end_tdi_def elim!: and_then_SomeE
      split: option.splits if_splits bind_splits)

lemma shift_in_step:
  assumes "in_step js k t c" "m_current_tdi_operation t = Some oper"
    and "shift_tdi oper k t = Some (True, t')" "prefix (emitted t') js"
  shows "matches js k (shift_tdi oper k c) t' \<and> m_current_tdi_operation t' = None"
proof -
  let ?sh = "if oper = AJCWriteIR then ShiftIR else ShiftDR"
  obtain t1 t2 t3 where ts: "GoToState ?sh t = Some (True, t1)" "FlushTMS t1 = Some (True, t2)"
    "(if v_building t2 then emit_tdi k t2 else complete_tdi k t2) = Some (True, t3)" "t' = end_tdi t3"
    using assms(3) unfolding shift_tdi_def by (auto elim!: and_then_SomeE)
  have g1: "only_grows (emitted t1) (m_chain t) (m_ctx t) t1"
    using keepsD [OF GoToState_grows [OF in_step_grows [OF assms(1)]] ts(1)] by (simp add: only_grows_def)
  have g2: "only_grows (emitted t1) (m_chain t) (m_ctx t) t2"
    by (rule keepsD [OF FlushTMS_grows [OF g1] ts(2)])
  then have "only_grows (emitted t2) (m_chain t) (m_ctx t) t2" and em: "emit_tdi k t2 = Some (True, t3)"
    using ts(3) by (simp_all add: only_grows_def)
  then have g3: "only_grows (emitted t2) (m_chain t) (m_ctx t) t3" using keepsD [OF emit_grows] by blast
  have "emitted t' = emitted t3" by (simp add: ts(4) end_tdi_def)
  then have pre: "prefix (emitted t1) js" "prefix (emitted t2) js" "prefix (emitted t3) js"
    using g2 g3 assms(4) by (auto simp: only_grows_def dest: prefix_order.trans)
  have op: "m_current_tdi_operation t2 \<noteq> None"
    using FlushTMS_result(4) [OF ts(2)] GoToState_result(3) [OF ts(1)] assms(2) by simp
  have em': "\<exists>a. t3 = v_Add a t2" using em by (auto elim: emit_tdi_result)
  have "matches js k (and_then (if v_building c2 then emit_tdi k c2 else complete_tdi k c2)
      (\<lambda>v. Some (True, end_tdi v))) t'" if c2: "in_step js k t2 c2" for c2
  proof (cases "stops js (complete_tdi k c2)")
    case True
    then show ?thesis using in_step_same [OF c2] by simp
  next
    case False
    from complete_in_step [OF c2 op em pre(3)] False
    obtain ctx where ctx: "complete_tdi k c2 = Some (True, c2\<lparr>m_jit := Suc (m_jit c2), m_ctx := ctx\<rparr>)"
      "s_ins ctx = s_ins (m_ctx c2)" "m_first_incomplete ctx = k" "m_jit c2 < m_jend c2" by auto
    have "in_step js k (end_tdi t3) (end_tdi (c2\<lparr>m_jit := Suc (m_jit c2), m_ctx := ctx\<rparr>))"
      using c2 ctx(2-4) em'
      by (auto simp: end_tdi_def in_step_def m_jend_def pending_def v_Add_def Add_def)
    then show ?thesis using ctx(1) in_step_same [OF c2] by (auto simp: ts(4))
  qed
  then have "matches js k (shift_tdi oper k c) t'"
    unfolding shift_tdi_def
    by (intro matches_and_then [OF GoToState_in_step [OF assms(1) ts(1) pre(1)]]
        matches_and_then [OF FlushTMS_in_step [OF _ ts(2) pre(2)]])
  then show ?thesis by (simp add: ts(4) end_tdi_def)
qed

lemma skip_in_step:
  assumes "in_step js k t c" "m_current_tdi_operation t = Some oper"
    and "m_first_tdi_sit t = Some f"
  shows "in_step js k (t\<lparr>m_first_tdi_sit := None, m_current_tdi_operation := None\<rparr>)
    (c\<lparr>m_ctx := done_range f k (m_ctx c), m_first_tdi_sit := None, m_current_tdi_operation := None\<rparr>)"
proof -
  have "pending k (m_current_tdi_operation c) (m_first_tdi_sit c) (m_ctx c)" "m_first_tdi_sit c = Some f"
    "m_current_tdi_operation c = Some oper"
    using assms by (auto simp: in_step_def)
  then have "f < k" by (auto simp: pending_def)
  from done_range_result [OF this, of "m_ctx c"] show ?thesis
    using assms by (auto simp: in_step_def m_jend_def pending_def)
qed

lemma FlushTDI_in_step:
  assumes "in_step js k t c" "FlushTDI k t = Some (True, t')" "prefix (emitted t') js"
  shows "matches js k (FlushTDI k c) t' \<and> m_current_tdi_operation t' = None"
proof (cases "m_current_tdi_operation t")
  case None
  then show ?thesis using assms in_step_same [OF assms(1)] by (simp add: FlushTDI_def matches_def)
next
  case (Some oper)
  note same = in_step_same [OF assms(1)]
  show ?thesis
  proof (cases "oper = AJCWriteIR \<and> m_maybe_single_ir t = last_written_single_ir (v_state t)")
    case True
    then obtain f where f: "m_first_tdi_sit t = Some f"
      "t' = t\<lparr>m_first_tdi_sit := None, m_current_tdi_operation := None\<rparr>"
      using assms(2) Some same by (auto simp: FlushTDI_def split: bind_splits)
    then show ?thesis
      using Some True same skip_in_step [OF assms(1) Some f(1)]
      by (simp add: FlushTDI_def matches_def)
  next
    case False
    then have "shift_tdi oper k t = Some (True, t')" "FlushTDI k c = shift_tdi oper k c"
      using assms(2) Some same by (auto simp: FlushTDI_shift)
    then show ?thesis using shift_in_step [OF assms(1) Some _ assms(3)] by simp
  qed
qed

lemma in_step_valid:
  "in_step js k t c \<Longrightarrow> k < length (s_ins (m_ctx t)) \<Longrightarrow> \<not> isl (s_ins (m_ctx t) ! k)"
  by (auto simp: in_step_def list_all_length)

lemma done_in_step:
  assumes "in_step js k t c" "k < length (s_ins (m_ctx t))"
    and "m_current_tdi_operation t = None \<or> (\<exists>tap. s_ins (m_ctx t) ! k = Inr (JCSelectTAP tap))"
  shows "in_step js (Suc k) t (v_Done k c)"
proof -
  have "pending k (m_current_tdi_operation t) (m_first_tdi_sit t) (m_ctx c)"
    "s_ins (m_ctx c) = s_ins (m_ctx t)"
    using assms(1) by (auto simp: in_step_def)
  then have "pending (Suc k) (m_current_tdi_operation t) (m_first_tdi_sit t) (Done k (m_ctx c))"
    using assms(2,3) in_step_valid [OF assms(1,2)]
    by (auto simp: pending_def less_Suc_eq split: option.splits)
  then show ?thesis
    using assms(1,2) by (auto simp: in_step_def v_Done_def m_jend_def)
qed

text \<open>Growth from one step to the next, from any state that is in step.\<close>

lemma grows_prefix:
  assumes "in_step js k t c" "\<And>acts ch tx v. only_grows acts ch tx v \<Longrightarrow> keeps (only_grows acts ch tx) (f v)"
    and "f t = Some (ok, t')"
  shows "prefix (emitted t) (emitted t')" "v_building t'"
  using keepsD [OF assms(2) [OF in_step_grows [OF assms(1)]] assms(3)] by (auto simp: only_grows_def)

lemma sim_and_then:
  assumes "and_then rt g = Some (True, t')" "prefix (emitted t') js"
    and "\<And>t1. rt = Some (True, t1) \<Longrightarrow> prefix (emitted t1) js \<Longrightarrow> matches js k rc t1"
    and "\<And>t1. rt = Some (True, t1) \<Longrightarrow> g t1 = Some (True, t') \<Longrightarrow> prefix (emitted t1) (emitted t')"
    and "\<And>t1 c1. rt = Some (True, t1) \<Longrightarrow> in_step js k t1 c1 \<Longrightarrow> g t1 = Some (True, t') \<Longrightarrow>
      matches js k' (g' c1) t'"
  shows "matches js k' (and_then rc g') t'"
proof -
  obtain t1 where t1: "rt = Some (True, t1)" "g t1 = Some (True, t')"
    using assms(1) by (auto elim: and_then_SomeE)
  then have "matches js k rc t1" using assms(2-4) prefix_order.trans by blast
  then show ?thesis using t1 assms(5) by (intro matches_and_then) auto
qed

definition idle_on :: "(nat + action) list \<Rightarrow> visitor \<Rightarrow> bool" where
  "idle_on ins v \<longleftrightarrow> m_current_tdi_operation v = None \<and> s_ins (m_ctx v) = ins"

lemma FlushTMS_idle: "idle_on ins v \<Longrightarrow> keeps (idle_on ins) (FlushTMS v)"
  by (auto simp: idle_on_def FlushTMS_def v_Add_def v_FailNested_def Fail_def FailImpl_def)

lemma GoToState_idle: "idle_on ins v \<Longrightarrow> keeps (idle_on ins) (GoToState st v)"
  unfolding GoToState_def Let_def
  by (auto intro!: keeps_and_then FlushTMS_idle) (auto simp: idle_on_def)

lemma wait_idle: "idle_on ins v \<Longrightarrow> keeps (idle_on ins) (wait_loop w n v)"
  by (rule wait_keeps) (auto simp: FlushTMS_idle, simp add: idle_on_def)

lemma done_if_completing_in_step:
  assumes "in_step js k t c" "idle_on ins t" "k < length ins" "done_if_completing k t = Some (True, t')"
  shows "matches js (Suc k) (done_if_completing k c) t'"
  using assms done_in_step [OF assms(1)] in_step_same [OF assms(1)]
  by (simp add: done_if_completing_def matches_def idle_on_def)

lemma done_if_completing_emitted: "done_if_completing k t = Some (ok, t') \<Longrightarrow> emitted t' = emitted t"
  by (auto simp: done_if_completing_def v_Done_def)

lemma wait_there_in_step:
  assumes "in_step js k t c" "idle_on ins t" "k < length ins"
    and "wait_there n k t = Some (True, t')" "prefix (emitted t') js"
  shows "matches js (Suc k) (wait_there n k c) t'"
proof -
  let ?w = "g_waiting_sequences (cs_state (v_state t))"
  have cond: "\<not> (n \<noteq> 0 \<and> ?w = g_unstable)" "v_state c = v_state t"
    and t': "and_then (wait_loop ?w (unat n) t) (done_if_completing k) = Some (True, t')"
    using assms(4) in_step_same [OF assms(1)] by (auto simp: wait_there_def Let_def split: if_splits)
  have "matches js (Suc k) (and_then (wait_loop ?w (unat n) c) (done_if_completing k)) t'"
  proof (rule sim_and_then [OF t' assms(5)])
    show "matches js (Suc k) (done_if_completing k c1) t'"
      if "wait_loop ?w (unat n) t = Some (True, t1)" "in_step js k t1 c1"
        "done_if_completing k t1 = Some (True, t')" for t1 c1
      by (rule done_if_completing_in_step [OF that(2) keepsD [OF wait_idle [OF assms(2)] that(1)] assms(3) that(3)])
  qed (use wait_in_step [OF assms(1)] in \<open>auto dest: done_if_completing_emitted\<close>)
  with cond show ?thesis by (auto simp: wait_there_def Let_def)
qed

lemma wait_there_grows: "only_grows acts c tx v \<Longrightarrow> keeps (only_grows acts c tx) (wait_there n i v)"
  unfolding wait_there_def Let_def
  by (auto intro!: keeps_and_then wait_grows) (auto simp: done_if_completing_def only_grows_def)

lemma FlushTDI_idle:
  assumes "in_step js k t c" "FlushTDI k t = Some (True, t1)" "prefix (emitted t1) js"
  shows "idle_on (s_ins (m_ctx t)) t1" "v_building t1"
  using FlushTDI_in_step [OF assms] keepsD [OF FlushTDI_grows [OF in_step_grows [OF assms(1)]] assms(2)]
  by (auto simp: idle_on_def only_grows_def)

lemma go_and_wait_grows:
  "only_grows acts c tx v \<Longrightarrow> keeps (only_grows acts c tx) (and_then (GoToState st v) (wait_there n k))"
  by (intro keeps_and_then GoToState_grows wait_there_grows)

lemma only_grows_self: "only_grows acts c tx v \<Longrightarrow> only_grows (emitted v) c tx v"
  by (simp add: only_grows_def)

lemma only_growsD: "only_grows acts c tx v \<Longrightarrow> prefix acts (emitted v)"
  by (simp add: only_grows_def)

lemma go_and_wait_in_step:
  assumes "in_step js k t c" "idle_on ins t" "k < length ins"
    and "and_then (GoToState st t) (wait_there n k) = Some (True, t')" "prefix (emitted t') js"
  shows "matches js (Suc k) (and_then (GoToState st c) (wait_there n k)) t'"
proof (rule sim_and_then [OF assms(4,5)])
  fix t1
  assume g: "GoToState st t = Some (True, t1)"
  show "matches js k (GoToState st c) t1" if "prefix (emitted t1) js"
    by (rule GoToState_in_step [OF assms(1) g that])
  assume w: "wait_there n k t1 = Some (True, t')"
  have "only_grows (emitted t1) (m_chain t) (m_ctx t) t1"
    by (rule only_grows_self [OF keepsD [OF GoToState_grows [OF in_step_grows [OF assms(1)]] g]])
  from only_growsD [OF keepsD [OF wait_there_grows [OF this] w]] show "prefix (emitted t1) (emitted t')" .
  show "matches js (Suc k) (wait_there n k c1) t'" if "in_step js k t1 c1" for c1
    by (rule wait_there_in_step [OF that keepsD [OF GoToState_idle [OF assms(2)] g] assms(3) w assms(5)])
qed

lemma GoToState_action_in_step:
  assumes "in_step js k t c" "k < length (s_ins (m_ctx t))"
    and "visit_JCGoToState st n k t = Some (True, t')" "prefix (emitted t') js"
  shows "matches js (Suc k) (visit_JCGoToState st n k c) t'"
proof -
  obtain t1 where t1: "FlushTDI k t = Some (True, t1)" "cs_state (v_state t1) \<noteq> Unknown"
    "\<not> JCStateID Unknown \<le> unat st"
    "and_then (GoToState (state_of st) t1) (wait_there n k) = Some (True, t')"
    using assms(3) unfolding visit_JCGoToState_def by (auto elim!: and_then_SomeE split: if_splits)
  have "only_grows (emitted t1) (m_chain t) (m_ctx t) t1"
    by (rule only_grows_self [OF keepsD [OF FlushTDI_grows [OF in_step_grows [OF assms(1)]] t1(1)]])
  from only_growsD [OF keepsD [OF go_and_wait_grows [OF this] t1(4)]]
  have pre: "prefix (emitted t1) js" using assms(4) prefix_order.trans by blast
  have m: "matches js k (FlushTDI k c) t1" using FlushTDI_in_step [OF assms(1) t1(1) pre] by simp
  have "matches js (Suc k) (and_then (GoToState (state_of st) c1) (wait_there n k)) t'"
    if "in_step js k t1 c1" for c1
    by (rule go_and_wait_in_step [OF that FlushTDI_idle(1) [OF assms(1) t1(1) pre] assms(2) t1(4) assms(4)])
  then show ?thesis
    unfolding visit_JCGoToState_def using t1(2,3) in_step_same
    by (intro matches_and_then [OF m]) auto
qed

lemma SelectTAP_in_step:
  assumes "in_step js k t c" "k < length (s_ins (m_ctx t))" "s_ins (m_ctx t) ! k = Inr (JCSelectTAP tap)"
    and "visit_JCSelectTAP tap k t = Some (True, t')"
  shows "matches js (Suc k) (visit_JCSelectTAP tap k c) t'"
proof -
  let ?sel = "\<lambda>v. v\<lparr>v_state := (v_state v)\<lparr>selected_tap := unat tap\<rparr>\<rparr>"
  note same = in_step_same [OF assms(1)]
  have taps: "\<not> m_num_taps (m_chain t) \<le> unat tap" and t': "t' = ?sel t"
    using assms(4) same by (auto simp: visit_JCSelectTAP_def done_if_completing_def split: if_splits)
  have "in_step js k (?sel t) (?sel c)" using in_step_state [OF assms(1)] same by simp
  from done_in_step [OF this] assms(2,3) show ?thesis
    using taps same by (simp add: visit_JCSelectTAP_def done_if_completing_def matches_def t')
qed

text \<open>A shift action joins the pending shift or starts one.\<close>

lemma pending_extend:
  assumes "pending k oper first ctx" "oper = None \<or> oper = Some ac" "s_ins ctx ! k = Inr a" "kind a = ac"
  shows "pending (Suc k) (Some ac) (if oper = None then Some k else first) ctx"
  using assms by (auto simp: pending_def less_Suc_eq)

lemma join_in_step:
  assumes "in_step js k t c" "k < length (s_ins (m_ctx t))" "s_ins (m_ctx t) ! k = Inr a" "kind a = ac"
    and "m_current_tdi_operation t = None \<or> m_current_tdi_operation t = Some ac"
    and "t' = (if m_current_tdi_operation t = None then start_tdi ac k t else t)"
    and "c' = (if m_current_tdi_operation c = None then start_tdi ac k c else c)"
  shows "in_step js (Suc k)
    (t'\<lparr>m_maybe_single_ir := ir, m_total_tdi := n, m_last_tdied_tap := l\<rparr>)
    (c'\<lparr>m_maybe_single_ir := ir, m_total_tdi := m, m_last_tdied_tap := l\<rparr>)"
proof -
  have "pending k (m_current_tdi_operation t) (m_first_tdi_sit t) (m_ctx c)"
    "s_ins (m_ctx c) = s_ins (m_ctx t)"
    using assms(1) by (auto simp: in_step_def)
  then have "pending (Suc k) (Some ac)
      (if m_current_tdi_operation t = None then Some k else m_first_tdi_sit t) (m_ctx c)"
    using assms(3-5) by (intro pending_extend) auto
  then show ?thesis
    using assms(1,2,5) unfolding assms(6,7) by (auto simp: in_step_def start_tdi_def m_jend_def)
qed

lemma flush_if_in_step:
  assumes "in_step js k t c" "(if b then FlushTDI k t else Some (True, t)) = Some (True, t1)"
    and "prefix (emitted t1) js"
  shows "matches js k (if b then FlushTDI k c else Some (True, c)) t1 \<and>
    s_ins (m_ctx t1) = s_ins (m_ctx t) \<and> (if b then m_current_tdi_operation t1 = None else t1 = t)"
  using assms FlushTDI_in_step [OF assms(1)] FlushTDI_idle [OF assms(1)]
  by (auto simp: matches_def idle_on_def split: if_splits)

lemma join_IR_in_step:
  assumes "in_step js k t c" "k < length (s_ins (m_ctx t))" "s_ins (m_ctx t) ! k = Inr (JCWriteIR w)"
    and "m_current_tdi_operation t = None \<or> m_current_tdi_operation t = Some AJCWriteIR"
    and "join_IR w k t = Some (True, t')"
  shows "matches js (Suc k) (join_IR w k c) t'"
proof -
  let ?ir = "if m_current_tdi_operation t = None then Some (selected_tap (v_state t), w) else None"
  have "in_step js (Suc k)
    ((if m_current_tdi_operation t = None then start_tdi AJCWriteIR k t else t)
       \<lparr>m_maybe_single_ir := ?ir, m_total_tdi := n, m_last_tdied_tap := l\<rparr>)
    ((if m_current_tdi_operation c = None then start_tdi AJCWriteIR k c else c)
       \<lparr>m_maybe_single_ir := ?ir, m_total_tdi := m, m_last_tdied_tap := l\<rparr>)" for n m l
    by (rule join_in_step [OF assms(1-3) _ assms(4) refl refl]) simp
  then show ?thesis
    using assms(5) in_step_same [OF assms(1)]
    by (auto simp: join_IR_def Let_def start_tdi_def split: if_splits)
qed

lemma same_single: "m_maybe_single_ir v = x \<Longrightarrow>
  v\<lparr>m_maybe_single_ir := x, m_total_tdi := n, m_last_tdied_tap := l\<rparr> =
  v\<lparr>m_total_tdi := n, m_last_tdied_tap := l\<rparr>"
  by (cases v) simp

lemma join_DR_in_step:
  assumes "in_step js k t c" "k < length (s_ins (m_ctx t))" "s_ins (m_ctx t) ! k = Inr a" "kind a = ac"
    and "m_current_tdi_operation t = None \<or> m_current_tdi_operation t = Some ac"
    and "join_DR ac source k t = Some (True, t')"
  shows "matches js (Suc k) (join_DR ac source k c) t'"
proof -
  let ?j = "\<lambda>v. if m_current_tdi_operation v = None then start_tdi ac k v else v"
  note same = in_step_same [OF assms(1)]
  have si: "m_maybe_single_ir (?j t) = m_maybe_single_ir t" "m_maybe_single_ir (?j c) = m_maybe_single_ir t"
    using same by (simp_all add: start_tdi_def)
  have "in_step js (Suc k)
    ((?j t)\<lparr>m_maybe_single_ir := m_maybe_single_ir t, m_total_tdi := n, m_last_tdied_tap := l\<rparr>)
    ((?j c)\<lparr>m_maybe_single_ir := m_maybe_single_ir t, m_total_tdi := m, m_last_tdied_tap := l\<rparr>)" for n m l
    by (rule join_in_step [OF assms(1-5) refl refl])
  then have "in_step js (Suc k) ((?j t)\<lparr>m_total_tdi := n, m_last_tdied_tap := l\<rparr>)
      ((?j c)\<lparr>m_total_tdi := m, m_last_tdied_tap := l\<rparr>)" for n m l
    unfolding same_single [OF si(1)] same_single [OF si(2)] .
  then show ?thesis
    using assms(6) same by (auto simp: join_DR_def Let_def start_tdi_def split: if_splits)
qed

lemma join_emitted:
  "join_IR w k t = Some (True, t') \<Longrightarrow> emitted t' = emitted t"
  "join_DR ac source k t = Some (True, t') \<Longrightarrow> emitted t' = emitted t"
  by (auto simp: join_IR_def join_DR_def Let_def start_tdi_def split: if_splits)

text \<open>The two handlers: flush when needed, then join.\<close>

lemma flush_join_in_step:
  assumes "in_step js k t c" "k < length (s_ins (m_ctx t))"
    and "and_then (if b then FlushTDI k t else Some (True, t)) j = Some (True, t')" "prefix (emitted t') js"
    and "\<And>t1. j t1 = Some (True, t') \<Longrightarrow> emitted t' = emitted t1"
    and "\<not> b \<Longrightarrow> m_current_tdi_operation t = None \<or> m_current_tdi_operation t = Some ac"
    and "\<And>t1 c1. in_step js k t1 c1 \<Longrightarrow> s_ins (m_ctx t1) = s_ins (m_ctx t) \<Longrightarrow>
      m_current_tdi_operation t1 = None \<or> m_current_tdi_operation t1 = Some ac \<Longrightarrow>
      j t1 = Some (True, t') \<Longrightarrow> matches js (Suc k) (j c1) t'"
  shows "matches js (Suc k) (and_then (if b then FlushTDI k c else Some (True, c)) j) t'"
proof -
  obtain t1 where t1: "(if b then FlushTDI k t else Some (True, t)) = Some (True, t1)" "j t1 = Some (True, t')"
    using assms(3) by (auto elim: and_then_SomeE)
  have "prefix (emitted t1) js" using assms(4) assms(5) [OF t1(2)] by simp
  note fl = flush_if_in_step [OF assms(1) t1(1) this]
  have "m_current_tdi_operation t1 = None \<or> m_current_tdi_operation t1 = Some ac"
    using fl assms(6) by (auto split: if_splits)
  with fl t1(2) show ?thesis by (intro matches_and_then [OF conjunct1 [OF fl]] assms(7)) auto
qed

lemma WriteIR_in_step:
  assumes "in_step js k t c" "k < length (s_ins (m_ctx t))" "s_ins (m_ctx t) ! k = Inr (JCWriteIR w)"
    and "visit_JCWriteIR w k t = Some (True, t')" "prefix (emitted t') js"
  shows "matches js (Suc k) (visit_JCWriteIR w k c) t'"
proof -
  let ?b = "\<lambda>v. m_current_tdi_operation v \<noteq> None \<and>
    (m_current_tdi_operation v \<noteq> Some AJCWriteIR \<or> m_last_tdied_tap v \<le> selected_tap (v_state v))"
  have "matches js (Suc k) (and_then (if ?b t then FlushTDI k c else Some (True, c)) (join_IR w k)) t'"
    by (rule flush_join_in_step [OF assms(1,2) assms(4) [unfolded visit_JCWriteIR_def] assms(5)])
      (use assms(2,3) in \<open>auto intro: join_IR_in_step simp: join_emitted\<close>)
  then show ?thesis
    unfolding visit_JCWriteIR_def using in_step_same [OF assms(1)] by simp
qed

lemma DR_in_step:
  assumes "in_step js k t c" "k < length (s_ins (m_ctx t))" "s_ins (m_ctx t) ! k = Inr a" "kind a = ac"
    and "visit_DR ac source k t = Some (True, t')" "prefix (emitted t') js"
  shows "matches js (Suc k) (visit_DR ac source k c) t'"
proof -
  let ?b = "\<lambda>v. m_current_tdi_operation v \<noteq> None \<and>
    (m_current_tdi_operation v \<noteq> Some ac \<or> m_last_tdied_tap v < selected_tap (v_state v))"
  have "matches js (Suc k) (and_then (if ?b t then FlushTDI k c else Some (True, c)) (join_DR ac source k)) t'"
    by (rule flush_join_in_step [OF assms(1,2) assms(5) [unfolded visit_DR_def] assms(6)])
      (use assms(2-4) in \<open>auto intro: join_DR_in_step simp: join_emitted\<close>)
  then show ?thesis
    unfolding visit_DR_def using in_step_same [OF assms(1)] by simp
qed

lemma visit_action_in_step:
  assumes "in_step js k t c" "k < length (s_ins (m_ctx t))"
    and "visit_action k t = Some (True, t')" "prefix (emitted t') js"
  shows "matches js (Suc k) (visit_action k c) t'"
proof -
  have ns: "\<not> structural (s_ins (m_ctx t) ! k)" and same: "s_ins (m_ctx c) = s_ins (m_ctx t)"
    using assms(1,2) by (auto simp: in_step_def list_ex_iff)
  obtain a where a: "s_ins (m_ctx t) ! k = Inr a"
    using in_step_valid [OF assms(1,2)] by (cases "s_ins (m_ctx t) ! k") auto
  show ?thesis
  proof (cases a)
    case (JCGoToState st n)
    then show ?thesis using GoToState_action_in_step [OF assms(1,2) _ assms(4)] assms(3) a same
      by (simp add: visit_action_def)
  next
    case (JCSelectTAP tap)
    then show ?thesis using SelectTAP_in_step [OF assms(1,2)] assms(3) a same
      by (simp add: visit_action_def)
  next
    case (JCWriteIR w)
    then show ?thesis using WriteIR_in_step [OF assms(1,2) _ _ assms(4)] assms(3) a same
      by (simp add: visit_action_def)
  next
    case (JCWriteDR source)
    then show ?thesis using DR_in_step [OF assms(1,2) a _ _ assms(4)] assms(3) a same
      by (simp add: visit_action_def)
  next
    case (JCShiftDR source)
    then show ?thesis using DR_in_step [OF assms(1,2) a _ _ assms(4)] assms(3) a same
      by (simp add: visit_action_def)
  qed (use assms(3) a ns in \<open>simp_all add: visit_action_def\<close>)
qed

lemma visit_all_in_step:
  assumes "in_step js k t c" "m \<le> length (s_ins (m_ctx t))" "k \<le> m"
    and "visit_all [k..<m] t = Some (True, t')" "prefix (emitted t') js"
  shows "matches js m (visit_all [k..<m] c) t'"
  using assms(1-4)
proof (induction "m - k" arbitrary: k t c)
  case 0
  then show ?case by (simp add: matches_def)
next
  case (Suc d)
  then have k: "k < m" "[k..<m] = k # [Suc k..<m]" by (auto simp: upt_conv_Cons)
  obtain t1 where t1: "visit_action k t = Some (True, t1)" "visit_all [Suc k..<m] t1 = Some (True, t')"
    using Suc.prems(4) k(2) by (auto elim: and_then_SomeE)
  have g: "only_grows (emitted t) (m_chain t) (m_ctx t) t1"
    using keepsD [OF visit_action_grows [OF in_step_grows [OF Suc.prems(1)]] t1(1)] Suc.prems(2) k(1)
    by simp
  have "only_grows (emitted t1) (m_chain t) (m_ctx t) t'"
    using keepsD [OF growing.visit_all_keeps [OF only_grows_self [OF g]] t1(2)] Suc.prems(2)
    by (simp add: list_all_iff)
  then have "prefix (emitted t1) js"
    using assms(5) only_growsD prefix_order.trans by blast
  then have m: "matches js (Suc k) (visit_action k c) t1"
    using visit_action_in_step [OF Suc.prems(1) _ t1(1)] Suc.prems(2) k(1) by simp
  have "matches js m (visit_all [Suc k..<m] c1) t'" if "in_step js (Suc k) t1 c1" for c1
    using Suc.hyps(2) Suc.prems(2) k(1) g t1(2)
    by (intro Suc.hyps(1) [OF _ that]) (auto simp: only_grows_def)
  then show ?case
    unfolding k(2) visit_all.simps by (rule matches_and_then [OF m])
qed

text \<open>Both walks to the end: the completing visitor leaves no action incomplete, or it stops because the
  JTAG transaction was not executed to its end.\<close>

lemma walk_in_step:
  assumes "in_step js k t c" "m = length (s_ins (m_ctx t))" "k \<le> m"
    and "walk k m t = Some (True, t')" "js = emitted t'"
  shows "matches js m (walk k m c) t' \<and> m_current_tdi_operation t' = None \<and> s_ins (m_ctx t') = s_ins (m_ctx t)"
proof -
  obtain t1 t2 where ts: "visit_all [k..<m] t = Some (True, t1)" "FlushTDI m t1 = Some (True, t2)"
    "FlushTMS t2 = Some (True, t')"
    using assms(4) unfolding walk_def by (auto elim!: and_then_SomeE)
  have g1: "only_grows (emitted t) (m_chain t) (m_ctx t) t1"
    using keepsD [OF growing.visit_all_keeps [OF in_step_grows [OF assms(1)]] ts(1)] assms(2)
    by (simp add: list_all_iff)
  have g2: "only_grows (emitted t1) (m_chain t) (m_ctx t) t2"
    by (rule keepsD [OF FlushTDI_grows [OF only_grows_self [OF g1]] ts(2)])
  have g3: "only_grows (emitted t2) (m_chain t) (m_ctx t) t'"
    by (rule keepsD [OF FlushTMS_grows [OF only_grows_self [OF g2]] ts(3)])
  have pre: "prefix (emitted t2) js" "prefix (emitted t1) js"
    using only_growsD [OF g3] only_growsD [OF g2] prefix_order.trans assms(5) by blast+
  have m1: "matches js m (visit_all [k..<m] c) t1"
    using visit_all_in_step [OF assms(1) _ assms(3) ts(1) pre(2)] assms(2) by simp
  have "matches js m (FlushTDI m c1) t2 \<and> m_current_tdi_operation t2 = None" if "in_step js m t1 c1" for c1
    by (rule FlushTDI_in_step [OF that ts(2) pre(1)])
  moreover have "matches js m (FlushTMS c2) t'" if "in_step js m t2 c2" for c2
    using FlushTMS_in_step [OF that ts(3)] assms(5) by simp
  ultimately have "matches js m (walk k m c) t'"
    unfolding walk_def by (blast intro: matches_and_then [OF m1] matches_and_then)
  moreover have "m_current_tdi_operation t2 = None"
    using FlushTDI_ends [OF ts(2)] by simp
  ultimately show ?thesis using FlushTMS_result(4) [OF ts(3)] g3 by (auto simp: only_grows_def)
qed

subsection \<open>Whole transactions\<close>

text \<open>No step of the visitor changes the status of the JTAG transaction.\<close>

definition same_jstatus :: "bool list status \<Rightarrow> visitor \<Rightarrow> bool" where
  "same_jstatus j v \<longleftrightarrow> m_jstatus v = j"

lemma same_jstatus_updates [simp]:
  "same_jstatus j (v_FailAt i cs v) = same_jstatus j v" "same_jstatus j (v_Done i v) = same_jstatus j v"
  "same_jstatus j (v_Add a v) = same_jstatus j v" "same_jstatus j (v_FailNested v) = same_jstatus j v"
  "same_jstatus j (v_tms_update e v) = same_jstatus j v" "same_jstatus j (v_state_update f v) = same_jstatus j v"
  "same_jstatus j (m_ctx_update q v) = same_jstatus j v" "same_jstatus j (m_jit_update g v) = same_jstatus j v"
  "same_jstatus j (m_chain_update h v) = same_jstatus j v"
  "same_jstatus j (m_maybe_single_ir_update l v) = same_jstatus j v"
  "same_jstatus j (m_total_tdi_update g v) = same_jstatus j v"
  "same_jstatus j (m_last_tdied_tap_update g v) = same_jstatus j v"
  "same_jstatus j (start_tdi ac i v) = same_jstatus j v" "same_jstatus j (end_tdi v) = same_jstatus j v"
  "same_jstatus j (m_first_tdi_sit_update k v) = same_jstatus j v"
  "same_jstatus j (m_current_tdi_operation_update p v) = same_jstatus j v"
  by (simp_all add: same_jstatus_def v_FailAt_def v_Done_def v_Add_def v_FailNested_def start_tdi_def end_tdi_def)

lemma FlushTMS_jstatus: "same_jstatus j v \<Longrightarrow> keeps (same_jstatus j) (FlushTMS v)"
  by (simp add: FlushTMS_def)

lemma GoToState_jstatus: "same_jstatus j v \<Longrightarrow> keeps (same_jstatus j) (GoToState st v)"
  unfolding GoToState_def Let_def by (auto intro!: keeps_and_then FlushTMS_jstatus)

lemma FlushTDI_jstatus:
  assumes "same_jstatus j v"
  shows "keeps (same_jstatus j) (FlushTDI send v)"
proof -
  have tdi: "keeps (same_jstatus j) (if v_building w then emit_tdi send w else complete_tdi send w)"
    if "same_jstatus j w" for w
    using that by (auto simp: complete_tdi_def Let_def intro!: keeps_I elim!: emit_tdi_result
        split: bind_splits if_splits)
  show ?thesis
    unfolding FlushTDI_shift shift_tdi_def
    using assms by (auto split: option.split bind_split intro!: keeps_and_then GoToState_jstatus FlushTMS_jstatus tdi)
qed

lemma visit_action_jstatus:
  assumes "same_jstatus j v"
  shows "keeps (same_jstatus j) (visit_action i v)"
proof -
  have dn: "keeps (same_jstatus j) (done_if_completing i w)" if "same_jstatus j w" for w
    using that by (simp add: done_if_completing_def)
  have go: "keeps (same_jstatus j) (visit_JCGoToState st n i v)" for st n
    unfolding visit_JCGoToState_def wait_there_def Let_def
    by (intro keeps_and_then FlushTDI_jstatus assms)
      (auto intro!: keeps_and_then GoToState_jstatus wait_keeps [where P = "same_jstatus j"] FlushTMS_jstatus dn)
  have fo: "keeps (same_jstatus j) (visit_JCForgetChainStructure i v)"
    unfolding visit_JCForgetChainStructure_def Let_def
    by (intro keeps_and_then FlushTDI_jstatus assms dn) (auto intro!: dn)
  have se: "keeps (same_jstatus j) (visit_JCSetIRLength tap_id len i v)" for tap_id len
    unfolding visit_JCSetIRLength_def Let_def
    using assms by (auto intro!: keeps_and_then FlushTDI_jstatus dn)
  have tap: "keeps (same_jstatus j) (visit_JCSelectTAP tap_id i v)" for tap_id
    unfolding visit_JCSelectTAP_def using assms by (auto intro!: dn)
  have ir: "keeps (same_jstatus j) (visit_JCWriteIR ir_value i v)" for ir_value
    unfolding visit_JCWriteIR_def join_IR_def Let_def
    using assms by (intro keeps_and_then) (auto intro: FlushTDI_jstatus)
  have dr: "keeps (same_jstatus j) (visit_DR oper source i v)" for oper source
    unfolding visit_DR_def join_DR_def Let_def
    using assms by (intro keeps_and_then) (auto intro: FlushTDI_jstatus)
  show ?thesis
    using go fo se tap ir dr assms
    by (auto simp: visit_action_def split: sum.splits action.splits)
qed

interpretation jstatus_kept: walk_invariant "same_jstatus j" n for j n
  by unfold_locales (rule visit_action_jstatus FlushTDI_jstatus FlushTMS_jstatus; assumption)+

text \<open>A step that goes on has not touched the error of the transaction nor the flag of a failed allocation: errors are only
  stored by steps that stop the walk.\<close>

definition keeps_ok :: "(visitor \<Rightarrow> bool) \<Rightarrow> visit \<Rightarrow> bool" where
  "keeps_ok P r \<longleftrightarrow> (\<forall>v'. r = Some (True, v') \<longrightarrow> P v')"

lemma keeps_ok_simps [simp]:
  "keeps_ok P None" "keeps_ok P (Some (False, v))" "keeps_ok P (Some (True, v)) = P v"
  by (simp_all add: keeps_ok_def)

lemma keeps_ok_and_then: "keeps_ok P r \<Longrightarrow> (\<And>v. P v \<Longrightarrow> keeps_ok P (f v)) \<Longrightarrow> keeps_ok P (and_then r f)"
  by (auto simp: keeps_ok_def elim!: and_then_SomeE)

definition same_error :: "action_error option \<Rightarrow> bool \<Rightarrow> visitor \<Rightarrow> bool" where
  "same_error e f v \<longleftrightarrow> m_error (m_ctx v) = e \<and> s_allocation_failure (m_ctx v) = f"

lemma same_error_updates [simp]:
  "same_error e f (v_Done i v) = same_error e f v" "same_error e f (v_Add a v) = same_error e f v"
  "same_error e f (v_tms_update g v) = same_error e f v" "same_error e f (v_state_update h v) = same_error e f v"
  "same_error e f (m_jit_update g' v) = same_error e f v" "same_error e f (m_chain_update h' v) = same_error e f v"
  "same_error e f (m_maybe_single_ir_update l v) = same_error e f v"
  "same_error e f (m_total_tdi_update g' v) = same_error e f v"
  "same_error e f (m_last_tdied_tap_update g' v) = same_error e f v"
  "same_error e f (start_tdi ac i v) = same_error e f v" "same_error e f (end_tdi v) = same_error e f v"
  "same_error e f (m_first_tdi_sit_update k v) = same_error e f v"
  "same_error e f (m_current_tdi_operation_update p v) = same_error e f v"
  by (simp_all add: same_error_def v_Done_def v_Add_def Done_def start_tdi_def end_tdi_def)

lemma tdo_loop_error:
  "tdo_loop is sel lst tdo ctx = Some ctx' \<Longrightarrow>
     m_error ctx' = m_error ctx \<and> s_allocation_failure ctx' = s_allocation_failure ctx"
  by (induction "is" sel lst tdo ctx rule: tdo_loop.induct)
     (auto simp: Done_def Let_def split: sum.splits action.splits option.splits)

lemma done_range_error:
  "m_error (done_range i j s) = m_error s" "s_allocation_failure (done_range i j s) = s_allocation_failure s"
proof -
  have "m_error (fold Done js s) = m_error s \<and> s_allocation_failure (fold Done js s) = s_allocation_failure s" for js
    by (induction js arbitrary: s) (simp_all add: Done_def)
  then show "m_error (done_range i j s) = m_error s" "s_allocation_failure (done_range i j s) = s_allocation_failure s"
    by (simp_all add: done_range_def)
qed

lemma FlushTMS_error: "same_error e f v \<Longrightarrow> keeps_ok (same_error e f) (FlushTMS v)"
  by (simp add: FlushTMS_def)

lemma GoToState_error: "same_error e f v \<Longrightarrow> keeps_ok (same_error e f) (GoToState st v)"
  unfolding GoToState_def Let_def by (auto intro!: keeps_ok_and_then FlushTMS_error)

lemma wait_error: "same_error e f v \<Longrightarrow> keeps_ok (same_error e f) (wait_loop w n v)"
proof (induction n arbitrary: v rule: less_induct)
  case (less n)
  have "keeps_ok (same_error e f) (if tms_room v = 0 then FlushTMS v else Some (True, v))"
    using less.prems FlushTMS_error by auto
  then show ?case
    using less.prems less.IH
    by (subst wait_loop.simps) (auto simp: Let_def split: option.splits prod.splits bool.splits)
qed

lemma FlushTDI_error:
  assumes "same_error e f v"
  shows "keeps_ok (same_error e f) (FlushTDI send v)"
proof -
  have tdi: "keeps_ok (same_error e f) (if v_building w then emit_tdi send w else complete_tdi send w)"
    if "same_error e f w" for w
  proof (cases "v_building w")
    case True
    then show ?thesis using that by (auto simp: keeps_ok_def elim!: emit_tdi_result)
  next
    case False
    then show ?thesis
      using that tdo_loop_error
      by (auto simp: complete_tdi_def keeps_ok_def same_error_def Let_def bind_eq_Some_conv split: if_splits)
  qed
  have sk: "keeps_ok (same_error e f) (do { first \<leftarrow> m_first_tdi_sit v;
      Some (True, v\<lparr>m_ctx := (if v_building v then m_ctx v else done_range first send (m_ctx v)),
        m_first_tdi_sit := None, m_current_tdi_operation := None\<rparr>) })"
    using assms by (cases "m_first_tdi_sit v") (simp_all add: same_error_def done_range_error)
  have sh: "keeps_ok (same_error e f) (shift_tdi oper send v)" for oper
    unfolding shift_tdi_def
    by (intro keeps_ok_and_then GoToState_error FlushTMS_error tdi assms) simp_all
  show ?thesis unfolding FlushTDI_shift using assms sk sh by (simp split: option.split)
qed

lemma visit_action_error:
  assumes "same_error e f v"
  shows "keeps_ok (same_error e f) (visit_action i v)"
proof -
  have dn: "keeps_ok (same_error e f) (done_if_completing i w)" if "same_error e f w" for w
    using that by (simp add: done_if_completing_def)
  have go: "keeps_ok (same_error e f) (visit_JCGoToState st n i v)" for st n
    unfolding visit_JCGoToState_def wait_there_def Let_def
    by (intro keeps_ok_and_then FlushTDI_error assms)
      (auto intro!: keeps_ok_and_then GoToState_error wait_error FlushTMS_error dn)
  have fo: "keeps_ok (same_error e f) (visit_JCForgetChainStructure i v)"
    unfolding visit_JCForgetChainStructure_def Let_def
    by (intro keeps_ok_and_then FlushTDI_error assms dn) (auto intro!: dn)
  have se: "keeps_ok (same_error e f) (visit_JCSetIRLength tap_id len i v)" for tap_id len
    unfolding visit_JCSetIRLength_def Let_def
    using assms by (auto intro!: keeps_ok_and_then FlushTDI_error dn)
  have tap: "keeps_ok (same_error e f) (visit_JCSelectTAP tap_id i v)" for tap_id
    unfolding visit_JCSelectTAP_def using assms by (auto intro!: dn)
  have ir: "keeps_ok (same_error e f) (visit_JCWriteIR ir_value i v)" for ir_value
    unfolding visit_JCWriteIR_def join_IR_def Let_def
    using assms by (intro keeps_ok_and_then) (auto intro: FlushTDI_error)
  have dr: "keeps_ok (same_error e f) (visit_DR oper source i v)" for oper source
    unfolding visit_DR_def join_DR_def Let_def
    using assms by (intro keeps_ok_and_then) (auto intro: FlushTDI_error)
  show ?thesis
    using go fo se tap ir dr assms
    by (auto simp: visit_action_def split: sum.splits action.splits)
qed

lemma walk_error:
  assumes "same_error e f v" "walk i n v = Some (True, v')"
  shows "same_error e f v'"
proof -
  have "keeps_ok (same_error e f) (visit_all is v)" for "is"
    using assms(1) by (induction "is" arbitrary: v) (auto intro!: keeps_ok_and_then visit_action_error)
  then have "keeps_ok (same_error e f) (walk i n v)"
    unfolding walk_def by (intro keeps_ok_and_then FlushTDI_error FlushTMS_error)
  then show ?thesis using assms(2) by simp
qed

text \<open>What a transaction must be for the driver to receive it, and what the JTAG driver answers: the
  transaction it was given, executed from the front up to some action.\<close>

definition ready :: "bool list status \<Rightarrow> bool" where
  "ready tx \<longleftrightarrow> list_all (\<lambda>a. \<not> isl a) (s_ins tx) \<and> \<not> list_ex structural (s_ins tx) \<and>
     m_first_incomplete tx \<le> status_end tx"

definition executed :: "bool list builder \<Rightarrow> bool list status \<Rightarrow> bool" where
  "executed b s \<longleftrightarrow> s_ins s = b_ins b \<and> m_first_incomplete s \<le> length (b_ins b)"

lemma translator_grows:
  assumes "ready tx" "t = translator (Initiate name txt d False) (\<lambda>_. (True, ob)) err chain tx"
  shows "only_grows (emitted t) chain tx t"
    "length (emitted t) = (if cs_state (m_state chain) = Unknown then 1 else 0)"
  using assms
  by (auto simp: ready_def only_grows_def translator_def TranslatingVisitor_def v_Add_def Add_def
      Initiate_def Let_def)

lemma completer_in_step:
  assumes "ready tx" "t = translator (Initiate name txt d False) (\<lambda>_. (True, ob)) err chain tx"
    and "only_grows (emitted t) chain tx v" "s_ins js = emitted v" "m_first_incomplete js \<le> length (emitted v)"
    and "length (emitted t) \<le> m_first_incomplete js"
    and "c = CompletingVisitor ((m_chain v)\<lparr>m_state := v_state v\<rparr>) (m_ctx v) js err
      (if cs_state (m_state chain) = Unknown then 1 else 0)
      (if cs_state (m_state chain) = Unknown then (m_state chain)\<lparr>cs_state := TestLogicReset\<rparr>
       else m_state chain)"
  shows "in_step (emitted v) (m_first_incomplete tx) t c"
  using assms
  by (auto simp: in_step_def only_grows_def ready_def CompletingVisitor_def translator_def
      TranslatingVisitor_def v_Add_def Add_def Initiate_def Let_def m_jend_def pending_def status_end_def)

lemma Execute_result:
  assumes "ready tx" "t = translator (Initiate name txt d False) (\<lambda>_. (True, ob)) err chain tx"
    and "walk (m_first_incomplete tx) (status_end tx) t = Some (True, v)"
    and "executed (m_jbuilder v) (jtag (m_jbuilder v))"
  shows "\<exists>chain' tx'. Execute (Initiate name txt d False) jtag (\<lambda>_. (True, ob)) err chain tx = Some (chain', tx') \<and>
    (if m_first_incomplete (jtag (m_jbuilder v)) = length (emitted v)
     then chain' = chain\<lparr>m_state := v_state v\<rparr> \<and> s_ins tx' = s_ins tx \<and>
       m_first_incomplete tx' = status_end tx \<and> m_error tx' = m_error tx \<and>
       s_allocation_failure tx' = s_allocation_failure tx
     else cs_state (m_state chain') = Unknown)"
proof -
  let ?js = "jtag (m_jbuilder v)" and ?ch = "(m_chain v)\<lparr>m_state := v_state v\<rparr>"
  note g = translator_grows [OF assms(1,2)]
  have gv: "only_grows (emitted t) chain tx v"
    using keepsD [OF growing.walk_keeps [OF g(1)] assms(3)] by (simp add: status_end_def)
  then have len: "length (emitted t) \<le> length (emitted v)" by (auto simp: only_grows_def dest: prefix_length_le)
  show ?thesis
  proof (cases "cs_state (m_state chain) = Unknown \<and> m_first_incomplete ?js = 0")
    case True
    then show ?thesis using assms(3) g(2) len unfolding assms(2)
      by (auto simp: Execute_def Let_def set_unknown_def)
  next
    case False
    define c where "c = CompletingVisitor ?ch (m_ctx v) ?js err
      (if cs_state (m_state chain) = Unknown then 1 else 0)
      (if cs_state (m_state chain) = Unknown then (m_state chain)\<lparr>cs_state := TestLogicReset\<rparr>
       else m_state chain)"
    have "in_step (emitted v) (m_first_incomplete tx) t c"
      by (rule completer_in_step [OF assms(1,2) gv _ _ _ c_def])
        (use assms(4) False g(2) in \<open>auto simp: executed_def\<close>)
    moreover have "s_ins (m_ctx t) = s_ins tx" using g(1) by (simp add: only_grows_def)
    ultimately have w: "matches (emitted v) (status_end tx) (walk (m_first_incomplete tx) (status_end tx) c) v"
      "m_current_tdi_operation v = None" "s_ins (m_ctx v) = s_ins tx"
      using walk_in_step [of "emitted v" "m_first_incomplete tx" t c "status_end tx" v] assms(1,3)
      by (auto simp: status_end_def ready_def)
    have ex: "Execute (Initiate name txt d False) jtag (\<lambda>_. (True, ob)) err chain tx =
        do { (ok, c') \<leftarrow> walk (m_first_incomplete tx) (status_end tx) c;
             Some (if ok then ?ch else set_unknown ?ch, m_ctx c') }"
      using assms(3) False unfolding assms(2) c_def Execute_def Let_def by auto
    have "same_jstatus ?js c" by (simp add: c_def same_jstatus_def CompletingVisitor_def)
    then have je: "m_jend c' = m_first_incomplete ?js"
      if "walk (m_first_incomplete tx) (status_end tx) c = Some (ok, c')" for ok c'
      using keepsD [OF jstatus_kept.walk_keeps [OF _ order_refl] that]
      by (simp add: same_jstatus_def m_jend_def)
    from w(1) show ?thesis
    proof (rule matchesE)
      fix c'
      assume c': "walk (m_first_incomplete tx) (status_end tx) c = Some (True, c')"
        and s: "in_step (emitted v) (status_end tx) v c'"
      have "m_first_incomplete (m_ctx c') = status_end tx" "s_ins (m_ctx c') = s_ins tx" "m_chain v = chain"
        "m_first_incomplete ?js = length (emitted v)"
        using s w(2,3) gv je [OF c'] by (auto simp: in_step_def pending_def only_grows_def)
      moreover have "same_error (m_error tx) (s_allocation_failure tx) t"
        unfolding assms(2) by (simp add: translator_def TranslatingVisitor_def same_error_def Let_def v_Add_def)
      then have "same_error (m_error tx) (s_allocation_failure tx) v" by (rule walk_error) (rule assms(3))
      then have "same_error (m_error tx) (s_allocation_failure tx) c"
        by (simp add: c_def CompletingVisitor_def same_error_def)
      then have "same_error (m_error tx) (s_allocation_failure tx) c'" by (rule walk_error) (rule c')
      ultimately show ?thesis by (simp add: ex c' same_error_def)
    next
      assume "stops (emitted v) (walk (m_first_incomplete tx) (status_end tx) c)"
      then obtain c' where c': "walk (m_first_incomplete tx) (status_end tx) c = Some (False, c')"
        "m_jend c' < length (emitted v)"
        by (auto simp: stops_def)
      have "m_first_incomplete ?js \<noteq> length (emitted v)" using je [OF c'(1)] c'(2) by simp
      then show ?thesis by (simp add: ex c'(1) set_unknown_def)
    qed
  qed
qed

text \<open>Property C5: a transaction of known actions that do not change the structure of the chain (no
  \<open>JCForgetChainStructure\<close>, no \<open>JCSetIRLength\<close>), translated to its end with memory for every action. When the JTAG driver executes everything it is
  given, all the actions of the chain's transaction are complete, no error is stored, no allocation failure is reported that was not there before,
  so that the transaction is a success unless it had lost an action before, and the driver records the state that the translation reached.\<close>

theorem Execute_completes:
  assumes "ready tx"
    and "walk (m_first_incomplete tx) (status_end tx)
      (translator (Initiate name txt d False) (\<lambda>_. (True, ob)) err chain tx) = Some (True, v)"
    and "s_ins (jtag (m_jbuilder v)) = b_ins (m_jbuilder v)"
    and "m_first_incomplete (jtag (m_jbuilder v)) = length (b_ins (m_jbuilder v))"
  shows "\<exists>tx'. Execute (Initiate name txt d False) jtag (\<lambda>_. (True, ob)) err chain tx =
      Some (chain\<lparr>m_state := v_state v\<rparr>, tx') \<and>
    s_ins tx' = s_ins tx \<and> m_first_incomplete tx' = status_end tx \<and>
    m_error tx' = m_error tx \<and> s_allocation_failure tx' = s_allocation_failure tx \<and>
    (status_ok tx' \<longleftrightarrow> \<not> s_allocation_failure tx)"
proof -
  have "executed (m_jbuilder v) (jtag (m_jbuilder v))" using assms(3,4) by (simp add: executed_def)
  from Execute_result [where jtag = jtag, OF assms(1) refl assms(2) this] show ?thesis
    by (auto simp: assms(4) status_ok_def status_end_def)
qed

text \<open>When the JTAG driver executes only a part of what it is given, the driver notices and
  forgets the state of the TAPs, so that the next transaction starts with a reset.\<close>

theorem Execute_failure_forgets_state:
  assumes "ready tx"
    and "walk (m_first_incomplete tx) (status_end tx)
      (translator (Initiate name txt d False) (\<lambda>_. (True, ob)) err chain tx) = Some (True, v)"
    and "s_ins (jtag (m_jbuilder v)) = b_ins (m_jbuilder v)"
    and "m_first_incomplete (jtag (m_jbuilder v)) < length (b_ins (m_jbuilder v))"
  shows "\<exists>chain' tx'. Execute (Initiate name txt d False) jtag (\<lambda>_. (True, ob)) err chain tx =
      Some (chain', tx') \<and> cs_state (m_state chain') = Unknown"
proof -
  have "executed (m_jbuilder v) (jtag (m_jbuilder v))" using assms(3,4) by (simp add: executed_def)
  from Execute_result [where jtag = jtag, OF assms(1) refl assms(2) this] show ?thesis using assms(4) by auto
qed

text \<open>Two answers of a JTAG driver: everything executed, every captured bit set; and a failure at some
  action.\<close>

definition all_done :: "bool list builder \<Rightarrow> bool list status" where
  "all_done b = (StatusOf b)\<lparr>m_first_incomplete := length (b_ins b),
     s_outs := map (\<lambda>a. case a of Inr (PutTDIGetTDO bs l) \<Rightarrow> replicate (length bs) True | _ \<Rightarrow> []) (b_ins b)\<rparr>"

definition stopped_at :: "nat \<Rightarrow> bool list builder \<Rightarrow> bool list status" where
  "stopped_at n b =
     (StatusOf b)\<lparr>m_first_incomplete := n, m_error := Some (ActionError (Inl 0) CauseTargetError)\<rparr>"

definition sample_execute ::
  "(bool list builder \<Rightarrow> bool list status) \<Rightarrow> action list \<Rightarrow> (jtag_chain \<times> bool list status) option" where
  "sample_execute jtag as =
     Execute (Initiate ''jtag'' ''Shift bits'' None False) jtag (\<lambda>_. (True, True)) True new_chain (status_of as)"

lemma sample_ready: "ready (status_of [JCWriteDR [True, False, True], JCGoToState 1 0])"
  by (simp add: ready_def status_of_def StatusOf_def status_end_def)

theorem Execute_completes_witness:
  "\<exists>chain' tx'. sample_execute all_done [JCWriteDR [True, False, True], JCGoToState 1 0] = Some (chain', tx') \<and>
     cs_state (m_state chain') = RunTestIdle \<and> m_first_incomplete tx' = 2 \<and> m_error tx' = None \<and> status_ok tx'"
proof -
  let ?tx = "status_of [JCWriteDR [True, False, True], JCGoToState 1 0]"
  obtain v where v: "sample_walk [JCWriteDR [True, False, True], JCGoToState 1 0] = Some (True, v)"
    "cs_state (v_state v) = RunTestIdle"
    using sample_translation by auto
  have e: "m_first_incomplete ?tx = 0" "status_end ?tx = 2" "m_error ?tx = None" "\<not> s_allocation_failure ?tx"
    by (simp_all add: status_of_def StatusOf_def status_end_def)
  show ?thesis
    using Execute_completes [OF sample_ready, of "''jtag''" "''Shift bits''" None True True new_chain v all_done] v
    by (auto simp: e sample_walk_def sample_execute_def numeral_2_eq_2 all_done_def StatusOf_def)
qed

theorem Execute_failure_forgets_state_witness:
  "\<exists>chain' tx'. sample_execute (stopped_at 0) [JCWriteDR [True, False, True], JCGoToState 1 0] = Some (chain', tx') \<and>
     cs_state (m_state chain') = Unknown"
proof -
  let ?tx = "status_of [JCWriteDR [True, False, True], JCGoToState 1 0]"
  obtain v where v: "sample_walk [JCWriteDR [True, False, True], JCGoToState 1 0] = Some (True, v)"
    "b_ins (m_jbuilder v) \<noteq> []"
    using sample_translation by auto
  have e: "m_first_incomplete ?tx = 0" "status_end ?tx = 2"
    by (simp_all add: status_of_def StatusOf_def status_end_def)
  show ?thesis
    using Execute_failure_forgets_state
      [OF sample_ready, of "''jtag''" "''Shift bits''" None True True new_chain v "stopped_at 0"] v
    by (auto simp: e sample_walk_def sample_execute_def numeral_2_eq_2 stopped_at_def StatusOf_def)
qed

lemmas completer_defs =
  CompletingVisitor_def m_jend_def v_FailNested_def v_Done_def Done_def next_position_def Fail_def
  status_ok_def status_end_def complete_tdi_def set_unknown_def visit_JCSelectTAP_def

text \<open>A failure can still be reported as a success. In a transaction that writes a data
  register and then selects a TAP, the selection is marked as done while the write is pending; when
  the JTAG driver then fails right behind the initial reset, the transaction counts as complete and carries no
  error although nothing was shifted.\<close>

theorem failed_write_reported_complete:
  "map_option (\<lambda>(chain', tx'). (status_ok tx', m_error tx', cs_state (m_state chain')))
     (sample_execute (stopped_at 1) [JCWriteDR [True], JCSelectTAP 0]) = Some (True, None, Unknown)"
  by (simp add: sample_execute_def Execute_def stopped_at_def visitor_defs completer_defs
      sample_transitions Let_def upt_rec)

text \<open>The restriction to actions that keep the structure of the chain is needed. The completing visitor walks over the structure that the whole
  transaction left behind: with three TAPs known, selecting the last one, writing and forgetting the structure is translated and executed,
  and then reported as failed at its first action.\<close>

theorem forgotten_structure_misreported:
  "map_option (\<lambda>(chain', tx'). (m_first_incomplete tx', m_error tx', cs_state (m_state chain')))
     (Execute (Initiate ''jtag'' ''Shift bits'' None False) all_done (\<lambda>_. (True, True)) True (new_chain\<lparr>m_num_taps := 3\<rparr>)
       (status_of [JCSelectTAP 2, JCWriteDR [True], JCForgetChainStructure]))
   = Some (0, Some (ActionError (Inr (JCSelectTAP 2)) (CauseInvalidJtagTapID 2 1)), Unknown)"
  by (simp add: Execute_def all_done_def visitor_defs completer_defs sample_transitions Let_def upt_rec
      visit_JCForgetChainStructure_def v_FailAt_def FailAt_def FailImpl_def MakeActionError_def deref_def)

subsection \<open>Single shifts\<close>

lemma length_bypass_instructions:
  "a \<le> b \<Longrightarrow> length (bypass_instructions lens a b) = (\<Sum>t \<leftarrow> [a..<b]. lens ! t)"
  by (simp add: bypass_instructions_def length_concat comp_def sum_list_rev flip: rev_map)

lemma tms_of_transition:
  assumes "s \<noteq> Unknown" "u \<noteq> Unknown"
  shows "unat (num_bits (g_jc_transitions s u)) \<le> 64"
  using transition_length [OF assms] by simp

definition path_to :: "jc_state \<Rightarrow> jtag_chain \<Rightarrow> (nat + action) list" where
  "path_to u chain =
     (let p = tms_bits (g_jc_transitions (cs_state (m_state chain)) u)
      in if p = [] then [] else [Inr (PutTMS p)])"

text \<open>Writing the instruction register of the selected TAP \<open>k\<close> shifts ones for the TAPs above it
  and the value, and no bits at all for the TAPs below it.\<close>

theorem WriteIR_emits:
  assumes "cs_state (m_state chain) \<noteq> Unknown" "selected_tap (m_state chain) = k" "k < m_num_taps chain"
    and "last_written_single_ir (m_state chain) \<noteq> Some (k, w)"
    and "(\<Sum>t \<leftarrow> [k..<m_num_taps chain]. m_ir_lengths chain ! t) < 2 ^ 31"
  shows "\<exists>v. walk 0 1 (translator (Initiate name txt d False) (\<lambda>_. (True, ob)) err chain (status_of [JCWriteIR w])) =
      Some (True, v) \<and>
    b_ins (m_jbuilder v) = path_to ShiftIR chain @
      [Inr (PutTDI (bypass_instructions (m_ir_lengths chain) (Suc k) (m_num_taps chain) @
         value_bits (m_ir_lengths chain ! k) w) True)] \<and>
    v_state v = (m_state chain)\<lparr>cs_state := Exit1IR, last_written_single_ir := Some (k, w)\<rparr>"
proof -
  let ?n = "m_num_taps chain" and ?lens = "m_ir_lengths chain"
  have sum: "(\<Sum>t \<leftarrow> [k..<?n]. ?lens ! t) = ?lens ! k + (\<Sum>t \<leftarrow> [Suc k..<?n]. ?lens ! t)"
    using assms(3) by (simp add: upt_conv_Cons)
  have len: "length (bypass_instructions ?lens (Suc k) ?n) = (\<Sum>t \<leftarrow> [Suc k..<?n]. ?lens ! t)"
    using assms(3) by (intro length_bypass_instructions) simp
  have revsum: "(\<Sum>t \<leftarrow> rev [k..<?n]. ?lens ! t) = (\<Sum>t \<leftarrow> [k..<?n]. ?lens ! t)"
    by (simp add: sum_list_rev flip: rev_map)
  show ?thesis
    using assms tms_of_transition [OF assms(1), of ShiftIR] sum len revsum
    by (simp add: visitor_defs visit_JCWriteIR_def join_IR_def path_to_def Let_def value_bits_def)
qed

definition three_taps :: "nat \<Rightarrow> jtag_chain" where
  "three_taps k = \<lparr>m_state = \<lparr>cs_state = RunTestIdle, selected_tap = k, last_written_single_ir = None\<rparr>,
     m_ir_lengths = [4, 5, 1], m_num_taps = 3\<rparr>"

theorem WriteIR_emits_witness:
  "\<exists>v. walk 0 1 (translator (Initiate ''jtag'' ''Shift bits'' None False) (\<lambda>_. (True, True)) True (three_taps 1)
        (status_of [JCWriteIR 6])) = Some (True, v) \<and>
     b_ins (m_jbuilder v) = path_to ShiftIR (three_taps 1) @
       [Inr (PutTDI [True, False, True, True, False, False] True)]"
  using WriteIR_emits [of "three_taps 1" 1 6 "''jtag''" "''Shift bits''" None True True]
  by (auto simp: three_taps_def bypass_instructions_def value_bits_def upt_rec)

text \<open>A JTAG driver that executes everything and captures the given bits in every capturing shift.\<close>

definition capturing :: "bool list \<Rightarrow> bool list builder \<Rightarrow> bool list status" where
  "capturing captured b = (StatusOf b)\<lparr>m_first_incomplete := length (b_ins b),
     s_outs := map (\<lambda>a. case a of Inr (PutTDIGetTDO bs l) \<Rightarrow> captured | _ \<Rightarrow> []) (b_ins b)\<rparr>"

lemma bypass_zeros_below: "k < n \<Longrightarrow> n < 2 ^ 32 \<Longrightarrow> bypass_zeros n k = n - 1 - k"
proof -
  assume k: "k < n" "n < 2 ^ 32"
  then have "(of_nat n - 1 - of_nat k :: u32) = of_nat (n - 1 - k)" by (simp add: of_nat_diff)
  then show ?thesis unfolding bypass_zeros_def using k by (simp only: unat_of_nat) simp
qed

text \<open>Property C34: shifting the data register of the selected TAP \<open>k\<close> in a chain of \<open>n\<close> TAPs delivers the
  captured bits behind the bypass bits of the TAPs above \<open>k\<close>, and completes the transaction.\<close>

theorem ShiftDR_end_to_end:
  assumes "cs_state (m_state chain) \<noteq> Unknown" "selected_tap (m_state chain) = k" "k < m_num_taps chain"
    and "m_num_taps chain \<le> g_max_num_taps" "m_num_taps chain - 1 - k + length source < 2 ^ 31"
  shows "\<exists>tx'. Execute (Initiate name txt d False) (capturing captured) (\<lambda>_. (True, ob)) err chain
        (status_of [JCShiftDR source]) =
      Some (chain\<lparr>m_state := (m_state chain)\<lparr>cs_state := Exit1DR, last_written_single_ir := None\<rparr>\<rparr>, tx') \<and>
    s_outs tx' = [take (length source) (drop (m_num_taps chain - 1 - k) captured)] \<and> status_ok tx'"
proof -
  have z: "bypass_zeros (m_num_taps chain) k = m_num_taps chain - 1 - k"
    using assms(3,4) by (intro bypass_zeros_below) (auto simp: g_max_num_taps_def)
  show ?thesis
    using assms tms_of_transition [OF assms(1), of ShiftDR] z
    by (simp add: Execute_def capturing_def visitor_defs completer_defs Let_def) linarith
qed

theorem ShiftDR_end_to_end_witness:
  "\<exists>chain' tx'. Execute (Initiate ''jtag'' ''Shift bits'' None False) (capturing [True, False, True, True])
       (\<lambda>_. (True, True)) True (three_taps 1) (status_of [JCShiftDR [False, False, False]]) = Some (chain', tx') \<and>
     s_outs tx' = [[False, True, True]] \<and> status_ok tx'"
  using ShiftDR_end_to_end [of "three_taps 1" 1 "[False, False, False]" "''jtag''" "''Shift bits''" None
      "[True, False, True, True]" True True]
  by (auto simp: three_taps_def g_max_num_taps_def)

text \<open>Instructions of several TAPs that are written to a new chain, or to one whose last instructions
  were for several TAPs too, are not sent: the driver compares the single instruction of the pending
  write with the last one written, and takes the absence of one on both sides for equality.\<close>

lemma instructions_of_two_taps_skipped:
  assumes "m_current_tdi_operation v = Some AJCWriteIR" "m_first_tdi_sit v = Some first" "v_building v"
    "last_written_single_ir (v_state v) = None" "selected_tap (v_state v) < m_num_taps (m_chain v)"
  shows "\<exists>v'. and_then (join_IR ir sit v) (FlushTDI send) = Some (True, v') \<and>
    m_jbuilder v' = m_jbuilder v \<and> v_state v' = v_state v"
  using assms by (auto simp: join_IR_def FlushTDI_def and_then_def)

end
