(* ===== verification/Execution_Gate.thy ===== *)
theory Execution_Gate
  imports Transaction
begin

text \<open>
  \<open>ExecutionGateImpl\<close> (\<open>driver/execution_gate/ExecutionGate.cpp\<close>, \<open>ExecutionGate.h\<close>), which holds back the
  threads of a simulation while the drivers have nothing for it to do.

  The critical sections of \<open>m_mutex\<close> are functions on the guarded members. The operations that may end
  a stall notify after they have left their critical section, so the step relation \<open>gate_step\<close>
  counts the notifications that are still due. Waiting releases the mutex and blocks in one step,
  and a blocked thread may also wake up without a notification.
\<close>

subsection \<open>State\<close>

definition StallIfNoRequestsAndIdle :: u32 where "StallIfNoRequestsAndIdle = 0"
definition ForceStallIfNoRequsts :: u32 where "ForceStallIfNoRequsts = 1"
definition ForceStall :: u32 where "ForceStall = 2"
definition NoStall :: u32 where "NoStall = 3"
definition Terminated :: u32 where "Terminated = 4"

lemmas gate_modes = StallIfNoRequestsAndIdle_def ForceStallIfNoRequsts_def ForceStall_def NoStall_def
  Terminated_def

record exe_gate =
  m_mode :: u32
  m_num_requests :: u64

definition new_gate :: exe_gate where
  "new_gate = \<lparr>m_mode = StallIfNoRequestsAndIdle, m_num_requests = 0\<rparr>"

subsection \<open>Operations\<close>

definition Terminate :: "exe_gate \<Rightarrow> exe_gate" where
  "Terminate g = g\<lparr>m_mode := Terminated\<rparr>"

text \<open>The first component tells whether \<open>SetMode\<close> goes on to notify; otherwise it has returned
  \<open>Terminated\<close>.\<close>

definition SetMode :: "u32 \<Rightarrow> exe_gate \<Rightarrow> bool \<times> exe_gate" where
  "SetMode mode g =
     (if m_mode g = Terminated then (False, g) else (True, g\<lparr>m_mode := mode\<rparr>))"

datatype stall_move = Wait | Leave

text \<open>One round of the loop of \<open>StallIfNeeded\<close>.\<close>

definition StallIfNeeded :: "bool \<Rightarrow> exe_gate \<Rightarrow> stall_move" where
  "StallIfNeeded target_is_idle g =
     (if m_mode g = Terminated \<or> m_mode g = NoStall then Leave
      else if m_mode g = ForceStall \<or>
              m_num_requests g = 0 \<and>
                (m_mode g = ForceStallIfNoRequsts \<or>
                 m_mode g = StallIfNoRequestsAndIdle \<and> target_is_idle) then Wait
      else Leave)"

definition AddPending :: "exe_gate \<Rightarrow> exe_gate" where
  "AddPending g = g\<lparr>m_num_requests := m_num_requests g + 1\<rparr>"

definition RemovePending :: "exe_gate \<Rightarrow> exe_gate" where
  "RemovePending g = g\<lparr>m_num_requests := m_num_requests g - 1\<rparr>"

text \<open>\<open>Execute\<close>. The output of an action is its effective mode. The mutex is free between the
  actions; \<open>others\<close> is what the rest of the program does to the gate before the action at a
  position. \<open>None\<close> is the assertion that the action is a \<open>SetExecutionGateMode\<close>.\<close>

definition put_out :: "nat \<Rightarrow> 'o \<Rightarrow> 'o status \<Rightarrow> 'o status" where
  "put_out i x tx = tx\<lparr>s_outs := (s_outs tx)[i := x]\<rparr>"

fun set_modes ::
  "string \<Rightarrow> bool \<Rightarrow> (nat \<Rightarrow> exe_gate \<Rightarrow> exe_gate) \<Rightarrow> nat list \<Rightarrow> exe_gate \<Rightarrow> u32 status \<Rightarrow>
     (exe_gate \<times> u32 status) option"
where
  "set_modes name err others [] g tx = Some (g, tx)"
| "set_modes name err others (i # is) g tx =
     (case s_ins tx ! i of
        Inr (SetExecutionGateMode mode) \<Rightarrow>
          let g = others i g;
              tx = put_out i (m_mode g) tx
          in if m_mode g = Terminated then Some (g, Fail err (CauseTerminated name) tx)
             else if Terminated \<le> mode then Some (g, Fail err (CauseInvalidArgument ''mode'') tx)
             else set_modes name err others is (g\<lparr>m_mode := mode\<rparr>) (Done i (put_out i mode tx))
      | _ \<Rightarrow> None)"

definition Execute ::
  "string \<Rightarrow> bool \<Rightarrow> (nat \<Rightarrow> exe_gate \<Rightarrow> exe_gate) \<Rightarrow> exe_gate \<Rightarrow> u32 status \<Rightarrow>
     (exe_gate \<times> u32 status) option"
where
  "Execute name err others g tx = set_modes name err others [m_first_incomplete tx..<status_end tx] g tx"

subsection \<open>Threads\<close>

text \<open>A thread of the simulation is outside the gate, about to look at the state with the mutex
  held, or blocked on \<open>m_on_new_request\<close>; \<open>bool\<close> is its \<open>target_is_idle\<close>.\<close>

datatype stalled = Looking bool | Blocked bool

record gate_run =
  run_gate :: exe_gate
  run_due :: nat
  run_threads :: "nat \<rightharpoonup> stalled"

definition wake :: "stalled \<Rightarrow> stalled" where
  "wake t = (case t of Looking b \<Rightarrow> Looking b | Blocked b \<Rightarrow> Looking b)"

definition notify_all :: "gate_run \<Rightarrow> gate_run" where
  "notify_all r = r\<lparr>run_due := run_due r - 1, run_threads := map_option wake \<circ> run_threads r\<rparr>"

definition changed :: "exe_gate \<Rightarrow> gate_run \<Rightarrow> gate_run" where
  "changed g r = r\<lparr>run_gate := g, run_due := Suc (run_due r)\<rparr>"

definition look :: "nat \<Rightarrow> bool \<Rightarrow> gate_run \<Rightarrow> gate_run" where
  "look t idle r = r\<lparr>run_threads := (run_threads r)(t :=
     (case StallIfNeeded idle (run_gate r) of Wait \<Rightarrow> Some (Blocked idle) | Leave \<Rightarrow> None))\<rparr>"

text \<open>The drivers take back only requests that they have added.\<close>

inductive gate_step :: "gate_run \<Rightarrow> gate_run \<Rightarrow> bool" where
  terminate: "gate_step r (changed (Terminate (run_gate r)) r)"
| set_mode: "SetMode mode (run_gate r) = (True, g) \<Longrightarrow> gate_step r (changed g r)"
| add_pending: "gate_step r (changed (AddPending (run_gate r)) r)"
| remove_pending: "m_num_requests (run_gate r) \<noteq> 0 \<Longrightarrow> gate_step r (r\<lparr>run_gate := RemovePending (run_gate r)\<rparr>)"
| notify: "0 < run_due r \<Longrightarrow> gate_step r (notify_all r)"
| enter: "run_threads r t = None \<Longrightarrow> gate_step r (r\<lparr>run_threads := (run_threads r)(t \<mapsto> Looking idle)\<rparr>)"
| looks: "run_threads r t = Some (Looking idle) \<Longrightarrow> gate_step r (look t idle r)"
| spurious: "run_threads r t = Some (Blocked idle) \<Longrightarrow>
    gate_step r (r\<lparr>run_threads := (run_threads r)(t \<mapsto> Looking idle)\<rparr>)"

definition start_run :: gate_run where
  "start_run = \<lparr>run_gate = new_gate, run_due = 0, run_threads = Map.empty\<rparr>"

definition may_block :: "gate_run \<Rightarrow> bool" where
  "may_block r \<longleftrightarrow>
     (\<forall>t idle. run_threads r t = Some (Blocked idle) \<longrightarrow>
        0 < run_due r \<or> StallIfNeeded idle (run_gate r) = Wait)"

subsection \<open>Nobody waits in vain\<close>

inductive_cases gate_stepE: "gate_step r r'"

text \<open>Taking a request back cannot end a stall; this is why \<open>RemovePending\<close> need not notify.\<close>

lemma RemovePending_stalls:
  "m_num_requests g \<noteq> 0 \<Longrightarrow> StallIfNeeded idle g = Wait \<Longrightarrow> StallIfNeeded idle (RemovePending g) = Wait"
  by (auto simp: StallIfNeeded_def RemovePending_def gate_modes split: if_splits)

lemma notified [simp]: "run_threads (notify_all r) t \<noteq> Some (Blocked idle)"
  by (auto simp: notify_all_def wake_def split: stalled.splits)

lemma may_block_start: "may_block start_run"
  by (simp add: may_block_def start_run_def)

lemma may_block_step: "gate_step r r' \<Longrightarrow> may_block r \<Longrightarrow> may_block r'"
  by (erule gate_stepE)
    (auto simp: may_block_def changed_def look_def split: if_splits stall_move.splits,
     metis RemovePending_stalls)

lemma may_block_reachable: "gate_step\<^sup>*\<^sup>* start_run r \<Longrightarrow> may_block r"
  by (induction rule: rtranclp_induct) (auto intro: may_block_start may_block_step)

lemma leaves:
  assumes "run_threads r t = Some (Looking idle)" "StallIfNeeded idle (run_gate r) = Leave"
  shows "\<exists>r'. gate_step r r' \<and> run_threads r' t = None"
  using gate_step.looks [OF assms(1)] assms(2) by (auto simp: look_def)

lemma notified_leaves:
  assumes "0 < run_due r" "run_threads r t = Some (Blocked idle)" "StallIfNeeded idle (run_gate r) = Leave"
  shows "\<exists>r'. gate_step\<^sup>*\<^sup>* r r' \<and> run_threads r' t = None"
proof -
  have "run_threads (notify_all r) t = Some (Looking idle)" "run_gate (notify_all r) = run_gate r"
    using assms(2) by (auto simp: notify_all_def wake_def)
  from leaves [OF this(1)] this(2) assms(3) obtain r'
    where "gate_step (notify_all r) r'" "run_threads r' t = None" by auto
  with gate_step.notify [OF assms(1)] show ?thesis by (meson converse_rtranclp_into_rtranclp r_into_rtranclp)
qed

text \<open>Property C26: no thread of the simulation misses its wake-up. In every interleaving, a thread that
  is blocked while no notification is due has reason to be: stalling is forced, or there is no
  request and the mode asks to stall then. As soon as it has no reason any more, a notification is
  due, and with it the thread leaves the gate.\<close>

theorem gate_no_lost_wakeup:
  assumes "gate_step\<^sup>*\<^sup>* start_run r" "run_threads r t = Some (Blocked idle)"
  shows "(run_due r = 0 \<longrightarrow> m_mode (run_gate r) = ForceStall \<or>
            m_num_requests (run_gate r) = 0 \<and> m_mode (run_gate r) \<noteq> Terminated \<and> m_mode (run_gate r) \<noteq> NoStall)
    \<and> (StallIfNeeded idle (run_gate r) = Leave \<longrightarrow>
         0 < run_due r \<and> (\<exists>r'. gate_step\<^sup>*\<^sup>* r r' \<and> run_threads r' t = None))"
proof -
  have "0 < run_due r \<or> StallIfNeeded idle (run_gate r) = Wait"
    using may_block_reachable [OF assms(1)] assms(2) by (auto simp: may_block_def)
  then show ?thesis
    using notified_leaves [OF _ assms(2)]
    by (auto simp: StallIfNeeded_def split: if_splits)
qed

definition idle_blocked :: gate_run where
  "idle_blocked = start_run\<lparr>run_threads := [0 \<mapsto> Blocked True]\<rparr>"

lemma idle_blocked_reachable: "gate_step\<^sup>*\<^sup>* start_run (changed (AddPending new_gate) idle_blocked)"
proof -
  let ?r = "start_run\<lparr>run_threads := [0 \<mapsto> Looking True]\<rparr>"
  have "gate_step start_run ?r"
    using gate_step.enter [of start_run 0 True] by (simp add: start_run_def)
  moreover have "gate_step ?r idle_blocked"
    using gate_step.looks [of ?r 0 True]
    by (simp add: start_run_def look_def StallIfNeeded_def new_gate_def gate_modes idle_blocked_def)
  moreover have "gate_step idle_blocked (changed (AddPending new_gate) idle_blocked)"
    using gate_step.add_pending [of idle_blocked] by (simp add: idle_blocked_def start_run_def)
  ultimately show ?thesis by (meson r_into_rtranclp rtranclp_trans)
qed

theorem gate_no_lost_wakeup_witness:
  "\<exists>r. gate_step\<^sup>*\<^sup>* start_run r \<and> run_threads r 0 = Some (Blocked True) \<and> 0 < run_due r \<and>
     (\<exists>r'. gate_step\<^sup>*\<^sup>* r r' \<and> run_threads r' 0 = None)"
proof -
  let ?r = "changed (AddPending new_gate) idle_blocked"
  have b: "run_threads ?r 0 = Some (Blocked True)" "StallIfNeeded True (run_gate ?r) = Leave"
    by (simp_all add: changed_def idle_blocked_def StallIfNeeded_def AddPending_def new_gate_def gate_modes)
  from gate_no_lost_wakeup [OF idle_blocked_reachable b(1)] b idle_blocked_reachable show ?thesis by blast
qed

subsection \<open>The modes set by a transaction\<close>

definition sets_modes :: "u32 status \<Rightarrow> bool" where
  "sets_modes tx \<longleftrightarrow>
     length (s_outs tx) = length (s_ins tx) \<and> \<not> s_allocation_failure tx \<and>
     m_first_incomplete tx \<le> status_end tx \<and>
     (\<forall>a \<in> set (s_ins tx). \<exists>mode. a = Inr (SetExecutionGateMode mode))"

definition mode_at :: "u32 status \<Rightarrow> nat \<Rightarrow> u32" where
  "mode_at tx i = (case s_ins tx ! i of Inr (SetExecutionGateMode mode) \<Rightarrow> mode | _ \<Rightarrow> 0)"

definition mode_refused :: "string \<Rightarrow> u32 \<Rightarrow> cause" where
  "mode_refused name mode =
     (if mode = Terminated then CauseTerminated name else CauseInvalidArgument ''mode'')"

definition modes_outcome ::
  "string \<Rightarrow> bool \<Rightarrow> nat \<Rightarrow> exe_gate \<Rightarrow> u32 status \<Rightarrow> exe_gate \<Rightarrow> u32 status \<Rightarrow> bool"
where
  "modes_outcome name err k g tx g' tx' \<longleftrightarrow>
     s_ins tx' = s_ins tx \<and> k \<le> m_first_incomplete tx' \<and> m_first_incomplete tx' \<le> status_end tx \<and>
     (\<forall>i. k \<le> i \<and> i < m_first_incomplete tx' \<longrightarrow>
        mode_at tx i < Terminated \<and> s_outs tx' ! i = mode_at tx i) \<and>
     (\<forall>i. i < k \<or> m_first_incomplete tx' < i \<longrightarrow> s_outs tx' ! i = s_outs tx ! i) \<and>
     (if m_first_incomplete tx' = status_end tx
      then m_error tx' = m_error tx \<and>
           m_mode g' = (if k < status_end tx then mode_at tx (status_end tx - 1) else m_mode g)
      else s_outs tx' ! m_first_incomplete tx' = m_mode g' \<and>
           (m_mode g' = Terminated \<or> Terminated \<le> mode_at tx (m_first_incomplete tx')) \<and>
           m_error tx' =
             (if err then Some (ActionError (s_ins tx ! m_first_incomplete tx') (mode_refused name (m_mode g')))
              else None))"

lemma modes_outcome_step:
  assumes "modes_outcome name err (Suc k) g1 tx1 g' tx'" "m_mode g1 = mode_at tx k" "mode_at tx k < Terminated"
    and "s_ins tx1 = s_ins tx" "m_error tx1 = m_error tx" "s_outs tx1 = (s_outs tx)[k := mode_at tx k]"
    and "status_end tx1 = status_end tx" "mode_at tx1 = mode_at tx" "k < status_end tx" "k < length (s_outs tx)"
  shows "modes_outcome name err k g tx g' tx'"
proof -
  have "mode_at tx i < Terminated \<and> s_outs tx' ! i = mode_at tx i"
    if "k \<le> i" "i < m_first_incomplete tx'" for i
    using that assms by (cases "i = k") (auto simp: modes_outcome_def)
  moreover have "status_end tx - 1 = k" if "\<not> Suc k < status_end tx" using that assms(9) by simp
  ultimately show ?thesis
    using assms by (auto simp: modes_outcome_def split: if_splits)
qed

lemma set_modes_outcome:
  assumes "sets_modes tx" "m_first_incomplete tx = k"
  shows "\<exists>g' tx'. set_modes name err others [k..<status_end tx] g tx = Some (g', tx') \<and>
    modes_outcome name err k g tx g' tx'"
  using assms
proof (induction "status_end tx - k" arbitrary: k g tx)
  case 0
  then have "status_end tx = k" by (auto simp: sets_modes_def)
  then show ?case using 0 by (auto simp: modes_outcome_def)
next
  case (Suc d)
  then have k: "k < status_end tx" by simp
  then obtain mode where mode: "s_ins tx ! k = Inr (SetExecutionGateMode mode)"
    using Suc.prems(1) nth_mem by (fastforce simp: sets_modes_def status_end_def)
  have le: "k < length (s_outs tx)" using Suc.prems(1) k by (simp add: sets_modes_def status_end_def)
  define g1 where "g1 = others k g"
  show ?case
  proof (cases "m_mode g1 = Terminated \<or> Terminated \<le> mode")
    case True
    have not_ok: "\<not> status_ok (put_out k x tx)" for x
      using k Suc.prems(2) by (simp add: status_ok_def put_out_def status_end_def)
    define tx1 where "tx1 = Fail err (mode_refused name (m_mode g1)) (put_out k (m_mode g1) tx)"
    have "set_modes name err others [k..<status_end tx] g tx = Some (g1, tx1)"
      using True k mode by (auto simp: upt_conv_Cons Let_def g1_def tx1_def mode_refused_def)
    moreover have "modes_outcome name err k g tx g1 tx1"
      using k Suc.prems(2) not_ok mode le True
      by (auto simp: tx1_def modes_outcome_def Fail_def FailImpl_def MakeActionError_def deref_def
          put_out_def status_end_def mode_at_def)
    ultimately show ?thesis by blast
  next
    case False
    define tx1 where "tx1 = Done k (put_out k mode (put_out k (m_mode g1) tx))"
    have tx1: "s_ins tx1 = s_ins tx" "m_first_incomplete tx1 = Suc k" "m_error tx1 = m_error tx"
      "s_outs tx1 = (s_outs tx)[k := mode]" "status_end tx1 = status_end tx" "mode_at tx1 = mode_at tx"
      using k mode
      by (simp_all add: tx1_def Done_def next_position_def put_out_def status_end_def mode_at_def fun_eq_iff)
    have "sets_modes tx1"
      using Suc.prems(1) k tx1 by (simp add: sets_modes_def tx1_def Done_def put_out_def)
    moreover have "d = status_end tx1 - Suc k" using Suc.hyps(2) tx1(5) by simp
    ultimately obtain g' tx' where r: "set_modes name err others [Suc k..<status_end tx] (g1\<lparr>m_mode := mode\<rparr>) tx1 = Some (g', tx')"
      "modes_outcome name err (Suc k) (g1\<lparr>m_mode := mode\<rparr>) tx1 g' tx'"
      using Suc.hyps(1) [of tx1 "Suc k" "g1\<lparr>m_mode := mode\<rparr>"] tx1 by auto
    have "set_modes name err others [k..<status_end tx] g tx = Some (g', tx')"
      using r(1) False k mode by (simp add: upt_conv_Cons Let_def g1_def tx1_def)
    moreover have "modes_outcome name err k g tx g' tx'"
      using modes_outcome_step [of name err k "g1\<lparr>m_mode := mode\<rparr>" tx1 g' tx' tx g] r(2) tx1 False mode le k
      by (simp add: mode_at_def not_le)
    ultimately show ?thesis by blast
  qed
qed

text \<open>A transaction sets its modes in order and records each as effective. It stops at the
  first mode that is not one a client may set, or when the gate has been terminated; the error says
  which, the actions before it are complete and those after it have no effect. Whatever other
  threads do to the gate in between.\<close>

theorem gate_execute_correct:
  assumes "sets_modes tx"
  shows "\<exists>g' tx'. Execute name err others g tx = Some (g', tx') \<and>
    modes_outcome name err (m_first_incomplete tx) g tx g' tx'"
  using set_modes_outcome [OF assms refl] by (auto simp: Execute_def)

definition bad_mode_tx :: "u32 status" where
  "bad_mode_tx = \<lparr>s_ins = [Inr (SetExecutionGateMode NoStall), Inr (SetExecutionGateMode 7)], s_outs = [0, 0],
     s_allocation_failure = False, s_dependent = \<lparr>dep_chain = [], dep_length = 0\<rparr>,
     m_first_incomplete = 0, m_error = None\<rparr>"

theorem gate_execute_correct_witness:
  "sets_modes bad_mode_tx \<and>
   (\<exists>g' tx'. Execute ''gate'' True (\<lambda>_ g. g) new_gate bad_mode_tx = Some (g', tx') \<and>
      modes_outcome ''gate'' True 0 new_gate bad_mode_tx g' tx')"
proof -
  have "sets_modes bad_mode_tx" "m_first_incomplete bad_mode_tx = 0"
    by (auto simp: bad_mode_tx_def sets_modes_def status_end_def)
  with gate_execute_correct [of bad_mode_tx "''gate''" True "\<lambda>_ g. g" new_gate] show ?thesis by simp
qed

end
