(* ===== verification/Rv_Dtm.thy ===== *)
theory Rv_Dtm
  imports Jtag_Tap Latency Execution_Gate
begin

text \<open>
  \<open>RVJtagDTM\<close> (\<open>driver/riscv/RVJtagDTM.cpp\<close>, \<open>RVJtagDTM.h\<close>): the RISC-V debug transport on a JTAG chain.
  Accesses of the debug module interface (DMI) become scans of a data register; a scan sends a
  request and captures the response to the request of the scan before it.

  The chain driver below is the parameter \<open>jtag\<close>: what \<open>Schedule\<close> returns for the builder of the
  k-th request. The mutex is released while a request is awaited; \<open>others\<close> is what the other
  transactions do to the driver meanwhile. \<open>None\<close> is the use of a null pointer. The output of an
  action is the word read.
\<close>

subsection \<open>Registers\<close>

definition g_dmi_op_bitsize :: nat where "g_dmi_op_bitsize = 2"
definition g_dmi_data_bitsize :: nat where "g_dmi_data_bitsize = 32"
definition g_dmi_addr_bitsize :: nat where "g_dmi_addr_bitsize = 30"

lemmas dmi_bitsizes = g_dmi_op_bitsize_def g_dmi_data_bitsize_def g_dmi_addr_bitsize_def

text \<open>The bit fields of \<open>DTMCSReg\<close>, from the lowest bit.\<close>

definition field :: "nat \<Rightarrow> nat \<Rightarrow> 'a::len word \<Rightarrow> 'a word" where
  "field pos n w = take_bit n (drop_bit pos w)"

definition dtmcs_version :: "u32 \<Rightarrow> u32" where "dtmcs_version = field 0 4"
definition dtmcs_abits :: "u32 \<Rightarrow> u32" where "dtmcs_abits = field 4 6"
definition dtmcs_idle :: "u32 \<Rightarrow> u32" where "dtmcs_idle = field 12 3"
definition dtmcs_errinfo :: "u32 \<Rightarrow> u32" where "dtmcs_errinfo = field 18 3"

definition dmireset :: u32 where "dmireset = push_bit 16 1"
definition dtmhardreset :: u32 where "dtmhardreset = push_bit 17 1"

text \<open>\<open>DMIReg\<close>.\<close>

definition dmi_reg :: "u64 \<Rightarrow> u32 \<Rightarrow> u32 \<Rightarrow> u64" where
  "dmi_reg op data address =
     take_bit g_dmi_op_bitsize op OR push_bit g_dmi_op_bitsize (ucast data) OR
     push_bit (g_dmi_op_bitsize + g_dmi_data_bitsize) (take_bit g_dmi_addr_bitsize (ucast address))"

definition dmi_op :: "u64 \<Rightarrow> u64" where
  "dmi_op = field 0 g_dmi_op_bitsize"

definition dmi_data :: "u64 \<Rightarrow> u32" where
  "dmi_data w = ucast (field g_dmi_op_bitsize g_dmi_data_bitsize w)"

definition DMIOpRead :: u64 where "DMIOpRead = 1"
definition DMIOpWrite :: u64 where "DMIOpWrite = 2"
definition DMIStatusOk :: u64 where "DMIStatusOk = 0"
definition DMIStatusFail :: u64 where "DMIStatusFail = 2"
definition DMIStatusBusy :: u64 where "DMIStatusBusy = 3"

lemmas dmi_codes = DMIOpRead_def DMIOpWrite_def DMIStatusOk_def DMIStatusFail_def DMIStatusBusy_def

text \<open>A value as the bits of a shift, and captured bits as a value.\<close>

definition bits_of :: "'a::len word \<Rightarrow> nat \<Rightarrow> bool list" where
  "bits_of w n = map (bit w) [0..<n]"

definition read_bits :: "nat \<Rightarrow> bool list \<Rightarrow> 'a::len word" where
  "read_bits n bs = horner_sum of_bool 2 (take n bs)"

subsection \<open>State\<close>

record dtm_config =
  tap_id :: u32
  dtmcs_ir_value :: u32
  dmi_ir_value :: u32
  latency :: calibrator

datatype DTMState = DTMInitial | DTMOperating | DTMError | DTMInvalid

datatype AttemptStatus = AttemptSuccess | MyFailure | PrevFailure | MyBusy | PrevBusy

record dtm_state =
  dtm_state :: DTMState
  num_errors :: nat

record dtm =
  m_config :: dtm_config
  m_state :: dtm_state
  m_dmi_size :: nat
  m_gate_open :: bool

definition default_config :: dtm_config where
  "default_config = \<lparr>tap_id = 0, dtmcs_ir_value = 0x10, dmi_ir_value = 0x11, latency = LatencyCalibrator 0 1000\<rparr>"

definition RVJtagDTM :: "dtm_config \<Rightarrow> dtm" where
  "RVJtagDTM config = \<lparr>m_config = config, m_state = \<lparr>dtm_state = DTMInitial, num_errors = 0\<rparr>, m_dmi_size = 0,
     m_gate_open = True\<rparr>"

definition set_dtm_state :: "DTMState \<Rightarrow> dtm \<Rightarrow> dtm" where
  "set_dtm_state s d = d\<lparr>m_state := (m_state d)\<lparr>dtm_state := s\<rparr>\<rparr>"

definition set_latency :: "(calibrator \<Rightarrow> calibrator) \<Rightarrow> dtm \<Rightarrow> dtm" where
  "set_latency f d = d\<lparr>m_config := (m_config d)\<lparr>latency := f (latency (m_config d))\<rparr>\<rparr>"

subsection \<open>Requests\<close>

text \<open>What the rest of the program does: the chain driver, the other transactions, and which
  allocations succeed (of actions of a request, and of errors).\<close>

record world =
  jtag :: "nat \<Rightarrow> bool list builder \<Rightarrow> bool list status"
  others :: "nat \<Rightarrow> dtm \<Rightarrow> dtm"
  alloc :: "nat \<Rightarrow> nat \<Rightarrow> bool \<times> bool"
  err :: "nat \<Rightarrow> bool"

definition request :: "world \<Rightarrow> nat \<Rightarrow> string \<Rightarrow> dependent \<Rightarrow> action list \<Rightarrow> bool list builder" where
  "request w k description dep acts =
     foldl (\<lambda>b (n, a). snd (Add (fst (alloc w k n)) (snd (alloc w k n)) a [] b))
       (Initiate ''JtagChain'' description (Some dep) False) (enumerate 0 acts)"

definition go_to :: "jc_state \<Rightarrow> u32 \<Rightarrow> action" where
  "go_to s n = JCGoToState (of_nat (JCStateID s)) n"

text \<open>\<open>Out<JCShiftDR>\<close> of the action at a position.\<close>

definition shift_out :: "bool list status \<Rightarrow> nat \<Rightarrow> bool list option" where
  "shift_out jstatus i =
     (case fst (deref jstatus i) of Some (Inr (JCShiftDR _)) \<Rightarrow> snd (deref jstatus i) | _ \<Rightarrow> None)"

subsection \<open>Discovery\<close>

definition discover_actions :: "dtm \<Rightarrow> action list" where
  "discover_actions d =
     [JCSelectTAP (tap_id (m_config d)), JCWriteIR (dtmcs_ir_value (m_config d)),
      JCShiftDR (bits_of (dtmhardreset OR dmireset) 32), go_to RunTestIdle 0, JCShiftDR (bits_of (0 :: u32) 32)]"

definition read_dtmcs :: "bool \<Rightarrow> u32 \<Rightarrow> u32 status \<Rightarrow> dtm \<Rightarrow> bool \<times> u32 status \<times> dtm" where
  "read_dtmcs e dtmcs tx d =
     (if dtmcs_version dtmcs = 0
      then (False, Fail e (CauseInvalidVersion ''RISC-V DTM'' (dtmcs_version dtmcs)) tx, d)
      else if dtmcs_errinfo dtmcs \<noteq> 0
      then (False, Fail e (CauseFailedToClearErrorFlag ''dtmcs.errinfo'' (dtmcs_errinfo dtmcs)) tx, d)
      else if g_dmi_addr_bitsize < unat (dtmcs_abits dtmcs)
      then (False, Fail e (CauseValueOutOfRange ''dtmcs.abits'' (ucast (dtmcs_abits dtmcs)) 0
              (of_nat g_dmi_addr_bitsize)) tx, d)
      else
        let min_latency = (if dtmcs_idle dtmcs = 0 then 0 else dtmcs_idle dtmcs - 1)
        in (True, tx, set_latency (BumpMin min_latency)
              (d\<lparr>m_dmi_size := g_dmi_op_bitsize + g_dmi_data_bitsize + unat (dtmcs_abits dtmcs)\<rparr>)))"

definition Discover :: "world \<Rightarrow> nat \<Rightarrow> u32 status \<Rightarrow> dtm \<Rightarrow> bool \<times> u32 status \<times> dtm" where
  "Discover w k tx d =
     (let result = jtag w k (request w k ''Read dtmcs'' (s_dependent tx) (discover_actions d));
          d = others w k d
      in if \<not> status_ok result then (False, Fail (err w k) (CauseNestedError (m_error result)) tx, d)
         else case shift_out result 4 of
                None \<Rightarrow> (False, Fail (err w k) CauseAllocationFailure tx, d)
              | Some out \<Rightarrow> read_dtmcs (err w k) (read_bits 32 out) tx d)"

subsection \<open>An attempt\<close>

definition max_address :: "nat \<Rightarrow> u64" where
  "max_address dmi_size = push_bit (dmi_size - g_dmi_op_bitsize - g_dmi_data_bitsize) 1 - 1"

text \<open>The scans of the incomplete actions. \<open>waiting\<close>: the first access was sent by the attempt before.
  The left result is the position and the address of an access that is out of range.\<close>

fun dmi_request :: "action \<Rightarrow> (u64 \<times> u32 \<times> u32) option" where
  "dmi_request (RVWriteDMI a x) = Some (DMIOpWrite, x, a)"
| "dmi_request (RVReadDMI a) = Some (DMIOpRead, 0, a)"
| "dmi_request _ = None"

fun access_actions ::
  "dtm \<Rightarrow> u32 status \<Rightarrow> bool \<Rightarrow> nat list \<Rightarrow> action list \<Rightarrow> ((nat \<times> u32) + action list) option"
where
  "access_actions d tx waiting [] xact = Some (Inr xact)"
| "access_actions d tx waiting (i # is) xact =
     (case s_ins tx ! i of
        Inr (SkipCycles n) \<Rightarrow> access_actions d tx waiting is (xact @ [go_to RunTestIdle n])
      | Inr act \<Rightarrow>
          if waiting then access_actions d tx False is xact
          else do { (op, data, address) \<leftarrow> dmi_request act;
                    if max_address (m_dmi_size d) < ucast address then Some (Inl (i, address))
                    else access_actions d tx False is
                           (xact @ [JCShiftDR (bits_of (dmi_reg op data address) (m_dmi_size d)),
                                    go_to RunTestIdle (m_current_latency (latency (m_config d)))]) }
      | Inl _ \<Rightarrow> None)"

definition attempt_head :: "dtm \<Rightarrow> action list" where
  "attempt_head d =
     JCSelectTAP (tap_id (m_config d)) #
     (if dtm_state (m_state d) = DTMError
      then [JCWriteIR (dtmcs_ir_value (m_config d)), JCWriteDR (bits_of dmireset 32)] else []) @
     [JCWriteIR (dmi_ir_value (m_config d))]"

definition attempt_tail :: "dtm \<Rightarrow> action list" where
  "attempt_tail d = [JCShiftDR (bits_of (0 :: u64) (m_dmi_size d)), go_to UpdateDR 0]"

text \<open>What follows works through the complete actions of the request; \<open>j\<close> is the iterator \<open>jit\<close>.\<close>

record progress =
  j :: nat
  a_tx :: "u32 status"
  a_dtm :: dtm

definition nested_failure :: "bool \<Rightarrow> bool list status \<Rightarrow> progress \<Rightarrow> progress" where
  "nested_failure e jstatus s =
     s\<lparr>a_dtm := set_dtm_state DTMInvalid (a_dtm s), a_tx := Fail e (CauseNestedError (m_error jstatus)) (a_tx s)\<rparr>"

definition check_fail_inc :: "bool \<Rightarrow> bool list status \<Rightarrow> progress \<Rightarrow> bool \<times> progress" where
  "check_fail_inc e jstatus s =
     (if j s = m_first_incomplete jstatus then (True, nested_failure e jstatus s) else (False, s\<lparr>j := Suc (j s)\<rparr>))"

text \<open>\<open>check_fail_inc() || check_fail_inc()\<close>.\<close>

definition check_fail_inc2 :: "bool \<Rightarrow> bool list status \<Rightarrow> progress \<Rightarrow> bool \<times> progress" where
  "check_fail_inc2 e jstatus s =
     (case check_fail_inc e jstatus s of (True, s) \<Rightarrow> (True, s) | (False, s) \<Rightarrow> check_fail_inc e jstatus s)"

fun is_dmi_read :: "nat + action \<Rightarrow> bool" where
  "is_dmi_read (Inr (RVReadDMI a)) = True"
| "is_dmi_read _ = False"

text \<open>The handling of the response to the access at position \<open>i\<close>: \<open>Inr\<close> to go on with the next action.\<close>

definition dmi_response ::
  "bool \<Rightarrow> bool list status \<Rightarrow> nat \<Rightarrow> nat \<Rightarrow> progress \<Rightarrow> ((AttemptStatus \<times> progress) + progress) option"
where
  "dmi_response e jstatus errors_before i s =
     (if j s = m_first_incomplete jstatus then Some (Inl (MyFailure, nested_failure e jstatus s))
      else do { out \<leftarrow> shift_out jstatus (j s);
                let dmi_out = (read_bits (m_dmi_size (a_dtm s)) out :: u64);
                let s = snd (check_fail_inc e jstatus (s\<lparr>j := Suc (j s)\<rparr>));
                if dmi_op dmi_out = DMIStatusOk
                then Some (Inr (s\<lparr>a_tx := Done i (if is_dmi_read (s_ins (a_tx s) ! i)
                       then put_out i (dmi_data dmi_out) (a_tx s) else a_tx s)\<rparr>))
                else
                  let my_error = (errors_before = num_errors (m_state (a_dtm s)));
                      s = (if my_error
                           then s\<lparr>a_dtm := (a_dtm s)\<lparr>m_state := \<lparr>dtm_state = DTMError,
                                  num_errors = Suc (num_errors (m_state (a_dtm s)))\<rparr>\<rparr>\<rparr>
                           else s)
                  in if dmi_op dmi_out = DMIStatusBusy
                     then Some (Inl (if my_error then MyBusy else PrevBusy, s))
                     else Some (Inl (if my_error then MyFailure else PrevFailure,
                            s\<lparr>a_tx := Fail e CauseTargetError (a_tx s)\<rparr>)) })"

fun responses ::
  "bool \<Rightarrow> bool list status \<Rightarrow> nat \<Rightarrow> bool \<Rightarrow> nat list \<Rightarrow> progress \<Rightarrow> (AttemptStatus \<times> progress) option"
where
  "responses e jstatus errors_before own_first [] s = Some (AttemptSuccess, s)"
| "responses e jstatus errors_before own_first (i # is) s =
     (case s_ins (a_tx s) ! i of
        Inr (SkipCycles n) \<Rightarrow>
          (case check_fail_inc e jstatus s of
             (True, s) \<Rightarrow> Some (MyFailure, s)
           | (False, s) \<Rightarrow> responses e jstatus errors_before own_first is (s\<lparr>a_tx := Done i (a_tx s)\<rparr>))
      | _ \<Rightarrow>
          (case (if own_first then check_fail_inc2 e jstatus s else (False, s)) of
             (True, s) \<Rightarrow> Some (MyFailure, s)
           | (False, s) \<Rightarrow>
               do { r \<leftarrow> dmi_response e jstatus errors_before i s;
                    (case r of
                       Inl finished \<Rightarrow> Some finished
                     | Inr s \<Rightarrow> responses e jstatus errors_before False is s) }))"

text \<open>\<open>Attempt\<close> once the chain driver has answered.\<close>

definition after_await ::
  "bool \<Rightarrow> bool list status \<Rightarrow> dtm_state \<Rightarrow> bool \<Rightarrow> nat list \<Rightarrow> u32 status \<Rightarrow> dtm \<Rightarrow> (AttemptStatus \<times> u32 status \<times> dtm) option"
where
  "after_await e jstatus state_before waiting incomplete tx d =
     (let s = snd (check_fail_inc e jstatus \<lparr>j = 0, a_tx = tx, a_dtm = d\<rparr>);
          (stop, s) = (if dtm_state state_before = DTMError then check_fail_inc2 e jstatus s else (False, s))
      in if stop then Some (MyFailure, a_tx s, a_dtm s)
         else do { (status, s) \<leftarrow> responses e jstatus (num_errors state_before) (\<not> waiting) incomplete
                      (snd (check_fail_inc e jstatus s));
                   Some (status, a_tx s, a_dtm s) })"

definition Attempt ::
  "world \<Rightarrow> nat \<Rightarrow> AttemptStatus \<Rightarrow> u32 status \<Rightarrow> dtm \<Rightarrow> (AttemptStatus \<times> u32 status \<times> dtm) option"
where
  "Attempt w k prev_attempt tx d =
     (let state_before = m_state d;
          incomplete = [m_first_incomplete tx..<status_end tx];
          waiting = (prev_attempt = MyBusy)
      in do { built \<leftarrow> access_actions d tx waiting incomplete (attempt_head d);
              (case built of
                 Inl (i, address) \<Rightarrow>
                   Some (MyFailure, FailAt (err w k) i (CauseValueOutOfRange ''DMI address'' (ucast address) 0
                           (max_address (m_dmi_size d))) tx, d)
               | Inr xact \<Rightarrow>
                   let d = (if dtm_state state_before = DTMError then set_dtm_state DTMOperating d else d);
                       jstatus = jtag w k (request w k ''Access DMI'' (s_dependent tx) (xact @ attempt_tail d))
                   in after_await (err w k) jstatus state_before waiting incomplete tx (others w k d)) })"

subsection \<open>Execute\<close>

text \<open>The loop over attempts; the outer \<open>None\<close> is a fault or a loop without end.\<close>

partial_function (option) attempts ::
  "world \<Rightarrow> nat \<Rightarrow> AttemptStatus \<Rightarrow> u32 status \<Rightarrow> dtm \<Rightarrow> (u32 status \<times> dtm) option"
where
  "attempts w k prev_attempt tx d =
     do { (status, tx, d) \<leftarrow> Attempt w k prev_attempt tx d;
          (case status of
             AttemptSuccess \<Rightarrow> Some (tx, set_latency Enough d)
           | MyFailure \<Rightarrow> Some (tx, d)
           | MyBusy \<Rightarrow>
               if IsMax (latency (m_config d))
               then Some (Fail (err w k) (CauseMaxLatencyReached (m_current_latency (latency (m_config d)))) tx,
                          set_dtm_state DTMInvalid d)
               else attempts w (Suc k) status tx (set_latency TooLow d)
           | _ \<Rightarrow> attempts w (Suc k) status tx d) }"

text \<open>\<open>Execute\<close> from the point where the gate lets the transaction pass.\<close>

definition Execute :: "string \<Rightarrow> world \<Rightarrow> u32 status \<Rightarrow> dtm \<Rightarrow> (u32 status \<times> dtm) option" where
  "Execute name w tx d =
     (if dtm_state (m_state d) = DTMInvalid then Some (Fail (err w 0) (CauseTerminated name) tx, d)
      else if dtm_state (m_state d) = DTMInitial then
        (case Discover w 0 tx (d\<lparr>m_gate_open := False\<rparr>) of
           (False, tx, d) \<Rightarrow> Some (tx, set_dtm_state DTMInvalid d\<lparr>m_gate_open := True\<rparr>)
         | (True, tx, d) \<Rightarrow>
             do { (tx, d) \<leftarrow> attempts w 1 AttemptSuccess tx (set_dtm_state DTMOperating d);
                  Some (tx, d\<lparr>m_gate_open := True\<rparr>) })
      else attempts w 1 AttemptSuccess tx d)"

subsection \<open>The request and its responses\<close>

text \<open>A transaction of accesses only.\<close>

fun is_access :: "nat + action \<Rightarrow> bool" where
  "is_access (Inr a) = (dmi_request a \<noteq> None)"
| "is_access (Inl d) = False"

definition accesses :: "u32 status \<Rightarrow> bool" where
  "accesses tx \<longleftrightarrow> (\<forall>a \<in> set (s_ins tx). is_access a) \<and> length (s_outs tx) = length (s_ins tx)"

lemma is_access_cases:
  assumes "is_access a"
  obtains (dmi_write) addr x where "a = Inr (RVWriteDMI addr x)" | (dmi_read) addr where "a = Inr (RVReadDMI addr)"
proof (cases a)
  case (Inr b)
  then show ?thesis using assms that by (cases b) auto
qed (use assms in simp)

lemma is_access_not_unknown: "is_access a \<Longrightarrow> \<not> isl a"
  by (cases a) simp_all

definition in_range :: "nat \<Rightarrow> nat + action \<Rightarrow> bool" where
  "in_range dmi_size a \<longleftrightarrow>
     (case a of Inr act \<Rightarrow> (case dmi_request act of Some (op, x, addr) \<Rightarrow> \<not> max_address dmi_size < ucast addr | _ \<Rightarrow> True) | _ \<Rightarrow> True)"

definition scan :: "dtm \<Rightarrow> nat + action \<Rightarrow> action list" where
  "scan d a =
     (case a of
        Inr act \<Rightarrow>
          (case dmi_request act of
             Some (op, x, addr) \<Rightarrow>
               [JCShiftDR (bits_of (dmi_reg op x addr) (m_dmi_size d)),
                go_to RunTestIdle (m_current_latency (latency (m_config d)))]
           | None \<Rightarrow> [])
      | Inl _ \<Rightarrow> [])"

lemma length_scan: "is_access a \<Longrightarrow> \<exists>bs g. scan d a = [JCShiftDR bs, g]"
  by (erule is_access_cases) (auto simp: scan_def)

lemma access_actions_scans:
  assumes "\<forall>i \<in> set is. is_access (s_ins tx ! i)"
  shows "access_actions d tx False is xact = Some (Inr (xact @ concat (map (\<lambda>i. scan d (s_ins tx ! i)) is))) \<and>
      (\<forall>i \<in> set is. in_range (m_dmi_size d) (s_ins tx ! i)) \<or>
    (\<exists>i address. i \<in> set is \<and> access_actions d tx False is xact = Some (Inl (i, address)) \<and>
       \<not> in_range (m_dmi_size d) (s_ins tx ! i))"
  using assms
proof (induction "is" arbitrary: xact)
  case (Cons i "is")
  have a: "is_access (s_ins tx ! i)" using Cons.prems by simp
  then show ?case
    using Cons.IH [of "xact @ scan d (s_ins tx ! i)"] Cons.prems
    by (cases rule: is_access_cases) (auto simp: scan_def in_range_def)
qed simp

lemma access_actions_waiting:
  assumes "is_access (s_ins tx ! i)"
  shows "access_actions d tx True (i # is) xact = access_actions d tx False is xact"
  using assms by (cases rule: is_access_cases) simp_all

lemma request_all:
  assumes "\<forall>n. alloc w k n = (True, True)"
  shows "b_ins (request w k description dep acts) = map Inr acts"
    "length (b_outs (request w k description dep acts)) = length acts"
proof -
  have "b_ins (foldl (\<lambda>b (n, a). snd (Add (fst (alloc w k n)) (snd (alloc w k n)) a [] b)) b (enumerate m acts)) =
      b_ins b @ map Inr acts \<and>
    length (b_outs (foldl (\<lambda>b (n, a). snd (Add (fst (alloc w k n)) (snd (alloc w k n)) a [] b)) b (enumerate m acts))) =
      length (b_outs b) + length acts" for b :: "bool list builder" and m
    using assms by (induction acts arbitrary: b m) (simp_all add: Add_def)
  then show "b_ins (request w k description dep acts) = map Inr acts"
    "length (b_outs (request w k description dep acts)) = length acts"
    by (simp_all add: request_def Initiate_def)
qed

text \<open>The chain driver reports on the request it was given.\<close>

definition honest :: "world \<Rightarrow> bool" where
  "honest w \<longleftrightarrow>
     (\<forall>k n. alloc w k n = (True, True)) \<and>
     (\<forall>k b. s_ins (jtag w k b) = b_ins b \<and> length (s_outs (jtag w k b)) = length (b_ins b) \<and>
        m_first_incomplete (jtag w k b) \<le> length (b_ins b))"

text \<open>Every second action from \<open>base\<close> on is a scan.\<close>

definition scans_at :: "bool list status \<Rightarrow> nat \<Rightarrow> nat \<Rightarrow> bool" where
  "scans_at jst base M \<longleftrightarrow> (\<forall>m \<le> M. shift_out jst (base + 2 * m) = Some (s_outs jst ! (base + 2 * m)))"

lemma concat_scans_nth:
  assumes "\<forall>i \<in> set is. is_access (f i)" "m < length is"
  shows "\<exists>bs. concat (map (\<lambda>i. scan d (f i)) is) ! (2 * m) = JCShiftDR bs"
    and "length (concat (map (\<lambda>i. scan d (f i)) is)) = 2 * length is"
proof -
  show len: "length (concat (map (\<lambda>i. scan d (f i)) is)) = 2 * length is"
    using assms(1) by (induction "is") (auto dest!: length_scan [of _ d])
  show "\<exists>bs. concat (map (\<lambda>i. scan d (f i)) is) ! (2 * m) = JCShiftDR bs"
    using assms
  proof (induction "is" arbitrary: m)
    case (Cons i "is")
    obtain bs g where s: "scan d (f i) = [JCShiftDR bs, g]" using length_scan [of "f i" d] Cons.prems(1) by auto
    show ?case
    proof (cases m)
      case 0
      then show ?thesis using s by simp
    next
      case (Suc m')
      then show ?thesis using Cons.IH [of m'] Cons.prems s by simp
    qed
  qed simp
qed

lemma request_scans:
  assumes "honest w" "\<forall>i \<in> set is. is_access (f i)"
    and "jst = jtag w k (request w k description dep ((H @ concat (map (\<lambda>i. scan d (f i)) is)) @ attempt_tail d'))"
  shows "scans_at jst (length H) (length is)" "length (s_ins jst) = length H + 2 * length is + 2"
    "m_first_incomplete jst \<le> length (s_ins jst)"
proof -
  let ?acts = "(H @ concat (map (\<lambda>i. scan d (f i)) is)) @ attempt_tail d'"
  have ins: "s_ins jst = map Inr ?acts" "length (s_outs jst) = length ?acts"
    "m_first_incomplete jst \<le> length ?acts"
    using assms(1) request_all(1) [of w k description dep ?acts] unfolding assms(3) honest_def
    by (metis length_map)+
  have len: "length (concat (map (\<lambda>i. scan d (f i)) is)) = 2 * length is"
    using assms(2) by (induction "is") (auto dest!: length_scan [of _ d])
  have "\<exists>bs. ?acts ! (length H + 2 * m) = JCShiftDR bs" if "m \<le> length is" for m
  proof (cases "m = length is")
    case True
    then show ?thesis using len by (simp add: nth_append attempt_tail_def)
  next
    case False
    then show ?thesis using that concat_scans_nth(1) [OF assms(2), of m d] len by (simp add: nth_append)
  qed
  moreover have "length H + 2 * m < length ?acts" if "m \<le> length is" for m
    using that len by (simp add: attempt_tail_def)
  ultimately have "\<exists>bs. s_ins jst ! (length H + 2 * m) = Inr (JCShiftDR bs)" "length H + 2 * m < length (s_ins jst)"
    if "m \<le> length is" for m
    using that unfolding ins(1) by (metis nth_map, simp)
  then show "scans_at jst (length H) (length is)"
    unfolding scans_at_def shift_out_def deref_def using ins(1,2) by fastforce
  show "length (s_ins jst) = length H + 2 * length is + 2" "m_first_incomplete jst \<le> length (s_ins jst)"
    using ins len by (simp_all add: attempt_tail_def)
qed

text \<open>The iterator over the complete actions is where it belongs, or at the end.\<close>

definition near :: "bool list status \<Rightarrow> nat \<Rightarrow> nat \<Rightarrow> bool" where
  "near jst i at \<longleftrightarrow> i = at \<or> i = m_first_incomplete jst"

definition same_setup :: "dtm \<Rightarrow> dtm \<Rightarrow> bool" where
  "same_setup d d' \<longleftrightarrow> m_config d' = m_config d \<and> m_dmi_size d' = m_dmi_size d \<and> m_gate_open d' = m_gate_open d"

definition same_except :: "progress \<Rightarrow> progress \<Rightarrow> bool" where
  "same_except s s' \<longleftrightarrow>
     s_ins (a_tx s') = s_ins (a_tx s) \<and> length (s_outs (a_tx s')) = length (s_outs (a_tx s)) \<and>
     s_dependent (a_tx s') = s_dependent (a_tx s) \<and>
     same_setup (a_dtm s) (a_dtm s')"

lemma same_except_trans: "same_except s s' \<Longrightarrow> same_except s' s'' \<Longrightarrow> same_except s s''"
  by (simp add: same_except_def same_setup_def)

lemma same_setup_refl [simp]: "same_setup d d"
  by (simp add: same_setup_def)

lemma tx_simps [simp]:
  "s_ins (Fail e c tx) = s_ins tx" "s_outs (Fail e c tx) = s_outs tx" "s_dependent (Fail e c tx) = s_dependent tx"
  "s_ins (Done i tx) = s_ins tx" "s_outs (Done i tx) = s_outs tx" "s_dependent (Done i tx) = s_dependent tx"
  "s_ins (put_out i v tx) = s_ins tx" "length (s_outs (put_out i v tx)) = length (s_outs tx)"
  "s_dependent (put_out i v tx) = s_dependent tx" "m_first_incomplete (Fail e c tx) = m_first_incomplete tx"
  by (simp_all add: Fail_def FailImpl_def Done_def put_out_def)

lemma set_dtm_state_simps [simp]:
  "m_config (set_dtm_state x d) = m_config d" "m_dmi_size (set_dtm_state x d) = m_dmi_size d"
  "num_errors (m_state (set_dtm_state x d)) = num_errors (m_state d)" "m_gate_open (set_dtm_state x d) = m_gate_open d"
  "dtm_state (m_state (set_dtm_state x d)) = x"
  by (simp_all add: set_dtm_state_def)

lemma nested_failure_same:
  "same_except s (nested_failure e jst s)" "j (nested_failure e jst s) = j s"
  "num_errors (m_state (a_dtm (nested_failure e jst s))) = num_errors (m_state (a_dtm s))"
  by (simp_all add: nested_failure_def same_except_def same_setup_def)

lemma check_fail_inc_near:
  assumes "near jst (j s) at"
  shows "same_except s (snd (check_fail_inc e jst s))"
    "num_errors (m_state (a_dtm (snd (check_fail_inc e jst s)))) = num_errors (m_state (a_dtm s))"
    "near jst (j (snd (check_fail_inc e jst s))) (Suc at)"
    "\<not> fst (check_fail_inc e jst s) \<Longrightarrow> j (snd (check_fail_inc e jst s)) = Suc at"
  using assms nested_failure_same
  by (auto simp: check_fail_inc_def near_def) (auto simp: same_except_def)

lemma check_fail_inc2_near:
  assumes "near jst (j s) at"
  shows "same_except s (snd (check_fail_inc2 e jst s))"
    "num_errors (m_state (a_dtm (snd (check_fail_inc2 e jst s)))) = num_errors (m_state (a_dtm s))"
    "\<not> fst (check_fail_inc2 e jst s) \<Longrightarrow> j (snd (check_fail_inc2 e jst s)) = at + 2"
proof -
  obtain b s1 where 1: "check_fail_inc e jst s = (b, s1)" by fastforce
  note n = check_fail_inc_near [OF assms, of e, unfolded 1, simplified]
  note m = check_fail_inc_near [OF n(3), of e]
  show "same_except s (snd (check_fail_inc2 e jst s))"
    "num_errors (m_state (a_dtm (snd (check_fail_inc2 e jst s)))) = num_errors (m_state (a_dtm s))"
    "\<not> fst (check_fail_inc2 e jst s) \<Longrightarrow> j (snd (check_fail_inc2 e jst s)) = at + 2"
    using 1 n m by (cases b; auto simp: check_fail_inc2_def intro: same_except_trans)+
qed

text \<open>Handling a response does not fault, and the failures of a driver without other transactions are
  its own.\<close>

lemma dmi_response_total:
  assumes "near jst (j s) at" "shift_out jst at \<noteq> None" "nb = num_errors (m_state (a_dtm s))"
  shows "\<exists>r. dmi_response e jst nb i s = Some r \<and>
    (case r of
       Inl (status, s') \<Rightarrow> (status = MyFailure \<or> status = MyBusy) \<and> same_except s s'
     | Inr s' \<Rightarrow> same_except s s' \<and> near jst (j s') (at + 2) \<and> nb = num_errors (m_state (a_dtm s')))"
proof (cases "j s = m_first_incomplete jst")
  case True
  then show ?thesis using nested_failure_same by (simp add: dmi_response_def)
next
  case False
  then have at: "j s = at" using assms(1) by (simp add: near_def)
  obtain out where out: "shift_out jst at = Some out" using assms(2) by auto
  define s1 where "s1 = snd (check_fail_inc e jst (s\<lparr>j := Suc at\<rparr>))"
  have "near jst (j (s\<lparr>j := Suc at\<rparr>)) (Suc at)" by (simp add: near_def)
  note c = check_fail_inc_near [OF this, of e, folded s1_def]
  have s1: "same_except s s1" "num_errors (m_state (a_dtm s1)) = nb" "near jst (j s1) (at + 2)"
    using c(1-3) assms(3) by (simp_all add: same_except_def)
  then show ?thesis
    using False out at
    by (auto simp: dmi_response_def Let_def s1_def [symmetric] same_except_def same_setup_def)
qed

lemma responses_total:
  assumes "scans_at jst base M" "\<forall>i \<in> set is. is_access (s_ins (a_tx s) ! i)"
    and "if own then near jst (j s) base \<and> length is \<le> M else near jst (j s) (base + 2 * m) \<and> m + length is \<le> Suc M"
    and "nb = num_errors (m_state (a_dtm s))"
  shows "\<exists>status s'. responses e jst nb own is s = Some (status, s') \<and>
    status \<noteq> PrevFailure \<and> status \<noteq> PrevBusy \<and> same_except s s'"
  using assms(2-4)
proof (induction "is" arbitrary: s own m)
  case Nil
  then show ?case by (simp add: same_except_def)
next
  case (Cons i "is")
  have acc: "is_access (s_ins (a_tx s) ! i)" using Cons.prems(1) by simp
  define m' where "m' = (if own then 1 else m)"
  obtain stop s1 where s1: "(if own then check_fail_inc2 e jst s else (False, s)) = (stop, s1)" by fastforce
  have r1: "same_except s s1" "nb = num_errors (m_state (a_dtm s1))" "\<not> stop \<Longrightarrow> near jst (j s1) (base + 2 * m')"
    using s1 Cons.prems(2,3) check_fail_inc2_near [of jst s base e]
    by (auto simp: m'_def near_def same_except_def split: if_splits)
  have le: "m' + length is \<le> M" "m' \<le> M" using Cons.prems(2) by (auto simp: m'_def split: if_splits)
  show ?case
  proof (cases stop)
    case True
    then show ?thesis using s1 r1(1) acc by (cases rule: is_access_cases [OF acc]) auto
  next
    case False
    have "shift_out jst (base + 2 * m') \<noteq> None" using assms(1) le(2) by (simp add: scans_at_def)
    from dmi_response_total [OF r1(3) [OF False] this r1(2), of e i] obtain r where
      r: "dmi_response e jst nb i s1 = Some r"
      "case r of
         Inl (status, s') \<Rightarrow> (status = MyFailure \<or> status = MyBusy) \<and> same_except s1 s'
       | Inr s' \<Rightarrow> same_except s1 s' \<and> near jst (j s') (base + 2 * m' + 2) \<and> nb = num_errors (m_state (a_dtm s'))"
      by blast
    have unfold: "responses e jst nb own (i # is) s =
        (case r of Inl finished \<Rightarrow> Some finished | Inr s \<Rightarrow> responses e jst nb False is s)"
      using s1 False r(1) by (cases rule: is_access_cases [OF acc]) simp_all
    show ?thesis
    proof (cases r)
      case (Inl q)
      then show ?thesis using unfold r(2) r1(1) by (cases q) (auto intro: same_except_trans)
    next
      case (Inr s2)
      then have s2: "same_except s1 s2" "near jst (j s2) (base + 2 * Suc m')" "nb = num_errors (m_state (a_dtm s2))"
        using r(2) by simp_all
      have "same_except s s2" using same_except_trans [OF r1(1) s2(1)] .
      moreover have "\<forall>i \<in> set is. is_access (s_ins (a_tx s2) ! i)"
        using Cons.prems(1) \<open>same_except s s2\<close> by (simp add: same_except_def)
      ultimately show ?thesis
        using Cons.IH [of s2 False "Suc m'"] s2 le unfold Inr by (auto intro: same_except_trans)
    qed
  qed
qed


text \<open>The iterator after the preamble of the request.\<close>

lemma preamble_near:
  assumes "s = snd (check_fail_inc e jst s0)" "j s0 = 0"
    and "(stop, s1) = (if st = DTMError then check_fail_inc2 e jst s else (False, s))"
  shows "same_except s0 s1" "num_errors (m_state (a_dtm s1)) = num_errors (m_state (a_dtm s0))"
    "\<not> stop \<Longrightarrow> near jst (j s1) (if st = DTMError then 3 else 1)"
proof -
  have "near jst (j s0) 0" using assms(2) by (simp add: near_def)
  note c = check_fail_inc_near [OF this, of e, folded assms(1)]
  have c2: "same_except s (snd (check_fail_inc2 e jst s))"
    "num_errors (m_state (a_dtm (snd (check_fail_inc2 e jst s)))) = num_errors (m_state (a_dtm s))"
    "\<not> fst (check_fail_inc2 e jst s) \<Longrightarrow> j (snd (check_fail_inc2 e jst s)) = Suc 0 + 2"
    using check_fail_inc2_near [OF c(3)] by blast+
  show "same_except s0 s1" "num_errors (m_state (a_dtm s1)) = num_errors (m_state (a_dtm s0))"
    "\<not> stop \<Longrightarrow> near jst (j s1) (if st = DTMError then 3 else 1)"
    using assms(3) c(1-3) c2 same_except_trans [OF c(1) c2(1)]
    by (cases "st = DTMError"; cases "check_fail_inc2 e jst s"; force simp: near_def)+
qed

lemma length_attempt_head: "length (attempt_head d) = (if dtm_state (m_state d) = DTMError then 4 else 2)"
  by (simp add: attempt_head_def)

lemma after_await_total:
  assumes "scans_at jst (if dtm_state sb = DTMError then 4 else 2) M" "\<forall>i \<in> set is. is_access (s_ins tx ! i)"
    and "length is \<le> (if waiting then Suc M else M)" "num_errors sb = num_errors (m_state d)" "accesses tx"
  shows "\<exists>status tx' d'. after_await e jst sb waiting is tx d = Some (status, tx', d') \<and>
    status \<noteq> PrevFailure \<and> status \<noteq> PrevBusy \<and> accesses tx' \<and> same_setup d d'"
proof -
  define s0 where "s0 = \<lparr>j = 0, a_tx = tx, a_dtm = d\<rparr>"
  have s0: "j s0 = 0" "a_tx s0 = tx" "a_dtm s0 = d" by (simp_all add: s0_def)
  define s where "s = snd (check_fail_inc e jst s0)"
  obtain stop s1 where s1: "(stop, s1) = (if dtm_state sb = DTMError then check_fail_inc2 e jst s else (False, s))"
    by (metis surj_pair)
  note pre = preamble_near [OF s_def s0(1) s1]
  have fin: "accesses (a_tx t) \<and> same_setup d (a_dtm t)" if "same_except s0 t" for t
    using that assms(5) by (simp add: same_except_def s0 accesses_def)
  define s2 where "s2 = snd (check_fail_inc e jst s1)"
  have A: "after_await e jst sb waiting is tx d = (if stop then Some (MyFailure, a_tx s1, a_dtm s1)
      else do { (status, s) \<leftarrow> responses e jst (num_errors sb) (\<not> waiting) is s2; Some (status, a_tx s, a_dtm s) })"
    unfolding after_await_def Let_def s0_def [symmetric] s_def [symmetric] s1 [symmetric] s2_def by simp
  show ?thesis
  proof (cases stop)
    case True
    then show ?thesis using A fin [OF pre(1)] by simp
  next
    case False
    define base where "base = (if dtm_state sb = DTMError then 4 else 2 :: nat)"
    note c = check_fail_inc_near [OF pre(3) [OF False], of e, folded s2_def]
    have same: "same_except s0 s2" using pre(1) c(1) by (rule same_except_trans)
    have "\<forall>i \<in> set is. is_access (s_ins (a_tx s2) ! i)" using assms(2) same by (simp add: same_except_def s0)
    moreover have "if \<not> waiting then near jst (j s2) base \<and> length is \<le> M
        else near jst (j s2) (base + 2 * 0) \<and> 0 + length is \<le> Suc M"
      using c(3) assms(3) by (simp add: base_def numeral_2_eq_2 split: if_splits)
    moreover have "num_errors sb = num_errors (m_state (a_dtm s2))"
      using c(2) pre(2) s0 assms(4) by simp
    ultimately obtain status s' where r: "responses e jst (num_errors sb) (\<not> waiting) is s2 = Some (status, s')"
      "status \<noteq> PrevFailure" "status \<noteq> PrevBusy" "same_except s2 s'"
      using responses_total [OF assms(1) [folded base_def]] by blast
    show ?thesis using A False r fin [OF same_except_trans [OF same r(4)]] by simp
  qed
qed

text \<open>The accesses an attempt sends: the first one is not sent again when its response is awaited.\<close>

definition to_send :: "bool \<Rightarrow> u32 status \<Rightarrow> nat list" where
  "to_send waiting tx = (if waiting then tl else id) [m_first_incomplete tx..<status_end tx]"

lemma accesses_nth: "accesses tx \<Longrightarrow> \<forall>i \<in> set [m_first_incomplete tx..<status_end tx]. is_access (s_ins tx ! i)"
  by (auto simp: accesses_def status_end_def)

lemma to_send_access: "accesses tx \<Longrightarrow> \<forall>i \<in> set (to_send waiting tx). is_access (s_ins tx ! i)"
  using accesses_nth [of tx] by (auto simp: to_send_def)

lemma access_actions_to_send:
  assumes "accesses tx"
  shows "access_actions d tx waiting [m_first_incomplete tx..<status_end tx] xact =
    access_actions d tx False (to_send waiting tx) xact"
proof (cases "waiting \<and> m_first_incomplete tx < status_end tx")
  case True
  then show ?thesis
    using accesses_nth [OF assms] access_actions_waiting
    by (simp add: to_send_def upt_conv_Cons del: access_actions.simps)
qed (auto simp: to_send_def)

lemma Attempt_total:
  assumes "honest w" "\<forall>k d. others w k d = d" "accesses tx"
  shows "\<exists>status tx' d'. Attempt w k prev tx d = Some (status, tx', d') \<and>
    status \<noteq> PrevFailure \<and> status \<noteq> PrevBusy \<and> accesses tx' \<and> same_setup d d'"
proof -
  let ?ws = "to_send (prev = MyBusy) tx"
  note accw = to_send_access [OF assms(3), of "prev = MyBusy"]
  define d1 where "d1 = (if dtm_state (m_state d) = DTMError then set_dtm_state DTMOperating d else d)"
  have d1: "\<And>d'. same_setup d1 d' \<Longrightarrow> same_setup d d'" "num_errors (m_state d) = num_errors (m_state d1)"
    by (simp_all add: d1_def same_setup_def)
  show ?thesis
    using access_actions_scans [OF accw, of d "attempt_head d"]
  proof (elim disjE exE conjE)
    fix i address assume "access_actions d tx False ?ws (attempt_head d) = Some (Inl (i, address))"
    then show ?thesis
      using assms(3) access_actions_to_send [OF assms(3)]
      by (auto simp: Attempt_def Let_def accesses_def FailAt_def FailImpl_def)
  next
    assume b: "access_actions d tx False ?ws (attempt_head d) =
      Some (Inr (attempt_head d @ concat (map (\<lambda>i. scan d (s_ins tx ! i)) ?ws)))"
    define jst where "jst = jtag w k (request w k ''Access DMI'' (s_dependent tx)
      ((attempt_head d @ concat (map (\<lambda>i. scan d (s_ins tx ! i)) ?ws)) @ attempt_tail d1))"
    have A: "Attempt w k prev tx d =
        after_await (err w k) jst (m_state d) (prev = MyBusy) [m_first_incomplete tx..<status_end tx] tx d1"
      unfolding Attempt_def Let_def access_actions_to_send [OF assms(3)] b jst_def d1_def using assms(2) by simp
    have "length [m_first_incomplete tx..<status_end tx] \<le> (if prev = MyBusy then Suc (length ?ws) else length ?ws)"
      by (auto simp: to_send_def)
    then show ?thesis
      using after_await_total [OF request_scans(1) [OF assms(1) accw jst_def, unfolded length_attempt_head]
          accesses_nth [OF assms(3)] _ d1(2) assms(3)] d1(1)
      unfolding A by metis
  qed
qed

lemma attempts_return:
  assumes "honest w" "\<forall>k d. others w k d = d" "accesses tx"
    and "\<exists>i \<le> n. IsMax ((TooLow ^^ i) (latency (m_config d)))"
  shows "\<exists>tx' d'. attempts w k prev tx d = Some (tx', d') \<and> m_dmi_size d' = m_dmi_size d \<and> m_gate_open d' = m_gate_open d"
  using assms(3,4)
proof (induction n arbitrary: k prev tx d)
  case 0
  obtain status tx' d' where a: "Attempt w k prev tx d = Some (status, tx', d')" "status \<noteq> PrevFailure"
    "status \<noteq> PrevBusy" "same_setup d d'"
    using Attempt_total [OF assms(1,2) 0(1)] by blast
  then show ?case
    using 0 by (subst attempts.simps) (auto simp: same_setup_def set_latency_def split: AttemptStatus.splits)
next
  case (Suc n)
  obtain status tx' d' where a: "Attempt w k prev tx d = Some (status, tx', d')" "status \<noteq> PrevFailure"
    "status \<noteq> PrevBusy" "accesses tx'" "same_setup d d'"
    using Attempt_total [OF assms(1,2) Suc.prems(1)] by blast
  have "\<exists>tx'' d''. attempts w (Suc k) MyBusy tx' (set_latency TooLow d') = Some (tx'', d'') \<and>
      m_dmi_size d'' = m_dmi_size (set_latency TooLow d') \<and> m_gate_open d'' = m_gate_open (set_latency TooLow d')"
    if "\<not> IsMax (latency (m_config d'))"
  proof (rule Suc.IH [OF a(4)])
    obtain i where i: "i \<le> Suc n" "IsMax ((TooLow ^^ i) (latency (m_config d')))"
      using Suc.prems(2) a(5) by (auto simp: same_setup_def)
    then obtain i' where "i = Suc i'" using \<open>\<not> IsMax (latency (m_config d'))\<close> by (cases i) auto
    then show "\<exists>i \<le> n. IsMax ((TooLow ^^ i) (latency (m_config (set_latency TooLow d'))))"
      using i by (auto simp: set_latency_def funpow_swap1 intro!: exI [of _ i'])
  qed
  then show ?case
    using a by (subst attempts.simps) (auto simp: same_setup_def set_latency_def split: AttemptStatus.splits)
qed

text \<open>The scans of a driver that has discovered its target fit in 64 bits.\<close>

definition dtm_ok :: "dtm \<Rightarrow> bool" where
  "dtm_ok d \<longleftrightarrow> (dtm_state (m_state d) \<in> {DTMOperating, DTMError} \<longrightarrow> 34 \<le> m_dmi_size d \<and> m_dmi_size d \<le> 64)"

lemma Discover_setup:
  assumes "Discover w k tx d = (ok, tx', d')" "\<forall>k d. others w k d = d" "calibrator_ok (latency (m_config d))"
  shows "s_ins tx' = s_ins tx" "length (s_outs tx') = length (s_outs tx)" "calibrator_ok (latency (m_config d'))"
    "m_gate_open d' = m_gate_open d" "ok \<Longrightarrow> 34 \<le> m_dmi_size d' \<and> m_dmi_size d' \<le> 64"
  using assms BumpMin_ok
  by (auto simp: Discover_def read_dtmcs_def Let_def set_latency_def dmi_bitsizes split: if_splits option.splits)

text \<open>Property C7: a transaction of accesses always ends. Whatever the target answers, and however often it is
  busy, the latency reaches its maximum after at most 32 repetitions and the transaction fails; \<open>Execute\<close> never
  uses a null pointer on the way, leaves the discovery gate open and a data register of at most 64 bits.\<close>

theorem Execute_returns:
  assumes "honest w" "\<forall>k d. others w k d = d" "accesses tx" "calibrator_ok (latency (m_config d))"
  shows "\<exists>tx' d'. Execute name w tx d = Some (tx', d') \<and> (m_gate_open d \<longrightarrow> m_gate_open d') \<and> (dtm_ok d \<longrightarrow> dtm_ok d')"
proof (cases "dtm_state (m_state d)")
  case DTMInitial
  obtain ok tx1 d1 where D: "Discover w 0 tx (d\<lparr>m_gate_open := False\<rparr>) = (ok, tx1, d1)" by (metis prod_cases3)
  note s = Discover_setup [OF D assms(2)]
  have acc: "accesses tx1" and c: "calibrator_ok (latency (m_config d1))" using s(1-3) assms(3,4) by (simp_all add: accesses_def)
  have "\<exists>tx' d'. attempts w 1 AttemptSuccess tx1 (set_dtm_state DTMOperating d1) = Some (tx', d') \<and>
      m_dmi_size d' = m_dmi_size (set_dtm_state DTMOperating d1) \<and> m_gate_open d' = m_gate_open (set_dtm_state DTMOperating d1)"
    using TooLow_reaches [OF c, of 0 32] by (intro attempts_return [OF assms(1,2) acc, of 32]) simp
  then show ?thesis
    using DTMInitial D s(4,5) assms(4) by (cases ok) (auto simp: Execute_def dtm_ok_def)
next
  case DTMInvalid
  then show ?thesis by (simp add: Execute_def)
qed (use attempts_return [OF assms(1-3), of 32 d 1 AttemptSuccess] TooLow_reaches [OF assms(4), of 0 32]
    in \<open>auto simp: Execute_def dtm_ok_def\<close>)

text \<open>A chain driver that completes every request and captures the same bits with every scan.\<close>

definition answering :: "bool list \<Rightarrow> world" where
  "answering bs =
     \<lparr>jtag = (\<lambda>k b. (StatusOf b)\<lparr>s_outs := replicate (length (b_ins b)) bs, s_allocation_failure := False,
               m_first_incomplete := length (b_ins b)\<rparr>),
      others = (\<lambda>k d. d), alloc = (\<lambda>k n. (True, True)), err = (\<lambda>k. True)\<rparr>"

definition example_tx :: "action list \<Rightarrow> u32 status" where
  "example_tx acts =
     \<lparr>s_ins = map Inr acts, s_outs = replicate (length acts) 0, s_allocation_failure = False,
      s_dependent = \<lparr>dep_chain = [], dep_length = 0\<rparr>, m_first_incomplete = 0, m_error = None\<rparr>"

lemma answering_honest [simp]: "honest (answering bs)" "others (answering bs) k d = d"
  by (simp_all add: honest_def answering_def StatusOf_def)

theorem Execute_returns_witness:
  "\<exists>tx' d'. Execute ''dtm'' (answering (bits_of (3 :: u64) 41)) (example_tx [RVReadDMI 5, RVWriteDMI 6 7])
     (RVJtagDTM default_config) = Some (tx', d') \<and> m_gate_open d' \<and> dtm_ok d'"
proof -
  have "calibrator_ok (latency (m_config (RVJtagDTM default_config)))" by code_simp
  moreover have "accesses (example_tx [RVReadDMI 5, RVWriteDMI 6 7])" by (simp add: accesses_def example_tx_def)
  moreover have "m_gate_open (RVJtagDTM default_config)" "dtm_ok (RVJtagDTM default_config)"
    by (simp_all add: RVJtagDTM_def dtm_ok_def)
  ultimately show ?thesis
    using Execute_returns [of "answering (bits_of (3 :: u64) 41)" "example_tx [RVReadDMI 5, RVWriteDMI 6 7]"
        "RVJtagDTM default_config" "''dtm''"] by simp
qed

subsection \<open>What the discovery decides\<close>

definition usable :: "u32 \<Rightarrow> bool" where
  "usable dtmcs \<longleftrightarrow> dtmcs_version dtmcs \<noteq> 0 \<and> dtmcs_errinfo dtmcs = 0 \<and> unat (dtmcs_abits dtmcs) \<le> 30"

definition discover_status :: "world \<Rightarrow> u32 status \<Rightarrow> dtm \<Rightarrow> bool list status" where
  "discover_status w tx d = jtag w 0 (request w 0 ''Read dtmcs'' (s_dependent tx) (discover_actions d))"

lemma discover_status_out:
  assumes "honest w"
  shows "shift_out (discover_status w tx d) 4 = Some (s_outs (discover_status w tx d) ! 4)"
proof -
  let ?acts = "discover_actions d"
  have "s_ins (discover_status w tx d) = map Inr ?acts" "length (s_outs (discover_status w tx d)) = length ?acts"
    using assms request_all(1) [of w 0 "''Read dtmcs''" "s_dependent tx" ?acts]
    unfolding discover_status_def honest_def by (metis length_map)+
  then show ?thesis by (simp add: shift_out_def deref_def discover_actions_def)
qed

lemma Discover_result:
  assumes "honest w" "\<forall>k d. others w k d = d"
  shows "Discover w 0 tx d =
    (if status_ok (discover_status w tx d)
     then read_dtmcs (err w 0) (read_bits 32 (s_outs (discover_status w tx d) ! 4)) tx d
     else (False, Fail (err w 0) (CauseNestedError (m_error (discover_status w tx d))) tx, d))"
  using discover_status_out [OF assms(1)] assms(2) by (simp add: Discover_def Let_def discover_status_def [symmetric])

lemma status_ok_Fail: "status_ok (Fail e c tx) = status_ok tx"
  by (simp add: Fail_def FailImpl_def status_ok_def status_end_def)

text \<open>Property C36: the first transaction decides about the target. One that reports a version, no error and at most
  30 address bits sets the size of the data register and the least latency it asks for; any other target, and any
  failure of the chain, fails the transaction, opens the gate, and makes every later transaction fail with
  \<open>CauseTerminated\<close>.\<close>

theorem discovery_decides:
  assumes "honest w" "\<forall>k d. others w k d = d" "dtm_state (m_state d) = DTMInitial" "\<not> status_ok tx"
  shows "let st = discover_status w tx d; dtmcs = (read_bits 32 (s_outs st ! 4) :: u32)
    in if status_ok st \<and> usable dtmcs
       then \<exists>d'. Discover w 0 tx d = (True, tx, d') \<and> m_dmi_size d' = 34 + unat (dtmcs_abits dtmcs) \<and>
              latency (m_config d') = BumpMin (if dtmcs_idle dtmcs = 0 then 0 else dtmcs_idle dtmcs - 1) (latency (m_config d))
       else \<exists>tx' d'. Execute name w tx d = Some (tx', d') \<and> \<not> status_ok tx' \<and> m_gate_open d' \<and>
              (\<forall>w' tx2. Execute name w' tx2 d' = Some (Fail (err w' 0) (CauseTerminated name) tx2, d'))"
proof -
  define st where "st = discover_status w tx d"
  define dtmcs where "dtmcs = (read_bits 32 (s_outs st ! 4) :: u32)"
  note D = Discover_result [OF assms(1,2), of tx]
  have st': "discover_status w tx (d\<lparr>m_gate_open := False\<rparr>) = st"
    by (simp add: st_def discover_status_def discover_actions_def)
  note D1 = D [of d, folded st_def, folded dtmcs_def] and D2 = D [of "d\<lparr>m_gate_open := False\<rparr>", unfolded st', folded dtmcs_def]
  have "\<exists>d'. Discover w 0 tx d = (True, tx, d') \<and> m_dmi_size d' = 34 + unat (dtmcs_abits dtmcs) \<and>
      latency (m_config d') = BumpMin (if dtmcs_idle dtmcs = 0 then 0 else dtmcs_idle dtmcs - 1) (latency (m_config d))"
    if "status_ok st" "usable dtmcs"
    using that D1 by (simp add: read_dtmcs_def usable_def dmi_bitsizes set_latency_def Let_def)
  moreover have "\<exists>tx' d'. Execute name w tx d = Some (tx', d') \<and> \<not> status_ok tx' \<and> m_gate_open d' \<and>
      (\<forall>w' tx2. Execute name w' tx2 d' = Some (Fail (err w' 0) (CauseTerminated name) tx2, d'))"
    if unusable: "\<not> (status_ok st \<and> usable dtmcs)"
  proof -
    obtain e c where "Discover w 0 tx (d\<lparr>m_gate_open := False\<rparr>) = (False, Fail e c tx, d\<lparr>m_gate_open := False\<rparr>)"
      using unusable D2 by (auto simp: read_dtmcs_def usable_def dmi_bitsizes split: if_splits)
    then show ?thesis using assms(3,4) by (simp add: Execute_def status_ok_Fail set_dtm_state_def)
  qed
  ultimately show ?thesis
    unfolding Let_def st_def [symmetric] dtmcs_def [symmetric]
    by (cases "status_ok st \<and> usable dtmcs") (simp_all only: if_True if_False simp_thms)
qed

theorem discovery_decides_witness:
  "let w = answering (bits_of (0x1071 :: u32) 32); tx = example_tx [RVReadDMI 5]; d = RVJtagDTM default_config in
   \<exists>d'. Discover w 0 tx d = (True, tx, d') \<and> m_dmi_size d' = 41"
proof -
  let ?w = "answering (bits_of (0x1071 :: u32) 32)" and ?tx = "example_tx [RVReadDMI 5]" and ?d = "RVJtagDTM default_config"
  let ?v = "read_bits 32 (s_outs (discover_status ?w ?tx ?d) ! 4) :: u32"
  have "dtm_state (m_state ?d) = DTMInitial" "\<not> status_ok ?tx" "status_ok (discover_status ?w ?tx ?d)" "usable ?v"
    "34 + unat (dtmcs_abits ?v) = 41"
    by code_simp+
  then show ?thesis using discovery_decides [of ?w ?d ?tx "''dtm''"] by (auto simp: Let_def)
qed

subsection \<open>What the accesses receive\<close>

text \<open>\<open>p\<close> accesses are complete and \<open>R i\<close> is the response captured for access \<open>i\<close>: the accesses up to the
  first response that is not \<open>ok\<close> are complete afterwards, and the reads among them have their data.\<close>

definition num_ok :: "(nat \<Rightarrow> u64) \<Rightarrow> nat \<Rightarrow> nat \<Rightarrow> nat" where
  "num_ok R p E = length (takeWhile (\<lambda>i. dmi_op (R i) = DMIStatusOk) [p..<E])"

definition answered :: "(nat \<Rightarrow> u64) \<Rightarrow> u32 status \<Rightarrow> u32 status \<Rightarrow> bool" where
  "answered R tx tx' \<longleftrightarrow>
     (let p = m_first_incomplete tx; n = num_ok R p (status_end tx)
      in m_first_incomplete tx' = p + n \<and> s_ins tx' = s_ins tx \<and> length (s_outs tx') = length (s_outs tx) \<and>
         (\<forall>i < length (s_outs tx). s_outs tx' ! i =
            (if p \<le> i \<and> i < p + n \<and> is_dmi_read (s_ins tx ! i) then dmi_data (R i) else s_outs tx ! i)))"

definition outcome :: "(nat \<Rightarrow> u64) \<Rightarrow> nat \<Rightarrow> nat \<Rightarrow> AttemptStatus" where
  "outcome R p E =
     (let n = num_ok R p E
      in if p + n = E then AttemptSuccess else if dmi_op (R (p + n)) = DMIStatusBusy then MyBusy else MyFailure)"

lemma num_ok_step:
  assumes "p < E"
  shows "num_ok R p E = (if dmi_op (R p) = DMIStatusOk then Suc (num_ok R (Suc p) E) else 0)"
  using assms by (simp add: num_ok_def upt_conv_Cons)

lemma num_ok_le: "num_ok R p E \<le> E - p"
  using length_takeWhile_le [of _ "[p..<E]"] by (simp add: num_ok_def)

lemma responses_deliver:
  assumes "\<And>i. p \<le> i \<Longrightarrow> i < E \<Longrightarrow> shift_out jst (c + 2 * (i - p)) = Some (out i)"
    and "c + 2 * (E - p) \<le> m_first_incomplete jst" "j s = c" "m_first_incomplete (a_tx s) = p" "status_end (a_tx s) = E"
    and "p \<le> E" "accesses (a_tx s)" "nb = num_errors (m_state (a_dtm s))"
    and R: "R = (\<lambda>i. read_bits (m_dmi_size (a_dtm s)) (out i))"
  shows "\<exists>s'. responses e jst nb False [p..<E] s = Some (outcome R p E, s') \<and> answered R (a_tx s) (a_tx s')"
  using assms(1-8) R
proof (induction "E - p" arbitrary: p c s)
  case 0
  then show ?case by (auto simp: outcome_def num_ok_def answered_def)
next
  case (Suc x)
  have p: "p < E" using Suc.hyps(2) by simp
  have acc: "is_access (s_ins (a_tx s) ! p)" using accesses_nth [OF Suc.prems(7)] Suc.prems(4,5) p by simp
  have out: "shift_out jst c = Some (out p)" using Suc.prems(1) [of p] p by simp
  have lt: "Suc c < m_first_incomplete jst" using Suc.prems(2) p by simp
  define tx1 where "tx1 = Done p (if is_dmi_read (s_ins (a_tx s) ! p) then put_out p (dmi_data (R p)) (a_tx s) else a_tx s)"
  define s1 where "s1 = s\<lparr>j := c + 2, a_tx := tx1\<rparr>"
  have unfold: "responses e jst nb False [p..<E] s =
      do { r \<leftarrow> dmi_response e jst nb p s;
           (case r of Inl finished \<Rightarrow> Some finished | Inr s \<Rightarrow> responses e jst nb False [Suc p..<E] s) }"
    using acc p by (cases rule: is_access_cases) (simp_all add: upt_conv_Cons)
  show ?case
  proof (cases "dmi_op (R p) = DMIStatusOk")
    case True
    then have resp: "dmi_response e jst nb p s = Some (Inr s1)"
      using out lt Suc.prems(3,9) by (simp add: dmi_response_def check_fail_inc_def s1_def tx1_def)
    have tx1: "m_first_incomplete tx1 = Suc p" "s_ins tx1 = s_ins (a_tx s)" "length (s_outs tx1) = length (s_outs (a_tx s))"
      "status_end tx1 = E" "accesses tx1"
      using Suc.prems(5,7) p is_access_not_unknown [OF acc]
      by (auto simp: tx1_def Done_def next_position_def status_end_def accesses_def put_out_def)
    obtain s' where s': "responses e jst nb False [Suc p..<E] s1 = Some (outcome R (Suc p) E, s')" "answered R tx1 (a_tx s')"
    proof -
      have next_out: "shift_out jst (c + 2 + 2 * (i - Suc p)) = Some (out i)" if "Suc p \<le> i" "i < E" for i
      proof -
        have "c + 2 + 2 * (i - Suc p) = c + 2 * (i - p)" using that(1) by simp
        then show ?thesis using Suc.prems(1) [of i] that by (metis Suc_leD)
      qed
      have x: "x = E - Suc p" "c + 2 + 2 * (E - Suc p) \<le> m_first_incomplete jst" using Suc.hyps(2) Suc.prems(2) by simp_all
      show thesis
        using Suc.hyps(1) [of "Suc p" "c + 2" s1, OF x(1) next_out x(2)] Suc.prems(5,8,9) tx1 p that
        by (auto simp: s1_def)
    qed
    have pl: "p < length (s_outs (a_tx s))" using p Suc.prems(5,7) by (simp add: accesses_def status_end_def)
    then have "s_outs tx1 = (s_outs (a_tx s))[p := if is_dmi_read (s_ins (a_tx s) ! p) then dmi_data (R p) else s_outs (a_tx s) ! p]"
      by (simp add: tx1_def Done_def put_out_def)
    then have "answered R (a_tx s) (a_tx s')"
      using s'(2) tx1 num_ok_step [OF p, of R] True Suc.prems(4,5) pl
      by (auto simp: answered_def Let_def nth_list_update Suc_le_eq le_less)
    moreover have "outcome R p E = outcome R (Suc p) E" using num_ok_step [OF p, of R] True by (simp add: outcome_def)
    ultimately show ?thesis using unfold resp s'(1) by simp
  next
    case False
    then have "num_ok R p E = 0" using num_ok_step [OF p, of R] by simp
    then show ?thesis
      using unfold False out lt p Suc.prems(3,4,5,8,9)
      by (auto simp: dmi_response_def check_fail_inc_def outcome_def answered_def Let_def dmi_codes)
  qed
qed


lemma check_fail_inc_inside: "j s < m_first_incomplete jst \<Longrightarrow> check_fail_inc e jst s = (False, s\<lparr>j := Suc (j s)\<rparr>)"
  by (simp add: check_fail_inc_def)

lemma check_fail_inc2_inside:
  "Suc (j s) < m_first_incomplete jst \<Longrightarrow> check_fail_inc2 e jst s = (False, s\<lparr>j := j s + 2\<rparr>)"
  by (simp add: check_fail_inc2_def check_fail_inc_inside)

lemma responses_own_first:
  assumes "is_access (s_ins (a_tx s) ! i)" "Suc (j s) < m_first_incomplete jst"
  shows "responses e jst nb True (i # is) s = responses e jst nb False (i # is) (s\<lparr>j := j s + 2\<rparr>)"
  using assms(1) by (cases rule: is_access_cases) (simp_all add: check_fail_inc2_inside [OF assms(2)])

text \<open>The response to access \<open>i\<close>: the bits captured by the scan behind the one that sent it, the first scan of
  the request for an access sent by the attempt before.\<close>

definition response_of :: "bool list status \<Rightarrow> nat \<Rightarrow> bool \<Rightarrow> nat \<Rightarrow> nat \<Rightarrow> nat \<Rightarrow> u64" where
  "response_of jst base waiting dmi_size p i =
     read_bits dmi_size (s_outs jst ! (base + 2 * (i - p + (if waiting then 0 else 1))))"

lemma after_await_deliver:
  assumes "scans_at jst base M" "m_first_incomplete jst = base + 2 * M + 2" "base = (if dtm_state sb = DTMError then 4 else 2)"
    and "p = m_first_incomplete tx" "E = status_end tx" "p < E" "E - p = (if waiting then Suc M else M)"
    and "accesses tx" "num_errors sb = num_errors (m_state d)"
    and R: "R = response_of jst base waiting (m_dmi_size d) p"
  shows "\<exists>tx' d'. after_await e jst sb waiting [p..<E] tx d = Some (outcome R p E, tx', d') \<and> answered R tx tx'"
proof -
  define c where "c = base + (if waiting then 0 else 2)"
  define s where "s = \<lparr>j = c, a_tx = tx, a_dtm = d\<rparr>"
  define s0 where "s0 = \<lparr>j = base, a_tx = tx, a_dtm = d\<rparr>"
  have "\<exists>s'. responses e jst (num_errors sb) False [p..<E] s = Some (outcome R p E, s') \<and> answered R (a_tx s) (a_tx s')"
  proof (rule responses_deliver)
    fix i assume i: "p \<le> i" "i < E"
    have "i - p + (if waiting then 0 else 1) \<le> M" using i assms(7) by (simp split: if_splits)
    then show "shift_out jst (c + 2 * (i - p)) = Some (s_outs jst ! (base + 2 * (i - p + (if waiting then 0 else 1))))"
      using assms(1) unfolding scans_at_def by (auto simp: c_def)
  qed (use assms in \<open>auto simp: s_def c_def R response_of_def fun_eq_iff split: if_splits\<close>)
  moreover have "responses e jst (num_errors sb) (\<not> waiting) [p..<E] s0 = responses e jst (num_errors sb) False [p..<E] s"
  proof (cases waiting)
    case False
    have "is_access (s_ins (a_tx s0) ! p)" using accesses_nth [OF assms(8)] assms(4-6) by (simp add: s0_def)
    then show ?thesis
      using responses_own_first [of s0 p jst e "num_errors sb" "[Suc p..<E]"] False assms(2,6)
      by (simp add: s0_def s_def c_def upt_conv_Cons del: responses.simps)
  qed (simp add: s0_def s_def c_def)
  moreover have "after_await e jst sb waiting [p..<E] tx d =
      do { (status, s) \<leftarrow> responses e jst (num_errors sb) (\<not> waiting) [p..<E] s0; Some (status, a_tx s, a_dtm s) }"
    using assms(2,3)
    by (cases "dtm_state sb = DTMError")
      (simp_all add: after_await_def Let_def check_fail_inc_inside check_fail_inc2_inside s0_def eval_nat_numeral)
  ultimately show ?thesis by (auto simp: s_def)
qed


text \<open>The request of an attempt whose accesses are all in range.\<close>

definition attempt_request :: "world \<Rightarrow> nat \<Rightarrow> bool \<Rightarrow> u32 status \<Rightarrow> dtm \<Rightarrow> bool list builder" where
  "attempt_request w k waiting tx d =
     request w k ''Access DMI'' (s_dependent tx)
       ((attempt_head d @ concat (map (\<lambda>i. scan d (s_ins tx ! i)) (to_send waiting tx))) @ attempt_tail d)"

text \<open>Property C6: every access of a transaction that consists of accesses only gets its own response. With a
  \<open>SkipCycles\<close> behind an access it does not, the walk over the responses then faults
  (\<open>skip_behind_access_faults\<close>). When the addresses and data to be sent are in range,
  the chain driver completes the request of an attempt and no other transaction changes the state of the DTM
  meanwhile, access \<open>i\<close> is answered by the bits the scan behind
  its own scan captured (by the first scan, for an access that the attempt before has sent). The accesses before the
  first response that is not \<open>ok\<close> are complete, the reads among them hold the data of their responses, no other
  output changes, and the attempt is a success, to be repeated, or a failure by the first other response.\<close>

theorem Attempt_delivers:
  assumes "honest w" "\<forall>k d. others w k d = d" "accesses tx" "m_first_incomplete tx < status_end tx"
    and "\<forall>i \<in> set (to_send (prev = MyBusy) tx). in_range (m_dmi_size d) (s_ins tx ! i)"
    and "status_ok (jtag w k (attempt_request w k (prev = MyBusy) tx d))"
  shows "\<exists>tx' d'.
    let p = m_first_incomplete tx;
        R = response_of (jtag w k (attempt_request w k (prev = MyBusy) tx d)) (length (attempt_head d))
              (prev = MyBusy) (m_dmi_size d) p
    in Attempt w k prev tx d = Some (outcome R p (status_end tx), tx', d') \<and> answered R tx tx'"
proof -
  let ?ws = "to_send (prev = MyBusy) tx"
  note accw = to_send_access [OF assms(3), of "prev = MyBusy"]
  define jst where "jst = jtag w k (attempt_request w k (prev = MyBusy) tx d)"
  define d1 where "d1 = (if dtm_state (m_state d) = DTMError then set_dtm_state DTMOperating d else d)"
  have d1: "m_dmi_size d1 = m_dmi_size d" "num_errors (m_state d) = num_errors (m_state d1)" "attempt_tail d1 = attempt_tail d"
    by (simp_all add: d1_def attempt_tail_def)
  have b: "access_actions d tx False ?ws (attempt_head d) =
      Some (Inr (attempt_head d @ concat (map (\<lambda>i. scan d (s_ins tx ! i)) ?ws)))"
    using access_actions_scans [OF accw, of d "attempt_head d"] assms(5) by auto
  have A: "Attempt w k prev tx d =
      after_await (err w k) jst (m_state d) (prev = MyBusy) [m_first_incomplete tx..<status_end tx] tx d1"
    unfolding Attempt_def Let_def access_actions_to_send [OF assms(3)] b jst_def d1_def [symmetric] attempt_request_def
    using assms(2) d1(3) by simp
  have jst: "jst = jtag w k (request w k ''Access DMI'' (s_dependent tx)
      ((attempt_head d @ concat (map (\<lambda>i. scan d (s_ins tx ! i)) ?ws)) @ attempt_tail d))"
    by (simp add: jst_def attempt_request_def)
  note sc = request_scans [OF assms(1) accw jst]
  have "m_first_incomplete jst = length (attempt_head d) + 2 * length ?ws + 2"
    using assms(6) sc(2) by (simp add: status_ok_def status_end_def jst_def)
  moreover have "status_end tx - m_first_incomplete tx = (if prev = MyBusy then Suc (length ?ws) else length ?ws)"
    using assms(4) by (auto simp: to_send_def)
  ultimately show ?thesis
    using after_await_deliver [OF sc(1) _ length_attempt_head refl refl assms(4) _ assms(3) d1(2) refl, of "prev = MyBusy" "err w k"]
    unfolding A Let_def jst_def [symmetric] d1(1) by blast
qed


definition operating :: dtm where
  "operating = set_dtm_state DTMOperating ((RVJtagDTM default_config)\<lparr>m_dmi_size := 41\<rparr>)"

theorem Attempt_delivers_witness:
  "\<exists>tx' d'. Attempt (answering (bits_of (dmi_reg 0 0xCAFE 0) 41)) 1 AttemptSuccess (example_tx [RVReadDMI 5, RVWriteDMI 6 7])
     operating = Some (AttemptSuccess, tx', d') \<and> s_outs tx' = [0xCAFE, 0]"
proof -
  let ?w = "answering (bits_of (dmi_reg 0 0xCAFE 0) 41)" and ?tx = "example_tx [RVReadDMI 5, RVWriteDMI 6 7]"
  let ?R = "response_of (jtag ?w 1 (attempt_request ?w 1 (AttemptSuccess = MyBusy) ?tx operating)) (length (attempt_head operating))
              (AttemptSuccess = MyBusy) (m_dmi_size operating) (m_first_incomplete ?tx)"
  have acc: "accesses ?tx" "m_first_incomplete ?tx < status_end ?tx"
    by (simp_all add: accesses_def example_tx_def status_end_def)
  have rng: "\<forall>i \<in> set (to_send (AttemptSuccess = MyBusy) ?tx). in_range (m_dmi_size operating) (s_ins ?tx ! i)"
    by code_simp
  have ok: "status_ok (jtag ?w 1 (attempt_request ?w 1 (AttemptSuccess = MyBusy) ?tx operating))"
    by code_simp
  have r: "outcome ?R (m_first_incomplete ?tx) (status_end ?tx) = AttemptSuccess"
    "num_ok ?R 0 2 = 2" "dmi_data (?R 0) = 0xCAFE"
    by code_simp+
  obtain tx' d' where a: "Attempt ?w 1 AttemptSuccess ?tx operating = Some (AttemptSuccess, tx', d')" "answered ?R ?tx tx'"
    using Attempt_delivers [of ?w ?tx AttemptSuccess operating 1] acc rng ok r(1) by (auto simp: Let_def)
  have "length (s_outs tx') = 2" "s_outs tx' ! 0 = 0xCAFE" "s_outs tx' ! 1 = 0"
    using a(2) r(2,3) by (simp_all add: answered_def example_tx_def status_end_def numeral_2_eq_2)
  then have "s_outs tx' = [0xCAFE, 0]" by (auto simp: list_eq_iff_nth_eq less_Suc_eq numeral_2_eq_2)
  with a(1) show ?thesis by blast
qed


subsection \<open>The bits of a scan\<close>

lemma bit_read_bits_of:
  fixes w :: "'a::len word"
  assumes "n \<le> LENGTH('a)"
  shows "(read_bits n (bits_of w n) :: 'a word) = take_bit n w"
proof -
  have "(read_bits n (bits_of w n) :: 'a word) = horner_sum of_bool 2 (map (bit w) [0..<n])"
    by (simp add: read_bits_def bits_of_def)
  then show ?thesis by (simp add: horner_sum_bit_eq_take_bit)
qed

definition dmi_address :: "u64 \<Rightarrow> u64" where
  "dmi_address = field (g_dmi_op_bitsize + g_dmi_data_bitsize) g_dmi_addr_bitsize"

lemma take_bit_le_mask:
  assumes "x \<le> mask k"
  shows "take_bit k (x :: 'a::len word) = x"
proof (rule word_uint_eqI)
  have "(2 :: int) ^ min LENGTH('a) k \<le> 2 ^ k" by (rule power_increasing) simp_all
  moreover have "uint x \<le> mask (min LENGTH('a) k)" using assms by (simp add: word_le_def uint_mask_eq)
  ultimately have "uint x < 2 ^ k" unfolding mask_eq_exp_minus_1 by linarith
  then show "uint (take_bit k x) = uint x" by (simp add: unsigned_take_bit_eq take_bit_int_eq_self)
qed

lemma in_range_bits:
  assumes "\<not> max_address n < ucast a" "34 \<le> n"
  shows "take_bit (n - 34) (ucast (a :: u32) :: u64) = ucast a"
  using assms by (intro take_bit_le_mask) (simp add: max_address_def dmi_bitsizes mask_eq_exp_minus_1 push_bit_of_1)

text \<open>A scan carries the whole access. For any size the discovery admits and any address that passes
  the range check, the bits of the data register give back the operation, the data and the address.\<close>

theorem dmi_scan_roundtrip:
  assumes "34 \<le> n" "n \<le> 64" "\<not> max_address n < ucast a" "op < 4"
  shows "let r = (read_bits n (bits_of (dmi_reg op x a) n) :: u64) in dmi_op r = op \<and> dmi_data r = x \<and> dmi_address r = ucast a"
proof -
  define r where "r = (read_bits n (bits_of (dmi_reg op x a) n) :: u64)"
  have r: "r = take_bit n (dmi_reg op x a)" using assms(2) by (simp add: r_def bit_read_bits_of)
  have x: "bit x i \<Longrightarrow> i < 32" for i using bit_imp_le_length [of x i] by simp
  have a: "i < n - 34 \<and> i < 30" if "bit a i" for i
  proof -
    have "bit (ucast a :: u64) i" using that bit_imp_le_length [of a i] by (simp add: bit_simps)
    then have "i < n - 34" using in_range_bits [OF assms(3,1)] by (metis bit_take_bit_iff)
    then show ?thesis using assms(2) by simp
  qed
  have "op \<le> mask 2" using assms(4) by (simp add: mask_eq_exp_minus_1 word_le_nat_alt word_less_nat_alt)
  then have op: "bit op i \<Longrightarrow> i < 2" for i using take_bit_le_mask by (metis bit_take_bit_iff)
  note sets = field_def dmi_reg_def bit_simps dmi_bitsizes
  have "dmi_op r = op"
    using op assms(1) by (intro bit_word_eqI) (auto simp: r dmi_op_def sets)
  moreover have "dmi_data r = x"
    using assms(1) by (intro bit_word_eqI) (auto simp: r dmi_data_def sets dest: op x)
  moreover have "dmi_address r = ucast a"
    using assms(1) by (intro bit_word_eqI) (auto simp: r dmi_address_def sets dest: op a x)
  ultimately show ?thesis by (simp add: r_def Let_def)
qed

theorem dmi_scan_roundtrip_witness:
  "dmi_address (read_bits 41 (bits_of (dmi_reg DMIOpWrite 0xFFFFFFFF 0x7F) 41)) = 0x7F"
proof -
  have "\<not> max_address 41 < ucast (0x7F :: u32)" "DMIOpWrite < 4" by code_simp+
  then show ?thesis using dmi_scan_roundtrip [of 41 "0x7F" DMIOpWrite "0xFFFFFFFF"] by (simp add: Let_def)
qed

subsection \<open>Idle cycles behind an access\<close>

text \<open>A defect. The iterator over the complete actions is not moved over the two actions of the scan
  that captures the response before the idle cycles of a \<open>SkipCycles\<close> behind the access are met, so that the output
  of \<open>JCGoToState\<close> is taken for a scan: reading one register and waiting afterwards is the use of a null
  pointer, with a chain driver that completes the request.\<close>

theorem skip_behind_access_faults:
  assumes "honest w" "\<forall>k d. others w k d = d" "s_ins tx = [Inr (RVReadDMI a), Inr (SkipCycles n)]"
    and "m_first_incomplete tx = 0" "\<not> max_address (m_dmi_size d) < ucast a"
    and "\<forall>b. status_ok (jtag w k b)"
  shows "Attempt w k AttemptSuccess tx d = None"
proof -
  define d1 where "d1 = (if dtm_state (m_state d) = DTMError then set_dtm_state DTMOperating d else d)"
  define acts where "acts = scan d (Inr (RVReadDMI a)) @ [go_to RunTestIdle n] @ attempt_tail d1"
  define jst where "jst = jtag w k (request w k ''Access DMI'' (s_dependent tx) (attempt_head d @ acts))"
  have ins: "s_ins jst = map Inr (attempt_head d @ acts)"
    using assms(1) request_all(1) [of w k "''Access DMI''" "s_dependent tx" "attempt_head d @ acts"]
    unfolding jst_def honest_def by metis
  have len: "m_first_incomplete jst = length (attempt_head d) + 5"
    using assms(6) ins unfolding jst_def by (simp add: status_ok_def status_end_def acts_def scan_def attempt_tail_def)
  have incomplete: "[m_first_incomplete tx..<status_end tx] = [0, 1]" using assms(3,4) by (simp add: status_end_def upt_conv_Cons)
  have A: "Attempt w k AttemptSuccess tx d = after_await (err w k) jst (m_state d) False [0, 1] tx d1"
    unfolding Attempt_def Let_def incomplete using assms(2,3,5)
    by (simp add: jst_def acts_def scan_def d1_def)
  have "shift_out jst (length (attempt_head d) + 2) = None"
    by (simp add: shift_out_def deref_def ins nth_append acts_def scan_def go_to_def)
  then show ?thesis
    unfolding A using len assms(3)
    by (cases "dtm_state (m_state d) = DTMError") (simp_all add: after_await_def Let_def check_fail_inc_inside check_fail_inc2_inside length_attempt_head
        dmi_response_def eval_nat_numeral)
qed

theorem skip_behind_access_faults_witness:
  "Attempt (answering (bits_of (dmi_reg 0 0xCAFE 0) 41)) 1 AttemptSuccess (example_tx [RVReadDMI 5, SkipCycles 10]) operating = None"
proof -
  have "\<not> max_address (m_dmi_size operating) < ucast (5 :: u32)" by code_simp
  moreover have "\<forall>b. status_ok (jtag (answering bs) 1 b)" for bs
    by (simp add: answering_def status_ok_def status_end_def StatusOf_def)
  ultimately show ?thesis
    using skip_behind_access_faults [of "answering (bits_of (dmi_reg 0 0xCAFE 0) 41)" "example_tx [RVReadDMI 5, SkipCycles 10]" 5 10 operating 1]
    by (simp add: example_tx_def)
qed

end
