(* ===== verification/Byte_Stream.thy ===== *)
theory Byte_Stream
  imports Execution_Gate Push_Endpoint
begin

text \<open>
  \<open>DeferredByteStream\<close> (\<open>driver/bytestream/ByteStream.hpp\<close>): transactions of \<open>WriteBytes\<close> and \<open>ReadBytes\<close> on a
  stream with blocking operations. \<open>Execute\<close> writes at once, under the lock of the endpoint, and leaves the
  reads to the threads that serve the endpoint.

  The stream is a parameter: what the k-th call of \<open>Write\<close> or \<open>Read\<close> returns. An error may have lost its
  cause. The state counts the calls and records the bytes that \<open>Write\<close> has reported as written. Counts of
  bytes are natural numbers: they are bounded by the 32-bit sizes of the actions.
\<close>

subsection \<open>The stream\<close>

type_synonym io_error = "cause option option"

record blocking_stream =
  stream_write :: "nat \<Rightarrow> u8 list \<Rightarrow> nat \<times> io_error"
  stream_read :: "nat \<Rightarrow> nat \<Rightarrow> u8 list \<times> nat \<times> io_error"

record io =
  io_calls :: nat
  io_sent :: "u8 list"

definition io_write :: "blocking_stream \<Rightarrow> u8 list \<Rightarrow> io \<Rightarrow> nat \<times> io_error \<times> io" where
  "io_write st source h =
     (case stream_write st (io_calls h) source of
        (n, e) \<Rightarrow> (n, e, \<lparr>io_calls = Suc (io_calls h), io_sent = io_sent h @ take n source\<rparr>))"

definition io_read :: "blocking_stream \<Rightarrow> nat \<Rightarrow> io \<Rightarrow> u8 list \<times> nat \<times> io_error \<times> io" where
  "io_read st n h =
     (case stream_read st (io_calls h) n of (bs, k, e) \<Rightarrow> (bs, k, e, h\<lparr>io_calls := Suc (io_calls h)\<rparr>))"

text \<open>The outputs of \<open>WriteBytes\<close> and of \<open>ReadBytes\<close>. \<open>num_written\<close> has no value before it is set.\<close>

record bs_out =
  num_written :: nat
  num_read :: nat
  bs_data :: "u8 list"

type_synonym bs_tx = "bs_out status"

text \<open>\<open>FailAt<Cause>\<close> and \<open>Fail<Cause>\<close> with the cause of an error, which may be lost.\<close>

definition FailCauseAt :: "bool \<Rightarrow> nat \<Rightarrow> cause option \<Rightarrow> 'o status \<Rightarrow> 'o status" where
  "FailCauseAt e i c tx = (case c of None \<Rightarrow> tx\<lparr>m_error := None\<rparr> | Some c \<Rightarrow> FailImpl e i c tx)"

definition FailCauseFirst :: "bool \<Rightarrow> cause option \<Rightarrow> 'o status \<Rightarrow> 'o status" where
  "FailCauseFirst e c tx = (if status_ok tx then tx else FailCauseAt e (m_first_incomplete tx) c tx)"

subsection \<open>Reads\<close>

fun do_reads :: "blocking_stream \<Rightarrow> bool \<Rightarrow> nat list \<Rightarrow> bs_tx \<Rightarrow> io \<Rightarrow> bs_tx \<times> io" where
  "do_reads st e [] tx h = (tx, h)"
| "do_reads st e (i # is) tx h =
     (case s_ins tx ! i of
        Inr (ReadBytes n) \<Rightarrow>
          (case io_read st (unat n) h of
             (bs, k, err, h) \<Rightarrow>
               let tx = put_out i ((s_outs tx ! i)\<lparr>bs_data := bs, num_read := k\<rparr>) tx
               in (case err of
                     Some c \<Rightarrow> (FailCauseFirst e c tx, h)
                   | None \<Rightarrow> do_reads st e is (Done i tx) h))
      | _ \<Rightarrow> do_reads st e is (Done i tx) h)"

definition DoReads :: "blocking_stream \<Rightarrow> bool \<Rightarrow> bs_tx \<Rightarrow> io \<Rightarrow> bs_tx \<times> io" where
  "DoReads st e tx h = do_reads st e [m_first_incomplete tx..<status_end tx] tx h"

subsection \<open>Writes\<close>

fun write_data :: "nat + action \<Rightarrow> u8 list option" where
  "write_data (Inr (WriteBytes bs)) = Some bs"
| "write_data _ = None"

definition the_data :: "nat + action \<Rightarrow> u8 list" where
  "the_data a = (case write_data a of None \<Rightarrow> [] | Some bs \<Rightarrow> bs)"

definition total_bytes_to_write :: "bs_tx \<Rightarrow> nat" where
  "total_bytes_to_write tx = sum_list (map (length \<circ> the_data) (Incomplete tx))"

definition first_write :: "bs_tx \<Rightarrow> nat option" where
  "first_write tx =
     (case filter (\<lambda>i. write_data (s_ins tx ! i) \<noteq> None) [m_first_incomplete tx..<status_end tx] of
        [] \<Rightarrow> None | i # _ \<Rightarrow> Some i)"

text \<open>\<open>None\<close> is a loop without end: a stream that takes nothing and reports no error.\<close>

partial_function (option) write_one_loop ::
  "blocking_stream \<Rightarrow> bool \<Rightarrow> nat \<Rightarrow> u8 list \<Rightarrow> bs_tx \<Rightarrow> io \<Rightarrow> (bool \<times> bs_tx \<times> io) option"
where
  "write_one_loop st e i to_write tx h =
     (if to_write = [] then Some (True, tx, h)
      else case io_write st to_write h of
             (n, err, h) \<Rightarrow>
               let n = min n (length to_write);
                   tx = put_out i ((s_outs tx ! i)\<lparr>num_written := num_written (s_outs tx ! i) + n\<rparr>) tx
               in (case err of
                     Some c \<Rightarrow> Some (False, FailCauseAt e i c tx, h)
                   | None \<Rightarrow> write_one_loop st e i (drop n to_write) tx h))"

definition clear_written :: "nat \<Rightarrow> bs_tx \<Rightarrow> bs_tx" where
  "clear_written i tx = put_out i ((s_outs tx ! i)\<lparr>num_written := 0\<rparr>) tx"

definition WriteOne :: "blocking_stream \<Rightarrow> bool \<Rightarrow> nat \<Rightarrow> bs_tx \<Rightarrow> io \<Rightarrow> (bool \<times> bs_tx \<times> io) option" where
  "WriteOne st e i tx h = write_one_loop st e i (the_data (s_ins tx ! i)) (clear_written i tx) h"

text \<open>The copy into the combined buffer.\<close>

fun fill :: "nat list \<Rightarrow> bs_tx \<Rightarrow> u8 list \<Rightarrow> bs_tx \<times> u8 list" where
  "fill [] tx buffer = (tx, buffer)"
| "fill (i # is) tx buffer =
     (case write_data (s_ins tx ! i) of
        None \<Rightarrow> fill is tx buffer
      | Some bs \<Rightarrow> fill is (clear_written i tx) (buffer @ bs))"

text \<open>One pass over the incomplete actions distributes what a call has written; the first result tells
  whether the transaction has failed, the second is \<open>continuous_writes\<close>.\<close>

fun acknowledge :: "io_error \<Rightarrow> bool \<Rightarrow> nat list \<Rightarrow> nat \<Rightarrow> bool \<Rightarrow> bs_tx \<Rightarrow> bool \<times> bool \<times> bs_tx" where
  "acknowledge err e [] remaining continuous tx = (False, continuous, tx)"
| "acknowledge err e (i # is) remaining continuous tx =
     (case write_data (s_ins tx ! i) of
        None \<Rightarrow> acknowledge err e is remaining False tx
      | Some bs \<Rightarrow>
          let out = s_outs tx ! i;
              to_acknowledge = min remaining (length bs - num_written out);
              tx = put_out i (out\<lparr>num_written := num_written out + to_acknowledge\<rparr>) tx;
              remaining = remaining - to_acknowledge;
              last = (remaining = 0)
          in if last \<and> err \<noteq> None then (True, continuous, FailCauseAt e i (the err) tx)
             else
               let tx = (if continuous \<and> num_written (s_outs tx ! i) = length bs then Done i tx else tx)
               in if last then (False, continuous, tx) else acknowledge err e is remaining continuous tx)"

partial_function (option) write_many_loop ::
  "blocking_stream \<Rightarrow> bool \<Rightarrow> u8 list \<Rightarrow> bool \<Rightarrow> bs_tx \<Rightarrow> io \<Rightarrow> (bool \<times> bs_tx \<times> io) option"
where
  "write_many_loop st e remaining_to_write continuous tx h =
     (if remaining_to_write = [] then Some (True, tx, h)
      else case io_write st remaining_to_write h of
             (n, err, h) \<Rightarrow>
               let n = min n (length remaining_to_write)
               in (case acknowledge err e [m_first_incomplete tx..<status_end tx] n continuous tx of
                     (gave_up, continuous, tx) \<Rightarrow>
                       if gave_up then Some (False, tx, h)
                       else write_many_loop st e (drop n remaining_to_write) continuous tx h))"

declare write_one_loop.simps [code] write_many_loop.simps [code]

definition WriteMany ::
  "blocking_stream \<Rightarrow> bool \<Rightarrow> bool \<Rightarrow> nat \<Rightarrow> bs_tx \<Rightarrow> io \<Rightarrow> (bool \<times> bs_tx \<times> io) option"
where
  "WriteMany st allocated e i tx h =
     (if \<not> allocated then Some (False, FailAt e i CauseAllocationFailure (clear_written i tx), h)
      else case fill [m_first_incomplete tx..<status_end tx] tx [] of
             (tx, combined_data) \<Rightarrow> write_many_loop st e combined_data True tx h)"

subsection \<open>Execute\<close>

text \<open>\<open>Execute\<close> up to the point where it has finished (\<open>Inl\<close>) or its reads are to be enqueued (\<open>Inr\<close>).\<close>

definition do_writes ::
  "blocking_stream \<Rightarrow> bool \<Rightarrow> bool \<Rightarrow> bs_tx \<Rightarrow> io \<Rightarrow> (bool \<times> bs_tx \<times> io) option"
where
  "do_writes st allocated e tx h =
     (case first_write tx of
        None \<Rightarrow> Some (True, tx, h)
      | Some i \<Rightarrow>
          if length (the_data (s_ins tx ! i)) = total_bytes_to_write tx then WriteOne st e i tx h
          else WriteMany st allocated e i tx h)"

definition Execute ::
  "string \<Rightarrow> blocking_stream \<Rightarrow> bool \<Rightarrow> bool \<Rightarrow> endpoint \<Rightarrow> bs_tx \<Rightarrow> io \<Rightarrow> ((bs_tx + bs_tx) \<times> io) option"
where
  "Execute name st allocated e ep tx h =
     (if \<not> LockForEnqueue ep then Some (Inl (Fail e (CauseTerminated name) tx), h)
      else do { (ok, tx, h) \<leftarrow> do_writes st allocated e tx h;
                Some (if \<not> ok \<or> m_first_incomplete tx = status_end tx then Inl tx else Inr tx, h) })"


subsection \<open>How written bytes are attributed\<close>

text \<open>The bytes of the writes before position \<open>i\<close>, and the share of the action at \<open>i\<close> in the first \<open>T\<close> bytes.\<close>

definition off :: "(nat + action) list \<Rightarrow> nat \<Rightarrow> nat" where
  "off ins i = sum_list (map (length \<circ> the_data) (take i ins))"

definition share :: "(nat + action) list \<Rightarrow> nat \<Rightarrow> nat \<Rightarrow> nat" where
  "share ins T i = min (length (the_data (ins ! i))) (T - off ins i)"

lemma off_0 [simp]: "off ins 0 = 0"
  by (simp add: off_def)

lemma off_Suc: "i < length ins \<Longrightarrow> off ins (Suc i) = off ins i + length (the_data (ins ! i))"
  by (simp add: off_def take_Suc_conv_app_nth)

lemma off_mono: "i \<le> k \<Longrightarrow> off ins i \<le> off ins k"
proof (induction k)
  case (Suc k)
  then show ?case
    by (cases "k < length ins"; cases "i = Suc k") (auto simp: off_Suc le_Suc_eq, auto simp: off_def)
qed simp

lemma off_grows: "off ins p < off ins n \<Longrightarrow> n \<le> length ins \<Longrightarrow> \<exists>i. p \<le> i \<and> i < n \<and> write_data (ins ! i) \<noteq> None"
proof (induction n)
  case (Suc n)
  show ?case
  proof (cases "off ins p < off ins n")
    case True
    then show ?thesis using Suc by (auto intro: less_SucI)
  next
    case False
    then have "p \<le> n" using Suc.prems off_mono [of n p ins] off_mono [of "Suc n" p ins] by (metis not_le le_Suc_eq not_less_eq_eq)
    moreover have "write_data (ins ! n) \<noteq> None"
      using False Suc.prems by (auto simp: off_Suc the_data_def split: option.splits)
    ultimately show ?thesis by blast
  qed
qed simp

text \<open>\<open>T\<close> bytes are attributed.\<close>

definition attributed :: "nat \<Rightarrow> bs_tx \<Rightarrow> bool" where
  "attributed T tx \<longleftrightarrow>
     length (s_outs tx) = length (s_ins tx) \<and> m_first_incomplete tx \<le> status_end tx \<and>
     (\<forall>i < m_first_incomplete tx. write_data (s_ins tx ! i) \<noteq> None) \<and> off (s_ins tx) (m_first_incomplete tx) \<le> T \<and>
     (\<forall>i < status_end tx. write_data (s_ins tx ! i) \<noteq> None \<longrightarrow> num_written (s_outs tx ! i) = share (s_ins tx) T i)"

text \<open>A pass that has reached position \<open>p\<close> on the way from \<open>T\<close> to \<open>U\<close> attributed bytes.\<close>

definition passing :: "nat \<Rightarrow> nat \<Rightarrow> nat \<Rightarrow> bool \<Rightarrow> bs_tx \<Rightarrow> bool" where
  "passing T U p continuous tx \<longleftrightarrow>
     T \<le> U \<and> length (s_outs tx) = length (s_ins tx) \<and> p \<le> status_end tx \<and> m_first_incomplete tx \<le> p \<and>
     (\<forall>i < m_first_incomplete tx. write_data (s_ins tx ! i) \<noteq> None) \<and> off (s_ins tx) (m_first_incomplete tx) \<le> U \<and>
     (continuous \<longrightarrow> off (s_ins tx) p \<le> U \<and> (\<forall>i < p. write_data (s_ins tx ! i) \<noteq> None)) \<and>
     (\<forall>i < status_end tx. write_data (s_ins tx ! i) \<noteq> None \<longrightarrow>
        num_written (s_outs tx ! i) = share (s_ins tx) (if i < p then U else T) i)"

lemma FailCauseAt_simps [simp]:
  "s_ins (FailCauseAt e i c tx) = s_ins tx" "s_outs (FailCauseAt e i c tx) = s_outs tx"
  "m_first_incomplete (FailCauseAt e i c tx) = m_first_incomplete tx"
  by (simp_all add: FailCauseAt_def FailImpl_def split: option.splits)


lemma attributed_FailCauseAt [simp]: "attributed T (FailCauseAt e i c tx) = attributed T tx"
  by (simp add: attributed_def status_end_def)

lemma share_step:
  assumes "T \<le> U" "r = U - max T (off ins p)"
  shows "share ins T p + min r (length (the_data (ins ! p)) - share ins T p) = share ins U p"
  using assms by (auto simp: share_def min_def max_def)

lemma remaining_step:
  assumes "T \<le> U" "r = U - max T (off ins p)" "p < length ins"
  shows "r - min r (length (the_data (ins ! p)) - share ins T p) = U - max T (off ins (Suc p))"
  using assms by (auto simp: share_def min_def max_def off_Suc)

lemma share_rest:
  assumes "U - max T (off ins p) = 0" "p \<le> i" "T \<le> U"
  shows "share ins T i = share ins U i"
  using assms off_mono [of p i ins] by (auto simp: share_def max_def split: if_splits)

lemma passing_end:
  assumes "passing T U p continuous tx" "U - max T (off (s_ins tx) p) = 0 \<or> p = status_end tx"
  shows "attributed U tx"
  using assms share_rest [of U T "s_ins tx" p]
  by (auto simp: passing_def attributed_def)

lemma passing_skip:
  assumes "passing T U p continuous tx" "p < status_end tx" "write_data (s_ins tx ! p) = None"
  shows "passing T U (Suc p) False tx" "off (s_ins tx) (Suc p) = off (s_ins tx) p"
  using assms by (auto simp: passing_def less_Suc_eq off_Suc status_end_def the_data_def)

lemma passing_put:
  assumes "passing T U p continuous tx" "p < status_end tx" "num_written out = share (s_ins tx) U p"
    and "continuous' \<longrightarrow> continuous \<and> off (s_ins tx) (Suc p) \<le> U" "write_data (s_ins tx ! p) \<noteq> None"
  shows "passing T U (Suc p) continuous' (put_out p out tx)"
proof -
  have "num_written (s_outs (put_out p out tx) ! i) = share (s_ins tx) (if i < Suc p then U else T) i"
    if "i < status_end tx" "write_data (s_ins tx ! i) \<noteq> None" for i
  proof (cases "i = p")
    case True
    then show ?thesis using assms(1-3) by (simp add: put_out_def passing_def status_end_def)
  next
    case False
    then show ?thesis using assms(1) that by (auto simp: put_out_def passing_def less_Suc_eq)
  qed
  then show ?thesis
    using assms(1,2,4,5) by (auto simp: passing_def put_out_def status_end_def less_Suc_eq)
qed

lemma passing_done:
  assumes "passing T U (Suc p) continuous' tx" "p < status_end tx" "\<forall>i \<le> p. write_data (s_ins tx ! i) \<noteq> None"
    and "off (s_ins tx) (Suc p) \<le> U"
  shows "passing T U (Suc p) continuous' (Done p tx)"
proof -
  have "\<not> isl (s_ins tx ! p)" using assms(3) by (cases "s_ins tx ! p") auto
  then have "m_first_incomplete (Done p tx) = Suc p" using assms(2) by (simp add: Done_def next_position_def status_end_def)
  then show ?thesis using assms by (auto simp: passing_def Done_def status_end_def less_Suc_eq)
qed

lemma passing_write:
  assumes "passing T U p continuous tx" "p < status_end tx" "write_data (s_ins tx ! p) = Some bs"
    and "num_written out = share (s_ins tx) U p"
    and "tx' = (if continuous \<and> num_written out = length bs then Done p (put_out p out tx) else put_out p out tx)"
  shows "passing T U (Suc p) (continuous \<and> off (s_ins tx) (Suc p) \<le> U) tx'" "s_ins tx' = s_ins tx"
proof -
  have simps: "s_ins (put_out p out tx) = s_ins tx" "status_end (put_out p out tx) = status_end tx"
    by (simp_all add: put_out_def status_end_def)
  note put = passing_put [OF assms(1,2,4), of "continuous \<and> off (s_ins tx) (Suc p) \<le> U"]
  have "off (s_ins tx) (Suc p) \<le> U" if "continuous" "num_written out = length bs"
  proof -
    have "off (s_ins tx) p \<le> U" using that(1) assms(1) by (simp add: passing_def)
    moreover have "length bs \<le> U - off (s_ins tx) p" using that(2) assms(3,4) by (simp add: share_def the_data_def)
    moreover have "off (s_ins tx) (Suc p) = off (s_ins tx) p + length bs"
      using assms(2,3) by (simp add: off_Suc status_end_def the_data_def)
    ultimately show ?thesis by linarith
  qed
  moreover have "\<forall>i \<le> p. write_data (s_ins tx ! i) \<noteq> None" if continuous
    using that assms(1,3) by (auto simp: passing_def le_less)
  ultimately show "passing T U (Suc p) (continuous \<and> off (s_ins tx) (Suc p) \<le> U) tx'"
    using put passing_done [of T U p _ "put_out p out tx", unfolded simps, OF _ assms(2)]
    unfolding assms(5) using assms(3) by (cases "continuous \<and> num_written out = length bs") auto
  show "s_ins tx' = s_ins tx" using assms(5) by (simp add: Done_def put_out_def)
qed

lemma passing_here:
  assumes "passing T U p continuous tx" "p < status_end tx" "write_data (s_ins tx ! p) \<noteq> None"
  shows "num_written (s_outs tx ! p) = share (s_ins tx) T p" "T \<le> U" "length (s_outs tx) = length (s_ins tx)"
  using assms unfolding passing_def by simp_all

lemma acknowledge_write:
  assumes "write_data (s_ins tx ! i) = Some bs" "i < length (s_outs tx)"
    and "out = (s_outs tx ! i)\<lparr>num_written := num_written (s_outs tx ! i) + min r (length bs - num_written (s_outs tx ! i))\<rparr>"
    and "r' = r - min r (length bs - num_written (s_outs tx ! i))"
    and "tx1 = (if continuous \<and> num_written out = length bs then Done i (put_out i out tx) else put_out i out tx)"
  shows "acknowledge err e (i # is) r continuous tx =
    (if r' = 0 \<and> err \<noteq> None then (True, continuous, FailCauseAt e i (the err) (put_out i out tx))
     else if r' = 0 then (False, continuous, tx1) else acknowledge err e is r' continuous tx1)"
proof -
  have "s_outs (put_out i out tx) ! i = out" using assms(2) by (simp add: put_out_def)
  then show ?thesis
    unfolding acknowledge.simps assms(1) option.case Let_def assms(3) [symmetric] assms(4) [symmetric] assms(5)
    by (simp only:)
qed

lemma acknowledge_skip:
  "write_data (s_ins tx ! i) = None \<Longrightarrow> acknowledge err e (i # is) r continuous tx = acknowledge err e is r False tx"
  by simp

declare acknowledge.simps(2) [simp del]

text \<open>A write from \<open>p\<close> on.\<close>

definition more_writes :: "nat \<Rightarrow> bs_tx \<Rightarrow> bool" where
  "more_writes p tx \<longleftrightarrow> (\<exists>i. p \<le> i \<and> i < status_end tx \<and> write_data (s_ins tx ! i) \<noteq> None)"

lemma more_writes_Suc:
  "write_data (s_ins tx ! p) = None \<Longrightarrow> more_writes p tx \<Longrightarrow> more_writes (Suc p) tx"
  unfolding more_writes_def by (metis Suc_leI le_neq_implies_less)

lemma acknowledge_attributes:
  assumes "passing T U p continuous tx" "r = U - max T (off (s_ins tx) p)"
    and "acknowledge err e [p..<status_end tx] r continuous tx = (gave_up, c, tx')"
  shows "attributed U tx' \<and> s_ins tx' = s_ins tx \<and> (gave_up \<longrightarrow> err \<noteq> None) \<and>
    (err \<noteq> None \<and> U \<le> off (s_ins tx) (status_end tx) \<and> more_writes p tx \<longrightarrow> gave_up)"
  using assms
proof (induction "status_end tx - p" arbitrary: p r continuous tx)
  case 0
  then have p: "p = status_end tx" by (simp add: passing_def)
  have "attributed U tx" using 0(2) p by (intro passing_end [of T U p continuous tx]) simp_all
  then show ?case using 0(4) p by (auto simp: more_writes_def)
next
  case (Suc n)
  have p: "p < status_end tx" using Suc.hyps(2) by simp
  have n: "n = status_end tx - Suc p" using Suc.hyps(2) by simp
  have up: "[p..<status_end tx] = p # [Suc p..<status_end tx]" using p by (simp add: upt_conv_Cons)
  show ?case
  proof (cases "write_data (s_ins tx ! p)")
    case None
    note s = passing_skip [OF Suc.prems(1) p None]
    have r: "r = U - max T (off (s_ins tx) (Suc p))" using Suc.prems(2) s(2) by simp
    have "acknowledge err e [Suc p..<status_end tx] r False tx = (gave_up, c, tx')"
      using Suc.prems(3) unfolding up acknowledge_skip [OF None] .
    from Suc.hyps(1) [OF n s(1) r this] show ?thesis using more_writes_Suc [of tx p, OF None] by blast
  next
    case (Some bs)
    let ?out = "s_outs tx ! p"
    define r' where "r' = r - min r (length bs - num_written ?out)"
    define out where "out = ?out\<lparr>num_written := num_written ?out + min r (length bs - num_written ?out)\<rparr>"
    define tx1 where "tx1 = (if continuous \<and> num_written out = length bs then Done p (put_out p out tx) else put_out p out tx)"
    have bs: "the_data (s_ins tx ! p) = bs" using Some by (simp add: the_data_def)
    have num: "num_written ?out = share (s_ins tx) T p" and le: "T \<le> U" and len: "length (s_outs tx) = length (s_ins tx)"
      using passing_here [OF Suc.prems(1) p] Some by simp_all
    have out: "num_written out = share (s_ins tx) U p"
      using share_step [OF le Suc.prems(2)] by (simp add: out_def num bs)
    have r': "r' = U - max T (off (s_ins tx) (Suc p))"
      using remaining_step [OF le Suc.prems(2)] p by (simp add: r'_def num bs status_end_def)
    note w = passing_write [OF Suc.prems(1) p Some out tx1_def]
    have w': "passing T U (Suc p) False (put_out p out tx)" using passing_put [OF Suc.prems(1) p out, of False] Some by simp
    have put: "s_ins (put_out p out tx) = s_ins tx" by (simp add: put_out_def)
    have end1: "status_end tx1 = status_end tx" using w(2) by (simp add: status_end_def)
    have step: "acknowledge err e [p..<status_end tx] r continuous tx =
        (if r' = 0 \<and> err \<noteq> None then (True, continuous, FailCauseAt e p (the err) (put_out p out tx))
         else if r' = 0 then (False, continuous, tx1) else acknowledge err e [Suc p..<status_end tx] r' continuous tx1)"
      unfolding up using acknowledge_write [OF Some _ out_def r'_def tx1_def] p len by (simp add: status_end_def)
    consider (fail) "r' = 0" "err \<noteq> None" | (last) "r' = 0" "err = None" | (more) "r' \<noteq> 0" by blast
    then show ?thesis
    proof cases
      case fail
      have "attributed U (put_out p out tx)"
        using passing_end [OF w'] r' [symmetric] unfolding put fail(1) by blast
      moreover have "tx' = FailCauseAt e p (the err) (put_out p out tx)" "gave_up" using fail Suc.prems(3) unfolding step by simp_all
      ultimately show ?thesis using fail(2) put by simp
    next
      case last
      have "attributed U tx1" using passing_end [OF w(1)] r' [symmetric] unfolding w(2) last(1) by blast
      then show ?thesis using last Suc.prems(3) w(2) unfolding step by simp
    next
      case more
      then have lt: "off (s_ins tx) (Suc p) < U" using r' by auto
      have pw: "passing T U (Suc p) continuous tx1" using w(1) lt by simp
      have "acknowledge err e [Suc p..<status_end tx1] r' continuous tx1 = (gave_up, c, tx')"
        using more Suc.prems(3) unfolding step end1 by simp
      moreover have "more_writes (Suc p) tx1" if "U \<le> off (s_ins tx) (status_end tx)"
        using off_grows [of "s_ins tx" "Suc p" "status_end tx"] lt that w(2)
        by (auto simp: more_writes_def status_end_def)
      ultimately show ?thesis
        using Suc.hyps(1) [of tx1 "Suc p" continuous r'] pw n r' unfolding end1 w(2) by blast
    qed
  qed
qed


text \<open>A stream makes progress: a call that is given bytes takes some or reports an error.\<close>

definition productive :: "blocking_stream \<Rightarrow> bool" where
  "productive st \<longleftrightarrow> (\<forall>k bs. bs \<noteq> [] \<longrightarrow> 0 < fst (stream_write st k bs) \<or> snd (stream_write st k bs) \<noteq> None)"

definition bytes_of :: "(nat + action) list \<Rightarrow> u8 list" where
  "bytes_of ins = concat (map the_data ins)"

lemma off_bytes: "off ins (length ins) = length (bytes_of ins)"
  by (simp add: off_def bytes_of_def length_concat comp_def)

lemma io_write_result:
  assumes "io_write st source h = (n, err, h')" "productive st" "source \<noteq> []"
  shows "io_sent h' = io_sent h @ take n source" "0 < n \<or> err \<noteq> None"
proof -
  have w: "stream_write st (io_calls h) source = (n, err)" and h: "io_sent h' = io_sent h @ take n source"
    using assms(1) by (auto simp: io_write_def split: prod.splits)
  show "io_sent h' = io_sent h @ take n source" by (rule h)
  have "0 < fst (stream_write st (io_calls h) source) \<or> snd (stream_write st (io_calls h) source) \<noteq> None"
    using assms(2,3) unfolding productive_def by blast
  then show "0 < n \<or> err \<noteq> None" unfolding w by simp
qed

lemma share_full:
  assumes "i < p" "off ins p \<le> T" "i < length ins"
  shows "share ins T i = length (the_data (ins ! i))"
proof -
  have "off ins i + length (the_data (ins ! i)) \<le> off ins p"
    using off_mono [of "Suc i" p ins] assms by (simp add: off_Suc)
  then show ?thesis using assms(2) by (simp add: share_def)
qed

lemma attributed_passing:
  assumes "attributed T tx" "T \<le> U"
  shows "passing T U (m_first_incomplete tx) continuous tx"
proof -
  have a: "length (s_outs tx) = length (s_ins tx)" "m_first_incomplete tx \<le> status_end tx"
    "\<forall>i < m_first_incomplete tx. write_data (s_ins tx ! i) \<noteq> None" "off (s_ins tx) (m_first_incomplete tx) \<le> T"
    "\<forall>i < status_end tx. write_data (s_ins tx ! i) \<noteq> None \<longrightarrow> num_written (s_outs tx ! i) = share (s_ins tx) T i"
    using assms(1) unfolding attributed_def by blast+
  have "share (s_ins tx) T i = share (s_ins tx) U i" if "i < m_first_incomplete tx" for i
    using share_full [OF that, of "s_ins tx"] that a(2,4) assms(2) by (simp add: status_end_def)
  then show ?thesis using a assms(2) unfolding passing_def by auto
qed

lemma write_many_loop_attributes:
  assumes "productive st" "attributed T tx" "T \<le> length (bytes_of (s_ins tx))"
  shows "\<exists>ok tx' h' U. write_many_loop st e (drop T (bytes_of (s_ins tx))) continuous tx h = Some (ok, tx', h') \<and>
    T \<le> U \<and> U \<le> length (bytes_of (s_ins tx)) \<and> attributed U tx' \<and> s_ins tx' = s_ins tx \<and>
    io_sent h' = io_sent h @ take (U - T) (drop T (bytes_of (s_ins tx))) \<and> (ok \<longrightarrow> U = length (bytes_of (s_ins tx)))"
  using assms(2,3)
proof (induction "length (bytes_of (s_ins tx)) - T" arbitrary: T continuous tx h rule: less_induct)
  case less
  let ?all = "bytes_of (s_ins tx)"
  show ?case
  proof (cases "T = length ?all")
    case True
    then have "write_many_loop st e (drop T ?all) continuous tx h = Some (True, tx, h)"
      by (subst write_many_loop.simps) simp
    then show ?thesis
      using True less.prems by (intro exI [of _ True] exI [of _ tx] exI [of _ h] exI [of _ T]) simp
  next
    case False
    then have lt: "T < length ?all" and ne: "drop T ?all \<noteq> []" using less.prems(2) by simp_all
    obtain n err h1 where io: "io_write st (drop T ?all) h = (n, err, h1)" by (metis prod_cases3)
    note w = io_write_result [OF io assms(1) ne]
    define U where "U = T + min n (length ?all - T)"
    have U: "T \<le> U" "U \<le> length ?all" "U - T = min n (length ?all - T)" "err = None \<Longrightarrow> T < U"
      using lt w(2) by (auto simp: U_def)
    have sent: "io_sent h1 = io_sent h @ take (U - T) (drop T ?all)"
      unfolding w(1) U(3) by (simp add: min_def)
    have rest: "drop (min n (length (drop T ?all))) (drop T ?all) = drop U ?all"
      by (simp add: U_def min_def add.commute)
    define p where "p = m_first_incomplete tx"
    have offp: "off (s_ins tx) p \<le> T" using less.prems(1) by (simp add: attributed_def p_def)
    obtain gave_up c tx1 where ack: "acknowledge err e [p..<status_end tx] (U - T) continuous tx = (gave_up, c, tx1)"
      by (metis prod_cases3)
    have r: "U - T = U - max T (off (s_ins tx) p)" using offp by simp
    note pass = attributed_passing [OF less.prems(1) U(1), of continuous, folded p_def]
    note a = acknowledge_attributes [OF pass r ack]
    have total: "off (s_ins tx) (status_end tx) = length ?all" by (simp add: off_bytes status_end_def)
    have "more_writes p tx"
      using off_grows [of "s_ins tx" p "status_end tx"] offp lt total by (auto simp: more_writes_def status_end_def)
    then have err: "gave_up \<longleftrightarrow> err \<noteq> None" using a U(2) unfolding total by blast
    have step: "write_many_loop st e (drop T ?all) continuous tx h =
        (if gave_up then Some (False, tx1, h1) else write_many_loop st e (drop U ?all) c tx1 h1)"
      using io ack ne rest U(3) by (subst write_many_loop.simps) (simp add: Let_def p_def)
    show ?thesis
    proof (cases gave_up)
      case True
      then show ?thesis unfolding step using a U(1,2) sent by auto
    next
      case False
      have "\<exists>ok tx' h' V. write_many_loop st e (drop U ?all) c tx1 h1 = Some (ok, tx', h') \<and> U \<le> V \<and> V \<le> length ?all \<and>
          attributed V tx' \<and> s_ins tx' = s_ins tx \<and> io_sent h' = io_sent h1 @ take (V - U) (drop U ?all) \<and> (ok \<longrightarrow> V = length ?all)"
        using less.hyps [of tx1 U c h1] a U(2,4) err False lt by simp
      then obtain ok tx' h' V where v: "write_many_loop st e (drop U ?all) c tx1 h1 = Some (ok, tx', h')" "U \<le> V" "V \<le> length ?all"
        "attributed V tx'" "s_ins tx' = s_ins tx" "io_sent h' = io_sent h1 @ take (V - U) (drop U ?all)" "ok \<longrightarrow> V = length ?all"
        by blast
      have "take (U - T) (drop T ?all) @ take (V - U) (drop U ?all) = take (V - T) (drop T ?all)"
        using take_add [of "U - T" "V - U" "drop T ?all"] U(1) v(2) by simp
      then show ?thesis unfolding step using False v U(1) sent by (intro exI [of _ ok] exI [of _ tx'] exI [of _ h'] exI [of _ V]) simp
    qed
  qed
qed


lemma fill_result:
  assumes "p \<le> status_end tx" "length (s_outs tx) = length (s_ins tx)"
  shows "\<exists>tx'. fill [p..<status_end tx] tx buffer = (tx', buffer @ concat (map the_data (drop p (s_ins tx)))) \<and>
    s_ins tx' = s_ins tx \<and> length (s_outs tx') = length (s_outs tx) \<and> m_first_incomplete tx' = m_first_incomplete tx \<and>
    s_allocation_failure tx' = s_allocation_failure tx \<and>
    (\<forall>i < status_end tx. p \<le> i \<and> write_data (s_ins tx ! i) \<noteq> None \<longrightarrow> num_written (s_outs tx' ! i) = 0) \<and>
    (\<forall>i < p. s_outs tx' ! i = s_outs tx ! i)"
  using assms
proof (induction "status_end tx - p" arbitrary: p tx buffer)
  case 0
  then show ?case by (simp add: status_end_def)
next
  case (Suc n)
  have p: "p < status_end tx" and n: "n = status_end tx - Suc p" using Suc.hyps(2) by simp_all
  have up: "[p..<status_end tx] = p # [Suc p..<status_end tx]" using p by (simp add: upt_conv_Cons)
  have dr: "drop p (s_ins tx) = s_ins tx ! p # drop (Suc p) (s_ins tx)" using p by (simp add: Cons_nth_drop_Suc status_end_def)
  define tx1 where "tx1 = (if write_data (s_ins tx ! p) = None then tx else clear_written p tx)"
  have t1: "s_ins tx1 = s_ins tx" "length (s_outs tx1) = length (s_outs tx)" "m_first_incomplete tx1 = m_first_incomplete tx"
    "s_allocation_failure tx1 = s_allocation_failure tx" "status_end tx1 = status_end tx"
    "\<forall>i. i \<noteq> p \<longrightarrow> s_outs tx1 ! i = s_outs tx ! i"
    "write_data (s_ins tx ! p) \<noteq> None \<longrightarrow> num_written (s_outs tx1 ! p) = 0"
    using p Suc.prems(2) by (auto simp: tx1_def clear_written_def put_out_def status_end_def)
  have step: "fill [p..<status_end tx] tx buffer = fill [Suc p..<status_end tx1] tx1 (buffer @ the_data (s_ins tx ! p))"
    unfolding up t1(5) by (cases "write_data (s_ins tx ! p)") (simp_all add: tx1_def the_data_def)
  obtain tx' where r: "fill [Suc p..<status_end tx1] tx1 (buffer @ the_data (s_ins tx ! p)) =
      (tx', (buffer @ the_data (s_ins tx ! p)) @ concat (map the_data (drop (Suc p) (s_ins tx1))))"
    "s_ins tx' = s_ins tx1" "length (s_outs tx') = length (s_outs tx1)" "m_first_incomplete tx' = m_first_incomplete tx1"
    "s_allocation_failure tx' = s_allocation_failure tx1"
    "\<forall>i < status_end tx1. Suc p \<le> i \<and> write_data (s_ins tx1 ! i) \<noteq> None \<longrightarrow> num_written (s_outs tx' ! i) = 0"
    "\<forall>i < Suc p. s_outs tx' ! i = s_outs tx1 ! i"
    using Suc.hyps(1) [of tx1 "Suc p" "buffer @ the_data (s_ins tx ! p)"] n p t1 Suc.prems(2) by auto
  have "\<forall>i < status_end tx. p \<le> i \<and> write_data (s_ins tx ! i) \<noteq> None \<longrightarrow> num_written (s_outs tx' ! i) = 0"
    using r(6,7) t1 by (metis Suc_leI le_neq_implies_less lessI)
  then show ?case unfolding step r(1) dr using r(2-5,7) t1 by simp
qed

lemma write_one_loop_result:
  assumes "productive st" "i < length (s_outs tx)"
  shows "\<exists>ok tx' h' n. write_one_loop st e i bs tx h = Some (ok, tx', h') \<and> n \<le> length bs \<and>
    io_sent h' = io_sent h @ take n bs \<and> (ok \<longrightarrow> n = length bs) \<and> s_ins tx' = s_ins tx \<and> length (s_outs tx') = length (s_outs tx) \<and>
    m_first_incomplete tx' = m_first_incomplete tx \<and> num_written (s_outs tx' ! i) = num_written (s_outs tx ! i) + n"
  using assms(2)
proof (induction "length bs" arbitrary: bs tx h rule: less_induct)
  case less
  show ?case
  proof (cases "bs = []")
    case True
    then show ?thesis by (subst write_one_loop.simps) auto
  next
    case False
    obtain n err h1 where io: "io_write st bs h = (n, err, h1)" by (metis prod_cases3)
    note w = io_write_result [OF io assms(1) False]
    define n' where "n' = min n (length bs)"
    define tx1 where "tx1 = put_out i ((s_outs tx ! i)\<lparr>num_written := num_written (s_outs tx ! i) + n'\<rparr>) tx"
    have t1: "s_ins tx1 = s_ins tx" "length (s_outs tx1) = length (s_outs tx)" "m_first_incomplete tx1 = m_first_incomplete tx"
      "num_written (s_outs tx1 ! i) = num_written (s_outs tx ! i) + n'"
      using less.prems by (simp_all add: tx1_def put_out_def)
    have sent: "io_sent h1 = io_sent h @ take n' bs" unfolding w(1) n'_def by (simp add: min_def)
    have step: "write_one_loop st e i bs tx h =
        (case err of Some c \<Rightarrow> Some (False, FailCauseAt e i c tx1, h1) | None \<Rightarrow> write_one_loop st e i (drop n' bs) tx1 h1)"
      using io False by (subst write_one_loop.simps, cases err) (simp_all add: Let_def n'_def tx1_def)
    show ?thesis
    proof (cases err)
      case (Some c)
      then show ?thesis unfolding step using t1 sent by (intro exI [of _ False] exI [of _ "FailCauseAt e i c tx1"] exI [of _ h1] exI [of _ n']) (simp add: n'_def)
    next
      case None
      then have "length (drop n' bs) < length bs" using w(2) False by (simp add: n'_def)
      from less.hyps [OF this, of tx1 h1] obtain ok tx' h' m where
        v: "write_one_loop st e i (drop n' bs) tx1 h1 = Some (ok, tx', h')" "m \<le> length (drop n' bs)"
        "io_sent h' = io_sent h1 @ take m (drop n' bs)" "ok \<longrightarrow> m = length (drop n' bs)" "s_ins tx' = s_ins tx1"
        "length (s_outs tx') = length (s_outs tx1)" "m_first_incomplete tx' = m_first_incomplete tx1"
        "num_written (s_outs tx' ! i) = num_written (s_outs tx1 ! i) + m"
        using less.prems t1(2) by auto
      have "n' \<le> length bs" by (simp add: n'_def)
      then show ?thesis unfolding step None option.case
        using v t1 sent take_add [of n' m bs]
        by (intro exI [of _ ok] exI [of _ tx'] exI [of _ h'] exI [of _ "n' + m"]) auto
    qed
  qed
qed


lemma first_write_Some:
  assumes "first_write tx = Some i" "m_first_incomplete tx = 0"
  shows "i < status_end tx" "write_data (s_ins tx ! i) \<noteq> None" "\<forall>k < i. write_data (s_ins tx ! k) = None"
proof -
  obtain xs where f: "filter (\<lambda>i. write_data (s_ins tx ! i) \<noteq> None) [0..<status_end tx] = i # xs"
    using assms by (auto simp: first_write_def split: list.splits)
  have s: "sorted (i # xs)" unfolding f [symmetric] by (rule sorted_wrt_filter) simp
  have m: "k \<in> set (i # xs) \<longleftrightarrow> k < status_end tx \<and> write_data (s_ins tx ! k) \<noteq> None" for k
    unfolding f [symmetric] by auto
  have least: "i \<le> k" if "k < status_end tx" "write_data (s_ins tx ! k) \<noteq> None" for k
    using m [of k] that s by (cases "k = i") simp_all
  show i: "i < status_end tx" "write_data (s_ins tx ! i) \<noteq> None" using m [of i] by simp_all
  show "\<forall>k < i. write_data (s_ins tx ! k) = None" using least i(1) by (meson not_le order_less_trans)
qed

lemma first_write_None:
  assumes "first_write tx = None" "m_first_incomplete tx = 0"
  shows "\<forall>a \<in> set (s_ins tx). the_data a = []"
proof -
  have "write_data (s_ins tx ! i) = None" if "i < length (s_ins tx)" for i
    using assms that by (auto simp: first_write_def filter_empty_conv status_end_def split: list.splits)
  then show ?thesis by (auto simp: the_data_def in_set_conv_nth)
qed

text \<open>What the writes of a transaction have come to: \<open>U\<close> bytes.\<close>

definition written :: "nat \<Rightarrow> bs_tx \<Rightarrow> bs_tx \<Rightarrow> bool" where
  "written U tx tx' \<longleftrightarrow>
     s_ins tx' = s_ins tx \<and> length (s_outs tx') = length (s_outs tx) \<and> m_first_incomplete tx' \<le> status_end tx \<and>
     (\<forall>i < m_first_incomplete tx'. write_data (s_ins tx ! i) \<noteq> None) \<and> off (s_ins tx) (m_first_incomplete tx') \<le> U \<and>
     (\<forall>i < status_end tx. the_data (s_ins tx ! i) \<noteq> [] \<longrightarrow> num_written (s_outs tx' ! i) = share (s_ins tx) U i)"

lemma attributed_written:
  assumes "attributed U tx'" "s_ins tx' = s_ins tx" "length (s_outs tx) = length (s_ins tx)"
  shows "written U tx tx'"
proof -
  have "write_data a \<noteq> None" if "the_data a \<noteq> []" for a using that by (auto simp: the_data_def split: option.splits)
  then show ?thesis using assms by (simp add: attributed_def written_def status_end_def)
qed


lemma bytes_of_one:
  assumes "i < length ins" "length (the_data (ins ! i)) = length (bytes_of ins)" "\<forall>k < i. write_data (ins ! k) = None"
  shows "bytes_of ins = the_data (ins ! i)" "off ins i = 0" "\<forall>k < length ins. k \<noteq> i \<longrightarrow> the_data (ins ! k) = []"
proof -
  have split: "ins = take i ins @ ins ! i # drop (Suc i) ins" using assms(1) by (rule id_take_nth_drop)
  have before: "concat (map the_data (take i ins)) = []"
    using assms(3) by (auto simp: in_set_conv_nth the_data_def)
  have all: "bytes_of ins = the_data (ins ! i) @ concat (map the_data (drop (Suc i) ins))"
    unfolding bytes_of_def by (subst split) (simp add: before)
  then have after: "concat (map the_data (drop (Suc i) ins)) = []" using assms(2) by (metis append_Nil2 length_append length_0_conv add_cancel_right_right)
  show "bytes_of ins = the_data (ins ! i)" using all after by simp
  show "off ins i = 0" using before by (simp add: off_def)
  show "\<forall>k < length ins. k \<noteq> i \<longrightarrow> the_data (ins ! k) = []"
  proof (intro allI impI)
    fix k assume k: "k < length ins" "k \<noteq> i"
    show "the_data (ins ! k) = []"
    proof (cases "k < i")
      case True
      then show ?thesis using assms(3) by (simp add: the_data_def)
    next
      case False
      then have "ins ! k \<in> set (drop (Suc i) ins)"
        using k by (auto simp: in_set_conv_nth intro!: exI [of _ "k - Suc i"])
      then show ?thesis using after by simp
    qed
  qed
qed

lemma do_writes_result:
  assumes "productive st" "m_first_incomplete tx = 0" "length (s_outs tx) = length (s_ins tx)"
  shows "\<exists>ok tx' h' U. do_writes st True e tx h = Some (ok, tx', h') \<and> written U tx tx' \<and> U \<le> length (bytes_of (s_ins tx)) \<and>
    io_sent h' = io_sent h @ take U (bytes_of (s_ins tx)) \<and> (ok \<longrightarrow> U = length (bytes_of (s_ins tx)))"
proof (cases "first_write tx")
  case None
  note n = first_write_None [OF None assms(2)]
  then have "bytes_of (s_ins tx) = []" by (simp add: bytes_of_def)
  then show ?thesis
    using None assms n by (intro exI [of _ True] exI [of _ tx] exI [of _ h] exI [of _ 0]) (simp add: do_writes_def written_def status_end_def)
next
  case (Some i)
  note f = first_write_Some [OF Some assms(2)]
  let ?all = "bytes_of (s_ins tx)"
  have total: "total_bytes_to_write tx = length ?all"
    using assms(2) by (simp add: total_bytes_to_write_def Incomplete_def bytes_of_def length_concat comp_def)
  have i: "i < length (s_ins tx)" "i < length (s_outs tx)" using f(1) assms(3) by (simp_all add: status_end_def)
  show ?thesis
  proof (cases "length (the_data (s_ins tx ! i)) = length ?all")
    case True
    note one = bytes_of_one [OF i(1) True f(3)]
    define tx0 where "tx0 = clear_written i tx"
    have t0: "s_ins tx0 = s_ins tx" "length (s_outs tx0) = length (s_outs tx)" "m_first_incomplete tx0 = 0"
      "num_written (s_outs tx0 ! i) = 0" "i < length (s_outs tx0)"
      using i assms(2) by (simp_all add: tx0_def clear_written_def put_out_def)
    obtain ok tx' h' n where w: "write_one_loop st e i ?all tx0 h = Some (ok, tx', h')" "n \<le> length ?all"
      "io_sent h' = io_sent h @ take n ?all" "ok \<longrightarrow> n = length ?all" "s_ins tx' = s_ins tx0"
      "length (s_outs tx') = length (s_outs tx0)" "m_first_incomplete tx' = m_first_incomplete tx0"
      "num_written (s_outs tx' ! i) = num_written (s_outs tx0 ! i) + n"
      using write_one_loop_result [OF assms(1) t0(5), of e ?all h] by blast
    have "written n tx tx'"
      using w(2,5-8) t0 one unfolding written_def by (auto simp: share_def status_end_def)
    moreover have "do_writes st True e tx h = Some (ok, tx', h')"
      using Some True total one(1) w(1) by (simp add: do_writes_def WriteOne_def tx0_def)
    ultimately show ?thesis using w(2-4) by blast
  next
    case False
    obtain tx0 where t0: "fill [0..<status_end tx] tx [] = (tx0, ?all)" "s_ins tx0 = s_ins tx" "length (s_outs tx0) = length (s_outs tx)"
      "m_first_incomplete tx0 = 0" "\<forall>i < status_end tx. write_data (s_ins tx ! i) \<noteq> None \<longrightarrow> num_written (s_outs tx0 ! i) = 0"
      using fill_result [of 0 tx "[]"] assms(2,3) by (auto simp: bytes_of_def)
    have "attributed 0 tx0" using t0 assms(3) by (simp add: attributed_def status_end_def share_def)
    from write_many_loop_attributes [OF assms(1) this, of e True h] obtain ok tx' h' U where
      w: "write_many_loop st e ?all True tx0 h = Some (ok, tx', h')" "U \<le> length ?all" "attributed U tx'" "s_ins tx' = s_ins tx"
      "io_sent h' = io_sent h @ take U ?all" "ok \<longrightarrow> U = length ?all"
      by (auto simp: t0(2))
    have "do_writes st True e tx h = Some (ok, tx', h')"
      using Some False total t0(1) w(1) assms(2) by (simp add: do_writes_def WriteMany_def)
    then show ?thesis using w attributed_written [OF w(3,4) assms(3)] by blast
  qed
qed


subsection \<open>Properties\<close>

definition result_tx :: "bs_tx + bs_tx \<Rightarrow> bs_tx" where
  "result_tx r = (case r of Inl tx \<Rightarrow> tx | Inr tx \<Rightarrow> tx)"

lemma Execute_writes_result:
  assumes "productive st" "LockForEnqueue ep" "m_first_incomplete tx = 0" "length (s_outs tx) = length (s_ins tx)"
  shows "\<exists>r h' U. Execute name st True e ep tx h = Some (r, h') \<and>
    io_sent h' = io_sent h @ take U (bytes_of (s_ins tx)) \<and> written U tx (result_tx r) \<and>
    U \<le> length (bytes_of (s_ins tx)) \<and> (r \<in> range Inr \<or> status_ok (result_tx r) \<longrightarrow> U = length (bytes_of (s_ins tx)))"
proof -
  obtain ok tx' h' U where w: "do_writes st True e tx h = Some (ok, tx', h')" "written U tx tx'"
    "U \<le> length (bytes_of (s_ins tx))" "io_sent h' = io_sent h @ take U (bytes_of (s_ins tx))" "ok \<longrightarrow> U = length (bytes_of (s_ins tx))"
    using do_writes_result [OF assms(1,3,4), of e h] by blast
  define r where "r = (if \<not> ok \<or> m_first_incomplete tx' = status_end tx' then Inl tx' else Inr tx' :: bs_tx + bs_tx)"
  have r: "Execute name st True e ep tx h = Some (r, h')" "result_tx r = tx'"
    using w(1) assms(2) by (simp_all add: Execute_def r_def result_tx_def)
  have "U = length (bytes_of (s_ins tx))" if "status_ok tx'"
  proof -
    have "m_first_incomplete tx' = length (s_ins tx)" using that w(2) by (simp add: status_ok_def status_end_def written_def)
    then show ?thesis using w(2,3) by (simp add: written_def off_bytes)
  qed
  moreover have "U = length (bytes_of (s_ins tx))" if "r \<in> range Inr" using that w(5) by (auto simp: r_def split: if_splits)
  ultimately show ?thesis using w(2-4) r by blast
qed

text \<open>Property C9: the bytes of a transaction reach the stream in order and are attributed to the right writes.
  Whatever the sizes of the pieces the stream takes, \<open>Execute\<close> returns; what the stream got from it is a prefix
  of the bytes of its writes; every write that has bytes reports as written its part of that prefix; only
  writes are completed; and the transaction succeeds or goes on to its reads only when the prefix is everything.\<close>

theorem Execute_writes_in_order:
  assumes "productive st" "LockForEnqueue ep" "m_first_incomplete tx = 0" "length (s_outs tx) = length (s_ins tx)"
  shows "\<exists>r h' U. Execute name st True e ep tx h = Some (r, h') \<and>
    io_sent h' = io_sent h @ take U (bytes_of (s_ins tx)) \<and> written U tx (result_tx r) \<and>
    U \<le> length (bytes_of (s_ins tx)) \<and> (r \<in> range Inr \<or> status_ok (result_tx r) \<longrightarrow> U = length (bytes_of (s_ins tx)))"
  using Execute_writes_result [OF assms] .

text \<open>A stream that takes three bytes at a time.\<close>

definition trickle :: blocking_stream where
  "trickle = \<lparr>stream_write = (\<lambda>k bs. (3, None)), stream_read = (\<lambda>k n. ([], 0, None))\<rparr>"

definition bs_example :: "action list \<Rightarrow> bs_tx" where
  "bs_example acts =
     \<lparr>s_ins = map Inr acts, s_outs = map (\<lambda>_. \<lparr>num_written = 99, num_read = 0, bs_data = []\<rparr>) acts, s_allocation_failure = False,
      s_dependent = \<lparr>dep_chain = [], dep_length = 0\<rparr>, m_first_incomplete = 0, m_error = None\<rparr>"

theorem Execute_writes_in_order_witness:
  "\<exists>r h'. Execute ''tcp'' trickle True True new_endpoint (bs_example [WriteBytes [1, 2], WriteBytes [3, 4, 5], ReadBytes 4])
     \<lparr>io_calls = 0, io_sent = []\<rparr> = Some (r, h') \<and> (io_sent h' = [] \<or> hd (io_sent h') = 1)"
proof -
  let ?tx = "bs_example [WriteBytes [1, 2], WriteBytes [3, 4, 5], ReadBytes 4]"
  have "productive trickle" by (simp add: productive_def trickle_def)
  moreover have "LockForEnqueue new_endpoint" "m_first_incomplete ?tx = 0" "length (s_outs ?tx) = length (s_ins ?tx)"
    "bytes_of (s_ins ?tx) = [1, 2, 3, 4, 5]"
    by (simp_all add: LockForEnqueue_def new_endpoint_def bs_example_def bytes_of_def the_data_def)
  ultimately obtain r h' U where "Execute ''tcp'' trickle True True new_endpoint ?tx \<lparr>io_calls = 0, io_sent = []\<rparr> = Some (r, h')"
    "io_sent h' = take U [1, 2, 3, 4, 5]"
    using Execute_writes_in_order [of trickle new_endpoint ?tx "''tcp''" True "\<lparr>io_calls = 0, io_sent = []\<rparr>"] by auto
  then show ?thesis by (cases U) auto
qed

text \<open>What the read at position \<open>i\<close> is given: the call of the stream that has its number among the reads.\<close>

fun is_read :: "nat + action \<Rightarrow> bool" where
  "is_read (Inr (ReadBytes n)) = True"
| "is_read _ = False"

fun read_size :: "nat + action \<Rightarrow> nat" where
  "read_size (Inr (ReadBytes n)) = unat n"
| "read_size _ = 0"

definition read_call :: "blocking_stream \<Rightarrow> io \<Rightarrow> (nat + action) list \<Rightarrow> nat \<Rightarrow> nat \<Rightarrow> u8 list \<times> nat \<times> io_error" where
  "read_call st h ins p i =
     stream_read st (io_calls h + length (filter (\<lambda>k. is_read (ins ! k)) [p..<i])) (read_size (ins ! i))"

definition holds_read :: "u8 list \<times> nat \<times> io_error \<Rightarrow> bs_out \<Rightarrow> bool" where
  "holds_read r out \<longleftrightarrow> bs_data out = fst r \<and> num_read out = fst (snd r)"

definition reads_done :: "blocking_stream \<Rightarrow> bool \<Rightarrow> io \<Rightarrow> nat \<Rightarrow> bs_tx \<Rightarrow> bs_tx \<Rightarrow> bool" where
  "reads_done st e h p tx tx' \<longleftrightarrow>
     (let q = m_first_incomplete tx'; ins = s_ins tx in
        s_ins tx' = ins \<and> length (s_outs tx') = length (s_outs tx) \<and> p \<le> q \<and> q \<le> length ins \<and>
        (\<forall>i < length ins. p \<le> i \<and> i < q \<and> is_read (ins ! i) \<longrightarrow>
           holds_read (read_call st h ins p i) (s_outs tx' ! i) \<and> snd (snd (read_call st h ins p i)) = None) \<and>
        (\<forall>i < length ins. i < p \<or> \<not> is_read (ins ! i) \<longrightarrow> s_outs tx' ! i = s_outs tx ! i) \<and>
        (q < length ins \<longrightarrow> is_read (ins ! q) \<and> holds_read (read_call st h ins p q) (s_outs tx' ! q) \<and>
           (\<exists>c. snd (snd (read_call st h ins p q)) = Some c \<and>
              m_error tx' = (if e then map_option (MakeActionError (Some (ins ! q))) c else None))))"

lemma reads_done_step:
  assumes "reads_done st e h1 (Suc p) tx1 tx'" "s_ins tx1 = s_ins tx" "length (s_outs tx1) = length (s_outs tx)"
    and calls: "\<And>i. p < i \<Longrightarrow> read_call st h (s_ins tx) p i = read_call st h1 (s_ins tx) (Suc p) i"
    and outs: "\<And>i. i \<noteq> p \<or> \<not> is_read (s_ins tx ! p) \<Longrightarrow> s_outs tx1 ! i = s_outs tx ! i"
    and here: "is_read (s_ins tx ! p) \<Longrightarrow> holds_read (read_call st h (s_ins tx) p p) (s_outs tx1 ! p) \<and>
      snd (snd (read_call st h (s_ins tx) p p)) = None"
  shows "reads_done st e h p tx tx'"
proof -
  define q where "q = m_first_incomplete tx'"
  have d: "s_ins tx' = s_ins tx" "length (s_outs tx') = length (s_outs tx)" "Suc p \<le> q" "q \<le> length (s_ins tx)"
    "\<And>i. i < length (s_ins tx) \<Longrightarrow> Suc p \<le> i \<Longrightarrow> i < q \<Longrightarrow> is_read (s_ins tx ! i) \<Longrightarrow>
       holds_read (read_call st h1 (s_ins tx) (Suc p) i) (s_outs tx' ! i) \<and> snd (snd (read_call st h1 (s_ins tx) (Suc p) i)) = None"
    "\<And>i. i < length (s_ins tx) \<Longrightarrow> i < Suc p \<or> \<not> is_read (s_ins tx ! i) \<Longrightarrow> s_outs tx' ! i = s_outs tx1 ! i"
    "q < length (s_ins tx) \<Longrightarrow> is_read (s_ins tx ! q) \<and> holds_read (read_call st h1 (s_ins tx) (Suc p) q) (s_outs tx' ! q) \<and>
       (\<exists>c. snd (snd (read_call st h1 (s_ins tx) (Suc p) q)) = Some c \<and>
          m_error tx' = (if e then map_option (MakeActionError (Some (s_ins tx ! q))) c else None))"
    using assms(1) unfolding reads_done_def Let_def assms(2,3) q_def by blast+
  have "holds_read (read_call st h (s_ins tx) p i) (s_outs tx' ! i) \<and> snd (snd (read_call st h (s_ins tx) p i)) = None"
    if "i < length (s_ins tx)" "p \<le> i" "i < q" "is_read (s_ins tx ! i)" for i
  proof (cases "i = p")
    case True
    then show ?thesis using here that d(6) [of p] by simp
  next
    case False
    then show ?thesis using d(5) [of i] that calls [of i] by simp
  qed
  moreover have "s_outs tx' ! i = s_outs tx ! i" if "i < length (s_ins tx)" "i < p \<or> \<not> is_read (s_ins tx ! i)" for i
    using d(6) [of i] outs [of i] that by (cases "i = p") auto
  ultimately show ?thesis
    using d(1-4,7) calls [of q] unfolding reads_done_def Let_def q_def by simp
qed

lemma is_read_cases: "is_read a \<Longrightarrow> (\<And>n. a = Inr (ReadBytes n) \<Longrightarrow> P) \<Longrightarrow> P"
  by (cases a rule: is_read.cases) simp_all

lemma do_reads_result:
  assumes "do_reads st e [p..<status_end tx] tx h = (tx', h')" "m_first_incomplete tx = p" "p \<le> status_end tx"
    and "length (s_outs tx) = length (s_ins tx)" "\<forall>a \<in> set (s_ins tx). \<not> isl a"
  shows "reads_done st e h p tx tx'"
  using assms
proof (induction "status_end tx - p" arbitrary: p tx h)
  case 0
  then show ?case by (auto simp: reads_done_def Let_def status_end_def)
next
  case (Suc n)
  have p: "p < status_end tx" and n: "n = status_end tx - Suc p" using Suc.hyps(2) by simp_all
  have up: "[p..<status_end tx] = p # [Suc p..<status_end tx]" using p by (simp add: upt_conv_Cons)
  have known: "\<not> isl (s_ins tx ! p)" using Suc.prems(5) p by (simp add: status_end_def)
  have fi: "m_first_incomplete (Done p t) = Suc p" if "s_ins t = s_ins tx" for t :: bs_tx
    using that p known by (simp add: Done_def next_position_def status_end_def)
  show ?case
  proof (cases "is_read (s_ins tx ! p)")
    case False
    have "do_reads st e [Suc p..<status_end (Done p tx)] (Done p tx) h = (tx', h')"
      using Suc.prems(1) False unfolding up by (auto simp: Done_def status_end_def split: sum.splits action.splits)
    then have r: "reads_done st e h (Suc p) (Done p tx) tx'"
      using Suc.hyps(1) [of "Done p tx" "Suc p" h] n p fi [of tx] Suc.prems(4,5) by (simp add: Done_def status_end_def)
    show ?thesis
      by (rule reads_done_step [OF r]) (use False in \<open>simp_all add: Done_def read_call_def upt_conv_Cons\<close>)
  next
    case True
    then obtain k where k: "s_ins tx ! p = Inr (ReadBytes k)" by (rule is_read_cases)
    obtain bs m err where call: "stream_read st (io_calls h) (unat k) = (bs, m, err)" by (metis prod_cases3)
    define tx1 where "tx1 = put_out p ((s_outs tx ! p)\<lparr>bs_data := bs, num_read := m\<rparr>) tx"
    define h1 where "h1 = h\<lparr>io_calls := Suc (io_calls h)\<rparr>"
    have t1: "s_ins tx1 = s_ins tx" "length (s_outs tx1) = length (s_outs tx)" "m_first_incomplete tx1 = p"
      "\<And>i. i \<noteq> p \<Longrightarrow> s_outs tx1 ! i = s_outs tx ! i" "bs_data (s_outs tx1 ! p) = bs" "num_read (s_outs tx1 ! p) = m"
      using p Suc.prems(2,4) by (simp_all add: tx1_def put_out_def status_end_def)
    have here: "read_call st h (s_ins tx) p p = (bs, m, err)" using call k by (simp add: read_call_def)
    have step: "do_reads st e [p..<status_end tx] tx h =
        (case err of Some c \<Rightarrow> (FailCauseFirst e c tx1, h1) | None \<Rightarrow> do_reads st e [Suc p..<status_end tx] (Done p tx1) h1)"
      unfolding up using k call by (cases err) (simp_all add: io_read_def tx1_def h1_def Let_def)
    show ?thesis
    proof (cases err)
      case None
      have "do_reads st e [Suc p..<status_end (Done p tx1)] (Done p tx1) h1 = (tx', h')"
        using Suc.prems(1) None t1(1) unfolding step by (simp add: Done_def status_end_def)
      then have r: "reads_done st e h1 (Suc p) (Done p tx1) tx'"
        using Suc.hyps(1) [of "Done p tx1" "Suc p" h1] n p fi [of tx1] t1(1,2) Suc.prems(4,5) by (simp add: Done_def status_end_def)
      show ?thesis
        by (rule reads_done_step [OF r]) (use True None here t1 in \<open>simp_all add: Done_def read_call_def upt_conv_Cons h1_def holds_read_def\<close>)
    next
      case (Some c)
      then have tx': "tx' = FailCauseFirst e c tx1" using Suc.prems(1) unfolding step by simp
      have "\<not> status_ok tx1" using t1(1,3) p by (simp add: status_ok_def status_end_def)
      then have f: "tx' = FailCauseAt e p c tx1" by (simp add: tx' FailCauseFirst_def t1(3))
      have "m_error tx' = (if e then map_option (MakeActionError (Some (s_ins tx ! p))) c else None)"
        using p by (cases c) (simp_all add: f FailCauseAt_def FailImpl_def deref_def t1(1) status_end_def)
      moreover have "s_outs tx1 ! i = s_outs tx ! i" if "\<not> is_read (s_ins tx ! i)" for i
        using that True t1(4) by (cases "i = p") simp_all
      ultimately show ?thesis
        using f here True Some t1 p unfolding reads_done_def Let_def
        by (auto simp: holds_read_def status_end_def)
    qed
  qed
qed


text \<open>The reads of a transaction are served in order and the transaction ends at the first that
  fails. The read at each position gets the bytes and the count of its own call of the stream, also when the
  count is less than the size it asked for; the actions before the failing one are complete, and the error names
  the read that failed, with the cause the stream gave.\<close>

theorem DoReads_in_order:
  assumes "DoReads st e tx h = (tx', h')" "m_first_incomplete tx \<le> status_end tx"
    and "length (s_outs tx) = length (s_ins tx)" "\<forall>a \<in> set (s_ins tx). \<not> isl a"
  shows "reads_done st e h (m_first_incomplete tx) tx tx'"
  using do_reads_result assms unfolding DoReads_def by blast

definition half_closed :: blocking_stream where
  "half_closed = \<lparr>stream_write = (\<lambda>k bs. (length bs, None)),
     stream_read = (\<lambda>k n. if k = 0 then ([7], 1, None) else ([], 0, Some (Some CauseTargetError)))\<rparr>"

theorem DoReads_in_order_witness:
  "reads_done half_closed True \<lparr>io_calls = 0, io_sent = []\<rparr> 0 (bs_example [ReadBytes 4, WriteBytes [1], ReadBytes 4])
     (fst (DoReads half_closed True (bs_example [ReadBytes 4, WriteBytes [1], ReadBytes 4]) \<lparr>io_calls = 0, io_sent = []\<rparr>))"
proof -
  let ?tx = "bs_example [ReadBytes 4, WriteBytes [1], ReadBytes 4]"
  have "m_first_incomplete ?tx = 0" "m_first_incomplete ?tx \<le> status_end ?tx" "length (s_outs ?tx) = length (s_ins ?tx)"
    "\<forall>a \<in> set (s_ins ?tx). \<not> isl a"
    by (simp_all add: bs_example_def)
  then show ?thesis
    using DoReads_in_order [of half_closed True ?tx "\<lparr>io_calls = 0, io_sent = []\<rparr>" _ "snd (DoReads half_closed True ?tx \<lparr>io_calls = 0, io_sent = []\<rparr>)"]
    by (metis prod.collapse)
qed

text \<open>A stream that takes the first two bytes and then fails.\<close>

definition failing :: blocking_stream where
  "failing = \<lparr>stream_write = (\<lambda>k bs. if k = 0 then (2, None) else (0, Some (Some CauseTargetError))), stream_read = (\<lambda>k n. ([], 0, None))\<rparr>"

text \<open>A defect. When a stream fails behind a complete write that a read keeps from being marked as
  done, the failure is reported for that write, although all its bytes are written and another write is the one that failed.\<close>

theorem write_error_blames_complete_write:
  "\<exists>tx h. Execute ''tcp'' failing True True new_endpoint (bs_example [ReadBytes 4, WriteBytes [1, 2], WriteBytes [3]])
     \<lparr>io_calls = 0, io_sent = []\<rparr> = Some (Inl tx, h) \<and>
   m_error tx = Some (ActionError (Inr (WriteBytes [1, 2])) CauseTargetError) \<and>
   num_written (s_outs tx ! 1) = 2 \<and> num_written (s_outs tx ! 2) = 0"
proof -
  have "case Execute ''tcp'' failing True True new_endpoint (bs_example [ReadBytes 4, WriteBytes [1, 2], WriteBytes [3]])
      \<lparr>io_calls = 0, io_sent = []\<rparr> of
      Some (Inl tx, h) \<Rightarrow> m_error tx = Some (ActionError (Inr (WriteBytes [1, 2])) CauseTargetError) \<and>
        num_written (s_outs tx ! 1) = 2 \<and> num_written (s_outs tx ! 2) = 0
    | _ \<Rightarrow> False"
    by code_simp
  then show ?thesis by (auto split: option.splits sum.splits)
qed

end
