(* ===== verification/Sockets.thy ===== *)
theory Sockets
  imports Byte_Stream "HOL-Library.Multiset"
begin

text \<open>
  The blocking streams (\<open>driver/bytestream/TCPSocket\<close>, \<open>NamedPipe\<close>, with \<open>util/miscellaneous/ScopeGuard.hpp\<close>): sockets,
  named pipes and the servers that accept them.

  The operating system is a parameter: what the k-th call of a function returns for its arguments.
  The state is what the process holds of it: the number of calls made, the open descriptors and the
  number of address lists that are not freed. Closing a descriptor that is not open and freeing a
  list that is not there is \<open>None\<close>. The flag \<open>e\<close> tells whether the buffer of an error can be allocated.
  Errors that report \<open>errno\<close> read it behind the call that failed and before any guard runs.
\<close>

type_synonym u16 = "16 word"

subsection \<open>The operating system\<close>

text \<open>The address of \<open>getaddrinfo\<close>, \<open>sockaddr_in\<close> with its host and the bytes of its port, and \<open>sockaddr_un\<close> with its array.\<close>

datatype sockaddr =
    AddrResolved "u8 list"
  | AddrInet u32 "u8 list"
  | AddrUnix string

record os =
  os_getaddrinfo :: "nat \<Rightarrow> string \<Rightarrow> string \<Rightarrow> int \<times> u8 list option"
  os_socket :: "nat \<Rightarrow> int list \<Rightarrow> int"
  os_accept :: "nat \<Rightarrow> int \<Rightarrow> int list \<Rightarrow> int"
  os_connect :: "nat \<Rightarrow> int \<Rightarrow> sockaddr \<Rightarrow> int"
  os_setsockopt :: "nat \<Rightarrow> int \<Rightarrow> int"
  os_bind :: "nat \<Rightarrow> int \<Rightarrow> sockaddr \<Rightarrow> int"
  os_listen :: "nat \<Rightarrow> int \<Rightarrow> int \<Rightarrow> int"
  os_getsockname :: "nat \<Rightarrow> int \<Rightarrow> int \<times> u8 list"
  os_send :: "nat \<Rightarrow> int \<Rightarrow> u8 list \<Rightarrow> int"
  os_recv :: "nat \<Rightarrow> int \<Rightarrow> nat \<Rightarrow> u8 list \<times> int"
  os_errno :: "nat \<Rightarrow> int"
  os_sun_path_size :: nat

record net =
  net_calls :: nat
  net_open :: "int list"
  net_addrinfos :: nat

definition called :: "net \<Rightarrow> net" where
  "called w = w\<lparr>net_calls := Suc (net_calls w)\<rparr>"

definition opened :: "int \<Rightarrow> net \<Rightarrow> net" where
  "opened fd w = (if fd = -1 then called w else (called w)\<lparr>net_open := fd # net_open w\<rparr>)"

definition os_close :: "int \<Rightarrow> net \<Rightarrow> net option" where
  "os_close fd w =
     (if fd \<in> set (net_open w) then Some ((called w)\<lparr>net_open := remove1 fd (net_open w)\<rparr>) else None)"

definition freeaddrinfo :: "net \<Rightarrow> net option" where
  "freeaddrinfo w =
     (if 0 < net_addrinfos w then Some ((called w)\<lparr>net_addrinfos := net_addrinfos w - 1\<rparr>) else None)"

subsection \<open>Helpers\<close>

text \<open>\<open>ScopeGuard\<close>: the body tells whether the guard is still engaged when its scope ends.\<close>

definition scope_guard :: "('s \<Rightarrow> 's option) \<Rightarrow> ('s \<Rightarrow> (('a \<times> bool) \<times> 's) option) \<Rightarrow> 's \<Rightarrow> ('a \<times> 's) option" where
  "scope_guard func body s =
     do { ((r, engaged), s) \<leftarrow> body s;
          s \<leftarrow> (if engaged then func s else Some s);
          Some (r, s) }"

definition NUL :: char where
  "NUL = CHR 0x00"

text \<open>\<open>std::format_to_n\<close> into a zeroed array, and an array read as a string; it has to end in the array.\<close>

definition format_to_n :: "nat \<Rightarrow> string \<Rightarrow> string" where
  "format_to_n n s = take n s @ replicate (n - length s) NUL"

definition c_string :: "string \<Rightarrow> string option" where
  "c_string s = (if NUL \<in> set s then Some (takeWhile (\<lambda>c. c \<noteq> NUL) s) else None)"

text \<open>The port in network byte order, as its bytes in memory.\<close>

definition htons :: "u16 \<Rightarrow> u8 list" where
  "htons p = [ucast (drop_bit 8 p), ucast p]"

definition ntohs :: "u8 list \<Rightarrow> u16" where
  "ntohs bs = push_bit 8 (ucast (bs ! 0)) OR ucast (bs ! 1)"

definition MakeErrno :: "os \<Rightarrow> bool \<Rightarrow> string \<Rightarrow> int \<Rightarrow> net \<Rightarrow> cause option" where
  "MakeErrno os e function_name ret w =
     (if e then Some (CauseErrno function_name ret (os_errno os (net_calls w))) else None)"

definition MakeErrorCauseStringMessage :: "bool \<Rightarrow> string \<Rightarrow> cause option" where
  "MakeErrorCauseStringMessage e m = (if e then Some (CauseStringMessage m) else None)"

type_synonym 'a fallible = "((cause option + 'a) \<times> net) option"

subsection \<open>TCP\<close>

record tcp_socket =
  m_socket :: int

record tcp_server =
  m_server_socket :: int
  m_port :: u16

definition tcp_nodelay :: string where
  "tcp_nodelay = ''setsockopt(..., IPPROTO_TCP, TCP_NODELAY, 1, ...)''"

text \<open>\<open>Connect\<close> behind \<open>socket_guard\<close>: the guard stays engaged on every return but the last.\<close>

definition tcp_connect_socket :: "os \<Rightarrow> bool \<Rightarrow> u8 list \<Rightarrow> int \<Rightarrow> net \<Rightarrow> (((cause option + tcp_socket) \<times> bool) \<times> net) option" where
  "tcp_connect_socket os e ai_addr fd w =
     (let connect_result = os_connect os (net_calls w) fd (AddrResolved ai_addr); w = called w
      in if connect_result \<noteq> 0 then Some ((Inl (MakeErrno os e ''connect'' connect_result w), True), w)
         else
           let setsockopt_result = os_setsockopt os (net_calls w) fd; w = called w
           in if setsockopt_result \<noteq> 0
              then Some ((Inl (MakeErrno os e tcp_nodelay setsockopt_result w), True), w)
              else Some ((Inr \<lparr>m_socket = fd\<rparr>, False), w))"

definition tcp_connect_address :: "os \<Rightarrow> bool \<Rightarrow> u8 list \<Rightarrow> net \<Rightarrow> tcp_socket fallible" where
  "tcp_connect_address os e ai_addr w =
     (let fd = os_socket os (net_calls w) (net_open w); w = opened fd w
      in if fd = -1 then Some (Inl (MakeErrno os e ''socket'' fd w), w)
         else scope_guard (os_close fd) (tcp_connect_socket os e ai_addr fd) w)"

definition TCPSocket_Connect :: "os \<Rightarrow> bool \<Rightarrow> string \<Rightarrow> u16 \<Rightarrow> net \<Rightarrow> tcp_socket fallible" where
  "TCPSocket_Connect os e hostname port w =
     do { node \<leftarrow> c_string (hostname @ [NUL]);
          service \<leftarrow> c_string (format_to_n 16 (show_nat (unat port)));
          let (getaddrinfo_result, addrinfos) = os_getaddrinfo os (net_calls w) node service; w = called w
          in if getaddrinfo_result \<noteq> 0 then Some (Inl (MakeErrno os e ''getaddrinfo'' getaddrinfo_result w), w)
             else case addrinfos of
                    None \<Rightarrow> Some (Inl (MakeErrorCauseStringMessage e (''No addresses found by host name '' @ quoted hostname)), w)
                  | Some ai_addr \<Rightarrow>
                      scope_guard freeaddrinfo
                        (\<lambda>w. do { (r, w) \<leftarrow> tcp_connect_address os e ai_addr w; Some ((r, True), w) })
                        (w\<lparr>net_addrinfos := Suc (net_addrinfos w)\<rparr>) }"

text \<open>\<open>Write\<close> and \<open>Read\<close> as the k-th call.\<close>

definition TCPSocket_Write :: "os \<Rightarrow> bool \<Rightarrow> tcp_socket \<Rightarrow> nat \<Rightarrow> u8 list \<Rightarrow> nat \<times> io_error" where
  "TCPSocket_Write os e s k source =
     (let written = os_send os k (m_socket s) source
      in if written > 0 then (nat written, None)
         else (0, Some (if e then Some (CauseErrno ''send'' written (os_errno os (Suc k))) else None)))"

definition TCPSocket_Read :: "os \<Rightarrow> bool \<Rightarrow> tcp_socket \<Rightarrow> nat \<Rightarrow> nat \<Rightarrow> u8 list \<times> nat \<times> io_error" where
  "TCPSocket_Read os e s k n =
     (let (bytes, received) = os_recv os k (m_socket s) n
      in if received > 0 then (bytes, nat received, None)
         else if received = 0 then (bytes, 0, Some (if e then Some (CauseTerminated ''TCP socket'') else None))
         else (bytes, 0, Some (if e then Some (CauseErrno ''recv'' received (os_errno os (Suc k))) else None)))"

definition TCPSocket_Terminate :: "tcp_socket \<Rightarrow> net \<Rightarrow> (tcp_socket \<times> net) option" where
  "TCPSocket_Terminate s w =
     (if m_socket s \<noteq> -1 then do { w \<leftarrow> os_close (m_socket s) w; Some (s\<lparr>m_socket := -1\<rparr>, w) } else Some (s, w))"

text \<open>The move constructor: the new object and what is left of the old one.\<close>

definition TCPSocket_move :: "tcp_socket \<Rightarrow> tcp_socket \<times> tcp_socket" where
  "TCPSocket_move s = (\<lparr>m_socket = m_socket s\<rparr>, s\<lparr>m_socket := -1\<rparr>)"

definition tcp_server_socket :: "os \<Rightarrow> bool \<Rightarrow> u16 \<Rightarrow> int \<Rightarrow> int \<Rightarrow> net \<Rightarrow> (((cause option + tcp_server) \<times> bool) \<times> net) option" where
  "tcp_server_socket os e port max_num_queued_clients fd w =
     (let bind_result = os_bind os (net_calls w) fd (AddrInet 0 (htons port)); w = called w
      in if bind_result \<noteq> 0 then Some ((Inl (MakeErrno os e ''bind'' bind_result w), True), w)
         else
           let listen_result = os_listen os (net_calls w) fd max_num_queued_clients; w = called w
           in if listen_result \<noteq> 0 then Some ((Inl (MakeErrno os e ''listen'' listen_result w), True), w)
              else
                let (getsockname_result, sin_port) = os_getsockname os (net_calls w) fd; w = called w
                in if getsockname_result \<noteq> 0
                   then Some ((Inl (MakeErrno os e ''getsockname'' getsockname_result w), True), w)
                   else Some ((Inr \<lparr>m_server_socket = fd, m_port = ntohs sin_port\<rparr>, False), w))"

definition TCPServer_Create :: "os \<Rightarrow> bool \<Rightarrow> u16 \<Rightarrow> int \<Rightarrow> net \<Rightarrow> tcp_server fallible" where
  "TCPServer_Create os e port max_num_queued_clients w =
     (let fd = os_socket os (net_calls w) (net_open w); w = opened fd w
      in if fd = -1 then Some (Inl (MakeErrno os e ''socket'' fd w), w)
         else scope_guard (os_close fd) (tcp_server_socket os e port max_num_queued_clients fd) w)"

definition TCPServer_destroy :: "tcp_server \<Rightarrow> net \<Rightarrow> net option" where
  "TCPServer_destroy s w = (if m_server_socket s \<noteq> -1 then os_close (m_server_socket s) w else Some w)"

definition TCPServer_move :: "tcp_server \<Rightarrow> tcp_server \<times> tcp_server" where
  "TCPServer_move s = (s, s\<lparr>m_server_socket := -1\<rparr>)"

definition TCPServer_Accept :: "os \<Rightarrow> bool \<Rightarrow> tcp_server \<Rightarrow> net \<Rightarrow> tcp_socket fallible" where
  "TCPServer_Accept os e s w =
     (let fd = os_accept os (net_calls w) (m_server_socket s) (net_open w); w = opened fd w
      in if fd = -1 then Some (Inl (MakeErrno os e ''accept'' fd w), w)
         else
           let setsockopt_result = os_setsockopt os (net_calls w) fd; w = called w
           in if setsockopt_result \<noteq> 0 then Some (Inl (MakeErrno os e tcp_nodelay setsockopt_result w), w)
              else Some (Inr \<lparr>m_socket = fd\<rparr>, w))"

subsection \<open>Named pipes\<close>

record named_pipe =
  m_pipe :: int

record named_pipe_server =
  m_pipe_server :: int

text \<open>The address that \<open>Connect\<close> and \<open>Create\<close> format, \<open>None\<close> when the path does not fit with its terminator.\<close>

definition pipe_address :: "os \<Rightarrow> string \<Rightarrow> string option" where
  "pipe_address os pipe_name =
     (let path = ''/tmp/'' @ pipe_name
      in if length path \<ge> os_sun_path_size os then None else Some (format_to_n (os_sun_path_size os) path))"

definition pipe_connect_socket :: "os \<Rightarrow> bool \<Rightarrow> string \<Rightarrow> int \<Rightarrow> net \<Rightarrow> (((cause option + named_pipe) \<times> bool) \<times> net) option" where
  "pipe_connect_socket os e pipe_name fd w =
     (case pipe_address os pipe_name of
        None \<Rightarrow> Some ((Inl (MakeErrorCauseStringMessage e ''The pipe name is too long''), True), w)
      | Some sun_path \<Rightarrow>
          let connect_result = os_connect os (net_calls w) fd (AddrUnix sun_path); w = called w
          in if connect_result \<noteq> 0 then Some ((Inl (MakeErrno os e ''connect'' connect_result w), True), w)
             else Some ((Inr \<lparr>m_pipe = fd\<rparr>, False), w))"

definition NamedPipe_Connect :: "os \<Rightarrow> bool \<Rightarrow> string \<Rightarrow> net \<Rightarrow> named_pipe fallible" where
  "NamedPipe_Connect os e pipe_name w =
     (let fd = os_socket os (net_calls w) (net_open w); w = opened fd w
      in if fd = -1 then Some (Inl (MakeErrno os e ''socket'' fd w), w)
         else scope_guard (os_close fd) (pipe_connect_socket os e pipe_name fd) w)"

definition NamedPipe_Write :: "os \<Rightarrow> bool \<Rightarrow> named_pipe \<Rightarrow> nat \<Rightarrow> u8 list \<Rightarrow> nat \<times> io_error" where
  "NamedPipe_Write os e p k source =
     (let written = os_send os k (m_pipe p) source
      in if written > 0 then (nat written, None)
         else (0, Some (if e then Some (CauseErrno ''send'' written (os_errno os (Suc k))) else None)))"

definition NamedPipe_Read :: "os \<Rightarrow> bool \<Rightarrow> named_pipe \<Rightarrow> nat \<Rightarrow> nat \<Rightarrow> u8 list \<times> nat \<times> io_error" where
  "NamedPipe_Read os e p k n =
     (let (bytes, received) = os_recv os k (m_pipe p) n
      in if received > 0 then (bytes, nat received, None)
         else if received = 0 then (bytes, 0, Some (if e then Some (CauseTerminated ''Named pipe'') else None))
         else (bytes, 0, Some (if e then Some (CauseErrno ''recv'' received (os_errno os (Suc k))) else None)))"

definition NamedPipe_Terminate :: "named_pipe \<Rightarrow> net \<Rightarrow> (named_pipe \<times> net) option" where
  "NamedPipe_Terminate p w =
     (if m_pipe p \<noteq> -1 then do { w \<leftarrow> os_close (m_pipe p) w; Some (p\<lparr>m_pipe := -1\<rparr>, w) } else Some (p, w))"

definition NamedPipe_move :: "named_pipe \<Rightarrow> named_pipe \<times> named_pipe" where
  "NamedPipe_move p = (\<lparr>m_pipe = m_pipe p\<rparr>, p\<lparr>m_pipe := -1\<rparr>)"

definition pipe_server_socket ::
  "os \<Rightarrow> bool \<Rightarrow> string \<Rightarrow> int \<Rightarrow> int \<Rightarrow> net \<Rightarrow> (((cause option + named_pipe_server) \<times> bool) \<times> net) option"
where
  "pipe_server_socket os e pipe_name max_num_queued_clients fd w =
     (case pipe_address os pipe_name of
        None \<Rightarrow> Some ((Inl (MakeErrorCauseStringMessage e ''The pipe name is too long''), True), w)
      | Some sun_path \<Rightarrow>
          let bind_result = os_bind os (net_calls w) fd (AddrUnix sun_path); w = called w
          in if bind_result \<noteq> 0 then Some ((Inl (MakeErrno os e ''bind'' bind_result w), True), w)
             else
               let listen_result = os_listen os (net_calls w) fd max_num_queued_clients; w = called w
               in if listen_result \<noteq> 0 then Some ((Inl (MakeErrno os e ''listen'' listen_result w), True), w)
                  else Some ((Inr \<lparr>m_pipe_server = fd\<rparr>, False), w))"

definition NamedPipeServer_Create :: "os \<Rightarrow> bool \<Rightarrow> string \<Rightarrow> int \<Rightarrow> net \<Rightarrow> named_pipe_server fallible" where
  "NamedPipeServer_Create os e pipe_name max_num_queued_clients w =
     (let fd = os_socket os (net_calls w) (net_open w); w = opened fd w
      in if fd = -1 then Some (Inl (MakeErrno os e ''socket'' fd w), w)
         else scope_guard (os_close fd) (pipe_server_socket os e pipe_name max_num_queued_clients fd) w)"

definition NamedPipeServer_destroy :: "named_pipe_server \<Rightarrow> net \<Rightarrow> net option" where
  "NamedPipeServer_destroy s w = (if m_pipe_server s \<noteq> -1 then os_close (m_pipe_server s) w else Some w)"

definition NamedPipeServer_move :: "named_pipe_server \<Rightarrow> named_pipe_server \<times> named_pipe_server" where
  "NamedPipeServer_move s = (\<lparr>m_pipe_server = m_pipe_server s\<rparr>, s\<lparr>m_pipe_server := -1\<rparr>)"

definition NamedPipeServer_Accept :: "os \<Rightarrow> bool \<Rightarrow> named_pipe_server \<Rightarrow> net \<Rightarrow> named_pipe fallible" where
  "NamedPipeServer_Accept os e s w =
     (let fd = os_accept os (net_calls w) (m_pipe_server s) (net_open w); w = opened fd w
      in if fd = -1 then Some (Inl (MakeErrno os e ''accept'' fd w), w) else Some (Inr \<lparr>m_pipe = fd\<rparr>, w))"

subsection \<open>Texts and ports\<close>

lemma format_to_n_fits:
  assumes "length s < n" "NUL \<notin> set s"
  shows "c_string (format_to_n n s) = Some s"
proof -
  obtain k where "n - length s = Suc k" using assms(1) by (metis Suc_diff_Suc)
  moreover have "takeWhile (\<lambda>c. c \<noteq> NUL) (s @ NUL # r) = s" for r
    using assms(2) by (subst takeWhile_append2) auto
  ultimately show ?thesis using assms(1) by (simp add: format_to_n_def c_string_def)
qed

lemma show_base_length: "2 \<le> b \<Longrightarrow> n < b ^ Suc k \<Longrightarrow> length (show_base b n) \<le> Suc k"
proof (induction k arbitrary: n)
  case 0
  then show ?case by (subst show_base.simps) simp
next
  case (Suc k)
  have "n div b < b ^ Suc k" using Suc.prems by (simp add: less_mult_imp_div_less mult.commute)
  then show ?case using Suc.IH [of "n div b"] Suc.prems(1) by (subst show_base.simps) simp
qed

lemma digit_not_NUL: "d < 10 \<Longrightarrow> digit_char d \<noteq> NUL"
proof -
  assume "d < 10"
  then have "of_char (digit_char d) = (48 + d :: nat)" by (simp add: digit_char_def)
  then show ?thesis by (auto simp: NUL_def)
qed

lemma show_base_no_NUL: "NUL \<notin> set (show_base 10 n)"
proof (induction n rule: less_induct)
  case (less n)
  then show ?case
    by (subst show_base.simps) (auto simp: digit_not_NUL [symmetric] dest: digit_not_NUL [OF mod_less_divisor, rotated])
qed

text \<open>The port fits its array of 16 characters.\<close>

lemma port_string: "c_string (format_to_n 16 (show_nat (unat (p :: u16)))) = Some (show_nat (unat p))"
proof (rule format_to_n_fits)
  have "unat p < 2 ^ LENGTH(16)" by (rule unsigned_less)
  then have "unat p < 10 ^ Suc 4" by simp
  then have "length (show_base 10 (unat p)) \<le> Suc 4" by (intro show_base_length) simp_all
  then show "length (show_nat (unat p)) < 16" by (simp add: show_nat_def)
  show "NUL \<notin> set (show_nat (unat p))" by (simp add: show_nat_def show_base_no_NUL)
qed

lemma ntohs_htons [simp]: "ntohs (htons p) = p"
proof (rule bit_word_eqI)
  fix n
  assume "n < LENGTH(16)"
  then show "bit (ntohs (htons p)) n = bit p n"
    by (auto simp: ntohs_def htons_def bit_simps)
qed

text \<open>A path that is passed on is the whole path, so that both ends of a pipe meet exactly when they use the same name.\<close>

lemma pipe_address_string:
  "NUL \<notin> set name \<Longrightarrow> pipe_address os name = Some sun_path \<Longrightarrow> c_string sun_path = Some (''/tmp/'' @ name)"
  by (auto simp: pipe_address_def Let_def NUL_def split: if_splits intro!: format_to_n_fits [unfolded NUL_def])

lemma pipe_address_eq:
  assumes "NUL \<notin> set n1" "NUL \<notin> set n2" "pipe_address os n1 = Some p1" "pipe_address os n2 = Some p2"
  shows "p1 = p2 \<longleftrightarrow> n1 = n2"
  using pipe_address_string [OF assms(1,3)] pipe_address_string [OF assms(2,4)] assms(3,4) by auto

lemma pipe_address_None: "pipe_address os name = None \<longleftrightarrow> os_sun_path_size os \<le> 5 + length name"
  by (simp add: pipe_address_def Let_def)

subsection \<open>Descriptors have one owner\<close>

text \<open>What is relied on: a descriptor that is handed out is not one that is open. The two functions
  differ in what else they depend on.\<close>

definition os_fresh :: "os \<Rightarrow> bool" where
  "os_fresh os \<longleftrightarrow>
     (\<forall>k fds. os_socket os k fds \<notin> set fds) \<and> (\<forall>k fd fds. os_accept os k fd fds \<notin> set fds)"

text \<open>An operation that opens a descriptor for the object it returns, and leaves nothing behind when it fails.\<close>

definition acquires :: "('a \<Rightarrow> int) \<Rightarrow> net \<Rightarrow> 'a fallible \<Rightarrow> bool" where
  "acquires fd_of w res \<longleftrightarrow>
     (\<exists>r w'. res = Some (r, w') \<and> net_addrinfos w' = net_addrinfos w \<and>
        (case r of
           Inl _ \<Rightarrow> net_open w' = net_open w
         | Inr x \<Rightarrow> net_open w' = fd_of x # net_open w \<and> fd_of x \<noteq> -1 \<and> fd_of x \<notin> set (net_open w)))"

named_theorems net_simps

lemma called_simps [net_simps]:
  "net_open (called w) = net_open w" "net_addrinfos (called w) = net_addrinfos w"
  "fd \<noteq> -1 \<Longrightarrow> net_open (opened fd w) = fd # net_open w" "net_open (opened (- 1) w) = net_open w"
  "net_addrinfos (opened fd w) = net_addrinfos w"
  by (simp_all add: called_def opened_def)

text \<open>A guarded body that keeps the descriptors, and disengages the guard exactly when it succeeds.\<close>

definition guarded_body :: "('a \<Rightarrow> int) \<Rightarrow> int \<Rightarrow> net \<Rightarrow> (((cause option + 'a) \<times> bool) \<times> net) option \<Rightarrow> bool" where
  "guarded_body fd_of fd w res \<longleftrightarrow>
     (\<exists>r engaged w'. res = Some ((r, engaged), w') \<and> net_open w' = net_open w \<and> net_addrinfos w' = net_addrinfos w \<and>
        (case r of Inl _ \<Rightarrow> engaged | Inr x \<Rightarrow> \<not> engaged \<and> fd_of x = fd))"

lemma scope_guard_acquires:
  assumes "guarded_body fd_of fd (opened fd w) (body (opened fd w))" "fd \<noteq> -1" "fd \<notin> set (net_open w)"
  shows "acquires fd_of w (scope_guard (os_close fd) body (opened fd w))"
proof -
  obtain r engaged w' where body: "body (opened fd w) = Some ((r, engaged), w')" "net_open w' = fd # net_open w"
    "net_addrinfos w' = net_addrinfos w" "case r of Inl _ \<Rightarrow> engaged | Inr x \<Rightarrow> \<not> engaged \<and> fd_of x = fd"
    using assms by (auto simp: guarded_body_def net_simps)
  then show ?thesis
    using assms(2,3) by (cases r) (auto simp: acquires_def scope_guard_def os_close_def net_simps)
qed

lemma tcp_connect_socket_body:
  "guarded_body m_socket fd w (tcp_connect_socket os e addr fd w)"
  by (auto simp: guarded_body_def tcp_connect_socket_def Let_def net_simps)

lemma tcp_server_socket_body:
  "guarded_body m_server_socket fd w (tcp_server_socket os e port n fd w)"
  by (auto simp: guarded_body_def tcp_server_socket_def Let_def net_simps split: prod.splits)

lemma pipe_connect_socket_body:
  "guarded_body m_pipe fd w (pipe_connect_socket os e name fd w)"
  by (auto simp: guarded_body_def pipe_connect_socket_def Let_def net_simps split: option.splits)

lemma pipe_server_socket_body:
  "guarded_body m_pipe_server fd w (pipe_server_socket os e name n fd w)"
  by (auto simp: guarded_body_def pipe_server_socket_def Let_def net_simps split: option.splits)

lemma opened_acquires:
  assumes "os_fresh os" and "\<And>fd. guarded_body fd_of fd (opened fd w) (body fd (opened fd w))"
    and "fd = os_socket os (net_calls w) (net_open w)"
  shows "acquires fd_of w
    (if fd = -1 then Some (Inl (MakeErrno os e ''socket'' fd (opened fd w)), opened fd w)
     else scope_guard (os_close fd) (body fd) (opened fd w))"
  using assms scope_guard_acquires [of fd_of fd w "body fd"]
  by (auto simp: acquires_def os_fresh_def net_simps)

lemma tcp_connect_address_acquires: "os_fresh os \<Longrightarrow> acquires m_socket w (tcp_connect_address os e addr w)"
  unfolding tcp_connect_address_def Let_def by (rule opened_acquires) (simp_all add: tcp_connect_socket_body)

lemma TCPServer_Create_acquires: "os_fresh os \<Longrightarrow> acquires m_server_socket w (TCPServer_Create os e port n w)"
  unfolding TCPServer_Create_def Let_def by (rule opened_acquires) (simp_all add: tcp_server_socket_body)

lemma NamedPipe_Connect_acquires: "os_fresh os \<Longrightarrow> acquires m_pipe w (NamedPipe_Connect os e name w)"
  unfolding NamedPipe_Connect_def Let_def by (rule opened_acquires) (simp_all add: pipe_connect_socket_body)

lemma NamedPipeServer_Create_acquires: "os_fresh os \<Longrightarrow> acquires m_pipe_server w (NamedPipeServer_Create os e name n w)"
  unfolding NamedPipeServer_Create_def Let_def by (rule opened_acquires) (simp_all add: pipe_server_socket_body)

lemma NamedPipeServer_Accept_acquires: "os_fresh os \<Longrightarrow> acquires m_pipe w (NamedPipeServer_Accept os e s w)"
  by (auto simp: acquires_def NamedPipeServer_Accept_def Let_def os_fresh_def net_simps)

lemma TCPSocket_Connect_acquires:
  assumes "os_fresh os"
  shows "acquires m_socket w (TCPSocket_Connect os e host port w)"
proof -
  obtain res infos where ai: "os_getaddrinfo os (net_calls w) (takeWhile (\<lambda>c. c \<noteq> NUL) (host @ [NUL])) (show_nat (unat port)) = (res, infos)"
    by fastforce
  have host: "c_string (host @ [NUL]) = Some (takeWhile (\<lambda>c. c \<noteq> NUL) (host @ [NUL]))" by (simp add: c_string_def)
  show ?thesis
  proof (cases "res = 0 \<and> infos \<noteq> None")
    case True
    then obtain addr where addr: "infos = Some addr" by blast
    let ?w = "(called w)\<lparr>net_addrinfos := Suc (net_addrinfos w)\<rparr>"
    have open_w: "net_open ?w = net_open w" "net_addrinfos ?w = Suc (net_addrinfos w)" by (simp_all add: net_simps)
    obtain r w' where "tcp_connect_address os e addr ?w = Some (r, w')" "net_addrinfos w' = Suc (net_addrinfos w)"
      "case r of Inl _ \<Rightarrow> net_open w' = net_open w
         | Inr x \<Rightarrow> net_open w' = m_socket x # net_open w \<and> m_socket x \<noteq> -1 \<and> m_socket x \<notin> set (net_open w)"
      using tcp_connect_address_acquires [OF assms, of ?w e addr] unfolding acquires_def open_w by blast
    then show ?thesis
      using True addr ai
      by (auto simp: TCPSocket_Connect_def Let_def host port_string scope_guard_def freeaddrinfo_def acquires_def net_simps
          split: sum.splits)
  next
    case False
    then show ?thesis
      using ai by (auto simp: TCPSocket_Connect_def Let_def host port_string acquires_def net_simps)
  qed
qed

subsection \<open>A program of streams and servers\<close>

text \<open>The objects of a program, each in its list, and what a program can do with them. An object that is
  moved from, terminated or destroyed keeps its place. An operation on an object that does not exist does nothing.\<close>

record streams =
  st_net :: net
  st_tcp :: "tcp_socket list"
  st_tcp_servers :: "tcp_server list"
  st_pipes :: "named_pipe list"
  st_pipe_servers :: "named_pipe_server list"

datatype stream_op =
    OpConnect string u16
  | OpCreate u16 int
  | OpAccept nat
  | OpMove nat
  | OpTerminate nat
  | OpServerMove nat
  | OpServerDestroy nat
  | OpPipeConnect string
  | OpPipeCreate string int
  | OpPipeAccept nat
  | OpPipeMove nat
  | OpPipeTerminate nat
  | OpPipeServerMove nat
  | OpPipeServerDestroy nat

text \<open>The result of an operation that may fail, stored by \<open>store\<close>.\<close>

definition keep_result :: "('a \<Rightarrow> streams \<Rightarrow> streams) \<Rightarrow> 'a fallible \<Rightarrow> streams \<Rightarrow> streams option" where
  "keep_result store res s =
     do { (r, w) \<leftarrow> res;
          let s = s\<lparr>st_net := w\<rparr> in Some (case r of Inl _ \<Rightarrow> s | Inr x \<Rightarrow> store x s) }"

definition add_tcp :: "tcp_socket \<Rightarrow> streams \<Rightarrow> streams" where
  "add_tcp x s = s\<lparr>st_tcp := st_tcp s @ [x]\<rparr>"

definition add_tcp_server :: "tcp_server \<Rightarrow> streams \<Rightarrow> streams" where
  "add_tcp_server x s = s\<lparr>st_tcp_servers := st_tcp_servers s @ [x]\<rparr>"

definition add_pipe :: "named_pipe \<Rightarrow> streams \<Rightarrow> streams" where
  "add_pipe x s = s\<lparr>st_pipes := st_pipes s @ [x]\<rparr>"

definition add_pipe_server :: "named_pipe_server \<Rightarrow> streams \<Rightarrow> streams" where
  "add_pipe_server x s = s\<lparr>st_pipe_servers := st_pipe_servers s @ [x]\<rparr>"

definition move_at :: "('a \<Rightarrow> 'a \<times> 'a) \<Rightarrow> nat \<Rightarrow> 'a list \<Rightarrow> 'a list" where
  "move_at move i xs = (if i < length xs then (case move (xs ! i) of (to, from) \<Rightarrow> xs[i := from] @ [to]) else xs)"

fun perform_op :: "os \<Rightarrow> bool \<Rightarrow> stream_op \<Rightarrow> streams \<Rightarrow> streams option" where
  "perform_op os e (OpConnect host port) s = keep_result add_tcp (TCPSocket_Connect os e host port (st_net s)) s"
| "perform_op os e (OpCreate port n) s = keep_result add_tcp_server (TCPServer_Create os e port n (st_net s)) s"
| "perform_op os e (OpAccept i) s =
     (if i < length (st_tcp_servers s) then keep_result add_tcp (TCPServer_Accept os e (st_tcp_servers s ! i) (st_net s)) s
      else Some s)"
| "perform_op os e (OpMove i) s = Some (s\<lparr>st_tcp := move_at TCPSocket_move i (st_tcp s)\<rparr>)"
| "perform_op os e (OpTerminate i) s =
     (if i < length (st_tcp s)
      then do { (x, w) \<leftarrow> TCPSocket_Terminate (st_tcp s ! i) (st_net s); Some (s\<lparr>st_tcp := (st_tcp s)[i := x], st_net := w\<rparr>) }
      else Some s)"
| "perform_op os e (OpServerMove i) s = Some (s\<lparr>st_tcp_servers := move_at TCPServer_move i (st_tcp_servers s)\<rparr>)"
| "perform_op os e (OpServerDestroy i) s =
     (if i < length (st_tcp_servers s)
      then do { w \<leftarrow> TCPServer_destroy (st_tcp_servers s ! i) (st_net s);
                Some (s\<lparr>st_tcp_servers := (st_tcp_servers s)[i := (st_tcp_servers s ! i)\<lparr>m_server_socket := -1\<rparr>], st_net := w\<rparr>) }
      else Some s)"
| "perform_op os e (OpPipeConnect name) s = keep_result add_pipe (NamedPipe_Connect os e name (st_net s)) s"
| "perform_op os e (OpPipeCreate name n) s = keep_result add_pipe_server (NamedPipeServer_Create os e name n (st_net s)) s"
| "perform_op os e (OpPipeAccept i) s =
     (if i < length (st_pipe_servers s)
      then keep_result add_pipe (NamedPipeServer_Accept os e (st_pipe_servers s ! i) (st_net s)) s else Some s)"
| "perform_op os e (OpPipeMove i) s = Some (s\<lparr>st_pipes := move_at NamedPipe_move i (st_pipes s)\<rparr>)"
| "perform_op os e (OpPipeTerminate i) s =
     (if i < length (st_pipes s)
      then do { (x, w) \<leftarrow> NamedPipe_Terminate (st_pipes s ! i) (st_net s); Some (s\<lparr>st_pipes := (st_pipes s)[i := x], st_net := w\<rparr>) }
      else Some s)"
| "perform_op os e (OpPipeServerMove i) s = Some (s\<lparr>st_pipe_servers := move_at NamedPipeServer_move i (st_pipe_servers s)\<rparr>)"
| "perform_op os e (OpPipeServerDestroy i) s =
     (if i < length (st_pipe_servers s)
      then do { w \<leftarrow> NamedPipeServer_destroy (st_pipe_servers s ! i) (st_net s);
                Some (s\<lparr>st_pipe_servers := (st_pipe_servers s)[i := (st_pipe_servers s ! i)\<lparr>m_pipe_server := -1\<rparr>], st_net := w\<rparr>) }
      else Some s)"

fun perform_ops :: "os \<Rightarrow> bool \<Rightarrow> stream_op list \<Rightarrow> streams \<Rightarrow> streams option" where
  "perform_ops os e [] s = Some s"
| "perform_ops os e (op # ops) s = do { s \<leftarrow> perform_op os e op s; perform_ops os e ops s }"

definition no_streams :: streams where
  "no_streams = \<lparr>st_net = \<lparr>net_calls = 0, net_open = [], net_addrinfos = 0\<rparr>, st_tcp = [], st_tcp_servers = [],
     st_pipes = [], st_pipe_servers = []\<rparr>"

text \<open>The descriptors that the objects of a list hold.\<close>

definition held_fds :: "('a \<Rightarrow> int) \<Rightarrow> 'a list \<Rightarrow> int multiset" where
  "held_fds fd_of xs = filter_mset (\<lambda>fd. fd \<noteq> -1) (image_mset fd_of (mset xs))"

definition owned :: "streams \<Rightarrow> int multiset" where
  "owned s = held_fds m_socket (st_tcp s) + held_fds m_server_socket (st_tcp_servers s) +
     held_fds m_pipe (st_pipes s) + held_fds m_pipe_server (st_pipe_servers s)"

text \<open>Every object holds a descriptor of its own that is open; the other open descriptors are \<open>L\<close>.\<close>

definition owns :: "int multiset \<Rightarrow> streams \<Rightarrow> bool" where
  "owns L s \<longleftrightarrow> distinct (net_open (st_net s)) \<and> net_addrinfos (st_net s) = 0 \<and> mset (net_open (st_net s)) = owned s + L"

text \<open>Behind \<open>accept\<close> there is no guard: the accepted descriptor of \<open>TCPServer::Accept\<close> on which \<open>setsockopt\<close> fails. Over a
  sequence of operations, all of these.\<close>

fun op_leak :: "os \<Rightarrow> stream_op \<Rightarrow> streams \<Rightarrow> int multiset" where
  "op_leak os (OpAccept i) s =
     (if i < length (st_tcp_servers s) then
        let w = st_net s; fd = os_accept os (net_calls w) (m_server_socket (st_tcp_servers s ! i)) (net_open w)
        in if fd \<noteq> -1 \<and> os_setsockopt os (net_calls (opened fd w)) fd \<noteq> 0 then {#fd#} else {#}
      else {#})"
| "op_leak os _ s = {#}"

fun accept_leaks :: "os \<Rightarrow> bool \<Rightarrow> stream_op list \<Rightarrow> streams \<Rightarrow> int multiset" where
  "accept_leaks os e [] s = {#}"
| "accept_leaks os e (op # ops) s =
     op_leak os op s + (case perform_op os e op s of None \<Rightarrow> {#} | Some s' \<Rightarrow> accept_leaks os e ops s')"

lemma held_fds_simps [simp]:
  "held_fds fd_of [] = {#}"
  "held_fds fd_of (xs @ [x]) = held_fds fd_of xs + (if fd_of x = -1 then {#} else {#fd_of x#})"
  by (simp_all add: held_fds_def)

lemma held_fds_update:
  assumes "i < length xs" "fd_of x = -1"
  shows "held_fds fd_of xs = held_fds fd_of (xs[i := x]) + (if fd_of (xs ! i) = -1 then {#} else {#fd_of (xs ! i)#})"
proof -
  define M where "M = mset xs - {#xs ! i#}"
  have "mset (xs[i := x]) = add_mset x M" unfolding M_def using assms(1) by (rule mset_update)
  moreover have "mset xs = add_mset (xs ! i) M" unfolding M_def using assms(1) by simp
  ultimately show ?thesis using assms(2) by (simp add: held_fds_def)
qed

lemma held_fds_move_at:
  assumes "\<And>x. fd_of (fst (move x)) = fd_of x" "\<And>x. fd_of (snd (move x)) = -1"
  shows "held_fds fd_of (move_at move i xs) = held_fds fd_of xs"
proof (cases "i < length xs")
  case True
  obtain to_obj from_obj where m: "move (xs ! i) = (to_obj, from_obj)" by fastforce
  then have "fd_of to_obj = fd_of (xs ! i)" "fd_of from_obj = -1" using assms by (metis fst_conv, metis snd_conv)
  then show ?thesis using True m held_fds_update [OF True, of fd_of from_obj] by (simp add: move_at_def)
qed (simp add: move_at_def)

lemma owned_simps [simp]:
  "owned (s\<lparr>st_net := w\<rparr>) = owned s"
  "owned (add_tcp x s) = owned s + held_fds m_socket [x]"
  "owned (add_tcp_server y s) = owned s + held_fds m_server_socket [y]"
  "owned (add_pipe z s) = owned s + held_fds m_pipe [z]"
  "owned (add_pipe_server v s) = owned s + held_fds m_pipe_server [v]"
  using held_fds_simps(2) [of m_socket "[]" x] held_fds_simps(2) [of m_server_socket "[]" y]
    held_fds_simps(2) [of m_pipe "[]" z] held_fds_simps(2) [of m_pipe_server "[]" v]
  by (simp_all add: owned_def add_tcp_def add_tcp_server_def add_pipe_def add_pipe_server_def)

lemma store_net [simp]:
  "st_net (add_tcp x s) = st_net s" "st_net (add_tcp_server y s) = st_net s"
  "st_net (add_pipe z s) = st_net s" "st_net (add_pipe_server v s) = st_net s"
  by (simp_all add: add_tcp_def add_tcp_server_def add_pipe_def add_pipe_server_def)

lemma keep_result_owns:
  assumes "owns L s" "acquires fd_of (st_net s) res"
    and "\<And>x s. owned (store x s) = owned s + held_fds fd_of [x]" "\<And>x s. st_net (store x s) = st_net s"
  shows "\<exists>s'. keep_result store res s = Some s' \<and> owns L s'"
proof -
  obtain r w where rw: "res = Some (r, w)" "net_addrinfos w = net_addrinfos (st_net s)"
    and r: "case r of Inl _ \<Rightarrow> net_open w = net_open (st_net s)
      | Inr x \<Rightarrow> net_open w = fd_of x # net_open (st_net s) \<and> fd_of x \<noteq> -1 \<and> fd_of x \<notin> set (net_open (st_net s))"
    using assms(2) unfolding acquires_def by blast
  show ?thesis
  proof (cases r)
    case (Inl c)
    then show ?thesis using assms(1) rw r by (simp add: keep_result_def owns_def)
  next
    case (Inr x)
    have "held_fds fd_of [x] = {#fd_of x#}" using Inr r held_fds_simps(2) [of fd_of "[]" x] by simp
    then show ?thesis using assms(1,3,4) rw r Inr by (simp add: keep_result_def owns_def)
  qed
qed

text \<open>An object gives up its descriptor.\<close>

lemma release_owns:
  assumes "owns L s" "owned s = owned s' + {#fd#}" "st_net s' = st_net s"
  shows "\<exists>w. os_close fd (st_net s) = Some w \<and> owns L (s'\<lparr>st_net := w\<rparr>)"
proof -
  have M: "mset (net_open (st_net s)) = add_mset fd (owned s' + L)" using assms(1,2) by (simp add: owns_def)
  then have "fd \<in> set (net_open (st_net s))" by (metis set_mset_mset union_single_eq_member)
  then show ?thesis
    using assms(1,3) M by (simp add: os_close_def owns_def net_simps)
qed

lemma owns_move:
  assumes "owns L s" "owned s' = owned s" "st_net s' = st_net s"
  shows "owns L s'"
  using assms by (simp add: owns_def)

text \<open>\<open>TCPServer::Accept\<close> keeps the descriptor, or leaks it.\<close>

lemma accept_owns:
  assumes "owns L s" "os_fresh os" "i < length (st_tcp_servers s)"
  shows "\<exists>s'. keep_result add_tcp (TCPServer_Accept os e (st_tcp_servers s ! i) (st_net s)) s = Some s' \<and>
    owns (L + op_leak os (OpAccept i) s) s'"
proof -
  define fd where "fd = os_accept os (net_calls (st_net s)) (m_server_socket (st_tcp_servers s ! i)) (net_open (st_net s))"
  have "fd \<notin> set (net_open (st_net s))" using assms(2) by (simp add: os_fresh_def fd_def)
  then show ?thesis
    using assms(1,3) held_fds_simps(2) [of m_socket "[]" "\<lparr>m_socket = fd\<rparr>"]
    by (auto simp: keep_result_def TCPServer_Accept_def Let_def owns_def net_simps simp flip: fd_def)
qed

lemma owned_update:
  "i < length (st_tcp s) \<Longrightarrow> m_socket x = -1 \<Longrightarrow>
     owned s = owned (s\<lparr>st_tcp := (st_tcp s)[i := x]\<rparr>) + (if m_socket (st_tcp s ! i) = -1 then {#} else {#m_socket (st_tcp s ! i)#})"
  "j < length (st_tcp_servers s) \<Longrightarrow> m_server_socket y = -1 \<Longrightarrow>
     owned s = owned (s\<lparr>st_tcp_servers := (st_tcp_servers s)[j := y]\<rparr>) +
       (if m_server_socket (st_tcp_servers s ! j) = -1 then {#} else {#m_server_socket (st_tcp_servers s ! j)#})"
  "k < length (st_pipes s) \<Longrightarrow> m_pipe z = -1 \<Longrightarrow>
     owned s = owned (s\<lparr>st_pipes := (st_pipes s)[k := z]\<rparr>) + (if m_pipe (st_pipes s ! k) = -1 then {#} else {#m_pipe (st_pipes s ! k)#})"
  "l < length (st_pipe_servers s) \<Longrightarrow> m_pipe_server v = -1 \<Longrightarrow>
     owned s = owned (s\<lparr>st_pipe_servers := (st_pipe_servers s)[l := v]\<rparr>) +
       (if m_pipe_server (st_pipe_servers s ! l) = -1 then {#} else {#m_pipe_server (st_pipe_servers s ! l)#})"
  unfolding owned_def
  using held_fds_update [of i "st_tcp s" m_socket x] held_fds_update [of j "st_tcp_servers s" m_server_socket y]
    held_fds_update [of k "st_pipes s" m_pipe z] held_fds_update [of l "st_pipe_servers s" m_pipe_server v]
  by (auto split: if_splits)

text \<open>The releasing operations have one shape.\<close>

lemma release_at_owns:
  assumes "owns L s" "st_net s' = st_net s" "owned s = owned s' + (if fd = -1 then {#} else {#fd#})"
  shows "\<exists>w. (if fd \<noteq> -1 then os_close fd (st_net s) else Some (st_net s)) = Some w \<and> owns L (s'\<lparr>st_net := w\<rparr>)"
proof (cases "fd = -1")
  case True
  then show ?thesis using owns_move [OF assms(1), of "s'\<lparr>st_net := st_net s\<rparr>"] assms(3) by simp
next
  case False
  then show ?thesis using release_owns [OF assms(1) _ assms(2), of fd] assms(3) by simp
qed

lemma perform_op_owns:
  assumes "owns L s" "os_fresh os"
  shows "\<exists>s'. perform_op os e op s = Some s' \<and> owns (L + op_leak os op s) s'"
proof (cases op)
  case (OpConnect h p)
  then show ?thesis using keep_result_owns [OF assms(1) TCPSocket_Connect_acquires] assms(2) by simp
next
  case (OpCreate p n)
  then show ?thesis using keep_result_owns [OF assms(1) TCPServer_Create_acquires] assms(2) by simp
next
  case (OpAccept i)
  then show ?thesis using accept_owns [OF assms] assms(1) by (cases "i < length (st_tcp_servers s)") simp_all
next
  case (OpMove i)
  have "owned (s\<lparr>st_tcp := move_at TCPSocket_move i (st_tcp s)\<rparr>) = owned s"
    by (simp add: owned_def held_fds_move_at TCPSocket_move_def)
  then show ?thesis using owns_move [OF assms(1)] OpMove by simp
next
  case (OpTerminate i)
  show ?thesis
  proof (cases "i < length (st_tcp s)")
    case True
    then show ?thesis
      using release_at_owns [OF assms(1) _ owned_update(1) [OF True, of "(st_tcp s ! i)\<lparr>m_socket := -1\<rparr>"]] OpTerminate assms(1)
      by (auto simp: TCPSocket_Terminate_def)
  qed (use assms(1) OpTerminate in simp)
next
  case (OpServerMove i)
  have "owned (s\<lparr>st_tcp_servers := move_at TCPServer_move i (st_tcp_servers s)\<rparr>) = owned s"
    by (simp add: owned_def held_fds_move_at TCPServer_move_def)
  then show ?thesis using owns_move [OF assms(1)] OpServerMove by simp
next
  case (OpServerDestroy i)
  show ?thesis
  proof (cases "i < length (st_tcp_servers s)")
    case True
    then show ?thesis
      using release_at_owns [OF assms(1) _ owned_update(2) [OF True, of "(st_tcp_servers s ! i)\<lparr>m_server_socket := -1\<rparr>"]] OpServerDestroy
      by (auto simp: TCPServer_destroy_def)
  qed (use assms(1) OpServerDestroy in simp)
next
  case (OpPipeConnect n)
  then show ?thesis using keep_result_owns [OF assms(1) NamedPipe_Connect_acquires] assms(2) by simp
next
  case (OpPipeCreate p n)
  then show ?thesis using keep_result_owns [OF assms(1) NamedPipeServer_Create_acquires] assms(2) by simp
next
  case (OpPipeAccept i)
  then show ?thesis using keep_result_owns [OF assms(1) NamedPipeServer_Accept_acquires] assms(1,2) by simp
next
  case (OpPipeMove i)
  have "owned (s\<lparr>st_pipes := move_at NamedPipe_move i (st_pipes s)\<rparr>) = owned s"
    by (simp add: owned_def held_fds_move_at NamedPipe_move_def)
  then show ?thesis using owns_move [OF assms(1)] OpPipeMove by simp
next
  case (OpPipeTerminate i)
  show ?thesis
  proof (cases "i < length (st_pipes s)")
    case True
    then show ?thesis
      using release_at_owns [OF assms(1) _ owned_update(3) [OF True, of "(st_pipes s ! i)\<lparr>m_pipe := -1\<rparr>"]] OpPipeTerminate assms(1)
      by (auto simp: NamedPipe_Terminate_def)
  qed (use assms(1) OpPipeTerminate in simp)
next
  case (OpPipeServerMove i)
  have "owned (s\<lparr>st_pipe_servers := move_at NamedPipeServer_move i (st_pipe_servers s)\<rparr>) = owned s"
    by (simp add: owned_def held_fds_move_at NamedPipeServer_move_def)
  then show ?thesis using owns_move [OF assms(1)] OpPipeServerMove by simp
next
  case (OpPipeServerDestroy i)
  show ?thesis
  proof (cases "i < length (st_pipe_servers s)")
    case True
    then show ?thesis
      using release_at_owns [OF assms(1) _ owned_update(4) [OF True, of "(st_pipe_servers s ! i)\<lparr>m_pipe_server := -1\<rparr>"]] OpPipeServerDestroy
      by (auto simp: NamedPipeServer_destroy_def)
  qed (use assms(1) OpPipeServerDestroy in simp)
qed

lemma perform_ops_owns:
  assumes "os_fresh os"
  shows "owns L s \<Longrightarrow> \<exists>s'. perform_ops os e ops s = Some s' \<and> owns (L + accept_leaks os e ops s) s'"
proof (induction ops arbitrary: s L)
  case (Cons op ops)
  obtain s1 where "perform_op os e op s = Some s1" "owns (L + op_leak os op s) s1"
    using perform_op_owns [OF Cons.prems assms] by blast
  then show ?case using Cons.IH [of "L + op_leak os op s" s1] by (simp add: add.assoc)
qed simp

lemma no_streams_owns: "owns {#} no_streams"
  by (simp add: owns_def no_streams_def owned_def)

text \<open>Property C12: whatever a program does with sockets, named pipes and servers, and whatever the operating
  system answers, no descriptor is closed twice and no address list is freed twice; the objects hold descriptors of their
  own, all of them open, and no address list remains. The descriptors that are open and not held by an object are exactly those
  that \<open>TCPServer::Accept\<close> accepted and whose option it then failed to set; no other operation, whichever of its calls fails,
  leaks a descriptor.\<close>

theorem streams_own_descriptors:
  assumes "os_fresh os"
  shows "\<exists>s. perform_ops os e ops no_streams = Some s \<and> distinct (net_open (st_net s)) \<and>
    mset (net_open (st_net s)) = owned s + accept_leaks os e ops no_streams \<and> net_addrinfos (st_net s) = 0"
  using perform_ops_owns [OF assms no_streams_owns, of e ops] by (auto simp: owns_def)

text \<open>A system that hands out the number behind the largest open one. Its \<open>setsockopt\<close> returns \<open>opt\<close>.\<close>

definition plain_os :: "int \<Rightarrow> os" where
  "plain_os opt = \<lparr>
     os_getaddrinfo = (\<lambda>k node service. (0, Some [127, 0, 0, 1])),
     os_socket = (\<lambda>k fds. 1 + foldr max fds 2),
     os_accept = (\<lambda>k fd fds. 1 + foldr max fds 2),
     os_connect = (\<lambda>k fd addr. 0), os_setsockopt = (\<lambda>k fd. opt), os_bind = (\<lambda>k fd addr. 0),
     os_listen = (\<lambda>k fd n. 0), os_getsockname = (\<lambda>k fd. (0, [4, 210])),
     os_send = (\<lambda>k fd bs. min 3 (int (length bs))), os_recv = (\<lambda>k fd n. if k < 2 then ([7], 1) else ([], 0)),
     os_errno = (\<lambda>k. 22), os_sun_path_size = 108\<rparr>"

lemma plain_os_fresh: "os_fresh (plain_os opt)"
proof -
  have "x \<in> set fds \<Longrightarrow> x \<le> foldr max fds 2" for x :: int and fds by (induction fds) auto
  then show ?thesis by (fastforce simp: os_fresh_def plain_os_def)
qed

text \<open>A connection whose option cannot be set is closed; an accepted one is not.\<close>

theorem streams_own_descriptors_witness:
  "os_fresh (plain_os (-1)) \<and>
   (\<exists>s. perform_ops (plain_os (-1)) True [OpCreate 1234 1, OpConnect ''a'' 1, OpAccept 0, OpServerMove 0] no_streams = Some s \<and>
     mset (net_open (st_net s)) = owned s + {#4#})"
proof -
  let ?ops = "[OpCreate 1234 1, OpConnect ''a'' 1, OpAccept 0, OpServerMove 0]"
  have "accept_leaks (plain_os (-1)) True ?ops no_streams = {#4#}" by code_simp
  then show ?thesis
    using streams_own_descriptors [OF plain_os_fresh, of "-1" True ?ops] plain_os_fresh by auto
qed

text \<open>\<open>TCPServer::Accept\<close> reports a failed option of the accepted socket without closing it: the
  descriptor stays open and no object holds it.\<close>

theorem accept_leaks_descriptor:
  "\<exists>s. perform_ops (plain_os (-1)) True [OpCreate 1234 1, OpAccept 0, OpServerDestroy 0] no_streams = Some s \<and>
     net_open (st_net s) = [4] \<and> owned s = {#}"
proof -
  have "map_option (\<lambda>s. (net_open (st_net s), st_tcp s, st_tcp_servers s, st_pipes s, st_pipe_servers s))
     (perform_ops (plain_os (-1)) True [OpCreate 1234 1, OpAccept 0, OpServerDestroy 0] no_streams) =
     Some ([4], [], [\<lparr>m_server_socket = -1, m_port = 1234\<rparr>], [], [])"
    by code_simp
  then show ?thesis by (auto simp: owned_def held_fds_def)
qed

text \<open>\<open>Read\<close> uses the descriptor that it finds in the object without a lock, and \<open>Terminate\<close> of another thread may close it
  before the call is made. The descriptor may by then be that of another connection, whose bytes are taken.\<close>

theorem terminated_descriptor_reused:
  "\<exists>s s'. perform_ops (plain_os 0) True [OpConnect ''a'' 1] no_streams = Some s \<and>
     perform_ops (plain_os 0) True [OpTerminate 0, OpConnect ''b'' 2] s = Some s' \<and>
     m_socket (st_tcp s ! 0) = 3 \<and> m_socket (st_tcp s' ! 0) = -1 \<and> m_socket (st_tcp s' ! 1) = 3"
proof -
  have "(case perform_ops (plain_os 0) True [OpConnect ''a'' 1] no_streams of
     Some s \<Rightarrow> m_socket (st_tcp s ! 0) = 3 \<and> (case perform_ops (plain_os 0) True [OpTerminate 0, OpConnect ''b'' 2] s of
       Some s' \<Rightarrow> m_socket (st_tcp s' ! 0) = -1 \<and> m_socket (st_tcp s' ! 1) = 3 | None \<Rightarrow> False) | None \<Rightarrow> False)"
    by code_simp
  then show ?thesis by (auto split: option.splits)
qed

subsection \<open>Transactions over a socket or a pipe\<close>

text \<open>What \<open>DeferredByteStream\<close> gets from its stream: an operation reports an error exactly when it moved no bytes.\<close>

locale blocking_byte_stream =
  fixes bwrite :: "nat \<Rightarrow> u8 list \<Rightarrow> nat \<times> io_error"
    and bread :: "nat \<Rightarrow> nat \<Rightarrow> u8 list \<times> nat \<times> io_error"
  assumes write_moves: "snd (bwrite k bs) = None \<longleftrightarrow> 0 < fst (bwrite k bs)"
    and read_moves: "snd (snd (bread k n)) = None \<longleftrightarrow> 0 < fst (snd (bread k n))"
begin

lemma stream_productive: "productive \<lparr>stream_write = bwrite, stream_read = bread\<rparr>"
  using write_moves by (auto simp: productive_def)

lemma reads_move:
  assumes "reads_done \<lparr>stream_write = bwrite, stream_read = bread\<rparr> e h p tx tx'"
    and "p \<le> i" "i < m_first_incomplete tx'" "is_read (s_ins tx ! i)"
  shows "0 < num_read (s_outs tx' ! i)"
proof -
  let ?r = "read_call \<lparr>stream_write = bwrite, stream_read = bread\<rparr> h (s_ins tx) p i"
  have "i < length (s_ins tx)" using assms(1,3) by (auto simp: reads_done_def Let_def)
  then have "holds_read ?r (s_outs tx' ! i)" "snd (snd ?r) = None"
    using assms unfolding reads_done_def Let_def by blast+
  then show ?thesis using read_moves by (simp add: holds_read_def read_call_def)
qed

lemma transaction_served:
  assumes "LockForEnqueue ep" "m_first_incomplete tx = 0" "length (s_outs tx) = length (s_ins tx)" "\<forall>a \<in> set (s_ins tx). \<not> isl a"
  shows "\<exists>r h' U. Execute name \<lparr>stream_write = bwrite, stream_read = bread\<rparr> True e ep tx h = Some (r, h') \<and>
    io_sent h' = io_sent h @ take U (bytes_of (s_ins tx)) \<and> written U tx (result_tx r) \<and>
    (\<forall>tx1. r = Inr tx1 \<longrightarrow> U = length (bytes_of (s_ins tx)) \<and>
       (\<forall>h1. let tx2 = fst (DoReads \<lparr>stream_write = bwrite, stream_read = bread\<rparr> e tx1 h1) in
          \<forall>i < m_first_incomplete tx2. is_read (s_ins tx ! i) \<longrightarrow> 0 < num_read (s_outs tx2 ! i)))"
proof -
  let ?st = "\<lparr>stream_write = bwrite, stream_read = bread\<rparr>"
  obtain r h' U where x: "Execute name ?st True e ep tx h = Some (r, h')"
    "io_sent h' = io_sent h @ take U (bytes_of (s_ins tx))" "written U tx (result_tx r)"
    "r \<in> range Inr \<or> status_ok (result_tx r) \<longrightarrow> U = length (bytes_of (s_ins tx))"
    using Execute_writes_result [OF stream_productive assms(1-3)] by blast
  have "0 < num_read (s_outs (fst (DoReads ?st e tx1 h1)) ! i)"
    if r: "r = Inr tx1" and i: "i < m_first_incomplete (fst (DoReads ?st e tx1 h1))" "is_read (s_ins tx ! i)" for tx1 h1 i
  proof -
    obtain tx2 h2 where d: "DoReads ?st e tx1 h1 = (tx2, h2)" by fastforce
    have w: "s_ins tx1 = s_ins tx" "length (s_outs tx1) = length (s_outs tx)" "m_first_incomplete tx1 \<le> status_end tx1"
      "\<forall>i < m_first_incomplete tx1. write_data (s_ins tx ! i) \<noteq> None"
      using x(3) r by (auto simp: written_def result_tx_def status_end_def)
    have "reads_done ?st e h1 (m_first_incomplete tx1) tx1 tx2"
      using do_reads_result d w assms(3,4) unfolding DoReads_def by metis
    moreover have "\<not> i < m_first_incomplete tx1" using w(4) i(2) by (cases "s_ins tx ! i" rule: is_read.cases) auto
    ultimately show ?thesis using reads_move [of e h1 "m_first_incomplete tx1" tx1 tx2 i] i w(1) d by simp
  qed
  then show ?thesis using x by (auto simp: Let_def)
qed

end

interpretation tcp: blocking_byte_stream "TCPSocket_Write os e s" "TCPSocket_Read os e s" for os e s
  by unfold_locales (auto simp: TCPSocket_Write_def TCPSocket_Read_def Let_def split: prod.splits)

interpretation pipe: blocking_byte_stream "NamedPipe_Write os e p" "NamedPipe_Read os e p" for os e p
  by unfold_locales (auto simp: NamedPipe_Write_def NamedPipe_Read_def Let_def split: prod.splits)

definition tcp_stream :: "os \<Rightarrow> bool \<Rightarrow> tcp_socket \<Rightarrow> blocking_stream" where
  "tcp_stream os e s = \<lparr>stream_write = TCPSocket_Write os e s, stream_read = TCPSocket_Read os e s\<rparr>"

definition pipe_stream :: "os \<Rightarrow> bool \<Rightarrow> named_pipe \<Rightarrow> blocking_stream" where
  "pipe_stream os e p = \<lparr>stream_write = NamedPipe_Write os e p, stream_read = NamedPipe_Read os e p\<rparr>"

text \<open>Property C13: a transaction over a TCP socket or a named pipe ends, whatever the operating system answers. The bytes
  that were sent are the first bytes of its writes, all of them when the reads are to be served, and every read that is
  reported as complete has brought at least one byte: the end of the stream is never taken for data.\<close>

theorem socket_transaction_served:
  assumes "LockForEnqueue ep" "m_first_incomplete tx = 0" "length (s_outs tx) = length (s_ins tx)" "\<forall>a \<in> set (s_ins tx). \<not> isl a"
    and "st = tcp_stream os e' s \<or> st = pipe_stream os e' p"
  shows "\<exists>r h' U. Execute name st True e ep tx h = Some (r, h') \<and>
    io_sent h' = io_sent h @ take U (bytes_of (s_ins tx)) \<and> written U tx (result_tx r) \<and>
    (\<forall>tx1. r = Inr tx1 \<longrightarrow> U = length (bytes_of (s_ins tx)) \<and>
       (\<forall>h1. let tx2 = fst (DoReads st e tx1 h1) in
          \<forall>i < m_first_incomplete tx2. is_read (s_ins tx ! i) \<longrightarrow> 0 < num_read (s_outs tx2 ! i)))"
  using assms(5) tcp.transaction_served [OF assms(1-4)] pipe.transaction_served [OF assms(1-4)]
  unfolding tcp_stream_def pipe_stream_def by blast

theorem socket_transaction_served_witness:
  "\<exists>r h' U. Execute ''tcp'' (tcp_stream (plain_os 0) True \<lparr>m_socket = 3\<rparr>) True True new_endpoint
       (bs_example [WriteBytes [1, 2], WriteBytes [3, 4, 5], ReadBytes 4]) \<lparr>io_calls = 0, io_sent = []\<rparr> = Some (r, h') \<and>
     io_sent h' = take U [1, 2, 3, 4, 5]"
proof -
  let ?tx = "bs_example [WriteBytes [1, 2], WriteBytes [3, 4, 5], ReadBytes 4]"
  have "LockForEnqueue new_endpoint" "m_first_incomplete ?tx = 0" "length (s_outs ?tx) = length (s_ins ?tx)" "\<forall>a \<in> set (s_ins ?tx). \<not> isl a"
    "bytes_of (s_ins ?tx) = [1, 2, 3, 4, 5]"
    by (simp_all add: LockForEnqueue_def new_endpoint_def bs_example_def bytes_of_def the_data_def)
  then show ?thesis
    using socket_transaction_served [of new_endpoint ?tx "tcp_stream (plain_os 0) True \<lparr>m_socket = 3\<rparr>" "plain_os 0" True "\<lparr>m_socket = 3\<rparr>"
        "\<lparr>m_pipe = 3\<rparr>" "''tcp''" True "\<lparr>io_calls = 0, io_sent = []\<rparr>"] by fastforce
qed

text \<open>A read of no bytes, for which the operating system returns zero, is taken for the end of the stream.\<close>

theorem empty_read_reported_terminated:
  assumes "\<And>k. os_recv os k (m_socket s) 0 = ([], 0)"
  shows "m_error (fst (DoReads (tcp_stream os True s) True (bs_example [ReadBytes 0]) h)) =
    Some (ActionError (Inr (ReadBytes 0)) (CauseTerminated ''TCP socket''))"
  using assms
  by (simp add: DoReads_def bs_example_def status_end_def io_read_def tcp_stream_def TCPSocket_Read_def Let_def put_out_def
      FailCauseFirst_def status_ok_def FailCauseAt_def FailImpl_def MakeActionError_def deref_def)

end
