(* ===== verification/Tunnel_Protocol.thy ===== *)
theory Tunnel_Protocol
  imports Byte_Stream
begin

text \<open>
  The packets of \<open>ByteStreamTunnel\<close> (\<open>tunnel/ByteStreamTunnel.h\<close>, \<open>ByteStreamTunnel.cpp\<close>) and the handshake,
  in which the two ends tell each other which drivers they offer.

  Objects travel as their bytes in memory, 32-bit members with the low byte first. What the byte stream below
  returns for a read is the parameter \<open>rd\<close>: given the bytes that are still to come and the number asked for, an
  error or the bytes read, and what is left. \<open>None\<close> is the failed assertion of \<open>FromBytes\<close>, or a loop without end.
\<close>

subsection \<open>Bytes\<close>

definition u32_bytes :: "u32 \<Rightarrow> u8 list" where
  "u32_bytes w = [ucast w, ucast (drop_bit 8 w), ucast (drop_bit 16 w), ucast (drop_bit 24 w)]"

definition u32_at :: "nat \<Rightarrow> u8 list \<Rightarrow> u32" where
  "u32_at i bs = ucast (bs ! i) OR push_bit 8 (ucast (bs ! (i + 1))) OR push_bit 16 (ucast (bs ! (i + 2))) OR
     push_bit 24 (ucast (bs ! (i + 3)))"

text \<open>\<open>ToBytes\<close> and \<open>FromBytes\<close> of a structure of 32-bit members.\<close>

definition ToBytes :: "u32 list \<Rightarrow> u8 list" where
  "ToBytes ws = concat (map u32_bytes ws)"

definition FromBytes :: "nat \<Rightarrow> u8 list \<Rightarrow> u32 list option" where
  "FromBytes n bs = (if 4 * n \<le> length bs then Some (map (\<lambda>i. u32_at (4 * i) bs) [0..<n]) else None)"

subsection \<open>Packets\<close>

definition DefineDriver :: u32 where "DefineDriver = 1"
definition FinishedDefiningDrivers :: u32 where "FinishedDefiningDrivers = 2"
definition Request :: u32 where "Request = 3"
definition Response :: u32 where "Response = 4"

lemmas packet_ids = DefineDriver_def FinishedDefiningDrivers_def Request_def Response_def

lemma packet_ids_differ: "DefineDriver \<noteq> FinishedDefiningDrivers" "Request \<noteq> Response"
  by (simp_all add: packet_ids)

definition g_max_length :: nat where "g_max_length = 2 ^ 32 - 1"

record request_header =
  driver_index :: u32
  rq_key :: u32
  input_length :: u32
  output_length :: u32

record response_header =
  rs_key :: u32
  first_incomplete_input_offset :: u32
  first_incomplete_output_offset :: u32
  error_length :: u32

definition request_bytes :: "request_header \<Rightarrow> u8 list" where
  "request_bytes h = ToBytes [driver_index h, rq_key h, input_length h, output_length h]"

definition response_bytes :: "response_header \<Rightarrow> u8 list" where
  "response_bytes h =
     ToBytes [rs_key h, first_incomplete_input_offset h, first_incomplete_output_offset h, error_length h]"

definition as_request :: "u32 list \<Rightarrow> request_header" where
  "as_request ws = \<lparr>driver_index = ws ! 0, rq_key = ws ! 1, input_length = ws ! 2, output_length = ws ! 3\<rparr>"

definition as_response :: "u32 list \<Rightarrow> response_header" where
  "as_response ws =
     \<lparr>rs_key = ws ! 0, first_incomplete_input_offset = ws ! 1, first_incomplete_output_offset = ws ! 2, error_length = ws ! 3\<rparr>"

subsection \<open>Handshake\<close>

type_synonym driver_entry = "u32 \<times> u8 list"

type_synonym reader = "u8 list \<Rightarrow> nat \<Rightarrow> (action_error option + u8 list) \<times> u8 list"

definition define_actions :: "driver_entry \<Rightarrow> action list" where
  "define_actions d =
     (let name_length = (of_nat (length (snd d)) :: u32)
      in [WriteBytes (ToBytes [DefineDriver]), WriteBytes (ToBytes [fst d, name_length]),
          WriteBytes (take (unat name_length) (snd d))])"

definition handshake_actions :: "driver_entry list \<Rightarrow> action list" where
  "handshake_actions ds = concat (map define_actions ds) @ [WriteBytes (ToBytes [FinishedDefiningDrivers])]"

text \<open>The loop that reads the definitions of the other end. \<open>alloc\<close> says for each driver whether its name and
  its entry could be allocated. The first result is the cause of the failure.\<close>

partial_function (option) read_definitions ::
  "reader \<Rightarrow> (nat \<Rightarrow> bool \<times> bool) \<Rightarrow> driver_entry list \<Rightarrow> u8 list \<Rightarrow> (cause option \<times> driver_entry list \<times> u8 list) option"
where
  "read_definitions rd alloc remote incoming =
     (case rd incoming 4 of
        (Inl err, incoming) \<Rightarrow> Some (Some (CauseNestedError err), remote, incoming)
      | (Inr bs, incoming) \<Rightarrow>
          do { ids \<leftarrow> FromBytes 1 bs;
               if ids ! 0 = FinishedDefiningDrivers then Some (None, remote, incoming)
               else if ids ! 0 = DefineDriver then
                 (case rd incoming 8 of
                    (Inl err, incoming) \<Rightarrow> Some (Some (CauseNestedError err), remote, incoming)
                  | (Inr bs, incoming) \<Rightarrow>
                      do { header \<leftarrow> FromBytes 2 bs;
                           (case rd incoming (unat (header ! 1)) of
                              (Inl err, incoming) \<Rightarrow> Some (Some (CauseNestedError err), remote, incoming)
                            | (Inr name, incoming) \<Rightarrow>
                                if \<not> fst (alloc (length remote)) then Some (Some CauseAllocationFailure, remote, incoming)
                                else if ForID (unat (header ! 0)) = []
                                then Some (Some (CauseStringMessage (''Unrecognized remote driver ID '' @ show_nat (unat (header ! 0)))),
                                           remote, incoming)
                                else if \<not> snd (alloc (length remote)) then Some (Some CauseAllocationFailure, remote, incoming)
                                else read_definitions rd alloc (remote @ [(header ! 0, name)]) incoming) })
               else Some (Some (CauseStringMessage (''Unexpected incoming packet ID '' @ show_nat (unat (ids ! 0)))),
                          remote, incoming) })"

definition FindByName :: "u32 \<Rightarrow> u8 list \<Rightarrow> driver_entry list \<Rightarrow> nat option" where
  "FindByName i name remote =
     (case filter (\<lambda>k. remote ! k = (i, name)) [0..<length remote] of [] \<Rightarrow> None | k # _ \<Rightarrow> Some k)"

subsection \<open>Round trips\<close>

lemma length_u32_bytes [simp]: "length (u32_bytes w) = 4"
  by (simp add: u32_bytes_def)

lemma u32_at_bytes: "u32_at (length p) (p @ u32_bytes w @ q) = w"
proof (rule bit_word_eqI)
  fix n assume n: "n < LENGTH(32)"
  have "bit (u32_at (length p) (p @ u32_bytes w @ q)) n = bit (u32_at 0 (u32_bytes w)) n"
    by (simp add: u32_at_def nth_append u32_bytes_def)
  also have "\<dots> = bit w n"
    using n by (cases "n < 8"; cases "n < 16"; cases "n < 24") (auto simp: u32_at_def u32_bytes_def bit_simps)
  finally show "bit (u32_at (length p) (p @ u32_bytes w @ q)) n = bit w n" .
qed


lemma length_ToBytes [simp]: "length (ToBytes ws) = 4 * length ws"
  by (induction ws) (simp_all add: ToBytes_def)

lemma ToBytes_simps [simp]: "ToBytes [] = []" "ToBytes (w # ws) = u32_bytes w @ ToBytes ws"
  by (simp_all add: ToBytes_def)

lemma u32_at_ToBytes: "i < length ws \<Longrightarrow> u32_at (4 * i) (ToBytes ws @ q) = ws ! i"
proof -
  assume i: "i < length ws"
  have "ToBytes ws = ToBytes (take i ws) @ u32_bytes (ws ! i) @ ToBytes (drop (Suc i) ws)"
    by (subst id_take_nth_drop [OF i]) (simp add: ToBytes_def)
  then show ?thesis using u32_at_bytes [of "ToBytes (take i ws)" "ws ! i" "ToBytes (drop (Suc i) ws) @ q"] i by simp
qed

lemma FromBytes_ToBytes [simp]: "length ws = n \<Longrightarrow> FromBytes n (ToBytes ws @ q) = Some ws"
  by (auto simp: FromBytes_def u32_at_ToBytes intro!: nth_equalityI)

lemma FromBytes_ToBytes_exact [simp]: "length ws = n \<Longrightarrow> FromBytes n (ToBytes ws) = Some ws"
  using FromBytes_ToBytes [of ws n "[]"] by (simp del: FromBytes_ToBytes)

text \<open>A stream that delivers what is asked for as long as there is enough of it. A byte stream may deliver less and still
  complete the read; neither the handshake nor the event loop looks at the number of bytes, so both rely on this.\<close>

definition reliable :: "reader \<Rightarrow> bool" where
  "reliable rd \<longleftrightarrow> (\<forall>incoming n. n \<le> length incoming \<longrightarrow> rd incoming n = (Inr (take n incoming), drop n incoming))"

lemma reliable_read: "reliable rd \<Longrightarrow> length bs = n \<Longrightarrow> rd (bs @ rest) n = (Inr bs, rest)"
  by (simp add: reliable_def)

definition sent_bytes :: "action list \<Rightarrow> u8 list" where
  "sent_bytes acts = bytes_of (map Inr acts)"

lemma sent_bytes_simps [simp]:
  "sent_bytes [] = []" "sent_bytes (WriteBytes bs # acts) = bs @ sent_bytes acts"
  "sent_bytes (acts @ acts') = sent_bytes acts @ sent_bytes acts'"
  by (simp_all add: sent_bytes_def bytes_of_def the_data_def)

definition offered :: "driver_entry \<Rightarrow> bool" where
  "offered d \<longleftrightarrow> ForID (unat (fst d)) \<noteq> [] \<and> length (snd d) < 2 ^ 32"

lemma read_definitions_all:
  assumes "reliable rd" "\<forall>d \<in> set ds. offered d" "\<forall>k. alloc k = (True, True)"
  shows "read_definitions rd alloc remote (sent_bytes (handshake_actions ds) @ rest) = Some (None, remote @ ds, rest)"
  using assms(2)
proof (induction ds arbitrary: remote)
  case Nil
  have "rd (ToBytes [FinishedDefiningDrivers] @ rest) 4 = (Inr (ToBytes [FinishedDefiningDrivers]), rest)"
    by (rule reliable_read [OF assms(1)]) simp
  then show ?case
    by (subst read_definitions.simps) (simp add: handshake_actions_def del: ToBytes_simps)
next
  case (Cons d ds)
  define len where "len = (of_nat (length (snd d)) :: u32)"
  have len: "unat len = length (snd d)" and known: "ForID (unat (fst d)) \<noteq> []"
    using Cons.prems by (simp_all add: len_def offered_def unat_of_nat take_bit_nat_eq_self)
  let ?tail = "sent_bytes (handshake_actions ds) @ rest"
  have bytes: "sent_bytes (handshake_actions (d # ds)) @ rest =
      ToBytes [DefineDriver] @ ToBytes [fst d, len] @ snd d @ ?tail"
    by (simp add: handshake_actions_def define_actions_def Let_def len_def [symmetric] len del: ToBytes_simps)
  have r1: "rd (ToBytes [DefineDriver] @ ToBytes [fst d, len] @ snd d @ ?tail) 4 =
      (Inr (ToBytes [DefineDriver]), ToBytes [fst d, len] @ snd d @ ?tail)"
    by (rule reliable_read [OF assms(1)]) simp
  have r2: "rd (ToBytes [fst d, len] @ snd d @ ?tail) 8 = (Inr (ToBytes [fst d, len]), snd d @ ?tail)"
    by (rule reliable_read [OF assms(1)]) simp
  have r3: "rd (snd d @ ?tail) (unat len) = (Inr (snd d), ?tail)"
    by (rule reliable_read [OF assms(1)]) (simp add: len)
  have "read_definitions rd alloc remote (sent_bytes (handshake_actions (d # ds)) @ rest) =
      read_definitions rd alloc (remote @ [d]) ?tail"
    unfolding bytes by (subst read_definitions.simps) (simp add: r1 r2 r3 assms(3) known packet_ids_differ del: ToBytes_simps)
  then show ?case using Cons by simp
qed

lemma FindByName_Some:
  assumes "FindByName i name remote = Some k"
  shows "k < length remote" "remote ! k = (i, name)"
proof -
  obtain ks where "filter (\<lambda>k. remote ! k = (i, name)) [0..<length remote] = k # ks"
    using assms by (auto simp: FindByName_def split: list.splits)
  then have "k \<in> set (filter (\<lambda>k. remote ! k = (i, name)) [0..<length remote])" by simp
  then show "k < length remote" "remote ! k = (i, name)" by simp_all
qed

lemma FindByName_finds: "(i, name) \<in> set remote \<Longrightarrow> \<exists>k. FindByName i name remote = Some k"
  by (auto simp: FindByName_def in_set_conv_nth filter_empty_conv split: list.splits)

text \<open>Property C37: the two ends agree on the drivers. What one end writes in its handshake the other reads back as
  the same list of drivers, in the same order and without touching what follows, so that a driver looked
  up by type and name has the index under which the first end keeps a driver of that type and name; and
  every driver that is offered is found.\<close>

theorem handshake_agrees:
  assumes "reliable rd" "\<forall>d \<in> set ds. offered d" "\<forall>k. alloc k = (True, True)"
  shows "\<exists>remote. read_definitions rd alloc [] (sent_bytes (handshake_actions ds) @ rest) = Some (None, remote, rest) \<and>
    (\<forall>i name. case FindByName i name remote of
       None \<Rightarrow> (i, name) \<notin> set ds
     | Some k \<Rightarrow> k < length ds \<and> ds ! k = (i, name))"
proof -
  have "case FindByName i name ds of None \<Rightarrow> (i, name) \<notin> set ds | Some k \<Rightarrow> k < length ds \<and> ds ! k = (i, name)" for i name
    using FindByName_Some [of i name ds] FindByName_finds [of i name ds] by (cases "FindByName i name ds") auto
  then show ?thesis using read_definitions_all [OF assms, of "[]"] by auto
qed

definition exact_reader :: reader where
  "exact_reader incoming n = (if n \<le> length incoming then (Inr (take n incoming), drop n incoming) else (Inl None, incoming))"

lemma exact_reader_reliable: "reliable exact_reader"
  by (simp add: reliable_def exact_reader_def)

theorem handshake_agrees_witness:
  "\<exists>remote. read_definitions exact_reader (\<lambda>_. (True, True)) []
     (sent_bytes (handshake_actions [(1000, [106]), (3000, [97, 112])]) @ [9]) = Some (None, remote, [9]) \<and>
   FindByName 3000 [97, 112] remote = Some 1"
proof -
  let ?ds = "[(1000, [106]), (3000, [97, 112])] :: driver_entry list"
  have "\<forall>d \<in> set ?ds. offered d" by (simp add: offered_def) code_simp
  then obtain remote where r: "read_definitions exact_reader (\<lambda>_. (True, True)) [] (sent_bytes (handshake_actions ?ds) @ [9]) =
      Some (None, remote, [9])" "case FindByName 3000 [97, 112] remote of
       None \<Rightarrow> (3000, [97, 112]) \<notin> set ?ds | Some k \<Rightarrow> k < length ?ds \<and> ?ds ! k = (3000, [97, 112])"
    using handshake_agrees [OF exact_reader_reliable, of ?ds "\<lambda>_. (True, True)" "[9]"] by auto
  have "FindByName 3000 [97, 112] remote = Some 1"
    using r(2) by (auto simp: less_Suc_eq numeral_2_eq_2 split: option.splits)
  with r(1) show ?thesis by blast
qed

end
