(* ===== verification/Tunnel.thy ===== *)
theory Tunnel
  imports Tunnel_Protocol Transaction_Buffer
begin

text \<open>
  \<open>ByteStreamTunnel\<close> after the handshake (\<open>tunnel/ByteStreamTunnel.cpp\<close>, \<open>ByteStreamTunnel.h\<close>): a transaction of a
  remote driver is sent as a request, executed by the driver of the other end, and completed from the response.

  A buffer of a transaction is its shape, the model of \<open>TransactionBuffer\<close>, with the bytes of the chunks that
  \<open>ForEachChunk\<close> visits. The driver of the other end is the parameter \<open>drv\<close>: what it makes of the bytes of the
  inputs and the room for the outputs. The tables are finite maps, which \<open>BucketArrayMap\<close> implements.
\<close>

subsection \<open>State\<close>

record tbuf =
  tb_shape :: "unit buffer"
  tb_chunks :: "u8 list list"

record ttx =
  tt_ins :: tbuf
  tt_outs :: tbuf
  tt_error :: "u8 list option"
  tt_first :: "position \<times> position"

record pending_item =
  pi_owner :: nat
  pi_resolved :: bool
  pi_abandoned :: bool

record tunnel =
  m_my_drivers :: "driver_entry list"
  m_remote_drivers :: "driver_entry list"
  m_free_keys :: "u32 list"
  m_next_key :: u32
  m_pending_transactions :: "u32 \<Rightarrow> pending_item option"
  m_tunnel_alive :: bool

definition ByteStreamTunnel :: tunnel where
  "ByteStreamTunnel = \<lparr>m_my_drivers = [], m_remote_drivers = [], m_free_keys = [], m_next_key = 0,
     m_pending_transactions = (\<lambda>_. None), m_tunnel_alive = False\<rparr>"

definition RegisterDriver :: "bool \<Rightarrow> driver_entry \<Rightarrow> tunnel \<Rightarrow> bool \<times> tunnel" where
  "RegisterDriver emplaced d t = (if emplaced then (True, t\<lparr>m_my_drivers := m_my_drivers t @ [d]\<rparr>) else (False, t))"

text \<open>\<open>Handshake\<close>: \<open>written\<close> is the error of the write, if it failed.\<close>

definition Handshake ::
  "reader \<Rightarrow> (nat \<Rightarrow> bool \<times> bool) \<Rightarrow> action_error option option \<Rightarrow> u8 list \<Rightarrow> tunnel \<Rightarrow> (cause option \<times> u8 list \<times> tunnel) option"
where
  "Handshake rd alloc write_failure incoming t =
     (case write_failure of
        Some err \<Rightarrow> Some (Some (CauseNestedError err), incoming, t)
      | None \<Rightarrow>
          do { (failure, remote, incoming) \<leftarrow> read_definitions rd alloc (m_remote_drivers t) incoming;
               Some (failure, incoming, t\<lparr>m_remote_drivers := remote, m_tunnel_alive := (failure = None \<or> m_tunnel_alive t)\<rparr>) })"

subsection \<open>The client\<close>

definition ScheduleRemoteTransaction :: "bool \<Rightarrow> nat \<Rightarrow> tunnel \<Rightarrow> u32 \<times> bool \<times> tunnel" where
  "ScheduleRemoteTransaction emplaced x t =
     (let (key, t) = (case m_free_keys t of
                        k # ks \<Rightarrow> (k, t\<lparr>m_free_keys := ks\<rparr>)
                      | [] \<Rightarrow> (m_next_key t, t\<lparr>m_next_key := m_next_key t + 1\<rparr>))
      in if emplaced
         then (key, True, t\<lparr>m_pending_transactions := (m_pending_transactions t)(key \<mapsto> \<lparr>pi_owner = x, pi_resolved = False, pi_abandoned = False\<rparr>)\<rparr>)
         else (key, False, t))"

definition chunk_bytes :: "tbuf \<Rightarrow> nat" where
  "chunk_bytes b = sum_list (map length (tb_chunks b))"

definition too_long :: "ttx \<Rightarrow> string option" where
  "too_long tx =
     (if g_max_length < chunk_bytes (tt_ins tx)
      then Some (''The length of transaction inputs ('' @ show_nat (chunk_bytes (tt_ins tx)) @
                 '' bytes) exceeds the maximum supported length ('' @ show_nat g_max_length @ '' bytes)'')
      else if g_max_length < chunk_bytes (tt_outs tx)
      then Some (''The length of expected transaction results ('' @ show_nat (chunk_bytes (tt_outs tx)) @
                 '' bytes) exceeds the maximum supported length ('' @ show_nat g_max_length @ '' bytes)'')
      else None)"

definition request_actions :: "u32 \<Rightarrow> u32 \<Rightarrow> ttx \<Rightarrow> action list" where
  "request_actions index key tx =
     [WriteBytes (ToBytes [Request]),
      WriteBytes (request_bytes \<lparr>driver_index = index, rq_key = key, input_length = of_nat (chunk_bytes (tt_ins tx)),
        output_length = of_nat (chunk_bytes (tt_outs tx))\<rparr>)] @ map WriteBytes (tb_chunks (tt_ins tx))"

text \<open>\<open>Execute\<close> of a tunneled driver up to its first suspension: the failure, or the key and the actions to schedule.\<close>

definition begin_execute :: "bool \<Rightarrow> u32 \<Rightarrow> nat \<Rightarrow> ttx \<Rightarrow> tunnel \<Rightarrow> (cause + (u32 \<times> action list)) \<times> tunnel" where
  "begin_execute emplaced index x tx t =
     (case too_long tx of
        Some message \<Rightarrow> (Inl (CauseStringMessage message), t)
      | None \<Rightarrow>
          (case ScheduleRemoteTransaction emplaced x t of
             (key, False, t) \<Rightarrow> (Inl (CauseStringMessage ''Failed to add the transaction to the list of pending transactions''), t)
           | (key, True, t) \<Rightarrow> (Inr (key, request_actions index key tx), t)))"

text \<open>What follows a failed write: the item is erased and the key is free again (\<open>pushed\<close>: unless the stack of free
  keys could not grow).\<close>

definition release_key :: "bool \<Rightarrow> u32 \<Rightarrow> tunnel \<Rightarrow> tunnel" where
  "release_key pushed key t =
     t\<lparr>m_pending_transactions := (m_pending_transactions t)(key := None),
       m_free_keys := (if pushed then key # m_free_keys t else m_free_keys t)\<rparr>"

subsection \<open>The server\<close>

record remote_result =
  rr_outs :: "u8 list list"
  rr_in_offset :: nat
  rr_out_offset :: nat
  rr_error :: "u8 list list option"

type_synonym drv = "u32 \<Rightarrow> u8 list option \<Rightarrow> nat \<Rightarrow> remote_result"

fun take_chunks :: "nat \<Rightarrow> u8 list list \<Rightarrow> action list" where
  "take_chunks left [] = []"
| "take_chunks left (c # cs) =
     (let to_write = min (length c) left
      in (if to_write \<noteq> 0 then [WriteBytes (take to_write c)] else []) @ take_chunks (left - to_write) cs)"

definition response_of_result :: "u32 \<Rightarrow> remote_result \<Rightarrow> response_header" where
  "response_of_result key r =
     (let too_far = (g_max_length < rr_in_offset r \<or> g_max_length < rr_out_offset r);
          err = (case rr_error r of None \<Rightarrow> 0 | Some cs \<Rightarrow> sum_list (map length cs))
      in \<lparr>rs_key = key, first_incomplete_input_offset = of_nat (if too_far then 0 else rr_in_offset r),
          first_incomplete_output_offset = of_nat (if too_far then 0 else rr_out_offset r),
          error_length = of_nat (if g_max_length < err then 0 else err)\<rparr>)"

text \<open>\<open>DetachRequest\<close> once the driver has finished: the actions of the response.\<close>

definition DetachRequest :: "u32 \<Rightarrow> remote_result \<Rightarrow> action list" where
  "DetachRequest key r =
     (let header = response_of_result key r
      in [WriteBytes (ToBytes [Response]), WriteBytes (response_bytes header)] @
         take_chunks (unat (first_incomplete_output_offset header)) (rr_outs r) @
         (if error_length header \<noteq> 0 then map WriteBytes (case rr_error r of None \<Rightarrow> [] | Some cs \<Rightarrow> cs) else []))"

definition AbortTransaction :: "u32 \<Rightarrow> action list" where
  "AbortTransaction key =
     [WriteBytes (response_bytes \<lparr>rs_key = key, first_incomplete_input_offset = 0, first_incomplete_output_offset = 0,
        error_length = 0\<rparr>)]"

text \<open>\<open>ForwardRequest\<close>: \<open>frame\<close> says whether the coroutine could be started, \<open>got_room\<close> whether there was room for the
  inputs.\<close>

definition ForwardRequest :: "bool \<Rightarrow> bool \<Rightarrow> drv \<Rightarrow> u32 \<Rightarrow> request_header \<Rightarrow> u8 list \<Rightarrow> action list" where
  "ForwardRequest frame got_room drv driver_id header inputs =
     (if frame
      then DetachRequest (rq_key header) (drv driver_id (if got_room then Some inputs else None) (unat (output_length header)))
      else AbortTransaction (rq_key header))"

definition HandleRequest ::
  "reader \<Rightarrow> bool \<Rightarrow> bool \<Rightarrow> drv \<Rightarrow> request_header \<Rightarrow> u8 list \<Rightarrow> tunnel \<Rightarrow> (cause + action list) \<times> u8 list"
where
  "HandleRequest rd frame got_room drv header incoming t =
     (case rd incoming (unat (input_length header)) of
        (Inl err, incoming) \<Rightarrow> (Inl (CauseNestedError err), incoming)
      | (Inr inputs, incoming) \<Rightarrow>
          if unat (driver_index header) < length (m_my_drivers t)
          then (Inr (ForwardRequest frame got_room drv (fst (m_my_drivers t ! unat (driver_index header))) header inputs), incoming)
          else (Inr (AbortTransaction (rq_key header)), incoming))"

subsection \<open>The response\<close>

fun fill_chunks :: "u8 list \<Rightarrow> u8 list list \<Rightarrow> u8 list list" where
  "fill_chunks output [] = []"
| "fill_chunks output (c # cs) =
     (let to_copy = min (length c) (length output)
      in (take to_copy output @ drop to_copy c) # fill_chunks (drop to_copy output) cs)"

text \<open>The reads of \<open>HandleResponse\<close>: the output and the error, each only when there is one.\<close>

definition read_parts ::
  "reader \<Rightarrow> response_header \<Rightarrow> u8 list \<Rightarrow> (action_error option + (u8 list option \<times> u8 list option)) \<times> u8 list"
where
  "read_parts rd header incoming =
     (let n = unat (first_incomplete_output_offset header); m = unat (error_length header)
      in case (if n = 0 then (Inr None, incoming) else map_prod (map_sum id Some) id (rd incoming n)) of
           (Inl err, incoming) \<Rightarrow> (Inl err, incoming)
         | (Inr output, incoming) \<Rightarrow>
             (case (if m = 0 then (Inr None, incoming) else map_prod (map_sum id Some) id (rd incoming m)) of
                (Inl err, incoming) \<Rightarrow> (Inl err, incoming)
              | (Inr error, incoming) \<Rightarrow> (Inr (output, error), incoming)))"

definition apply_parts :: "bool \<Rightarrow> u8 list option \<times> u8 list option \<Rightarrow> ttx \<Rightarrow> ttx" where
  "apply_parts error_allocated parts tx =
     (let tx = (case fst parts of None \<Rightarrow> tx
                | Some output \<Rightarrow> tx\<lparr>tt_outs := (tt_outs tx)\<lparr>tb_chunks := fill_chunks output (tb_chunks (tt_outs tx))\<rparr>\<rparr>)
      in (case snd parts of None \<Rightarrow> tx | Some error \<Rightarrow> tx\<lparr>tt_error := (if error_allocated then Some error else None)\<rparr>))"

definition set_first :: "response_header \<Rightarrow> ttx \<Rightarrow> ttx" where
  "set_first header tx =
     tx\<lparr>tt_first := (FromDistance (unat (first_incomplete_input_offset header)) (tb_shape (tt_ins tx)),
                     FromDistance (unat (first_incomplete_output_offset header)) (tb_shape (tt_outs tx)))\<rparr>"

text \<open>\<open>HandleResponse\<close> on the transactions \<open>txs\<close>. The results: the failure that ends the event loop, and the
  transaction that is resolved.\<close>

definition HandleResponse ::
  "reader \<Rightarrow> bool \<Rightarrow> bool \<Rightarrow> response_header \<Rightarrow> u8 list \<Rightarrow> (nat \<Rightarrow> ttx) \<Rightarrow> tunnel \<Rightarrow>
     cause option \<times> nat option \<times> u8 list \<times> (nat \<Rightarrow> ttx) \<times> tunnel"
where
  "HandleResponse rd error_allocated pushed header incoming txs t =
     (let pending = m_pending_transactions t (rs_key header);
          txs = (case pending of None \<Rightarrow> txs | Some it \<Rightarrow> txs(pi_owner it := set_first header (txs (pi_owner it))))
      in case read_parts rd header incoming of
           (Inl err, incoming) \<Rightarrow> (Some (CauseNestedError err), None, incoming, txs, t)
         | (Inr parts, incoming) \<Rightarrow>
             (case pending of
                None \<Rightarrow> (None, None, incoming, txs, t)
              | Some it \<Rightarrow>
                  (None, Some (pi_owner it), incoming, txs(pi_owner it := apply_parts error_allocated parts (txs (pi_owner it))),
                   release_key pushed (rs_key header) t)))"

subsection \<open>The event loop\<close>

text \<open>What a round of \<open>EventLoop\<close> found: a request or a response with its header, or the cause with which it
  aborts all pending transactions.\<close>

datatype packet = RequestPacket request_header | ResponsePacket response_header | BadPacket cause

definition read_packet :: "reader \<Rightarrow> u8 list \<Rightarrow> (packet \<times> u8 list) option" where
  "read_packet rd incoming =
     (case rd incoming 20 of
        (Inl err, incoming) \<Rightarrow> Some (BadPacket (CauseNestedError err), incoming)
      | (Inr bs, incoming) \<Rightarrow>
          do { ids \<leftarrow> FromBytes 1 bs;
               if ids ! 0 = Request then map_option (\<lambda>ws. (RequestPacket (as_request ws), incoming)) (FromBytes 4 (drop 4 bs))
               else if ids ! 0 = Response then map_option (\<lambda>ws. (ResponsePacket (as_response ws), incoming)) (FromBytes 4 (drop 4 bs))
               else Some (BadPacket (CauseStringMessage (''Unexpected packet ID '' @ show_nat (unat (ids ! 0)))), incoming) })"

text \<open>\<open>AbortAll\<close> resolves every pending transaction with an error; the entries stay in the table.\<close>

definition AbortAll :: "tunnel \<Rightarrow> tunnel" where
  "AbortAll t =
     t\<lparr>m_pending_transactions := (\<lambda>k. map_option (\<lambda>it. it\<lparr>pi_resolved := True\<rparr>) (m_pending_transactions t k))\<rparr>"

definition WakeUpExecutionGates :: "tunnel \<Rightarrow> nat list" where
  "WakeUpExecutionGates t =
     filter (\<lambda>i. fst (m_my_drivers t ! i) = of_nat (DriverID ExecutionGate)) [0..<length (m_my_drivers t)]"

text \<open>The end of \<open>EventLoop\<close>: the guard marks the tunnel as dead and terminates the execution gates at the
  positions of the first result.\<close>

definition end_event_loop :: "tunnel \<Rightarrow> nat list \<times> tunnel" where
  "end_event_loop t = (WakeUpExecutionGates t, (AbortAll t)\<lparr>m_tunnel_alive := False\<rparr>)"

subsection \<open>A transaction through the tunnel\<close>

lemma sent_take_chunks: "sent_bytes (take_chunks n cs) = take n (concat cs)"
  by (induction n cs rule: take_chunks.induct) (auto simp: Let_def min_def)

lemma sent_writes: "sent_bytes (map WriteBytes cs) = concat cs"
  by (induction cs) simp_all

lemma concat_fill_chunks:
  "length out \<le> length (concat cs) \<Longrightarrow> concat (fill_chunks out cs) = out @ drop (length out) (concat cs)"
proof (induction out cs rule: fill_chunks.induct)
  case (2 out c cs)
  show ?case
  proof (cases "length c \<le> length out")
    case True
    then show ?thesis using 2 by (simp add: Let_def)
  next
    case False
    have "concat (fill_chunks [] cs) = concat cs" for cs by (induction cs) (simp_all add: Let_def)
    then show ?thesis using False by (simp add: Let_def)
  qed
qed simp

lemma chunk_bytes_concat: "chunk_bytes b = length (concat (tb_chunks b))"
  by (simp add: chunk_bytes_def length_concat)

lemma unat_of_nat_max: "n \<le> g_max_length \<Longrightarrow> unat (of_nat n :: u32) = n"
  by (simp add: g_max_length_def unat_of_nat take_bit_nat_eq_self)

lemma read_request:
  assumes "reliable rd"
  shows "read_packet rd (ToBytes [Request] @ request_bytes h @ rest) = Some (RequestPacket h, rest)"
proof -
  have "rd ((ToBytes [Request] @ request_bytes h) @ rest) 20 = (Inr (ToBytes [Request] @ request_bytes h), rest)"
    by (rule reliable_read [OF assms]) (simp add: request_bytes_def)
  moreover have "drop 4 (ToBytes [Request] @ request_bytes h) = request_bytes h" by simp
  ultimately show ?thesis
    by (simp add: read_packet_def request_bytes_def as_request_def del: ToBytes_simps)
qed

lemma read_response:
  assumes "reliable rd"
  shows "read_packet rd (ToBytes [Response] @ response_bytes h @ rest) = Some (ResponsePacket h, rest)"
proof -
  have "rd ((ToBytes [Response] @ response_bytes h) @ rest) 20 = (Inr (ToBytes [Response] @ response_bytes h), rest)"
    by (rule reliable_read [OF assms]) (simp add: response_bytes_def)
  moreover have "drop 4 (ToBytes [Response] @ response_bytes h) = response_bytes h" by simp
  ultimately show ?thesis
    using packet_ids_differ by (simp add: read_packet_def response_bytes_def as_response_def del: ToBytes_simps)
qed

lemma read_parts_reliable:
  assumes "reliable rd" "length out = unat (first_incomplete_output_offset h)" "length err = unat (error_length h)"
  shows "read_parts rd h (out @ err @ rest) =
    (Inr (if out = [] then None else Some out, if err = [] then None else Some err), rest)"
proof -
  have 1: "rd (out @ err @ rest) (unat (first_incomplete_output_offset h)) = (Inr out, err @ rest)"
    by (rule reliable_read [OF assms(1,2)])
  have 2: "rd (err @ rest) (unat (error_length h)) = (Inr err, rest)"
    by (rule reliable_read [OF assms(1,3)])
  have "unat (first_incomplete_output_offset h) = 0 \<longleftrightarrow> out = []" "unat (error_length h) = 0 \<longleftrightarrow> err = []"
    using assms(2,3) by (metis length_0_conv)+
  with 1 2 show ?thesis by (simp add: read_parts_def Let_def)
qed


text \<open>The result of a driver fits the transaction it was given and the limits of the protocol.\<close>

definition error_bytes :: "remote_result \<Rightarrow> u8 list" where
  "error_bytes r = (case rr_error r of None \<Rightarrow> [] | Some cs \<Rightarrow> concat cs)"

definition fits :: "remote_result \<Rightarrow> ttx \<Rightarrow> bool" where
  "fits r tx \<longleftrightarrow>
     rr_in_offset r \<le> chunk_bytes (tt_ins tx) \<and> rr_out_offset r \<le> length (concat (rr_outs r)) \<and>
     rr_out_offset r \<le> chunk_bytes (tt_outs tx) \<and> length (error_bytes r) \<le> g_max_length"

text \<open>The two parts of a buffer agree: the chunks in use have the lengths of the bytes.\<close>

definition tbuf_ok :: "tbuf \<Rightarrow> bool" where
  "tbuf_ok b \<longleftrightarrow> buffer_inv (tb_shape b) \<and> map snd (ForEachChunk (tb_shape b)) = map length (tb_chunks b)"

text \<open>Where the byte number \<open>n\<close> of a buffer is, read off from the bytes, and the buffers in which \<open>FromDistance\<close> finds
  that place: those with one chunk, and those whose first chunk holds the byte.\<close>

fun locate :: "nat \<Rightarrow> u8 list list \<Rightarrow> nat \<times> nat" where
  "locate n (c # c' # cs) = (if n < length c then (0, n) else map_prod Suc id (locate (n - length c) (c' # cs)))"
| "locate n cs = (0, n)"

definition position_at :: "nat \<Rightarrow> tbuf \<Rightarrow> position" where
  "position_at n b =
     (if tb_chunks b = [] then (None, g_initial_offset) else map_prod Some ((+) g_initial_offset) (locate n (tb_chunks b)))"

definition near :: "nat \<Rightarrow> tbuf \<Rightarrow> bool" where
  "near n b \<longleftrightarrow> (case tb_chunks b of [] \<Rightarrow> chunks (tb_shape b) = [] | c # cs \<Rightarrow> cs = [] \<or> n < length c)"

text \<open>The truth value of the status.\<close>

definition tt_complete :: "ttx \<Rightarrow> bool" where
  "tt_complete tx \<longleftrightarrow>
     \<not> m_had_allocation_failure (tb_shape (tt_ins tx)) \<and> \<not> m_had_allocation_failure (tb_shape (tt_outs tx)) \<and>
     fst (tt_first tx) = End (tb_shape (tt_ins tx))"

definition completed_by :: "remote_result \<Rightarrow> ttx \<Rightarrow> ttx \<Rightarrow> bool" where
  "completed_by r tx tx' \<longleftrightarrow>
     tt_ins tx' = tt_ins tx \<and> tb_shape (tt_outs tx') = tb_shape (tt_outs tx) \<and> tbuf_ok (tt_outs tx') \<and>
     concat (tb_chunks (tt_outs tx')) =
       take (rr_out_offset r) (concat (rr_outs r)) @ drop (rr_out_offset r) (concat (tb_chunks (tt_outs tx))) \<and>
     tt_error tx' = (if error_bytes r = [] then tt_error tx else Some (error_bytes r)) \<and>
     (near (rr_in_offset r) (tt_ins tx) \<longrightarrow> fst (tt_first tx') = position_at (rr_in_offset r) (tt_ins tx)) \<and>
     (near (rr_out_offset r) (tt_outs tx) \<longrightarrow> snd (tt_first tx') = position_at (rr_out_offset r) (tt_outs tx)) \<and>
     (tb_chunks (tt_ins tx) \<noteq> [] \<and> length (tb_chunks (tt_ins tx)) < 2 ^ 58 \<longrightarrow>
        (tt_complete tx' \<longleftrightarrow>
           \<not> m_had_allocation_failure (tb_shape (tt_ins tx)) \<and> \<not> m_had_allocation_failure (tb_shape (tt_outs tx)) \<and>
           length (tb_chunks (tt_ins tx)) = 1 \<and> rr_in_offset r = chunk_bytes (tt_ins tx)))"

lemma response_of_result_fits:
  assumes "fits r tx" "too_long tx = None"
  shows "unat (first_incomplete_input_offset (response_of_result key r)) = rr_in_offset r"
    "unat (first_incomplete_output_offset (response_of_result key r)) = rr_out_offset r"
    "unat (error_length (response_of_result key r)) = length (error_bytes r)"
    "rs_key (response_of_result key r) = key"
proof -
  have "chunk_bytes (tt_ins tx) \<le> g_max_length" "chunk_bytes (tt_outs tx) \<le> g_max_length"
    using assms(2) by (auto simp: too_long_def split: if_splits)
  then have "rr_in_offset r \<le> g_max_length" "rr_out_offset r \<le> g_max_length" using assms(1) by (simp_all add: fits_def)
  then show "unat (first_incomplete_input_offset (response_of_result key r)) = rr_in_offset r"
    "unat (first_incomplete_output_offset (response_of_result key r)) = rr_out_offset r"
    "unat (error_length (response_of_result key r)) = length (error_bytes r)"
    "rs_key (response_of_result key r) = key"
    using assms(1)
    by (auto simp: response_of_result_def Let_def fits_def error_bytes_def unat_of_nat_max length_concat split: option.splits)
qed

lemma sent_DetachRequest:
  assumes "fits r tx" "too_long tx = None"
  shows "sent_bytes (DetachRequest key r) = ToBytes [Response] @ response_bytes (response_of_result key r) @
    take (rr_out_offset r) (concat (rr_outs r)) @ error_bytes r"
proof -
  note f = response_of_result_fits [OF assms, of key]
  have "error_length (response_of_result key r) = 0 \<longleftrightarrow> error_bytes r = []"
    using f(3) by (metis length_0_conv unat_0 unat_eq_zero)
  then show ?thesis
    using f(2)
    by (auto simp: DetachRequest_def Let_def sent_take_chunks sent_writes error_bytes_def simp del: ToBytes_simps split: option.splits)
qed

lemma fill_chunks_nothing: "fill_chunks [] cs = cs"
  by (induction cs) (simp_all add: Let_def)

subsubsection \<open>Positions\<close>

lemma tbuf_ok_tail:
  assumes "tbuf_ok b" "tb_chunks b \<noteq> []"
  obtains t where "m_tail (tb_shape b) = Some t" "Suc t = length (tb_chunks b)" "t < length (chunks (tb_shape b))"
    "m_offset (tb_shape b) = g_initial_offset + length (tb_chunks b ! t)"
    "\<And>i. i \<le> t \<Longrightarrow> allocated (chunks (tb_shape b) ! i) = g_initial_offset + length (tb_chunks b ! i)"
proof -
  let ?s = "tb_shape b"
  obtain t where t: "m_tail ?s = Some t"
    using assms by (cases "m_tail ?s") (auto simp: tbuf_ok_def ForEachChunk_def)
  have m: "map (\<lambda>i. allocated (chunks ?s ! i) - g_initial_offset) [0..<Suc t] = map length (tb_chunks b)"
    using assms(1) t by (simp add: tbuf_ok_def ForEachChunk_def comp_def)
  have len: "Suc t = length (tb_chunks b)" using arg_cong [OF m, of length] by simp
  have inv: "t < length (chunks ?s)" "allocated (chunks ?s ! t) = m_offset ?s" "chunks_ok (chunks ?s)"
    using assms(1) t buffer_inv_chunks_ok [of ?s] by (simp_all add: tbuf_ok_def) (simp_all add: buffer_inv_def)
  have al: "allocated (chunks ?s ! i) = g_initial_offset + length (tb_chunks b ! i)" if "i \<le> t" for i
  proof -
    have "allocated (chunks ?s ! i) - g_initial_offset = length (tb_chunks b ! i)"
      using arg_cong [OF m, of "\<lambda>xs. xs ! i"] that len by (simp add: nth_append del: upt_Suc)
    moreover have "g_initial_offset \<le> allocated (chunks ?s ! i)"
      using chunks_ok_nth [OF inv(3), of i] that inv(1) by simp
    ultimately show ?thesis by simp
  qed
  show thesis using that [OF t len inv(1) _ al] al [of t] inv(2) by simp
qed

lemma from_distance_congruence:
  assumes "i \<le> t" "t < i + length cs" "distance < 2 ^ 64" "\<forall>j. i + j < t \<longrightarrow> allocated (cs ! j) < 2 ^ 64"
  shows "\<exists>m off. i + m \<le> t \<and> from_distance_loop cs i (Some t) distance = (Some (i + m), off) \<and> off < 2 ^ 64 \<and>
    (off + sum_list (map allocated (take m cs))) mod 2 ^ 64 = (distance + g_initial_offset) mod 2 ^ 64"
  using assms
proof (induction cs arbitrary: i distance)
  case (Cons c cs)
  show ?case
  proof (cases "i \<noteq> t \<and> allocated c - g_initial_offset \<le> distance")
    case True
    have "Suc i \<le> t" "t < Suc i + length cs" "sub64 distance (allocated c) < 2 ^ 64" "\<forall>j. Suc i + j < t \<longrightarrow> allocated (cs ! j) < 2 ^ 64"
      using True Cons.prems(1-3) Cons.prems(4) [rule_format, of "Suc _"] by (auto simp: sub64_def)
    from Cons.IH [OF this] obtain m off where ih: "Suc i + m \<le> t"
      "from_distance_loop cs (Suc i) (Some t) (sub64 distance (allocated c)) = (Some (Suc i + m), off)" "off < 2 ^ 64"
      "(off + sum_list (map allocated (take m cs))) mod 2 ^ 64 = (sub64 distance (allocated c) + g_initial_offset) mod 2 ^ 64"
      by blast
    have c: "allocated c < 2 ^ 64" using Cons.prems(1) Cons.prems(4) [rule_format, of 0] True by simp
    have "(off + sum_list (map allocated (take (Suc m) (c # cs)))) mod 2 ^ 64 =
        (sub64 distance (allocated c) + g_initial_offset + allocated c) mod 2 ^ 64"
      using arg_cong [OF ih(4), of "\<lambda>x. (x + allocated c) mod 2 ^ 64"] by (simp only: mod_add_left_eq) (simp add: ac_simps)
    also have "\<dots> = (distance + 2 ^ 64 - allocated c + (g_initial_offset + allocated c)) mod 2 ^ 64"
      by (simp add: sub64_def mod_add_left_eq add.assoc)
    also have "distance + 2 ^ 64 - allocated c + (g_initial_offset + allocated c) = distance + g_initial_offset + 2 ^ 64"
      using c by simp
    finally show ?thesis
      using ih True by (intro exI [of _ "Suc m"] exI [of _ off]) simp
  next
    case False
    then have "from_distance_loop (c # cs) i (Some t) distance = (Some (i + 0), add64 distance g_initial_offset)" by auto
    then show ?thesis using Cons.prems(1)
      by (intro exI [of _ 0] exI [of _ "add64 distance g_initial_offset"]) (simp add: add64_def)
  qed
qed simp

lemma sum_allocated:
  assumes "tbuf_ok b" "m \<le> t" "m_tail (tb_shape b) = Some t"
  shows "sum_list (map allocated (take m (chunks (tb_shape b)))) =
    g_initial_offset * m + sum_list (map length (take m (tb_chunks b)))"
proof -
  have ne: "tb_chunks b \<noteq> []" using assms(1,3) by (auto simp: tbuf_ok_def ForEachChunk_def)
  obtain t' where t: "m_tail (tb_shape b) = Some t'" "Suc t' = length (tb_chunks b)" "t' < length (chunks (tb_shape b))"
    "\<And>i. i \<le> t' \<Longrightarrow> allocated (chunks (tb_shape b) ! i) = g_initial_offset + length (tb_chunks b ! i)"
    using tbuf_ok_tail [OF assms(1) ne] by metis
  from assms(2) show ?thesis
    by (induction m) (use t assms(3) in \<open>simp_all add: take_Suc_conv_app_nth\<close>)
qed

lemma length_nth_le_chunk_bytes: "i < length (tb_chunks b) \<Longrightarrow> length (tb_chunks b ! i) \<le> chunk_bytes b"
  unfolding chunk_bytes_def by (rule member_le_sum_list) simp_all

lemma FromDistance_congruence:
  assumes "tbuf_ok b" "tb_chunks b \<noteq> []" "n \<le> g_max_length" "chunk_bytes b \<le> g_max_length"
  obtains m off where "FromDistance n (tb_shape b) = (Some m, off)" "m < length (tb_chunks b)" "off < 2 ^ 64"
    "(off + g_initial_offset * m + sum_list (map length (take m (tb_chunks b)))) mod 2 ^ 64 = n + g_initial_offset"
proof -
  obtain t where t: "m_tail (tb_shape b) = Some t" "Suc t = length (tb_chunks b)" "t < length (chunks (tb_shape b))"
    "\<And>i. i \<le> t \<Longrightarrow> allocated (chunks (tb_shape b) ! i) = g_initial_offset + length (tb_chunks b ! i)"
    using tbuf_ok_tail [OF assms(1,2)] by metis
  have "\<forall>j. 0 + j < t \<longrightarrow> allocated (chunks (tb_shape b) ! j) < 2 ^ 64"
  proof (intro allI impI)
    fix j assume "0 + j < t"
    then show "allocated (chunks (tb_shape b) ! j) < 2 ^ 64"
      using t(4) [of j] t(2) length_nth_le_chunk_bytes [of j b] assms(4) by (simp add: g_max_length_def g_initial_offset_def)
  qed
  moreover have n: "n < 2 ^ 64" "(n + g_initial_offset) mod 2 ^ 64 = n + g_initial_offset"
    using assms(3) by (simp_all add: g_max_length_def g_initial_offset_def)
  ultimately obtain m off where "m \<le> t" "from_distance_loop (chunks (tb_shape b)) 0 (Some t) n = (Some m, off)" "off < 2 ^ 64"
    "(off + sum_list (map allocated (take m (chunks (tb_shape b))))) mod 2 ^ 64 = n + g_initial_offset"
    using from_distance_congruence [of 0 t "chunks (tb_shape b)" n] t(3) by auto
  moreover have "chunks (tb_shape b) \<noteq> []" using t(3) by auto
  ultimately show thesis
    using that [of m off] sum_allocated [OF assms(1) _ t(1), of m] t(1,2) by (simp add: FromDistance_def add.assoc)
qed

lemma FromDistance_near:
  assumes "tbuf_ok b" "near n b" "n \<le> g_max_length"
  shows "FromDistance n (tb_shape b) = position_at n b"
proof (cases "tb_chunks b")
  case Nil
  then show ?thesis using assms(2) by (simp add: near_def FromDistance_def position_at_def)
next
  case (Cons c cs)
  obtain t where t: "m_tail (tb_shape b) = Some t" "Suc t = length (tb_chunks b)" "t < length (chunks (tb_shape b))"
    "allocated (chunks (tb_shape b) ! 0) = g_initial_offset + length c"
    using tbuf_ok_tail [OF assms(1)] Cons by (metis le0 list.distinct(1) nth_Cons_0)
  obtain ch chs where chs: "chunks (tb_shape b) = ch # chs" using t(3) by (cases "chunks (tb_shape b)") auto
  have "add64 n g_initial_offset = g_initial_offset + n"
    using assms(3) by (simp add: add64_def g_max_length_def g_initial_offset_def)
  then show ?thesis
    using assms(2) t Cons chs by (cases cs) (auto simp: near_def FromDistance_def position_at_def)
qed

text \<open>The first incomplete input is found at the end of the buffer only for a complete transaction in one chunk.\<close>

lemma FromDistance_End:
  assumes "tbuf_ok b" "tb_chunks b \<noteq> []" "n \<le> chunk_bytes b" "chunk_bytes b \<le> g_max_length" "length (tb_chunks b) < 2 ^ 58"
  shows "FromDistance n (tb_shape b) = End (tb_shape b) \<longleftrightarrow> length (tb_chunks b) = 1 \<and> n = chunk_bytes b"
proof -
  have n: "n \<le> g_max_length" using assms(3,4) by simp
  obtain t where t: "m_tail (tb_shape b) = Some t" "Suc t = length (tb_chunks b)"
    "m_offset (tb_shape b) = g_initial_offset + length (tb_chunks b ! t)"
    using tbuf_ok_tail [OF assms(1,2)] by metis
  have End: "End (tb_shape b) = (Some t, g_initial_offset + length (tb_chunks b ! t))" using t by (simp add: End_def)
  have total: "chunk_bytes b = sum_list (map length (take t (tb_chunks b))) + length (tb_chunks b ! t)"
    using arg_cong [OF take_Suc_conv_app_nth [of t "tb_chunks b"], of "\<lambda>cs. sum_list (map length cs)"] t(2)
    by (simp add: chunk_bytes_def)
  show ?thesis
  proof
    assume eq: "FromDistance n (tb_shape b) = End (tb_shape b)"
    obtain m off where m: "FromDistance n (tb_shape b) = (Some m, off)"
      "(off + g_initial_offset * m + sum_list (map length (take m (tb_chunks b)))) mod 2 ^ 64 = n + g_initial_offset"
      using FromDistance_congruence [OF assms(1,2) n assms(4)] by metis
    have "(chunk_bytes b + g_initial_offset * t + g_initial_offset) mod 2 ^ 64 = n + g_initial_offset"
      using m(2) eq [unfolded m(1) End] total by (auto simp: ac_simps)
    moreover have "chunk_bytes b + g_initial_offset * t + g_initial_offset < 2 ^ 64"
      using assms(4,5) t(2) by (simp add: g_initial_offset_def g_max_length_def)
    ultimately have "chunk_bytes b + g_initial_offset * t = n" by simp
    then show "length (tb_chunks b) = 1 \<and> n = chunk_bytes b"
      using assms(3) t(2) by (simp add: g_initial_offset_def)
  next
    assume one: "length (tb_chunks b) = 1 \<and> n = chunk_bytes b"
    then obtain c where c: "tb_chunks b = [c]" by (auto simp: length_Suc_conv)
    have "FromDistance n (tb_shape b) = position_at n b"
      by (rule FromDistance_near [OF assms(1) _ n]) (simp add: near_def c)
    then show "FromDistance n (tb_shape b) = End (tb_shape b)" using one c End t(2) by (simp add: position_at_def chunk_bytes_def)
  qed
qed

lemma map_length_fill_chunks: "map length (fill_chunks out cs) = map length cs"
  by (induction out cs rule: fill_chunks.induct) (auto simp: Let_def)

lemma apply_parts_completed:
  assumes "fits r tx" "too_long tx = None" "tbuf_ok (tt_ins tx)" "tbuf_ok (tt_outs tx)"
    and "out = take (rr_out_offset r) (concat (rr_outs r))"
    and "unat (first_incomplete_input_offset h) = rr_in_offset r" "unat (first_incomplete_output_offset h) = rr_out_offset r"
  shows "completed_by r tx (apply_parts True
    (if out = [] then None else Some out, if error_bytes r = [] then None else Some (error_bytes r)) (set_first h tx))"
    (is "completed_by r tx ?tx'")
proof -
  have max: "chunk_bytes (tt_ins tx) \<le> g_max_length" "chunk_bytes (tt_outs tx) \<le> g_max_length"
    using assms(2) by (auto simp: too_long_def split: if_splits)
  have f: "rr_in_offset r \<le> chunk_bytes (tt_ins tx)" "rr_out_offset r \<le> chunk_bytes (tt_outs tx)" "length out = rr_out_offset r"
    using assms(1,5) by (simp_all add: fits_def)
  have tx': "tt_ins ?tx' = tt_ins tx" "tb_shape (tt_outs ?tx') = tb_shape (tt_outs tx)"
    "tb_chunks (tt_outs ?tx') = fill_chunks out (tb_chunks (tt_outs tx))"
    "tt_error ?tx' = (if error_bytes r = [] then tt_error tx else Some (error_bytes r))"
    "tt_first ?tx' = (FromDistance (rr_in_offset r) (tb_shape (tt_ins tx)), FromDistance (rr_out_offset r) (tb_shape (tt_outs tx)))"
    using assms(6,7) by (simp_all add: apply_parts_def Let_def set_first_def fill_chunks_nothing)
  have "tbuf_ok (tt_outs ?tx')" using assms(4) tx' by (simp add: tbuf_ok_def map_length_fill_chunks)
  moreover have "concat (tb_chunks (tt_outs ?tx')) = out @ drop (rr_out_offset r) (concat (tb_chunks (tt_outs tx)))"
    using concat_fill_chunks [of out "tb_chunks (tt_outs tx)"] f tx'(3) by (simp add: chunk_bytes_concat)
  moreover have "near (rr_in_offset r) (tt_ins tx) \<longrightarrow> fst (tt_first ?tx') = position_at (rr_in_offset r) (tt_ins tx)"
    "near (rr_out_offset r) (tt_outs tx) \<longrightarrow> snd (tt_first ?tx') = position_at (rr_out_offset r) (tt_outs tx)"
    using FromDistance_near [OF assms(3)] FromDistance_near [OF assms(4)] f max tx'(5) by simp_all
  moreover have "tb_chunks (tt_ins tx) \<noteq> [] \<and> length (tb_chunks (tt_ins tx)) < 2 ^ 58 \<longrightarrow>
      (fst (tt_first ?tx') = End (tb_shape (tt_ins tx)) \<longleftrightarrow>
        length (tb_chunks (tt_ins tx)) = 1 \<and> rr_in_offset r = chunk_bytes (tt_ins tx))"
    using FromDistance_End [OF assms(3) _ f(1) max(1)] tx'(5) by simp
  ultimately show ?thesis using tx'(1,2,4) assms(5) unfolding completed_by_def tt_complete_def by simp
qed

text \<open>Property C8: a transaction through the tunnel is a transaction of the driver at the other end. When every read of
  the stream delivers all bytes it asks for, the other end reads the request back, gives its driver exactly
  the bytes of the inputs, and the response completes this and no other transaction, with the outputs up to the
  first incomplete action and the error of that driver; its key is free again. The positions are those at the same
  distance as at the other end for a buffer of one chunk, or an offset within the first chunk. A transaction is
  reported as complete exactly when it is complete at the other end and its inputs are in one chunk: with more
  chunks \<open>FromDistance\<close> does not find the end, and a complete transaction counts as incomplete.\<close>

theorem tunnel_transparent:
  assumes "reliable rd" "begin_execute True index x tx t = (Inr (key, acts), t1)" "unat index < length (m_my_drivers s)"
    and "r = drv (fst (m_my_drivers s ! unat index)) (Some (concat (tb_chunks (tt_ins tx)))) (chunk_bytes (tt_outs tx))"
    and "fits r tx" "txs x = tx" "m_pending_transactions t key = None" "tbuf_ok (tt_ins tx)" "tbuf_ok (tt_outs tx)"
  shows "\<exists>rq rs inputs parts tx' t2.
    read_packet rd (sent_bytes acts @ rest) = Some (RequestPacket rq, inputs) \<and>
    HandleRequest rd True True drv rq inputs s = (Inr (DetachRequest key r), rest) \<and>
    read_packet rd (sent_bytes (DetachRequest key r) @ rest') = Some (ResponsePacket rs, parts) \<and>
    HandleResponse rd True True rs parts txs t1 = (None, Some x, rest', txs(x := tx'), t2) \<and> completed_by r tx tx' \<and>
    m_pending_transactions t2 = m_pending_transactions t \<and> hd (m_free_keys t2) = key"
proof -
  have ok: "too_long tx = None" using assms(2) by (auto simp: begin_execute_def split: option.splits)
  obtain k t0 where kt: "ScheduleRemoteTransaction True x t = (k, True, t0)" "m_pending_transactions t0 = (m_pending_transactions t)(k \<mapsto> \<lparr>pi_owner = x, pi_resolved = False, pi_abandoned = False\<rparr>)"
    by (cases "m_free_keys t") (auto simp: ScheduleRemoteTransaction_def)
  then have key: "k = key" "t0 = t1" and acts: "acts = request_actions index key tx"
    using assms(2) ok by (auto simp: begin_execute_def)
  define rq :: request_header where "rq = \<lparr>driver_index = index, rq_key = key,
    input_length = of_nat (chunk_bytes (tt_ins tx)), output_length = of_nat (chunk_bytes (tt_outs tx))\<rparr>"
  have lens: "unat (input_length rq) = chunk_bytes (tt_ins tx)" "unat (output_length rq) = chunk_bytes (tt_outs tx)"
    using ok by (auto simp: rq_def too_long_def unat_of_nat_max split: if_splits)
  let ?ins = "concat (tb_chunks (tt_ins tx))"
  have "sent_bytes acts @ rest = ToBytes [Request] @ request_bytes rq @ ?ins @ rest"
    by (simp add: acts request_actions_def rq_def sent_writes del: ToBytes_simps)
  then have r1: "read_packet rd (sent_bytes acts @ rest) = Some (RequestPacket rq, ?ins @ rest)"
    using read_request [OF assms(1)] by simp
  have "rd (?ins @ rest) (unat (input_length rq)) = (Inr ?ins, rest)"
    by (rule reliable_read [OF assms(1)]) (simp add: lens chunk_bytes_concat)
  then have h1: "HandleRequest rd True True drv rq (?ins @ rest) s = (Inr (DetachRequest key r), rest)"
    using assms(3,4) lens(2) by (simp add: HandleRequest_def ForwardRequest_def rq_def)
  define rs where "rs = response_of_result key r"
  note f = response_of_result_fits [OF assms(5) ok, of key, folded rs_def]
  let ?out = "take (rr_out_offset r) (concat (rr_outs r))"
  have r2: "read_packet rd (sent_bytes (DetachRequest key r) @ rest') = Some (ResponsePacket rs, ?out @ error_bytes r @ rest')"
    using read_response [OF assms(1), of rs "?out @ error_bytes r @ rest'"] sent_DetachRequest [OF assms(5) ok]
    by (simp add: rs_def del: ToBytes_simps)
  have "length ?out = unat (first_incomplete_output_offset rs)" "length (error_bytes r) = unat (error_length rs)"
    using f assms(5) by (simp_all add: fits_def)
  note parts = read_parts_reliable [OF assms(1) this, of rest']
  let ?tx' = "apply_parts True
    (if ?out = [] then None else Some ?out, if error_bytes r = [] then None else Some (error_bytes r)) (set_first rs tx)"
  have "HandleResponse rd True True rs (?out @ error_bytes r @ rest') txs t1 =
      (None, Some x, rest', txs(x := ?tx'), release_key True key t1)"
    using kt(2) key f(4) assms(6) by (simp add: HandleResponse_def Let_def parts)
  moreover have "completed_by r tx ?tx'" by (rule apply_parts_completed [OF assms(5) ok assms(8,9) refl f(1,2)])
  moreover have "m_pending_transactions (release_key True key t1) = m_pending_transactions t" "hd (m_free_keys (release_key True key t1)) = key"
    using kt(2) key assms(7) by (auto simp: release_key_def)
  ultimately show ?thesis using r1 h1 r2 by blast
qed


definition echo :: drv where
  "echo i inputs n = \<lparr>rr_outs = [case inputs of None \<Rightarrow> [] | Some bs \<Rightarrow> bs], rr_in_offset = 2, rr_out_offset = 2,
     rr_error = Some [[5]]\<rparr>"

definition one_chunk :: "u8 list \<Rightarrow> tbuf" where
  "one_chunk bs = \<lparr>tb_shape = snd (Allocate always forget 64 (length bs) (new_buffer ())), tb_chunks = [bs]\<rparr>"

definition small_tx :: ttx where
  "small_tx = \<lparr>tt_ins = one_chunk [7, 8], tt_outs = one_chunk [0, 0, 0], tt_error = None, tt_first = ((Some 0, 32), (Some 0, 32))\<rparr>"

lemma one_chunk_simps [simp]: "tb_chunks (one_chunk bs) = [bs]" "chunk_bytes (one_chunk bs) = length bs"
  by (simp_all add: one_chunk_def chunk_bytes_def)

lemma one_chunk_ok: "tbuf_ok (one_chunk bs)" "\<not> m_had_allocation_failure (tb_shape (one_chunk bs))"
  by (auto simp: one_chunk_def tbuf_ok_def Allocate_def GoToNextChunk_def append_chunk_def new_buffer_def always_def
      buffer_inv_def ForEachChunk_def Let_def g_initial_offset_def)

theorem tunnel_transparent_witness:
  "\<exists>acts t1 rq rs inputs parts tx' t2.
     begin_execute True 0 9 small_tx ByteStreamTunnel = (Inr (0, acts), t1) \<and>
     read_packet exact_reader (sent_bytes acts) = Some (RequestPacket rq, inputs) \<and>
     HandleRequest exact_reader True True echo rq inputs (snd (RegisterDriver True (3000, [97]) ByteStreamTunnel)) =
       (Inr (DetachRequest 0 (echo 3000 (Some [7, 8]) 3)), []) \<and>
     HandleResponse exact_reader True True rs parts (\<lambda>_. small_tx) t1 =
       (None, Some 9, [], (\<lambda>_. small_tx)(9 := tx'), t2) \<and>
     concat (tb_chunks (tt_outs tx')) = [7, 8, 0] \<and> tt_error tx' = Some [5] \<and>
     tt_first tx' = ((Some 0, 34), (Some 0, 34)) \<and> tt_complete tx'"
proof -
  let ?s = "snd (RegisterDriver True (3000, [97]) ByteStreamTunnel)" and ?r = "echo 3000 (Some [7, 8]) 3"
  have ok: "too_long small_tx = None" by (simp add: too_long_def small_tx_def g_max_length_def)
  obtain acts t1 where b: "begin_execute True 0 9 small_tx ByteStreamTunnel = (Inr (0, acts), t1)"
    using ok by (auto simp: begin_execute_def ScheduleRemoteTransaction_def ByteStreamTunnel_def)
  have s: "unat (0 :: u32) < length (m_my_drivers ?s)"
    "?r = echo (fst (m_my_drivers ?s ! unat (0 :: u32))) (Some (concat (tb_chunks (tt_ins small_tx)))) (chunk_bytes (tt_outs small_tx))"
    by (simp_all add: RegisterDriver_def ByteStreamTunnel_def small_tx_def numeral_3_eq_3)
  have f: "fits ?r small_tx" "m_pending_transactions ByteStreamTunnel 0 = None" "tbuf_ok (tt_ins small_tx)" "tbuf_ok (tt_outs small_tx)"
    by (simp_all add: fits_def echo_def small_tx_def error_bytes_def g_max_length_def ByteStreamTunnel_def one_chunk_ok)
  have c: "concat (tb_chunks (tt_outs tx')) = [7, 8, 0] \<and> tt_error tx' = Some [5] \<and>
      tt_first tx' = ((Some 0, 34), (Some 0, 34)) \<and> tt_complete tx'" if "completed_by ?r small_tx tx'" for tx'
    using that
    by (simp add: completed_by_def echo_def small_tx_def error_bytes_def near_def position_at_def one_chunk_ok
        g_initial_offset_def prod_eq_iff)
  show ?thesis
    using tunnel_transparent [where drv = echo and txs = "\<lambda>_. small_tx" and rest = "[]" and rest' = "[]",
        OF exact_reader_reliable b s f(1) refl f(2-4), unfolded append_Nil2] b c by blast
qed

text \<open>A defect. The inputs are in two chunks and the driver at the other end has completed all of them: the transaction is
  reported as incomplete.\<close>

definition two_chunk_inputs :: tbuf where
  "two_chunk_inputs = \<lparr>tb_shape = two_chunks, tb_chunks = [replicate 28 1, replicate 16 2]\<rparr>"

theorem complete_in_two_chunks_misreported:
  "tbuf_ok two_chunk_inputs \<and> chunk_bytes two_chunk_inputs = 44 \<and> position_at 44 two_chunk_inputs = End two_chunks \<and>
   \<not> tt_complete (set_first \<lparr>rs_key = key, first_incomplete_input_offset = 44, first_incomplete_output_offset = 0, error_length = 0\<rparr>
       (small_tx\<lparr>tt_ins := two_chunk_inputs\<rparr>))"
proof (intro conjI)
  show "tbuf_ok two_chunk_inputs"
    by (simp add: two_chunk_inputs_def two_chunks_def tbuf_ok_def buffer_inv_def ForEachChunk_def g_initial_offset_def)
  show "chunk_bytes two_chunk_inputs = 44" "position_at 44 two_chunk_inputs = End two_chunks"
    by (simp_all add: two_chunk_inputs_def two_chunks_def chunk_bytes_def position_at_def End_def g_initial_offset_def)
  show "\<not> tt_complete (set_first \<lparr>rs_key = key, first_incomplete_input_offset = 44, first_incomplete_output_offset = 0, error_length = 0\<rparr>
       (small_tx\<lparr>tt_ins := two_chunk_inputs\<rparr>))"
    by (simp add: tt_complete_def set_first_def two_chunk_inputs_def two_chunks_def End_def FromDistance_def
        g_initial_offset_def sub64_def add64_def)
qed

text \<open>A defect. The number of bytes that a read delivered is never checked. A header cut short fails the assertion of
  \<open>FromBytes\<close>, and inputs cut short go to the driver as they are, for a request of any length.\<close>

theorem short_reads_unchecked:
  "(rd incoming 20 = (Inr bs, left) \<and> length bs < 4 \<longrightarrow> read_packet rd incoming = None) \<and>
   (rd incoming (unat (input_length h)) = (Inr bs, left) \<and> unat (driver_index h) < length (m_my_drivers s) \<longrightarrow>
      HandleRequest rd True True drv h incoming s =
        (Inr (DetachRequest (rq_key h) (drv (fst (m_my_drivers s ! unat (driver_index h))) (Some bs) (unat (output_length h)))), left))"
  by (simp add: read_packet_def FromBytes_def HandleRequest_def ForwardRequest_def)

text \<open>A defect. A request for a driver that the other end does not have is answered without the
  identifier of the packet: the event loop at the requesting end takes the key of the transaction for it and
  gives up the whole tunnel, or, when the key is the number of a request, starts to execute a transaction that
  nobody sent.\<close>

theorem abort_breaks_tunnel:
  assumes "reliable rd" "length (m_my_drivers s) \<le> unat (driver_index h)" "rd inputs (unat (input_length h)) = (Inr bs, left)"
    and "4 \<le> length rest"
  shows "\<exists>acts. HandleRequest rd True True drv h inputs s = (Inr acts, left) \<and>
    (if rq_key h = Request then \<exists>n. read_packet rd (sent_bytes acts @ rest) =
          Some (RequestPacket \<lparr>driver_index = 0, rq_key = 0, input_length = 0, output_length = n\<rparr>, drop 4 rest)
     else rq_key h \<noteq> Response \<longrightarrow> read_packet rd (sent_bytes acts @ rest) =
          Some (BadPacket (CauseStringMessage (''Unexpected packet ID '' @ show_nat (unat (rq_key h)))), drop 4 rest))"
proof -
  let ?abort = "ToBytes [rq_key h, 0, 0, 0]"
  have b: "sent_bytes (AbortTransaction (rq_key h)) = ?abort"
    by (simp add: AbortTransaction_def response_bytes_def)
  have r1: "rd (?abort @ rest) 20 = (Inr (?abort @ take 4 rest), drop 4 rest)"
    using reliable_read [OF assms(1), of "?abort @ take 4 rest" 20 "drop 4 rest"] assms(4) by (simp del: ToBytes_simps)
  have r2: "FromBytes 1 (?abort @ take 4 rest) = Some [rq_key h]"
    using FromBytes_ToBytes [of "[rq_key h]" 1 "ToBytes [0, 0, 0] @ take 4 rest"] by simp
  have r3: "FromBytes 4 (drop 4 (?abort @ take 4 rest)) = Some [0, 0, 0, u32_at 12 (ToBytes [0, 0, 0] @ take 4 rest)]"
  proof -
    have d: "drop 4 (?abort @ take 4 rest) = ToBytes [0, 0, 0] @ take 4 rest" by simp
    have "u32_at (4 * i) (ToBytes [0, 0, 0] @ take 4 rest) = 0" if "i < 3" for i
      using u32_at_ToBytes [of i "[0, 0, 0]" "take 4 rest"] that by (simp add: less_Suc_eq numeral_3_eq_3 del: ToBytes_simps) auto
    from this [of 0] this [of 1] this [of 2] show ?thesis
      unfolding d using assms(4) by (simp add: FromBytes_def upt_rec del: ToBytes_simps)
  qed
  have packet: "read_packet rd (?abort @ rest) =
      (if rq_key h = Request
       then Some (RequestPacket (as_request [0, 0, 0, u32_at 12 (ToBytes [0, 0, 0] @ take 4 rest)]), drop 4 rest)
       else if rq_key h = Response
       then Some (ResponsePacket (as_response [0, 0, 0, u32_at 12 (ToBytes [0, 0, 0] @ take 4 rest)]), drop 4 rest)
       else Some (BadPacket (CauseStringMessage (''Unexpected packet ID '' @ show_nat (unat (rq_key h)))), drop 4 rest))"
    by (simp only: read_packet_def r1 r2 r3 prod.case sum.case Option.bind.simps option.map nth_Cons_0)
  show ?thesis
  proof (intro exI [of _ "AbortTransaction (rq_key h)"] conjI)
    show "HandleRequest rd True True drv h inputs s = (Inr (AbortTransaction (rq_key h)), left)"
      using assms(2,3) by (simp add: HandleRequest_def)
    show "if rq_key h = Request then \<exists>n. read_packet rd (sent_bytes (AbortTransaction (rq_key h)) @ rest) =
          Some (RequestPacket \<lparr>driver_index = 0, rq_key = 0, input_length = 0, output_length = n\<rparr>, drop 4 rest)
       else rq_key h \<noteq> Response \<longrightarrow> read_packet rd (sent_bytes (AbortTransaction (rq_key h)) @ rest) =
          Some (BadPacket (CauseStringMessage (''Unexpected packet ID '' @ show_nat (unat (rq_key h)))), drop 4 rest)"
      unfolding b packet by (simp add: as_request_def del: ToBytes_simps)
  qed
qed


theorem abort_breaks_tunnel_witness:
  "\<exists>acts. HandleRequest exact_reader True True echo \<lparr>driver_index = 5, rq_key = 9, input_length = 1, output_length = 0\<rparr> [1]
     ByteStreamTunnel = (Inr acts, []) \<and>
   read_packet exact_reader (sent_bytes acts @ ToBytes [Response]) =
     Some (BadPacket (CauseStringMessage (''Unexpected packet ID '' @ show_nat 9)), [])"
proof -
  let ?h = "\<lparr>driver_index = 5, rq_key = 9, input_length = 1, output_length = 0\<rparr> :: request_header"
  have "length (m_my_drivers ByteStreamTunnel) \<le> unat (driver_index ?h)" by (simp add: ByteStreamTunnel_def)
  moreover have "exact_reader [1] (unat (input_length ?h)) = (Inr [1], [])" by (simp add: exact_reader_def)
  moreover have "rq_key ?h \<noteq> Request" "rq_key ?h \<noteq> Response" by (simp_all add: packet_ids)
  ultimately show ?thesis
    using abort_breaks_tunnel [OF exact_reader_reliable, of ByteStreamTunnel ?h "[1]" "[1]" "[]" "ToBytes [Response]" echo]
    by (simp del: ToBytes_simps)
qed

subsection \<open>Keys and lifetimes\<close>

text \<open>The steps of the transactions of one end and of its event loop. \<open>early\<close>: a response may be handled before the
  coroutine that sent the request awaits it; \<open>may_fail\<close>: a write may fail. A transaction whose write failed still holds the
  pointer to its item (\<open>Stale\<close>). \<open>None\<close> is the use of an item that was erased or is another transaction's.\<close>

datatype phase = Idle | Writing u32 | Waiting u32 | Stale u32 | Returned | Lost

record sys =
  tun :: tunnel
  phases :: "nat \<Rightarrow> phase"

definition set_item :: "u32 \<Rightarrow> pending_item \<Rightarrow> tunnel \<Rightarrow> tunnel" where
  "set_item key it t = t\<lparr>m_pending_transactions := (m_pending_transactions t)(key \<mapsto> it)\<rparr>"

definition await_response :: "nat \<Rightarrow> u32 \<Rightarrow> sys \<Rightarrow> sys option" where
  "await_response x key s =
     do { it \<leftarrow> m_pending_transactions (tun s) key;
          if pi_owner it \<noteq> x then None
          else Some (s\<lparr>phases := (phases s)(x := if pi_resolved it then Returned else Waiting key)\<rparr>) }"

definition destroy_stale :: "nat \<Rightarrow> u32 \<Rightarrow> sys \<Rightarrow> sys option" where
  "destroy_stale x key s =
     do { it \<leftarrow> m_pending_transactions (tun s) key;
          Some (s\<lparr>tun := set_item key (it\<lparr>pi_abandoned := True\<rparr>) (tun s), phases := (phases s)(x := Returned)\<rparr>) }"

definition resume_owner :: "pending_item \<Rightarrow> u32 \<Rightarrow> (nat \<Rightarrow> phase) \<Rightarrow> nat \<Rightarrow> phase" where
  "resume_owner it key ph =
     (if ph (pi_owner it) = Waiting key then ph(pi_owner it := if pi_abandoned it then Lost else Returned) else ph)"

definition abort_phases :: "tunnel \<Rightarrow> (nat \<Rightarrow> phase) \<Rightarrow> nat \<Rightarrow> phase" where
  "abort_phases t ph x =
     (case ph x of
        Waiting key \<Rightarrow>
          (case m_pending_transactions t key of
             Some it \<Rightarrow> if pi_owner it = x then (if pi_abandoned it then Lost else Returned) else ph x
           | None \<Rightarrow> ph x)
      | _ \<Rightarrow> ph x)"

inductive tun_step :: "bool \<Rightarrow> bool \<Rightarrow> sys \<Rightarrow> sys option \<Rightarrow> bool" for early may_fail where
  schedule: "phases s x = Idle \<Longrightarrow> m_free_keys (tun s) \<noteq> [] \<or> m_next_key (tun s) \<noteq> - 1 \<Longrightarrow>
    ScheduleRemoteTransaction emplaced x (tun s) = (key, ok, t) \<Longrightarrow>
    tun_step early may_fail s (Some (s\<lparr>tun := t, phases := (phases s)(x := if ok then Writing key else Returned)\<rparr>))"
| awaits: "phases s x = Writing key \<Longrightarrow> tun_step early may_fail s (await_response x key s)"
| write_fails: "may_fail \<Longrightarrow> phases s x = Writing key \<Longrightarrow>
    tun_step early may_fail s (Some (s\<lparr>tun := release_key pushed key (tun s), phases := (phases s)(x := Stale key)\<rparr>))"
| destroys: "phases s x = Stale key \<Longrightarrow> tun_step early may_fail s (destroy_stale x key s)"
| responds: "m_tunnel_alive (tun s) \<Longrightarrow> m_pending_transactions (tun s) key = Some it \<Longrightarrow>
    early \<or> phases s (pi_owner it) = Waiting key \<Longrightarrow>
    tun_step early may_fail s (Some (s\<lparr>tun := release_key pushed key (tun s), phases := resume_owner it key (phases s)\<rparr>))"
| ends: "m_tunnel_alive (tun s) \<Longrightarrow>
    tun_step early may_fail s (Some (s\<lparr>tun := snd (end_event_loop (tun s)), phases := abort_phases (tun s) (phases s)\<rparr>))"

inductive tun_run :: "bool \<Rightarrow> bool \<Rightarrow> sys option \<Rightarrow> bool" for early may_fail where
  start: "t = ByteStreamTunnel\<lparr>m_my_drivers := mine, m_remote_drivers := remote, m_tunnel_alive := True\<rparr> \<Longrightarrow>
    tun_run early may_fail (Some \<lparr>tun = t, phases = (\<lambda>_. Idle)\<rparr>)"
| step: "tun_run early may_fail (Some s) \<Longrightarrow> tun_step early may_fail s r \<Longrightarrow> tun_run early may_fail r"

text \<open>Keys that are in use and keys that are free are below the next key and disjoint, and a key in use belongs to the
  one transaction that sent it.\<close>

definition keys_ok :: "tunnel \<Rightarrow> (nat \<Rightarrow> phase) \<Rightarrow> bool" where
  "keys_ok t ph \<longleftrightarrow>
     distinct (m_free_keys t) \<and> (\<forall>k \<in> set (m_free_keys t). m_pending_transactions t k = None \<and> k < m_next_key t) \<and>
     (\<forall>k it. m_pending_transactions t k = Some it \<longrightarrow> k < m_next_key t \<and> \<not> pi_abandoned it \<and>
        (pi_resolved it \<or> ph (pi_owner it) \<in> {Writing k, Waiting k})) \<and>
     (\<forall>x k. ph x \<in> {Writing k, Waiting k} \<longrightarrow>
        (\<exists>it. m_pending_transactions t k = Some it \<and> pi_owner it = x \<and> (ph x = Waiting k \<longrightarrow> \<not> pi_resolved it))) \<and>
     (\<forall>x k. ph x \<noteq> Stale k \<and> ph x \<noteq> Lost)"

lemma keys_okD:
  assumes "keys_ok t ph"
  shows "distinct (m_free_keys t)"
    "\<And>k. k \<in> set (m_free_keys t) \<Longrightarrow> m_pending_transactions t k = None \<and> k < m_next_key t"
    "\<And>k it. m_pending_transactions t k = Some it \<Longrightarrow> k < m_next_key t \<and> \<not> pi_abandoned it \<and>
       (pi_resolved it \<or> ph (pi_owner it) = Writing k \<or> ph (pi_owner it) = Waiting k)"
    "\<And>x k. ph x = Writing k \<or> ph x = Waiting k \<Longrightarrow>
       \<exists>it. m_pending_transactions t k = Some it \<and> pi_owner it = x \<and> (ph x = Waiting k \<longrightarrow> \<not> pi_resolved it)"
    "\<And>x k. ph x \<noteq> Stale k" "\<And>x. ph x \<noteq> Lost"
  using assms unfolding keys_ok_def by blast+

lemma keys_okI:
  assumes "distinct (m_free_keys t)"
    "\<And>k. k \<in> set (m_free_keys t) \<Longrightarrow> m_pending_transactions t k = None \<and> k < m_next_key t"
    "\<And>k it. m_pending_transactions t k = Some it \<Longrightarrow> k < m_next_key t \<and> \<not> pi_abandoned it \<and>
       (pi_resolved it \<or> ph (pi_owner it) = Writing k \<or> ph (pi_owner it) = Waiting k)"
    "\<And>x k. ph x = Writing k \<or> ph x = Waiting k \<Longrightarrow>
       \<exists>it. m_pending_transactions t k = Some it \<and> pi_owner it = x \<and> (ph x = Waiting k \<longrightarrow> \<not> pi_resolved it)"
    "\<And>x k. ph x \<noteq> Stale k" "\<And>x. ph x \<noteq> Lost"
  shows "keys_ok t ph"
  using assms unfolding keys_ok_def by blast

text \<open>The key of a new transaction is not in use.\<close>

lemma fresh_key:
  assumes "keys_ok t ph" "m_free_keys t \<noteq> [] \<or> m_next_key t \<noteq> - 1"
    and "ScheduleRemoteTransaction emplaced x t = (key, ok, t')"
  shows "m_pending_transactions t key = None \<and> key < m_next_key t' \<and> m_next_key t \<le> m_next_key t' \<and> ok = emplaced \<and>
    m_pending_transactions t' = (if emplaced then (m_pending_transactions t)(key \<mapsto>
       \<lparr>pi_owner = x, pi_resolved = False, pi_abandoned = False\<rparr>) else m_pending_transactions t) \<and>
    distinct (m_free_keys t') \<and> set (m_free_keys t') \<subseteq> set (m_free_keys t) - {key}"
proof (cases "m_free_keys t")
  case (Cons k ks)
  then show ?thesis
    using assms(3) keys_okD(1) [OF assms(1)] keys_okD(2) [OF assms(1), of k]
    by (auto simp: ScheduleRemoteTransaction_def split: if_splits)
next
  case Nil
  have "1 + m_next_key t \<noteq> 0" using Nil assms(2) max_word_wrap [of "m_next_key t"] by (auto simp: add.commute)
  then have n: "m_next_key t < m_next_key t + 1"
    using unatSuc [of "m_next_key t"] by (simp add: word_less_nat_alt add.commute)
  have "m_pending_transactions t (m_next_key t) = None"
    using keys_okD(3) [OF assms(1), of "m_next_key t"] by fastforce
  then show ?thesis using Nil n assms(3) by (auto simp: ScheduleRemoteTransaction_def split: if_splits)
qed

lemma keys_ok_schedule:
  assumes "keys_ok t ph" "m_free_keys t \<noteq> [] \<or> m_next_key t \<noteq> - 1" "ph x = Idle"
    and "ScheduleRemoteTransaction emplaced x t = (key, ok, t')"
  shows "keys_ok t' (ph(x := if ok then Writing key else Returned))" (is "keys_ok t' ?ph")
proof -
  note f = fresh_key [OF assms(1,2,4)] and D = keys_okD [OF assms(1)]
  have other: "pi_owner it \<noteq> x \<or> pi_resolved it" if "m_pending_transactions t k = Some it" for k it
    using D(3) [OF that] assms(3) by auto
  have lt: "k < m_next_key t'" if "k < m_next_key t" for k using that f by (meson order_less_le_trans)
  have unused: "ph y \<noteq> Writing key" "ph y \<noteq> Waiting key" for y using D(4) [of y key] f by auto
  show ?thesis
  proof (rule keys_okI)
    fix k assume "k \<in> set (m_free_keys t')"
    then have "k \<in> set (m_free_keys t)" "k \<noteq> key" using f by auto
    then show "m_pending_transactions t' k = None \<and> k < m_next_key t'" using D(2) [of k] lt [of k] f by auto
  next
    fix k it assume it: "m_pending_transactions t' k = Some it"
    show "k < m_next_key t' \<and> \<not> pi_abandoned it \<and> (pi_resolved it \<or> ?ph (pi_owner it) = Writing k \<or> ?ph (pi_owner it) = Waiting k)"
    proof (cases "k = key \<and> emplaced")
      case True
      then show ?thesis using it f by auto
    next
      case False
      then have "m_pending_transactions t k = Some it" using it f by (auto split: if_splits)
      then show ?thesis using D(3) [of k it] other [of k it] lt [of k] by auto
    qed
  next
    fix y k assume "?ph y = Writing k \<or> ?ph y = Waiting k"
    then show "\<exists>it. m_pending_transactions t' k = Some it \<and> pi_owner it = y \<and> (?ph y = Waiting k \<longrightarrow> \<not> pi_resolved it)"
      using D(4) [of y k] unused [of y] f by (cases "y = x") (auto split: if_splits)
  next
    fix y k show "?ph y \<noteq> Stale k" "?ph y \<noteq> Lost" using D(5) [of y k] D(6) [of y] by simp_all
  qed (use f in simp)
qed

lemma keys_ok_await:
  assumes "keys_ok (tun s) (phases s)" "phases s x = Writing key"
  shows "\<exists>s'. await_response x key s = Some s' \<and> keys_ok (tun s') (phases s')"
proof -
  note D = keys_okD [OF assms(1)]
  obtain it where it: "m_pending_transactions (tun s) key = Some it" "pi_owner it = x" using D(4) [of x key] assms(2) by auto
  have "keys_ok (tun s) ((phases s)(x := if pi_resolved it then Returned else Waiting key))" (is "keys_ok _ ?ph")
  proof (rule keys_okI)
    fix k it' assume p: "m_pending_transactions (tun s) k = Some it'"
    have "pi_resolved it' \<or> ?ph (pi_owner it') = Writing k \<or> ?ph (pi_owner it') = Waiting k"
    proof (cases "k = key")
      case True
      then show ?thesis using p it by simp
    next
      case False
      then show ?thesis using D(3) [OF p] assms(2) by (cases "pi_owner it' = x") simp_all
    qed
    then show "k < m_next_key (tun s) \<and> \<not> pi_abandoned it' \<and> (pi_resolved it' \<or> ?ph (pi_owner it') = Writing k \<or> ?ph (pi_owner it') = Waiting k)"
      using D(3) [OF p] by blast
  next
    fix y k assume "?ph y = Writing k \<or> ?ph y = Waiting k"
    then show "\<exists>it. m_pending_transactions (tun s) k = Some it \<and> pi_owner it = y \<and> (?ph y = Waiting k \<longrightarrow> \<not> pi_resolved it)"
      using D(4) [of y k] it by (cases "y = x") (auto split: if_splits)
  next
    fix y k show "?ph y \<noteq> Stale k" "?ph y \<noteq> Lost" using D(5) [of y k] D(6) [of y] by simp_all
  qed (rule D(1), erule D(2))
  then show ?thesis using it by (simp add: await_response_def)
qed

lemma keys_ok_respond:
  assumes "keys_ok t ph" "m_pending_transactions t key = Some it" "ph (pi_owner it) = Waiting key"
  shows "keys_ok (release_key pushed key t) (resume_owner it key ph)" (is "keys_ok ?t ?ph")
proof -
  note D = keys_okD [OF assms(1)]
  have ph: "?ph = ph(pi_owner it := Returned)" using assms(3) D(3) [OF assms(2)] by (simp add: resume_owner_def)
  have t: "m_pending_transactions ?t = (m_pending_transactions t)(key := None)" "m_next_key ?t = m_next_key t"
    "m_free_keys ?t = (if pushed then key # m_free_keys t else m_free_keys t)"
    by (simp_all add: release_key_def)
  show ?thesis
    unfolding ph
  proof (rule keys_okI, unfold t)
    show "distinct (if pushed then key # m_free_keys t else m_free_keys t)" using D(1) D(2) [of key] assms(2) by auto
  next
    fix k assume "k \<in> set (if pushed then key # m_free_keys t else m_free_keys t)"
    then show "((m_pending_transactions t)(key := None)) k = None \<and> k < m_next_key t"
      using D(2) [of k] D(3) [OF assms(2)] by (auto split: if_splits)
  next
    fix k it' assume "((m_pending_transactions t)(key := None)) k = Some it'"
    then have p: "m_pending_transactions t k = Some it'" "k \<noteq> key" by (auto split: if_splits)
    then show "k < m_next_key t \<and> \<not> pi_abandoned it' \<and>
        (pi_resolved it' \<or> (ph(pi_owner it := Returned)) (pi_owner it') = Writing k \<or> (ph(pi_owner it := Returned)) (pi_owner it') = Waiting k)"
      using D(3) [OF p(1)] assms(3) by auto
  next
    fix y k assume "(ph(pi_owner it := Returned)) y = Writing k \<or> (ph(pi_owner it := Returned)) y = Waiting k"
    then have y: "y \<noteq> pi_owner it" "ph y = Writing k \<or> ph y = Waiting k" by (auto split: if_splits)
    then have "k \<noteq> key" using D(4) [OF y(2)] assms(2) by auto
    then show "\<exists>it'. ((m_pending_transactions t)(key := None)) k = Some it' \<and> pi_owner it' = y \<and>
        ((ph(pi_owner it := Returned)) y = Waiting k \<longrightarrow> \<not> pi_resolved it')"
      using D(4) [OF y(2)] y(1) by auto
  next
    fix y k show "(ph(pi_owner it := Returned)) y \<noteq> Stale k" "(ph(pi_owner it := Returned)) y \<noteq> Lost" using D(5) [of y k] D(6) [of y] by simp_all
  qed
qed

lemma keys_ok_end:
  assumes "keys_ok t ph"
  shows "keys_ok (snd (end_event_loop t)) (abort_phases t ph)" (is "keys_ok ?t ?ph")
proof -
  note D = keys_okD [OF assms]
  have t: "m_pending_transactions ?t k = map_option (\<lambda>it. it\<lparr>pi_resolved := True\<rparr>) (m_pending_transactions t k)"
    "m_next_key ?t = m_next_key t" "m_free_keys ?t = m_free_keys t" for k
    by (simp_all add: end_event_loop_def AbortAll_def)
  have ph: "?ph y = (case ph y of Waiting k \<Rightarrow> Returned | p \<Rightarrow> p)" for y
  proof (cases "ph y")
    case (Waiting k)
    then show ?thesis using D(4) [of y k] D(3) by (auto simp: abort_phases_def)
  qed (simp_all add: abort_phases_def)
  show ?thesis
  proof (rule keys_okI, unfold t)
    fix k it assume "map_option (\<lambda>it. it\<lparr>pi_resolved := True\<rparr>) (m_pending_transactions t k) = Some it"
    then show "k < m_next_key t \<and> \<not> pi_abandoned it \<and> (pi_resolved it \<or> ?ph (pi_owner it) = Writing k \<or> ?ph (pi_owner it) = Waiting k)"
      using D(3) by auto
  next
    fix y k assume "?ph y = Writing k \<or> ?ph y = Waiting k"
    then have "ph y = Writing k" unfolding ph by (cases "ph y") auto
    then show "\<exists>it. map_option (\<lambda>it. it\<lparr>pi_resolved := True\<rparr>) (m_pending_transactions t k) = Some it \<and> pi_owner it = y \<and>
        (?ph y = Waiting k \<longrightarrow> \<not> pi_resolved it)"
      using D(4) [of y k] unfolding ph by auto
  next
    fix y k show "?ph y \<noteq> Stale k" unfolding ph using D(5) [of y k] by (cases "ph y") auto
    show "?ph y \<noteq> Lost" unfolding ph using D(6) [of y] by (cases "ph y") auto
  next
    show "distinct (m_free_keys t)" by (rule D(1))
  next
    fix k assume "k \<in> set (m_free_keys t)"
    then show "map_option (\<lambda>it. it\<lparr>pi_resolved := True\<rparr>) (m_pending_transactions t k) = None \<and> k < m_next_key t" using D(2) [of k] by simp
  qed
qed

lemma keys_ok_run: "tun_run False False r \<Longrightarrow> \<exists>s. r = Some s \<and> keys_ok (tun s) (phases s)"
proof (induction rule: tun_run.induct)
  case (start t mine remote)
  then show ?case by (simp add: keys_ok_def ByteStreamTunnel_def)
next
  case (step s r)
  then have k: "keys_ok (tun s) (phases s)" by simp
  from step(2) show ?case
  proof cases
    case (schedule x emplaced key ok t)
    then show ?thesis using keys_ok_schedule [OF k] by simp
  next
    case (awaits x key)
    then show ?thesis using keys_ok_await [OF k] by blast
  next
    case (destroys x key)
    then show ?thesis using keys_okD(5) [OF k] by blast
  next
    case (responds key it pushed)
    then show ?thesis using keys_ok_respond [OF k] by simp
  next
    case ends
    then show ?thesis using keys_ok_end [OF k] by simp
  qed simp_all
qed


text \<open>Property C10: a response reaches the transaction that sent the request. As long as no write fails and a
  response is handled only after its transaction awaits it, no interleaving of any number of transactions with
  the event loop, and no end of that loop, makes a transaction use an item that is not its own; keys in use and free
  keys are disjoint, and every key in use belongs to the one unfinished transaction that sent it.\<close>

theorem tunnel_keys:
  assumes "tun_run False False r"
  shows "\<exists>s. r = Some s \<and> keys_ok (tun s) (phases s)"
  using keys_ok_run [OF assms] .

definition fresh_sys :: sys where
  "fresh_sys = \<lparr>tun = ByteStreamTunnel\<lparr>m_my_drivers := [], m_remote_drivers := [], m_tunnel_alive := True\<rparr>, phases = (\<lambda>_. Idle)\<rparr>"

lemma fresh_sys_run: "tun_run early may_fail (Some fresh_sys)"
  unfolding fresh_sys_def by (rule tun_run.start) (rule refl)

lemma schedule_run:
  assumes "tun_run early may_fail (Some s)" "phases s x = Idle" "m_free_keys (tun s) \<noteq> [] \<or> m_next_key (tun s) \<noteq> - 1"
    and "ScheduleRemoteTransaction True x (tun s) = (key, True, t)" "s' = s\<lparr>tun := t, phases := (phases s)(x := Writing key)\<rparr>"
  shows "tun_run early may_fail (Some s')"
proof -
  have "tun_step early may_fail s (Some (s\<lparr>tun := t, phases := (phases s)(x := if True then Writing key else Returned)\<rparr>))"
    by (rule tun_step.schedule [OF assms(2,3,4)])
  then show ?thesis using tun_run.step [OF assms(1)] assms(5) by simp
qed

definition first_request :: sys where
  "first_request = fresh_sys\<lparr>tun := snd (snd (ScheduleRemoteTransaction True 0 (tun fresh_sys))), phases := (\<lambda>_. Idle)(0 := Writing 0)\<rparr>"

lemma first_request_run: "tun_run early may_fail (Some first_request)"
  by (rule schedule_run [OF fresh_sys_run, of 0 0]) (auto simp: fresh_sys_def first_request_def ByteStreamTunnel_def ScheduleRemoteTransaction_def)

theorem tunnel_keys_witness:
  "\<exists>s. Some first_request = Some s \<and> keys_ok (tun s) (phases s)"
  using tunnel_keys [OF first_request_run] .

text \<open>A defect. Without these two conditions transactions do go wrong. A response that is handled before the
  sending coroutine awaits it erases the item that the coroutine then awaits. And a transaction whose
  write failed gives its key back while it still holds the item: when it is destroyed it marks the item of
  the next transaction with that key as abandoned, and the response to that transaction is lost.\<close>

theorem tunnel_races:
  "tun_run True False None \<and> (\<exists>s. tun_run False True (Some s) \<and> phases s 1 = Lost)"
proof
  have p: "m_pending_transactions (tun first_request) 0 = Some \<lparr>pi_owner = 0, pi_resolved = False, pi_abandoned = False\<rparr>"
    "m_tunnel_alive (tun first_request)" "phases first_request = (\<lambda>_. Idle)(0 := Writing 0)"
    by (simp_all add: first_request_def fresh_sys_def ByteStreamTunnel_def ScheduleRemoteTransaction_def)
  define s1 where "s1 = first_request\<lparr>tun := release_key True 0 (tun first_request), phases := (\<lambda>_. Idle)(0 := Writing 0)\<rparr>"
  have "tun_step True False first_request (Some s1)"
    using tun_step.responds [OF p(2,1), of True False True] p(3) by (simp add: s1_def resume_owner_def)
  then have r1: "tun_run True False (Some s1)" using tun_run.step [OF first_request_run] by blast
  have "tun_step True False s1 (await_response 0 0 s1)" by (rule tun_step.awaits) (simp add: s1_def)
  moreover have "await_response 0 0 s1 = None" by (simp add: await_response_def s1_def release_key_def)
  ultimately show "tun_run True False None" using tun_run.step [OF r1] by simp
next
  have p: "m_pending_transactions (tun first_request) 0 = Some \<lparr>pi_owner = 0, pi_resolved = False, pi_abandoned = False\<rparr>"
    "m_tunnel_alive (tun first_request)" "phases first_request = (\<lambda>_. Idle)(0 := Writing 0)" "m_free_keys (tun first_request) = []"
    by (simp_all add: first_request_def fresh_sys_def ByteStreamTunnel_def ScheduleRemoteTransaction_def)
  define t1 where "t1 = release_key True 0 (tun first_request)"
  define s1 where "s1 = first_request\<lparr>tun := t1, phases := (\<lambda>_. Idle)(0 := Stale 0)\<rparr>"
  have "tun_step False True first_request (Some s1)"
    using tun_step.write_fails [of True first_request 0 0 False True] p(3) by (simp add: s1_def t1_def)
  then have r1: "tun_run False True (Some s1)" using tun_run.step [OF first_request_run] by blast
  define it :: pending_item where "it = \<lparr>pi_owner = 1, pi_resolved = False, pi_abandoned = False\<rparr>"
  define t2 where "t2 = t1\<lparr>m_free_keys := [], m_pending_transactions := (m_pending_transactions t1)(0 \<mapsto> it)\<rparr>"
  define s2 where "s2 = s1\<lparr>tun := t2, phases := (\<lambda>_. Idle)(0 := Stale 0, 1 := Writing 0)\<rparr>"
  have free: "m_free_keys t1 = [0]" using p(4) by (simp add: t1_def release_key_def)
  have r2: "tun_run False True (Some s2)"
    by (rule schedule_run [OF r1, of 1 0 t2]) (simp_all add: s1_def s2_def t2_def it_def free ScheduleRemoteTransaction_def)
  define s3 where "s3 = s2\<lparr>phases := (\<lambda>_. Idle)(0 := Stale 0, 1 := Waiting 0)\<rparr>"
  have "tun_step False True s2 (await_response 1 0 s2)" by (rule tun_step.awaits) (simp add: s2_def)
  moreover have "await_response 1 0 s2 = Some s3" by (simp add: await_response_def s2_def s3_def t2_def it_def)
  ultimately have r3: "tun_run False True (Some s3)" using tun_run.step [OF r2] by simp
  define t4 where "t4 = set_item 0 (it\<lparr>pi_abandoned := True\<rparr>) t2"
  define s4 where "s4 = s3\<lparr>tun := t4, phases := (\<lambda>_. Idle)(0 := Returned, 1 := Waiting 0)\<rparr>"
  have "tun_step False True s3 (destroy_stale 0 0 s3)" by (rule tun_step.destroys) (simp add: s3_def)
  moreover have "destroy_stale 0 0 s3 = Some s4"
    by (auto simp: destroy_stale_def s2_def s3_def s4_def t2_def t4_def fun_eq_iff)
  ultimately have r4: "tun_run False True (Some s4)" using tun_run.step [OF r3] by simp
  have "m_tunnel_alive (tun s4)" "m_pending_transactions (tun s4) 0 = Some (it\<lparr>pi_abandoned := True\<rparr>)"
    "phases s4 (pi_owner (it\<lparr>pi_abandoned := True\<rparr>)) = Waiting 0"
    using p(2) by (simp_all add: s4_def t4_def set_item_def t2_def t1_def release_key_def it_def)
  then have "tun_step False True s4 (Some (s4\<lparr>tun := release_key True 0 (tun s4), phases := resume_owner (it\<lparr>pi_abandoned := True\<rparr>) 0 (phases s4)\<rparr>))"
    (is "tun_step _ _ _ (Some ?s5)")
    by (blast intro: tun_step.responds)
  then have "tun_run False True (Some ?s5)" by (rule tun_run.step [OF r4])
  moreover have "phases ?s5 1 = Lost" by (simp add: resume_owner_def s4_def it_def)
  ultimately show "\<exists>s. tun_run False True (Some s) \<and> phases s 1 = Lost" by blast
qed

text \<open>A defect. \<open>Execute\<close> does not ask whether the tunnel is alive: a transaction that awaits its response
  when the event loop has ended awaits it for ever, whatever else happens.\<close>

theorem dead_tunnel_never_answers:
  assumes "(\<lambda>a b. tun_step early may_fail a (Some b))\<^sup>*\<^sup>* s s'" "\<not> m_tunnel_alive (tun s)" "phases s x = Waiting key"
  shows "phases s' x = Waiting key"
proof -
  have keep: "\<not> m_tunnel_alive (tun b) \<and> phases b x = Waiting key"
    if "tun_step early may_fail a (Some b)" "\<not> m_tunnel_alive (tun a) \<and> phases a x = Waiting key" for a b
    using that(1)
  proof cases
    case (schedule y emplaced k ok t)
    have "m_tunnel_alive t = m_tunnel_alive (tun a)"
      using schedule(4) by (auto simp: ScheduleRemoteTransaction_def split: list.splits if_splits)
    then show ?thesis using schedule that(2) by auto
  next
    case (awaits y k)
    then show ?thesis using that(2) by (auto simp: await_response_def split: if_splits Option.bind_splits)
  next
    case (destroys y k)
    then show ?thesis using that(2) by (auto simp: destroy_stale_def set_item_def split: Option.bind_splits)
  qed (use that(2) in \<open>auto simp: release_key_def\<close>)
  have "\<not> m_tunnel_alive (tun s') \<and> phases s' x = Waiting key"
    using assms(1)
  proof (induction rule: rtranclp_induct)
    case base
    then show ?case using assms(2,3) by simp
  next
    case (step b c)
    then show ?case using keep by blast
  qed
  then show ?thesis by simp
qed

theorem dead_tunnel_never_answers_witness:
  "\<exists>s'. tun_step True True \<lparr>tun = ByteStreamTunnel, phases = (\<lambda>_. Idle)(3 := Waiting 0)\<rparr> (Some s') \<and>
     phases s' 4 = Writing 0 \<and> phases s' 3 = Waiting 0"
proof -
  let ?s = "\<lparr>tun = ByteStreamTunnel, phases = (\<lambda>_. Idle)(3 := Waiting 0)\<rparr>"
  obtain t where "ScheduleRemoteTransaction True 4 (tun ?s) = (0, True, t)"
    by (simp add: ScheduleRemoteTransaction_def ByteStreamTunnel_def)
  then have step: "tun_step True True ?s (Some (?s\<lparr>tun := t, phases := (phases ?s)(4 := if True then Writing 0 else Returned)\<rparr>))"
    (is "tun_step _ _ _ (Some ?s')")
    by (intro tun_step.schedule) (simp_all add: ByteStreamTunnel_def)
  moreover have "phases ?s' 3 = Waiting 0"
    by (rule dead_tunnel_never_answers [of True True ?s ?s' 3 0, OF r_into_rtranclp [of "\<lambda>a b. tun_step True True a (Some b)", OF step]])
      (simp_all add: ByteStreamTunnel_def)
  moreover have "phases ?s' 4 = Writing 0" by simp
  ultimately show ?thesis by blast
qed

end
