(* ===== verification/Api_Transaction.thy ===== *)
theory Api_Transaction
  imports Transaction_Access "HOL-Library.Multiset"
begin

text \<open>
  The transactions of the C++ and SWIG interface (\<open>api/Common.h\<close>, \<open>TRANSACTION_BODY\<close> and \<open>DRIVER_BODY\<close>) and the guard
  that keeps the names their callers gave them (\<open>api/Context.h\<close>, \<open>TransactionNameGuard\<close>).

  A name is copied into a slot of a vector of strings; the transaction has the index of the slot and a view of the
  characters. A string keeps short texts inside itself and long ones on the heap, and the vector moves its
  strings to another block when it grows: \<open>string_impl\<close> has the three numbers that the standard library chooses. The
  coroutine \<open>TransactionNameGuard::Schedule\<close> is a frame: it runs until the driver has a result, then it gives the slot back.
  \<open>None\<close> is undefined behaviour, or a call that does not return.
\<close>

subsection \<open>The names\<close>

record string_impl =
  inline_capacity :: nat
  grow_string :: "nat \<Rightarrow> nat"
  grow_vector :: "nat \<Rightarrow> nat"

text \<open>Where the characters of a string are: in a block of the vector, at an index, or in an allocation of their own.\<close>

datatype place = Inline nat nat | Heap nat

type_synonym view = "place \<times> nat"

record name_slot =
  slot_text :: string
  slot_capacity :: nat
  slot_place :: place

record name_guard =
  m_slots :: "name_slot list"
  slots_capacity :: nat
  slots_block :: nat
  next_heap :: nat
  m_free_slots :: "nat list"

definition new_guard :: name_guard where
  "new_guard = \<lparr>m_slots = [], slots_capacity = 0, slots_block = 0, next_heap = 0, m_free_slots = []\<rparr>"

definition make_string :: "string_impl \<Rightarrow> string \<Rightarrow> place \<Rightarrow> nat \<Rightarrow> name_slot" where
  "make_string impl name inside heap =
     (if length name \<le> inline_capacity impl
      then \<lparr>slot_text = name, slot_capacity = inline_capacity impl, slot_place = inside\<rparr>
      else \<lparr>slot_text = name, slot_capacity = length name, slot_place = Heap heap\<rparr>)"

definition assign_string :: "string_impl \<Rightarrow> string \<Rightarrow> nat \<Rightarrow> name_slot \<Rightarrow> name_slot" where
  "assign_string impl name heap sl =
     (if length name \<le> slot_capacity sl then sl\<lparr>slot_text := name\<rparr>
      else \<lparr>slot_text = name, slot_capacity = max (length name) (grow_string impl (slot_capacity sl)), slot_place = Heap heap\<rparr>)"

definition relocate :: "nat \<Rightarrow> name_slot \<Rightarrow> name_slot" where
  "relocate block sl = (case slot_place sl of Inline b i \<Rightarrow> sl\<lparr>slot_place := Inline block i\<rparr> | Heap h \<Rightarrow> sl)"

definition reserve_one :: "string_impl \<Rightarrow> name_guard \<Rightarrow> name_guard" where
  "reserve_one impl g =
     (if length (m_slots g) < slots_capacity g then g
      else g\<lparr>m_slots := map (relocate (Suc (slots_block g))) (m_slots g),
             slots_capacity := max (Suc (length (m_slots g))) (grow_vector impl (slots_capacity g)),
             slots_block := Suc (slots_block g)\<rparr>)"

definition view_of :: "name_slot \<Rightarrow> view" where
  "view_of sl = (slot_place sl, length (slot_text sl))"

definition AllocateName :: "string_impl \<Rightarrow> string \<Rightarrow> name_guard \<Rightarrow> nat \<times> view \<times> name_guard" where
  "AllocateName impl name g =
     (if m_free_slots g \<noteq> []
      then let slot = last (m_free_slots g); buffer = assign_string impl name (next_heap g) (m_slots g ! slot) in
           (slot, view_of buffer,
            g\<lparr>m_free_slots := butlast (m_free_slots g), m_slots := (m_slots g)[slot := buffer], next_heap := Suc (next_heap g)\<rparr>)
      else let slot = length (m_slots g); g1 = reserve_one impl g;
               emplaced = make_string impl name (Inline (slots_block g1) slot) (next_heap g1) in
           (slot, view_of emplaced, g1\<lparr>m_slots := m_slots g1 @ [emplaced], next_heap := Suc (next_heap g1)\<rparr>))"

definition ReleaseName :: "nat \<Rightarrow> name_guard \<Rightarrow> name_guard" where
  "ReleaseName slot g = g\<lparr>m_free_slots := m_free_slots g @ [slot]\<rparr>"

text \<open>What a view shows: the characters at its place, if they are still there.\<close>

definition view_text :: "name_guard \<Rightarrow> view \<Rightarrow> string option" where
  "view_text g v = map_option (\<lambda>sl. take (snd v) (slot_text sl)) (find (\<lambda>sl. slot_place sl = fst v) (m_slots g))"

subsection \<open>The guard's coroutine\<close>

record 'o guard_frame =
  f_cookie :: nat
  f_view :: view
  f_builder :: "'o builder"
  f_result :: "'o status option"

record 'o api =
  guard :: name_guard
  frames :: "'o guard_frame list"

definition FinishFrame :: "nat \<Rightarrow> 'o status \<Rightarrow> 'o api \<Rightarrow> 'o api" where
  "FinishFrame task s a =
     (if task < length (frames a) \<and> f_result (frames a ! task) = None
      then a\<lparr>frames := (frames a)[task := (frames a ! task)\<lparr>f_result := Some s\<rparr>],
             guard := ReleaseName (f_cookie (frames a ! task)) (guard a)\<rparr>
      else a)"

text \<open>\<open>frame\<close>: whether memory for the frame is found; \<open>resolved\<close>: the result when the driver has it before it suspends.\<close>

definition GuardSchedule ::
  "bool \<Rightarrow> ('o builder \<Rightarrow> 'o status option) \<Rightarrow> nat \<Rightarrow> view \<Rightarrow> 'o builder \<Rightarrow> 'o api \<Rightarrow> nat option \<times> 'o api"
where
  "GuardSchedule frame resolved cookie v b a =
     (if \<not> frame then (None, a)
      else let task = length (frames a);
               a1 = a\<lparr>frames := frames a @ [\<lparr>f_cookie = cookie, f_view = v, f_builder = b, f_result = None\<rparr>]\<rparr>
           in (Some task, case resolved b of None \<Rightarrow> a1 | Some s \<Rightarrow> FinishFrame task s a1))"

subsection \<open>The transaction\<close>

text \<open>\<open>tx_context\<close>: whether the pointers to context and driver are set. \<open>tx_view\<close> is the view that the builder has as its
  description. A task without a frame is \<open>Some None\<close>.\<close>

record 'o api_tx =
  tx_context :: bool
  m_name_cookie :: nat
  tx_view :: view
  m_error_message :: string
  m_builder :: "'o builder option"
  m_task :: "nat option option"
  m_iterator :: "nat option"

definition empty_tx :: "'o api_tx" where
  "empty_tx = \<lparr>tx_context = False, m_name_cookie = 0, tx_view = (Heap 0, 0), m_error_message = [],
     m_builder = None, m_task = None, m_iterator = None\<rparr>"

definition task_result :: "'o api \<Rightarrow> nat \<Rightarrow> 'o status option" where
  "task_result a task = f_result (frames a ! task)"

definition TxAdd :: "bool \<Rightarrow> bool \<Rightarrow> action \<Rightarrow> 'o \<Rightarrow> 'o api_tx \<Rightarrow> 'o api_tx" where
  "TxAdd in_allocated out_allocated act out tx =
     (case m_builder tx of None \<Rightarrow> tx | Some b \<Rightarrow> tx\<lparr>m_builder := Some (snd (Add in_allocated out_allocated act out b))\<rparr>)"

definition TxSchedule :: "bool \<Rightarrow> ('o builder \<Rightarrow> 'o status option) \<Rightarrow> 'o api \<Rightarrow> 'o api_tx \<Rightarrow> bool \<times> 'o api \<times> 'o api_tx" where
  "TxSchedule frame resolved a tx =
     (case m_builder tx of
        None \<Rightarrow> (False, a, tx)
      | Some b \<Rightarrow>
          (case GuardSchedule frame resolved (m_name_cookie tx) (tx_view tx) b a of
             (task, a) \<Rightarrow> (True, a, tx\<lparr>m_task := Some task, m_builder := None\<rparr>)))"

definition TxDone :: "'o api \<Rightarrow> 'o api_tx \<Rightarrow> bool" where
  "TxDone a tx = (case m_task tx of Some (Some task) \<Rightarrow> task_result a task \<noteq> None | _ \<Rightarrow> True)"

text \<open>\<open>**m_task\<close> reads the result of the coroutine, which is not there before it has one.\<close>

definition TxSuccess :: "'o api \<Rightarrow> 'o api_tx \<Rightarrow> bool option" where
  "TxSuccess a tx = (case m_task tx of Some (Some task) \<Rightarrow> map_option status_ok (task_result a task) | _ \<Rightarrow> Some False)"

definition TxFail :: "'o api \<Rightarrow> 'o api_tx \<Rightarrow> bool option" where
  "TxFail a tx = map_option Not (TxSuccess a tx)"

definition finished :: "'o api \<Rightarrow> 'o api_tx \<Rightarrow> 'o status option" where
  "finished a tx = (case m_task tx of Some (Some task) \<Rightarrow> task_result a task | _ \<Rightarrow> None)"

definition ActionSuccess :: "'o api \<Rightarrow> 'o api_tx \<Rightarrow> bool \<times> 'o api_tx" where
  "ActionSuccess a tx =
     (case finished a tx of
        None \<Rightarrow> (False, tx)
      | Some s \<Rightarrow> let it = (case m_iterator tx of None \<Rightarrow> 0 | Some i \<Rightarrow> i) in
          (it \<noteq> m_first_incomplete s, tx\<lparr>m_iterator := Some it\<rparr>))"

definition ActionFail :: "'o api \<Rightarrow> 'o api_tx \<Rightarrow> bool \<times> 'o api_tx" where
  "ActionFail a tx = (case ActionSuccess a tx of (ok, tx) \<Rightarrow> (\<not> ok, tx))"

definition ErrorMessage :: "(int \<Rightarrow> string) \<Rightarrow> 'o api \<Rightarrow> 'o api_tx \<Rightarrow> (string \<times> 'o api_tx) option" where
  "ErrorMessage strerror a tx =
     (case m_task tx of
        None \<Rightarrow> Some (''Not scheduled'', tx)
      | Some None \<Rightarrow> Some (''Failed to schedule due to allocation failure'', tx)
      | Some (Some task) \<Rightarrow>
          do { s \<leftarrow> task_result a task;
               case m_error s of
                 None \<Rightarrow> do { ok \<leftarrow> TxSuccess a tx; Some (if ok then '''' else ''Unknown or corrupted error'', tx) }
               | Some e \<Rightarrow> do { t \<leftarrow> format_action_error strerror e; Some (t, tx\<lparr>m_error_message := t\<rparr>) } })"

text \<open>\<open>Join\<close> blocks until the task is done; \<open>events\<close> are the coroutines that finish in the meantime, in order.\<close>

fun join_loop :: "nat \<Rightarrow> (nat \<times> 'o status) list \<Rightarrow> 'o api \<Rightarrow> 'o api option" where
  "join_loop task events a =
     (if task_result a task \<noteq> None then Some a
      else case events of [] \<Rightarrow> None | (other, s) # rest \<Rightarrow> join_loop task rest (FinishFrame other s a))"

declare join_loop.simps [simp del]

definition TxJoin :: "(nat \<times> 'o status) list \<Rightarrow> 'o api \<Rightarrow> 'o api_tx \<Rightarrow> 'o api option" where
  "TxJoin events a tx = (case m_task tx of Some (Some task) \<Rightarrow> join_loop task events a | _ \<Rightarrow> Some a)"

definition TxDo ::
  "bool \<Rightarrow> ('o builder \<Rightarrow> 'o status option) \<Rightarrow> (nat \<times> 'o status) list \<Rightarrow> 'o api \<Rightarrow> 'o api_tx \<Rightarrow> ('o api \<times> 'o api_tx) option"
where
  "TxDo frame resolved events a tx =
     (case TxSchedule frame resolved a tx of (_, a, tx) \<Rightarrow> map_option (\<lambda>a. (a, tx)) (TxJoin events a tx))"

definition TxNext :: "'o api \<Rightarrow> 'o api_tx \<Rightarrow> 'o api_tx" where
  "TxNext a tx =
     (case ActionFail a tx of (fail, tx) \<Rightarrow>
        if fail then tx
        else (case (finished a tx, m_iterator tx) of
                (Some s, Some i) \<Rightarrow> tx\<lparr>m_iterator := Some (next_position s i)\<rparr>
              | _ \<Rightarrow> tx))"

fun NextN :: "nat \<Rightarrow> 'o api \<Rightarrow> 'o api_tx \<Rightarrow> 'o api_tx" where
  "NextN 0 a tx = tx"
| "NextN (Suc num) a tx = NextN num a (TxNext a tx)"

text \<open>What the getters of the transactions start with: \<open>*m_iterator\<close>, unless there is no complete action there.\<close>

definition Current :: "'o api \<Rightarrow> 'o api_tx \<Rightarrow> 'o variant option \<times> 'o api_tx" where
  "Current a tx =
     (case ActionFail a tx of (fail, tx) \<Rightarrow>
        (if fail then None
         else case (finished a tx, m_iterator tx) of (Some s, Some i) \<Rightarrow> Some (variant_at s i) | _ \<Rightarrow> None, tx))"

definition CurrentOut :: "action_kind \<Rightarrow> 'o api \<Rightarrow> 'o api_tx \<Rightarrow> 'o option \<times> 'o api_tx" where
  "CurrentOut k a tx = (case Current a tx of (v, tx) \<Rightarrow> (Option.bind v (OutAs k), tx))"

text \<open>The name is a pointer: \<open>None\<close> is null.\<close>

definition Reuse :: "string_impl \<Rightarrow> string \<Rightarrow> string option \<Rightarrow> 'o api \<Rightarrow> 'o api_tx \<Rightarrow> ('o api \<times> 'o api_tx) option" where
  "Reuse impl driver_name name a tx =
     do { assert_that (tx_context tx);
          n \<leftarrow> name;
          (case AllocateName impl n (guard a) of (new_cookie, persistent_name, g) \<Rightarrow>
             Some (a\<lparr>guard := g\<rparr>,
               tx\<lparr>m_iterator := None, m_name_cookie := new_cookie, tx_view := persistent_name,
                  m_builder := Some (Initiate driver_name n None
                    (case finished a tx of None \<Rightarrow> False | Some s \<Rightarrow> s_allocation_failure s)),
                  m_task := None\<rparr>)) }"

text \<open>\<open>Initiate\<close> of a driver of the interface; \<open>valid\<close>: its pointer is set.\<close>

definition DriverInitiate :: "string_impl \<Rightarrow> bool \<Rightarrow> string \<Rightarrow> string option \<Rightarrow> 'o api \<Rightarrow> 'o api \<times> 'o api_tx" where
  "DriverInitiate impl valid driver_name name a =
     (case name of
        None \<Rightarrow> (a, empty_tx)
      | Some n \<Rightarrow>
          if \<not> valid then (a, empty_tx)
          else (case AllocateName impl n (guard a) of (name_cookie, persistent_name, g) \<Rightarrow>
                  (a\<lparr>guard := g\<rparr>,
                   \<lparr>tx_context = True, m_name_cookie = name_cookie, tx_view = persistent_name, m_error_message = [],
                    m_builder = Some (Initiate driver_name n None False), m_task = None, m_iterator = None\<rparr>)))"

subsection \<open>Several transactions\<close>

text \<open>What the clients of one context do, and what the drivers finish. A transaction that is destroyed keeps its index.\<close>

datatype 'o call =
    CInitiate bool "string option"
  | CAdd nat bool bool action 'o
  | CSchedule nat bool
  | CReuse nat "string option"
  | CNext nat
  | CFinish nat "'o status"
  | CDestroy nat

type_synonym 'o clients = "'o api \<times> 'o api_tx list"

fun perform ::
  "string_impl \<Rightarrow> string \<Rightarrow> ('o builder \<Rightarrow> 'o status option) \<Rightarrow> 'o call \<Rightarrow> 'o clients \<Rightarrow> 'o clients option"
where
  "perform impl driver resolved (CInitiate valid name) (a, txs) =
     (case DriverInitiate impl valid driver name a of (a, tx) \<Rightarrow> Some (a, txs @ [tx]))"
| "perform impl driver resolved (CAdd i in_allocated out_allocated act out) (a, txs) =
     do { assert_that (i < length txs); Some (a, txs[i := TxAdd in_allocated out_allocated act out (txs ! i)]) }"
| "perform impl driver resolved (CSchedule i frame) (a, txs) =
     do { assert_that (i < length txs);
          case TxSchedule frame resolved a (txs ! i) of (_, a, tx) \<Rightarrow> Some (a, txs[i := tx]) }"
| "perform impl driver resolved (CReuse i name) (a, txs) =
     do { assert_that (i < length txs); (a, tx) \<leftarrow> Reuse impl driver name a (txs ! i); Some (a, txs[i := tx]) }"
| "perform impl driver resolved (CNext i) (a, txs) =
     do { assert_that (i < length txs); Some (a, txs[i := TxNext a (txs ! i)]) }"
| "perform impl driver resolved (CFinish task s) (a, txs) = Some (FinishFrame task s a, txs)"
| "perform impl driver resolved (CDestroy i) (a, txs) =
     do { assert_that (i < length txs); Some (a, txs[i := empty_tx]) }"

fun perform_all ::
  "string_impl \<Rightarrow> string \<Rightarrow> ('o builder \<Rightarrow> 'o status option) \<Rightarrow> 'o call list \<Rightarrow> 'o clients \<Rightarrow> 'o clients option"
where
  "perform_all impl driver resolved [] st = Some st"
| "perform_all impl driver resolved (c # cs) st = do { st \<leftarrow> perform impl driver resolved c st; perform_all impl driver resolved cs st }"

definition no_clients :: "'o clients" where
  "no_clients = (\<lparr>guard = new_guard, frames = []\<rparr>, [])"


subsection \<open>Every name has one holder\<close>

definition description :: "'o builder \<Rightarrow> string" where
  "description b = snd (hd (dep_chain (b_dependent b)))"

text \<open>The strings of the guard are at different places, those inside the vector in its present block.\<close>

definition guard_ok :: "name_guard \<Rightarrow> bool" where
  "guard_ok g \<longleftrightarrow>
     distinct (map slot_place (m_slots g)) \<and>
     (\<forall>i < length (m_slots g). case slot_place (m_slots g ! i) of Inline b j \<Rightarrow> b = slots_block g \<and> j = i | Heap h \<Rightarrow> h < next_heap g)"

text \<open>A slot has a name, and a view of the name is at its characters or in a former block of the vector.\<close>

definition stale :: "name_guard \<Rightarrow> place \<Rightarrow> bool" where
  "stale g p = (case p of Inline b i \<Rightarrow> b < slots_block g | Heap h \<Rightarrow> False)"

definition slot_ok :: "name_guard \<Rightarrow> nat \<Rightarrow> view \<Rightarrow> string \<Rightarrow> bool" where
  "slot_ok g c v name \<longleftrightarrow>
     c < length (m_slots g) \<and> slot_text (m_slots g ! c) = name \<and> snd v = length name \<and>
     (fst v = slot_place (m_slots g ! c) \<or> stale g (fst v))"

lemma view_text_slot:
  assumes "guard_ok g" "slot_ok g c v name"
  shows "view_text g v = (if stale g (fst v) then None else Some name)"
proof -
  have c: "c < length (m_slots g)" and sl: "slot_text (m_slots g ! c) = name" "snd v = length name"
    and p: "fst v = slot_place (m_slots g ! c) \<or> stale g (fst v)" using assms(2) by (auto simp: slot_ok_def)
  have present: "\<not> stale g (slot_place sl)" if "sl \<in> set (m_slots g)" for sl
  proof -
    obtain i where i: "i < length (m_slots g)" "sl = m_slots g ! i" using \<open>sl \<in> set (m_slots g)\<close> by (auto simp: in_set_conv_nth)
    then show ?thesis using assms(1) by (auto simp: guard_ok_def stale_def split: place.splits)
  qed
  show ?thesis
  proof (cases "stale g (fst v)")
    case True
    have "\<not> (\<exists>sl. sl \<in> set (m_slots g) \<and> slot_place sl = fst v)"
    proof
      assume "\<exists>sl. sl \<in> set (m_slots g) \<and> slot_place sl = fst v"
      then obtain sl where "sl \<in> set (m_slots g)" "slot_place sl = fst v" by blast
      then show False using present [of sl] True by simp
    qed
    then have "find (\<lambda>sl. slot_place sl = fst v) (m_slots g) = None" by (simp add: find_None_iff)
    then show ?thesis using True by (simp add: view_text_def)
  next
    case False
    then have v: "fst v = slot_place (m_slots g ! c)" using p by simp
    have inj: "j = c" if "j < length (m_slots g)" "slot_place (m_slots g ! j) = slot_place (m_slots g ! c)" for j
      using assms(1) that c by (auto simp: guard_ok_def distinct_conv_nth)
    have "slot_place (m_slots g ! j) \<noteq> fst v" if "j < c" for j using inj [of j] c v that by auto
    then have "find (\<lambda>sl. slot_place sl = fst v) (m_slots g) = Some (m_slots g ! c)"
      unfolding find_Some_iff using c v by (intro exI [of _ c]) simp
    then show ?thesis using False sl by (simp add: view_text_def)
  qed
qed

text \<open>Growing the vector moves the strings that are inside it.\<close>

definition moved :: "nat \<Rightarrow> place \<Rightarrow> place" where
  "moved block p = (case p of Inline b i \<Rightarrow> Inline block i | Heap h \<Rightarrow> Heap h)"

lemma relocate_simps [simp]:
  "slot_place (relocate block sl) = moved block (slot_place sl)" "slot_text (relocate block sl) = slot_text sl"
  by (simp_all add: relocate_def moved_def split: place.splits)

lemma guard_ok_place:
  "guard_ok g \<Longrightarrow> i < length (m_slots g) \<Longrightarrow> slot_place (m_slots g ! i) = Inline b j \<Longrightarrow> b = slots_block g \<and> j = i"
  "guard_ok g \<Longrightarrow> i < length (m_slots g) \<Longrightarrow> slot_place (m_slots g ! i) = Heap h \<Longrightarrow> h < next_heap g"
  by (fastforce simp: guard_ok_def)+

lemma moved_inj:
  assumes "guard_ok g" "i < length (m_slots g)" "j < length (m_slots g)"
    and "moved block (slot_place (m_slots g ! i)) = moved block (slot_place (m_slots g ! j))"
  shows "i = j"
proof (cases "slot_place (m_slots g ! i)")
  case (Inline b k)
  then obtain b' where "slot_place (m_slots g ! j) = Inline b' k" using assms(4) by (auto simp: moved_def split: place.splits)
  then show ?thesis using guard_ok_place(1) [OF assms(1)] assms(2,3) Inline by metis
next
  case (Heap h)
  then have "slot_place (m_slots g ! j) = slot_place (m_slots g ! i)" using assms(4) by (auto simp: moved_def split: place.splits)
  then show ?thesis using assms(1-3) by (auto simp: guard_ok_def distinct_conv_nth)
qed

lemma reserve_one_simps [simp]:
  "length (m_slots (reserve_one impl g)) = length (m_slots g)"
  "m_free_slots (reserve_one impl g) = m_free_slots g" "next_heap (reserve_one impl g) = next_heap g"
  by (simp_all add: reserve_one_def)

lemma reserve_one_ok:
  assumes "guard_ok g"
  shows "guard_ok (reserve_one impl g)"
proof (cases "length (m_slots g) < slots_capacity g")
  case False
  have "distinct (map slot_place (m_slots (reserve_one impl g)))"
    using moved_inj [OF assms] False by (auto simp: reserve_one_def distinct_conv_nth)
  moreover have "case slot_place (m_slots (reserve_one impl g) ! i) of
      Inline b j \<Rightarrow> b = slots_block (reserve_one impl g) \<and> j = i | Heap h \<Rightarrow> h < next_heap (reserve_one impl g)"
    if "i < length (m_slots (reserve_one impl g))" for i
    using guard_ok_place [OF assms, of i] that False
    by (cases "slot_place (m_slots g ! i)") (auto simp: reserve_one_def moved_def)
  ultimately show ?thesis by (simp add: guard_ok_def)
qed (use assms in \<open>simp add: reserve_one_def\<close>)

lemma reserve_one_slot:
  assumes "guard_ok g" "slot_ok g c v name"
  shows "slot_ok (reserve_one impl g) c v name"
proof -
  have c: "c < length (m_slots g)" using assms(2) by (simp add: slot_ok_def)
  show ?thesis
    using assms(2) guard_ok_place [OF assms(1) c]
    by (cases "slot_place (m_slots g ! c)"; cases "fst v") (auto simp: slot_ok_def reserve_one_def stale_def moved_def)
qed

text \<open>A free slot, or a new one, has the name; the others keep theirs.\<close>

lemma AllocateName_ok:
  assumes "guard_ok g" "set (m_free_slots g) \<subseteq> {..<length (m_slots g)}" "AllocateName impl name g = (c, v, g')"
  shows "guard_ok g'" "slot_ok g' c v name" "length (m_slots g) \<le> length (m_slots g')"
    "mset (m_free_slots g) + mset [length (m_slots g)..<length (m_slots g')] = add_mset c (mset (m_free_slots g'))"
    "slot_ok g c' v' name' \<Longrightarrow> c' \<noteq> c \<Longrightarrow> slot_ok g' c' v' name'"
proof -
  have "guard_ok g' \<and> slot_ok g' c v name \<and> length (m_slots g) \<le> length (m_slots g') \<and>
    mset (m_free_slots g) + mset [length (m_slots g)..<length (m_slots g')] = add_mset c (mset (m_free_slots g')) \<and>
    (slot_ok g c' v' name' \<longrightarrow> c' \<noteq> c \<longrightarrow> slot_ok g' c' v' name')"
  proof (cases "m_free_slots g = []")
    case True
    let ?r = "reserve_one impl g"
    let ?e = "make_string impl name (Inline (slots_block ?r) c) (next_heap ?r)"
    have r: "guard_ok ?r" "slot_ok g c' v' name' \<longrightarrow> slot_ok ?r c' v' name'"
      using reserve_one_ok reserve_one_slot assms(1) by blast+
    have g': "c = length (m_slots ?r)" "v = view_of ?e" "g' = ?r\<lparr>m_slots := m_slots ?r @ [?e], next_heap := Suc (next_heap ?r)\<rparr>"
      using assms(3) True by (auto simp: AllocateName_def Let_def)
    have e: "slot_text ?e = name" "slot_place ?e = (if length name \<le> inline_capacity impl then Inline (slots_block ?r) c else Heap (next_heap ?r))"
      by (simp_all add: make_string_def)
    have new: "slot_place ?e \<noteq> slot_place (m_slots ?r ! i)" if "i < length (m_slots ?r)" for i
      using guard_ok_place [OF r(1) that] that e(2) g'(1) by (metis less_irrefl)
    have "slot_place ?e \<notin> slot_place ` set (m_slots ?r)"
    proof
      assume "slot_place ?e \<in> slot_place ` set (m_slots ?r)"
      then obtain i where "i < length (m_slots ?r)" "slot_place ?e = slot_place (m_slots ?r ! i)" by (auto simp: in_set_conv_nth)
      then show False using new by blast
    qed
    then have "distinct (map slot_place (m_slots g'))" using r(1) by (simp add: g'(3) guard_ok_def)
    moreover have "case slot_place (m_slots g' ! i) of Inline b j \<Rightarrow> b = slots_block g' \<and> j = i | Heap h \<Rightarrow> h < next_heap g'"
      if "i < length (m_slots g')" for i
      using guard_ok_place [OF r(1), of i] that e(2) g'(1)
      by (cases "slot_place (m_slots ?r ! i)") (auto simp: g'(3) nth_append less_Suc_eq split: place.splits if_splits)
    ultimately have "guard_ok g'" by (simp add: guard_ok_def)
    moreover have "slot_ok g' c' v' name'" if "slot_ok g c' v' name'"
    proof -
      have "stale g' p = stale ?r p" for p by (cases p) (simp_all add: stale_def g'(3))
      then show ?thesis using r(2) that by (auto simp: slot_ok_def nth_append g'(3))
    qed
    moreover have "slot_ok g' c v name" using e(1) g'(1,2) by (simp add: slot_ok_def view_of_def g'(3) nth_append)
    ultimately show ?thesis using True g'(1) by (simp add: g'(3))
  next
    case False
    let ?b = "assign_string impl name (next_heap g) (m_slots g ! c)"
    have g': "c = last (m_free_slots g)" "v = view_of ?b"
      "g' = g\<lparr>m_free_slots := butlast (m_free_slots g), m_slots := (m_slots g)[c := ?b], next_heap := Suc (next_heap g)\<rparr>"
      using assms(3) False by (auto simp: AllocateName_def Let_def)
    have c: "c < length (m_slots g)" using assms(2) False g'(1) by (metis last_in_set lessThan_iff subsetD)
    have b: "slot_text ?b = name" "slot_place ?b = slot_place (m_slots g ! c) \<or> slot_place ?b = Heap (next_heap g)"
      by (simp_all add: assign_string_def)
    have other: "slot_place ?b \<noteq> slot_place (m_slots g ! i)" if "i < length (m_slots g)" "i \<noteq> c" for i
    proof
      assume e: "slot_place ?b = slot_place (m_slots g ! i)"
      have "slot_place (m_slots g ! i) \<noteq> Heap (next_heap g)" using guard_ok_place(2) [OF assms(1) that(1)] by blast
      then have "slot_place (m_slots g ! c) = slot_place (m_slots g ! i)" using b(2) e by simp
      then show False using assms(1) that c by (auto simp: guard_ok_def distinct_conv_nth)
    qed
    have "distinct (map slot_place (m_slots g'))"
    proof -
      have "slot_place ?b \<notin> set (map slot_place (m_slots g)) - {map slot_place (m_slots g) ! c}"
      proof
        assume "slot_place ?b \<in> set (map slot_place (m_slots g)) - {map slot_place (m_slots g) ! c}"
        then obtain i where i: "i < length (m_slots g)" "slot_place ?b = slot_place (m_slots g ! i)"
          "slot_place ?b \<noteq> slot_place (m_slots g ! c)" using c by (auto simp: in_set_conv_nth)
        then show False using other [of i] by (cases "i = c") simp_all
      qed
      then show ?thesis using assms(1) by (simp add: g'(3) map_update guard_ok_def distinct_list_update)
    qed
    moreover have "case slot_place (m_slots g' ! i) of Inline b j \<Rightarrow> b = slots_block g' \<and> j = i | Heap h \<Rightarrow> h < next_heap g'"
      if "i < length (m_slots g')" for i
    proof -
      have i: "i < length (m_slots g)" using that by (simp add: g'(3))
      have "slot_place (m_slots g' ! i) = slot_place (m_slots g ! i) \<or> slot_place (m_slots g' ! i) = Heap (next_heap g)"
        using b(2) c by (cases "i = c") (simp_all add: g'(3))
      then show ?thesis
        using guard_ok_place [OF assms(1) i] by (cases "slot_place (m_slots g ! i)") (auto simp: g'(3) less_Suc_eq)
    qed
    moreover have "mset (m_free_slots g) = add_mset c (mset (m_free_slots g'))"
      using False g'(1) by (cases "m_free_slots g" rule: rev_cases) (simp_all add: g'(3))
    moreover have "slot_ok g' c v name" using b(1) c g'(2) by (simp add: slot_ok_def view_of_def g'(3))
    moreover have "slot_ok g' c' v' name'" if "slot_ok g c' v' name'" "c' \<noteq> c"
    proof -
      have "stale g' p = stale g p" for p by (cases p) (simp_all add: stale_def g'(3))
      then show ?thesis using that by (simp add: slot_ok_def g'(3))
    qed
    moreover have "length (m_slots g') = length (m_slots g)" by (simp add: g'(3))
    ultimately show ?thesis by (simp add: guard_ok_def)
  qed
  then show "guard_ok g'" "slot_ok g' c v name" "length (m_slots g) \<le> length (m_slots g')"
    "mset (m_free_slots g) + mset [length (m_slots g)..<length (m_slots g')] = add_mset c (mset (m_free_slots g'))"
    "slot_ok g c' v' name' \<Longrightarrow> c' \<noteq> c \<Longrightarrow> slot_ok g' c' v' name'"
    by blast+
qed

text \<open>Who has which slot: the guard itself, a transaction that is built, a coroutine that runs.\<close>

definition tx_holds :: "'o api_tx \<Rightarrow> nat multiset" where
  "tx_holds tx = (if m_builder tx = None then {#} else {#m_name_cookie tx#})"

definition frame_holds :: "'o guard_frame \<Rightarrow> nat multiset" where
  "frame_holds f = (if f_result f = None then {#f_cookie f#} else {#})"

definition in_use :: "'o clients \<Rightarrow> nat multiset" where
  "in_use st = sum_list (map tx_holds (snd st)) + sum_list (map frame_holds (frames (fst st)))"

definition tx_ok :: "name_guard \<Rightarrow> 'o api_tx \<Rightarrow> bool" where
  "tx_ok g tx \<longleftrightarrow> (\<forall>b. m_builder tx = Some b \<longrightarrow> slot_ok g (m_name_cookie tx) (tx_view tx) (description b))"

definition frame_ok :: "name_guard \<Rightarrow> 'o guard_frame \<Rightarrow> bool" where
  "frame_ok g f \<longleftrightarrow> (f_result f = None \<longrightarrow> slot_ok g (f_cookie f) (f_view f) (description (f_builder f)))"

text \<open>The slot that a call loses: that of a transaction which is reused or destroyed before it was scheduled, or whose
  coroutine finds no memory. Over a sequence of calls, all of them.\<close>

fun call_loses :: "'o call \<Rightarrow> 'o clients \<Rightarrow> nat multiset" where
  "call_loses (CSchedule i frame) (a, txs) = (if i < length txs \<and> \<not> frame then tx_holds (txs ! i) else {#})"
| "call_loses (CReuse i name) (a, txs) = (if i < length txs then tx_holds (txs ! i) else {#})"
| "call_loses (CDestroy i) (a, txs) = (if i < length txs then tx_holds (txs ! i) else {#})"
| "call_loses _ st = {#}"

fun lost_slots ::
  "string_impl \<Rightarrow> string \<Rightarrow> ('o builder \<Rightarrow> 'o status option) \<Rightarrow> 'o call list \<Rightarrow> 'o clients \<Rightarrow> nat multiset"
where
  "lost_slots impl driver resolved [] st = {#}"
| "lost_slots impl driver resolved (c # cs) st =
     call_loses c st +
     (case perform impl driver resolved c st of None \<Rightarrow> {#} | Some st \<Rightarrow> lost_slots impl driver resolved cs st)"

text \<open>Every slot is free, in use or one of the lost ones \<open>L\<close>.\<close>

definition clients_inv :: "nat multiset \<Rightarrow> 'o clients \<Rightarrow> bool" where
  "clients_inv L st \<longleftrightarrow>
     guard_ok (guard (fst st)) \<and>
     mset (m_free_slots (guard (fst st))) + in_use st + L = mset [0..<length (m_slots (guard (fst st)))] \<and>
     (\<forall>tx \<in> set (snd st). tx_ok (guard (fst st)) tx) \<and> (\<forall>f \<in> set (frames (fst st)). frame_ok (guard (fst st)) f)"

lemma subset_upt_distinct: "mset xs \<subseteq># mset [0..<n] \<Longrightarrow> distinct xs \<and> set xs \<subseteq> {..<n}"
proof -
  assume s: "mset xs \<subseteq># mset [0..<n]"
  have "count (mset [0..<n]) x \<le> 1" for x by (cases "x < n") simp_all
  then have "count (mset xs) x \<le> 1" for x using s by (meson order_trans subseteq_mset_def)
  then have "distinct xs" unfolding distinct_count_atmost_1 by (metis count_eq_zero_iff le_less less_one set_mset_mset)
  then show ?thesis using set_mset_mono [OF s] by auto
qed

lemma sum_list_member: "x \<in> set xs \<Longrightarrow> f x \<subseteq># sum_list (map f xs)"
proof -
  assume "x \<in> set xs"
  then obtain ys zs where "xs = ys @ x # zs" by (meson split_list)
  then show ?thesis by simp
qed

text \<open>The slots in use by the others are kept when one holder is replaced by one of a slot that was not in use.\<close>

lemma allocation_inv:
  fixes txs :: "'o api_tx list"
  assumes inv: "clients_inv L (a, txs)" and alloc: "AllocateName impl name (guard a) = (c, v, g')"
    and tx: "m_builder tx = Some b" "m_name_cookie tx = c" "tx_view tx = v" "description b = name"
    and txs': "set txs' \<subseteq> insert tx (set txs)"
      "sum_list (map tx_holds txs') + D = add_mset c (sum_list (map tx_holds txs))"
  shows "clients_inv (L + D) (a\<lparr>guard := g'\<rparr>, txs')"
proof -
  let ?g = "guard a"
  have free: "mset (m_free_slots ?g) + in_use (a, txs) + L = mset [0..<length (m_slots ?g)]" and ok: "guard_ok ?g"
    using inv by (simp_all add: clients_inv_def)
  then have "mset (m_free_slots ?g) \<subseteq># mset [0..<length (m_slots ?g)]" by (metis add.assoc mset_subset_eq_add_left)
  then have range: "set (m_free_slots ?g) \<subseteq> {..<length (m_slots ?g)}" using subset_upt_distinct by blast
  note A = AllocateName_ok [OF ok range alloc]
  have upt: "[0..<length (m_slots g')] = [0..<length (m_slots ?g)] @ [length (m_slots ?g)..<length (m_slots g')]"
    using A(3) by (metis le_add_diff_inverse upt_add_eq_append zero_le)
  have total: "add_mset c (mset (m_free_slots g')) + in_use (a, txs) + L = mset [0..<length (m_slots g')]"
  proof -
    have "add_mset c (mset (m_free_slots g')) + in_use (a, txs) + L =
        (mset (m_free_slots ?g) + in_use (a, txs) + L) + mset [length (m_slots ?g)..<length (m_slots g')]"
      by (simp only: A(4) [symmetric] ac_simps)
    then show ?thesis by (simp only: free upt mset_append)
  qed
  have "count (add_mset c (mset (m_free_slots g')) + in_use (a, txs) + L) c \<le> 1"
    unfolding total by (cases "c < length (m_slots g')") simp_all
  then have c: "c \<notin># in_use (a, txs)" by (simp add: count_eq_zero_iff [symmetric])
  have other_tx: "tx_ok g' t" if "t \<in> set txs" for t
  proof -
    have "m_name_cookie t \<noteq> c" if "m_builder t \<noteq> None"
      using c that mset_subset_eqD [OF sum_list_member [OF \<open>t \<in> set txs\<close>, of tx_holds], of c] by (auto simp: tx_holds_def in_use_def)
    then show ?thesis using that inv A(5) by (auto simp: clients_inv_def tx_ok_def)
  qed
  have other_frame: "frame_ok g' f" if "f \<in> set (frames a)" for f
  proof -
    have "f_cookie f \<noteq> c" if "f_result f = None"
      using c that mset_subset_eqD [OF sum_list_member [OF \<open>f \<in> set (frames a)\<close>, of frame_holds], of c] by (auto simp: frame_holds_def in_use_def)
    then show ?thesis using that inv A(5) by (auto simp: clients_inv_def frame_ok_def)
  qed
  have "tx_ok g' tx" using A(2) tx by (simp add: tx_ok_def)
  moreover have "mset (m_free_slots g') + in_use (a\<lparr>guard := g'\<rparr>, txs') + (L + D) = mset [0..<length (m_slots g')]"
  proof -
    have "in_use (a\<lparr>guard := g'\<rparr>, txs') + D = add_mset c (in_use (a, txs))"
      using txs'(2) by (simp add: in_use_def ac_simps)
    then have "mset (m_free_slots g') + (in_use (a\<lparr>guard := g'\<rparr>, txs') + D) + L = mset [0..<length (m_slots g')]"
      using total by simp
    then show ?thesis by (simp only: ac_simps)
  qed
  ultimately show ?thesis
    using A(1) other_tx other_frame txs'(1) by (auto simp: clients_inv_def)
qed

lemma description_Initiate [simp]: "description (Initiate driver n None f) = n"
  by (simp add: description_def Initiate_def extend_dependent_def)

lemma sum_holds_update:
  assumes "i < length txs"
  shows "sum_list (map tx_holds (txs[i := tx])) + tx_holds (txs ! i) = tx_holds tx + sum_list (map tx_holds txs)"
  using sum_list_map_update [OF assms, of tx_holds tx] by (simp add: ac_simps)

text \<open>A transaction may be replaced by one with its own slot and a builder of the same description, or by one without, which
  loses its slot.\<close>

lemma replace_inv:
  assumes inv: "clients_inv L (a, txs)" and i: "i < length txs" and tx: "tx_holds tx + D = tx_holds (txs ! i)" "tx_ok (guard a) tx"
  shows "clients_inv (L + D) (a, txs[i := tx])"
proof -
  have h: "sum_list (map tx_holds (txs[i := tx])) + D = sum_list (map tx_holds txs)"
  proof -
    have "tx_holds tx + (sum_list (map tx_holds (txs[i := tx])) + D) = tx_holds tx + sum_list (map tx_holds txs)"
      using sum_holds_update [OF i, of tx] unfolding tx(1) [symmetric] by (simp only: ac_simps)
    then show ?thesis by simp
  qed
  have u: "in_use (a, txs) = in_use (a, txs[i := tx]) + D"
    unfolding in_use_def fst_conv snd_conv h [symmetric] by (simp only: ac_simps)
  have "mset (m_free_slots (guard a)) + in_use (a, txs) + L = mset [0..<length (m_slots (guard a))]"
    using inv by (simp add: clients_inv_def)
  then have "mset (m_free_slots (guard a)) + in_use (a, txs[i := tx]) + (L + D) = mset [0..<length (m_slots (guard a))]"
    unfolding u by (simp only: ac_simps)
  then show ?thesis
    using inv tx(2) set_update_subset_insert [of txs i tx] by (auto simp: clients_inv_def)
qed

lemma slot_ok_ReleaseName [simp]: "slot_ok (ReleaseName c g) = slot_ok g" "guard_ok (ReleaseName c g) = guard_ok g"
  by (auto simp: fun_eq_iff slot_ok_def ReleaseName_def stale_def guard_ok_def split: place.splits)

lemma FinishFrame_guard [simp]:
  "tx_ok (guard (FinishFrame task s a)) tx = tx_ok (guard a) tx" "frame_ok (guard (FinishFrame task s a)) f = frame_ok (guard a) f"
  "guard_ok (guard (FinishFrame task s a)) = guard_ok (guard a)"
  by (simp_all add: FinishFrame_def tx_ok_def frame_ok_def)

lemma finish_inv:
  assumes "clients_inv L (a, txs)"
  shows "clients_inv L (FinishFrame task s a, txs)"
proof (cases "task < length (frames a) \<and> f_result (frames a ! task) = None")
  case True
  let ?f = "(frames a ! task)\<lparr>f_result := Some s\<rparr>"
  have "sum_list (map frame_holds ((frames a)[task := ?f])) + {#f_cookie (frames a ! task)#} = sum_list (map frame_holds (frames a))"
    using sum_list_map_update [of task "frames a" frame_holds ?f] True by (simp add: frame_holds_def)
  then have "add_mset (f_cookie (frames a ! task)) (in_use (FinishFrame task s a, txs)) = in_use (a, txs)"
    using True by (simp add: in_use_def FinishFrame_def)
  then have "mset (m_free_slots (guard (FinishFrame task s a))) + in_use (FinishFrame task s a, txs) = mset (m_free_slots (guard a)) + in_use (a, txs)"
    using True by (simp add: FinishFrame_def ReleaseName_def)
  moreover have "length (m_slots (guard (FinishFrame task s a))) = length (m_slots (guard a))" by (simp add: FinishFrame_def ReleaseName_def)
  moreover have "frame_ok (guard a) f" if "f \<in> set (frames (FinishFrame task s a))" for f
    using that assms True set_update_subset_insert [of "frames a" task ?f] by (auto simp: clients_inv_def FinishFrame_def frame_ok_def)
  ultimately show ?thesis using assms by (simp add: clients_inv_def)
next
  case False
  then have "FinishFrame task s a = a" by (auto simp: FinishFrame_def)
  then show ?thesis using assms by simp
qed

lemma start_inv:
  assumes inv: "clients_inv L (a, txs)" and i: "i < length txs" "m_builder (txs ! i) = Some b"
  shows "clients_inv L (a\<lparr>frames := frames a @ [\<lparr>f_cookie = m_name_cookie (txs ! i), f_view = tx_view (txs ! i), f_builder = b, f_result = None\<rparr>]\<rparr>,
    txs[i := (txs ! i)\<lparr>m_task := task, m_builder := None\<rparr>])"
proof -
  let ?tx = "(txs ! i)\<lparr>m_task := task, m_builder := None\<rparr>"
  have "sum_list (map tx_holds (txs[i := ?tx])) + {#m_name_cookie (txs ! i)#} = sum_list (map tx_holds txs)"
    using sum_list_map_update [OF i(1), of tx_holds ?tx] i(2) by (simp add: tx_holds_def)
  then have "in_use (a\<lparr>frames := frames a @ [\<lparr>f_cookie = m_name_cookie (txs ! i), f_view = tx_view (txs ! i), f_builder = b, f_result = None\<rparr>]\<rparr>,
      txs[i := ?tx]) = in_use (a, txs)"
    by (simp add: in_use_def frame_holds_def)
  moreover have "tx_ok (guard a) (txs ! i)" using inv i(1) by (simp add: clients_inv_def)
  moreover have "tx_ok (guard a) ?tx" by (simp add: tx_ok_def)
  ultimately show ?thesis
    using inv i(2) set_update_subset_insert [of txs i ?tx] by (auto simp: clients_inv_def tx_ok_def frame_ok_def)
qed

lemma TxNext_simps [simp]:
  "m_builder (TxNext a tx) = m_builder tx" "m_name_cookie (TxNext a tx) = m_name_cookie tx" "tx_view (TxNext a tx) = tx_view tx"
  "m_task (TxNext a tx) = m_task tx"
  by (auto simp: TxNext_def ActionFail_def ActionSuccess_def Let_def split: option.splits prod.splits)

lemma perform_inv:
  "clients_inv L st \<Longrightarrow> perform impl driver resolved c st = Some st' \<Longrightarrow> clients_inv (L + call_loses c st) st'"
proof (induction impl driver resolved c st rule: perform.induct)
  case (1 impl driver resolved valid name a txs)
  show ?case
  proof (cases "name = None \<or> \<not> valid")
    case True
    then have "st' = (a, txs @ [empty_tx])" using 1(2) by (auto simp: DriverInitiate_def split: option.splits)
    then show ?thesis using 1(1) by (auto simp: clients_inv_def in_use_def tx_holds_def empty_tx_def tx_ok_def)
  next
    case False
    then obtain n where n: "name = Some n" and v: "valid" by auto
    obtain c v g where g: "AllocateName impl n (guard a) = (c, v, g)" by (cases "AllocateName impl n (guard a)") auto
    show ?thesis
      using 1(2) n v g
      by (auto simp: DriverInitiate_def intro!: allocation_inv [OF 1(1) g, where D = "{#}", simplified] simp: tx_holds_def)
  qed
next
  case (2 impl driver resolved i in_allocated out_allocated act out a txs)
  let ?tx = "TxAdd in_allocated out_allocated act out (txs ! i)"
  have i: "i < length txs" "st' = (a, txs[i := ?tx])" using 2(2) by auto
  have "tx_ok (guard a) (txs ! i)" using 2(1) i by (simp add: clients_inv_def)
  then have "tx_ok (guard a) ?tx" "tx_holds ?tx = tx_holds (txs ! i)"
    by (auto simp: TxAdd_def tx_ok_def tx_holds_def Add_def description_def split: option.splits)
  then show ?case using replace_inv [OF 2(1) i(1), of ?tx "{#}"] i(2) by simp
next
  case (3 impl driver resolved i frame a txs)
  have i: "i < length txs" using 3(2) by auto
  show ?case
  proof (cases "m_builder (txs ! i)")
    case None
    then have "st' = (a, txs)" using 3(2) i by (simp add: TxSchedule_def)
    then show ?thesis using 3(1) None by (simp add: tx_holds_def)
  next
    case (Some b)
    show ?thesis
    proof (cases frame)
      case False
      then have "st' = (a, txs[i := (txs ! i)\<lparr>m_task := Some None, m_builder := None\<rparr>])" using 3(2) i Some by (simp add: TxSchedule_def GuardSchedule_def)
      then show ?thesis using replace_inv [OF 3(1) i, of _ "tx_holds (txs ! i)"] i False by (simp add: tx_holds_def tx_ok_def)
    next
      case True
      note S = start_inv [OF 3(1) i Some, of "Some (Some (length (frames a)))"]
      show ?thesis
        using 3(2) i Some True S finish_inv [OF S] by (auto simp: TxSchedule_def GuardSchedule_def Let_def split: option.splits)
    qed
  qed
next
  case (4 impl driver resolved i name a txs)
  then obtain n where n: "name = Some n" "tx_context (txs ! i)" "i < length txs"
    by (cases name) (auto simp: Reuse_def)
  obtain c v g where g: "AllocateName impl n (guard a) = (c, v, g)" by (cases "AllocateName impl n (guard a)") auto
  let ?b = "Initiate driver n None (case finished a (txs ! i) of None \<Rightarrow> False | Some s \<Rightarrow> s_allocation_failure s)"
  let ?tx = "(txs ! i)\<lparr>m_iterator := None, m_name_cookie := c, tx_view := v, m_builder := Some ?b, m_task := None\<rparr>"
  have st': "st' = (a\<lparr>guard := g\<rparr>, txs[i := ?tx])" using 4(2) n g by (simp add: Reuse_def)
  have "tx_holds ?tx = {#c#}" by (simp add: tx_holds_def)
  then show ?case
    unfolding st' using sum_holds_update [OF n(3), of ?tx] set_update_subset_insert [of txs i ?tx] n(3)
    by (simp del: map_update) (intro allocation_inv [OF 4(1) g, of ?tx ?b], simp_all del: map_update)
next
  case (5 impl driver resolved i a txs)
  let ?tx = "TxNext a (txs ! i)"
  have i: "i < length txs" "st' = (a, txs[i := ?tx])" using 5(2) by auto
  have "tx_ok (guard a) ?tx" "tx_holds ?tx = tx_holds (txs ! i)" using 5(1) i by (auto simp: clients_inv_def tx_ok_def tx_holds_def)
  then show ?case using replace_inv [OF 5(1) i(1), of ?tx "{#}"] i(2) by simp
next
  case (6 impl driver resolved task s a txs)
  then show ?case using finish_inv by auto
next
  case (7 impl driver resolved i a txs)
  then show ?case using replace_inv [OF 7(1), of i empty_tx "tx_holds (txs ! i)"] by (simp add: empty_tx_def tx_holds_def tx_ok_def)
qed

lemma perform_all_inv:
  "perform_all impl driver resolved cs st = Some st' \<Longrightarrow> clients_inv L st \<Longrightarrow>
   clients_inv (L + lost_slots impl driver resolved cs st) st'"
proof (induction cs arbitrary: st L)
  case (Cons c cs)
  then obtain st1 where st1: "perform impl driver resolved c st = Some st1" "perform_all impl driver resolved cs st1 = Some st'"
    by (auto simp: bind_eq_Some_conv)
  then show ?case using Cons.IH [OF st1(2) perform_inv [OF Cons.prems(2) st1(1)]] by (simp add: add.assoc)
qed simp

lemma no_clients_inv: "clients_inv {#} no_clients"
  by (simp add: clients_inv_def no_clients_def in_use_def new_guard_def guard_ok_def)

text \<open>The slots of the transactions that are built, of those that are executed, and the free ones.\<close>

definition building :: "'o clients \<Rightarrow> nat list" where
  "building st = map m_name_cookie (filter (\<lambda>tx. m_builder tx \<noteq> None) (snd st))"

definition executing :: "'o clients \<Rightarrow> nat list" where
  "executing st = map f_cookie (filter (\<lambda>f. f_result f = None) (frames (fst st)))"

lemma in_use_lists:
  fixes st :: "'o clients"
  shows "in_use st = mset (building st) + mset (executing st)"
proof -
  have "sum_list (map tx_holds txs) = mset (map m_name_cookie (filter (\<lambda>tx. m_builder tx \<noteq> None) txs))" for txs :: "'o api_tx list"
    by (induction txs) (simp_all add: tx_holds_def)
  moreover have "sum_list (map frame_holds fs) = mset (map f_cookie (filter (\<lambda>f. f_result f = None) fs))" for fs :: "'o guard_frame list"
    by (induction fs) (simp_all add: frame_holds_def)
  ultimately show ?thesis by (simp add: in_use_def building_def executing_def)
qed

text \<open>Property C16: whatever the clients of a context do with their transactions, and in whatever order the drivers
  finish them, the slots for names are divided exactly: every slot is free, or belongs to one transaction that is being built, or to one
  that is executed, or it is one of the lost ones, whose transaction was reused or destroyed before it was scheduled or found no memory for its coroutine; and no slot is
  two of these. While a slot is held, it has the name its transaction was initiated with, and the view that the driver logs shows this name
  unless the characters were inside a block of the vector that has been replaced since.\<close>

theorem names_have_one_holder:
  assumes "perform_all impl driver resolved cs no_clients = Some (a, txs)"
  shows "mset (m_free_slots (guard a)) + mset (building (a, txs)) + mset (executing (a, txs)) +
        lost_slots impl driver resolved cs no_clients = mset [0..<length (m_slots (guard a))]
    \<and> distinct (m_free_slots (guard a) @ building (a, txs) @ executing (a, txs))
    \<and> set (m_free_slots (guard a) @ building (a, txs) @ executing (a, txs)) \<subseteq> {..<length (m_slots (guard a))}
    \<and> (\<forall>tx \<in> set txs. \<forall>b. m_builder tx = Some b \<longrightarrow>
         slot_text (m_slots (guard a) ! m_name_cookie tx) = description b \<and>
         view_text (guard a) (tx_view tx) = (if stale (guard a) (fst (tx_view tx)) then None else Some (description b)))
    \<and> (\<forall>f \<in> set (frames a). f_result f = None \<longrightarrow>
         slot_text (m_slots (guard a) ! f_cookie f) = description (f_builder f) \<and>
         view_text (guard a) (f_view f) = (if stale (guard a) (fst (f_view f)) then None else Some (description (f_builder f))))"
proof -
  have inv: "clients_inv (lost_slots impl driver resolved cs no_clients) (a, txs)"
    using perform_all_inv [OF assms no_clients_inv] by simp
  then have ok: "guard_ok (guard a)" by (simp add: clients_inv_def)
  have parts: "mset (m_free_slots (guard a)) + mset (building (a, txs)) + mset (executing (a, txs)) +
      lost_slots impl driver resolved cs no_clients = mset [0..<length (m_slots (guard a))]"
    using inv unfolding clients_inv_def in_use_lists fst_conv by (simp add: add.assoc)
  then have "mset (m_free_slots (guard a) @ building (a, txs) @ executing (a, txs)) \<subseteq># mset [0..<length (m_slots (guard a))]"
    by (metis add.assoc mset_append mset_subset_eq_add_left)
  note lists = subset_upt_distinct [OF this]
  have slots: "slot_text (m_slots (guard a) ! c) = name \<and> view_text (guard a) v = (if stale (guard a) (fst v) then None else Some name)"
    if "slot_ok (guard a) c v name" for c v name
    using view_text_slot [OF ok that] that by (auto simp: slot_ok_def)
  have "slot_ok (guard a) (m_name_cookie tx) (tx_view tx) (description b)" if "tx \<in> set txs" "m_builder tx = Some b" for tx b
    using inv that by (simp add: clients_inv_def tx_ok_def)
  moreover have "slot_ok (guard a) (f_cookie f) (f_view f) (description (f_builder f))" if "f \<in> set (frames a)" "f_result f = None" for f
    using inv that by (simp add: clients_inv_def frame_ok_def)
  ultimately show ?thesis using parts lists slots by (intro conjI ballI allI impI) blast+
qed

text \<open>The numbers of one implementation: strings of up to 15 characters are stored inside, vectors double.\<close>

definition doubling :: string_impl where
  "doubling = \<lparr>inline_capacity = 15, grow_string = (\<lambda>n. 2 * n), grow_vector = (\<lambda>n. 2 * n)\<rparr>"

definition two_names :: "nat call list" where
  "two_names = [CInitiate True (Some ''read''), CAdd 0 True True (APBRead 4) 0, CSchedule 0 True, CInitiate True (Some ''write'')]"

theorem names_have_one_holder_witness:
  "\<exists>a txs. perform_all doubling ''apb'' (\<lambda>b. None) two_names no_clients = Some (a, txs) \<and> building (a, txs) = [1] \<and> executing (a, txs) = [0] \<and>
     slot_text (m_slots (guard a) ! 0) = ''read'' \<and> distinct (m_free_slots (guard a) @ building (a, txs) @ executing (a, txs))"
proof -
  have "\<exists>a txs. perform_all doubling ''apb'' (\<lambda>b. None) two_names no_clients = Some (a, txs) \<and> building (a, txs) = [1] \<and>
      executing (a, txs) = [0] \<and> slot_text (m_slots (guard a) ! 0) = ''read''"
    by (simp add: two_names_def no_clients_def new_guard_def DriverInitiate_def AllocateName_def reserve_one_def make_string_def doubling_def
        TxAdd_def TxSchedule_def GuardSchedule_def building_def executing_def relocate_def Let_def)
  then obtain a txs where r: "perform_all doubling ''apb'' (\<lambda>b. None) two_names no_clients = Some (a, txs)"
    "building (a, txs) = [1]" "executing (a, txs) = [0]" "slot_text (m_slots (guard a) ! 0) = ''read''" by blast
  then show ?thesis using names_have_one_holder [OF r(1)] by blast
qed

text \<open>The view of the first transaction's name does not outlive the second one: the vector grows from one string to two,
  and the driver that executes the first transaction logs characters that are gone.\<close>

theorem short_name_dangles:
  "map_option (\<lambda>(a, txs). (description (f_builder (frames a ! 0)), view_text (guard a) (f_view (frames a ! 0))))
     (perform_all doubling ''apb'' (\<lambda>b. None) two_names no_clients) = Some (''read'', None)"
  by (simp add: two_names_def no_clients_def new_guard_def DriverInitiate_def AllocateName_def reserve_one_def make_string_def doubling_def
      TxAdd_def TxSchedule_def GuardSchedule_def relocate_def Let_def view_of_def view_text_def description_def Add_def Initiate_def
      extend_dependent_def)

text \<open>A slot is lost when its transaction is not executed: one that is reused or destroyed before it is scheduled, or whose
  coroutine finds no memory, never gives the slot back.\<close>

theorem unscheduled_name_leaks:
  "map_option (\<lambda>(a, txs). (length (m_slots (guard a)), m_free_slots (guard a), building (a, txs), executing (a, txs)))
     (perform_all doubling ''apb'' (\<lambda>b. None)
       [CInitiate True (Some ''a''), CReuse 0 (Some ''b''), CSchedule 0 False, CInitiate True (Some ''c''), CDestroy 1] no_clients)
     = Some (3, [], [], [])"
  by (simp add: no_clients_def new_guard_def DriverInitiate_def AllocateName_def reserve_one_def make_string_def doubling_def
      TxSchedule_def GuardSchedule_def relocate_def Let_def view_of_def Reuse_def building_def executing_def empty_tx_def)

subsection \<open>A transaction reads back\<close>

definition position :: "'o api_tx \<Rightarrow> nat" where
  "position tx = (case m_iterator tx of None \<Rightarrow> 0 | Some i \<Rightarrow> i)"

lemma finished_cong: "m_task tx = m_task tx' \<Longrightarrow> finished a tx = finished a tx'"
  by (simp add: finished_def)

lemma ActionSuccess_result:
  assumes "finished a tx = Some s"
  shows "ActionSuccess a tx = (position tx \<noteq> m_first_incomplete s, tx\<lparr>m_iterator := Some (position tx)\<rparr>)"
  using assms by (simp add: ActionSuccess_def position_def Let_def)

lemma TxNext_position:
  assumes "finished a tx = Some s" "known_before s (m_first_incomplete s)" "position tx \<le> m_first_incomplete s"
  shows "position (TxNext a tx) = min (Suc (position tx)) (m_first_incomplete s)" "finished a (TxNext a tx) = Some s"
proof -
  have f: "finished a (tx\<lparr>m_iterator := i\<rparr>) = Some s" for i using assms(1) finished_cong [of "tx\<lparr>m_iterator := i\<rparr>" tx a] by simp
  have "next_position s (position tx) = Suc (position tx)" if "position tx < m_first_incomplete s"
    using assms(2) that by (auto simp: known_before_def next_position_def status_end_def)
  then show "position (TxNext a tx) = min (Suc (position tx)) (m_first_incomplete s)"
    using assms(3) f by (auto simp: TxNext_def ActionFail_def ActionSuccess_result [OF assms(1)] position_def)
  show "finished a (TxNext a tx) = Some s" using assms(1) finished_cong [of "TxNext a tx" tx a] by simp
qed

lemma NextN_position:
  assumes "finished a tx = Some s" "known_before s (m_first_incomplete s)" "position tx \<le> m_first_incomplete s"
  shows "position (NextN n a tx) = min (position tx + n) (m_first_incomplete s) \<and> finished a (NextN n a tx) = Some s"
  using assms
proof (induction n arbitrary: tx)
  case (Suc n)
  note N = TxNext_position [OF Suc.prems]
  have "position (TxNext a tx) \<le> m_first_incomplete s" using N(1) by simp
  from Suc.IH [OF N(2) Suc.prems(2) this] N(1) show ?case by simp
qed simp

lemma Current_result:
  assumes "finished a tx = Some s"
  shows "fst (Current a tx) = (if position tx = m_first_incomplete s then None else Some (variant_at s (position tx)))"
  using assms finished_cong [of "tx\<lparr>m_iterator := Some (position tx)\<rparr>" tx a]
  by (simp add: Current_def ActionFail_def ActionSuccess_result)

text \<open>\<open>Join\<close> returns when the task's own coroutine has finished; it has given the slot back then.\<close>

lemma join_loop_result:
  assumes "map_of events task = Some s" "task < length (frames a)" "task_result a task = None"
  shows "\<exists>a'. join_loop task events a = Some a' \<and> task_result a' task = Some s \<and> f_cookie (frames a ! task) \<in> set (m_free_slots (guard a'))"
  using assms
proof (induction events arbitrary: a)
  case (Cons e events)
  obtain other r where e: "e = (other, r)" by fastforce
  let ?a = "FinishFrame other r a"
  have step: "join_loop task (e # events) a = join_loop task events ?a" using Cons.prems(3) e by (subst join_loop.simps) simp
  show ?case
  proof (cases "other = task")
    case True
    then have "task_result ?a task = Some s" "f_cookie (frames a ! task) \<in> set (m_free_slots (guard ?a))"
      using Cons.prems e by (simp_all add: FinishFrame_def task_result_def ReleaseName_def)
    moreover from this(1) have "join_loop task events ?a = Some ?a" by (subst join_loop.simps) simp
    ultimately show ?thesis using step by auto
  next
    case False
    then have "task < length (frames ?a)" "task_result ?a task = None" "f_cookie (frames ?a ! task) = f_cookie (frames a ! task)" "map_of events task = Some s"
      using Cons.prems e by (auto simp: FinishFrame_def task_result_def)
    then show ?thesis using Cons.IH [of ?a] step by simp
  qed
qed simp

definition add_actions :: "(action \<times> 'o) list \<Rightarrow> 'o api_tx \<Rightarrow> 'o api_tx" where
  "add_actions acts tx = foldl (\<lambda>tx (act, out). TxAdd True True act out tx) tx acts"

lemma add_actions_result:
  "m_builder tx = Some b \<Longrightarrow> add_actions acts tx = tx\<lparr>m_builder := Some (snd (add_all acts b))\<rparr>"
proof (induction acts arbitrary: tx b)
  case (Cons x acts)
  obtain act out where x: "x = (act, out)" by fastforce
  let ?tx = "TxAdd True True act out tx"
  have "m_builder ?tx = Some (snd (Add True True act out b))" using Cons.prems by (simp add: TxAdd_def)
  from Cons.IH [OF this] Cons.prems x show ?case by (simp add: add_actions_def TxAdd_def split: prod.splits)
qed (simp add: add_actions_def)

text \<open>The driver's answer to a transaction: at once, or while \<open>Join\<close> waits.\<close>

definition answered :: "('o builder \<Rightarrow> 'o status option) \<Rightarrow> (nat \<times> 'o status) list \<Rightarrow> nat \<Rightarrow> 'o builder \<Rightarrow> 'o status \<Rightarrow> bool" where
  "answered resolved events task b s \<longleftrightarrow> (case resolved b of Some r \<Rightarrow> r = s | None \<Rightarrow> map_of events task = Some s)"

lemma TxDo_result:
  assumes "m_builder tx = Some b" "answered resolved events (length (frames a)) b s"
  shows "\<exists>a'. TxDo True resolved events a tx = Some (a', tx\<lparr>m_task := Some (Some (length (frames a))), m_builder := None\<rparr>) \<and>
    task_result a' (length (frames a)) = Some s \<and> m_name_cookie tx \<in> set (m_free_slots (guard a'))"
proof -
  let ?task = "length (frames a)"
  let ?a = "a\<lparr>frames := frames a @ [\<lparr>f_cookie = m_name_cookie tx, f_view = tx_view tx, f_builder = b, f_result = None\<rparr>]\<rparr>"
  show ?thesis
  proof (cases "resolved b")
    case None
    then have "map_of events ?task = Some s" using assms(2) by (simp add: answered_def)
    from join_loop_result [OF this, of ?a] None assms(1) show ?thesis
      by (auto simp: TxDo_def TxSchedule_def GuardSchedule_def Let_def TxJoin_def task_result_def)
  next
    case (Some r)
    then have "r = s" using assms(2) by (simp add: answered_def)
    moreover have "task_result (FinishFrame ?task s ?a) ?task = Some s" "m_name_cookie tx \<in> set (m_free_slots (guard (FinishFrame ?task s ?a)))"
      by (simp_all add: FinishFrame_def task_result_def ReleaseName_def)
    moreover from this(1) have "join_loop ?task events (FinishFrame ?task s ?a) = Some (FinishFrame ?task s ?a)" by (subst join_loop.simps) simp
    ultimately show ?thesis
      using Some assms(1) by (simp add: TxDo_def TxSchedule_def GuardSchedule_def Let_def TxJoin_def)
  qed
qed

text \<open>Property C15: a client that initiates a transaction, adds actions and calls \<open>Do\<close> gets what the driver made of
  exactly these actions. \<open>Do\<close> returns once the driver has answered, the transaction is done, its name is free again, and it has succeeded when the driver
  completed all actions. The client then walks over the completed actions: after \<open>n\<close> calls of \<open>Next\<close> it is at the n-th action, where it
  reads the output of this action with its type and nothing with another type of the driver, and behind the last completed action it
  stays and reads nothing.\<close>

theorem transaction_reads_back:
  assumes "DriverInitiate impl True driver (Some name) a0 = (a, tx)"
    and "answered resolved events (length (frames a)) (snd (add_all acts (Initiate driver name None False))) s"
    and "s_ins s = map (Inr \<circ> fst) acts" "length (s_outs s) = length acts" "m_first_incomplete s \<le> length acts"
    and "\<forall>act \<in> fst ` set acts. kind act \<in> set (driver_actions d)" "k \<in> set (driver_actions d)"
  shows "\<exists>a' tx'. TxDo True resolved events a (add_actions acts tx) = Some (a', tx') \<and> TxDone a' tx'
    \<and> TxSuccess a' tx' = Some (\<not> s_allocation_failure s \<and> m_first_incomplete s = length acts)
    \<and> m_name_cookie tx \<in> set (m_free_slots (guard a'))
    \<and> (\<forall>n. fst (ActionSuccess a' (NextN n a' tx')) = (n < m_first_incomplete s)
         \<and> fst (CurrentOut k a' (NextN n a' tx')) =
             (if n < m_first_incomplete s \<and> k = kind (fst (acts ! n)) then Some (s_outs s ! n) else None))"
proof -
  have tx: "m_builder tx = Some (Initiate driver name None False)" "m_iterator tx = None"
    using assms(1) by (auto simp: DriverInitiate_def split: prod.splits)
  let ?b = "snd (add_all acts (Initiate driver name None False))"
  let ?tx = "tx\<lparr>m_builder := Some ?b\<rparr>"
  let ?tx' = "?tx\<lparr>m_task := Some (Some (length (frames a))), m_builder := None\<rparr>"
  obtain a' where a': "TxDo True resolved events a ?tx = Some (a', ?tx')" "task_result a' (length (frames a)) = Some s"
    "m_name_cookie tx \<in> set (m_free_slots (guard a'))"
    using TxDo_result [of ?tx ?b resolved events a s] assms(2) by auto
  have f: "finished a' ?tx' = Some s" and p: "position ?tx' = 0" using a'(2) tx(2) by (simp_all add: finished_def position_def)
  have known: "known_before s (m_first_incomplete s)" using assms(3,5) by (simp add: known_before_def status_end_def)
  have walk: "position (NextN n a' ?tx') = min n (m_first_incomplete s)" "finished a' (NextN n a' ?tx') = Some s" for n
    using NextN_position [OF f known, of n] p by simp_all
  have out: "OutAs k (variant_at s n) = (if k = kind (fst (acts ! n)) then Some (s_outs s ! n) else None)" if "n < m_first_incomplete s" for n
  proof -
    have n: "n < length acts" using that assms(5) by simp
    then have "kind (fst (acts ! n)) \<in> set (driver_actions d)" using assms(6) by simp
    then have "ActionID k = ActionID (kind (fst (acts ! n))) \<longleftrightarrow> k = kind (fst (acts ! n))" using driver_discriminants assms(7) by blast
    then show ?thesis using StatusAs_known [of n s "fst (acts ! n)" k] n assms(3,4) by (simp add: StatusAs_def OutAs_def)
  qed
  have "fst (ActionSuccess a' (NextN n a' ?tx')) = (n < m_first_incomplete s) \<and> fst (CurrentOut k a' (NextN n a' ?tx')) =
      (if n < m_first_incomplete s \<and> k = kind (fst (acts ! n)) then Some (s_outs s ! n) else None)" for n
  proof -
    have "fst (Current a' (NextN n a' ?tx')) = (if n < m_first_incomplete s then Some (variant_at s n) else None)"
      using Current_result [OF walk(2)] walk(1) by (simp add: min_def not_less)
    then show ?thesis
      using ActionSuccess_result [OF walk(2)] walk(1) out by (auto simp: CurrentOut_def min_def split: prod.splits)
  qed
  moreover have "add_actions acts tx = ?tx" using add_actions_result [OF tx(1)] .
  moreover have "TxDone a' ?tx'" "TxSuccess a' ?tx' = Some (\<not> s_allocation_failure s \<and> m_first_incomplete s = length acts)"
    using a'(2) assms(3) by (simp_all add: TxDone_def TxSuccess_def status_ok_def status_end_def)
  ultimately show ?thesis using a'(1,3) by (intro exI [of _ a'] exI [of _ ?tx']) simp
qed

definition half_done :: "nat status" where
  "half_done = (StatusOf (snd (add_all [(APBRead 4, 0), (APBWrite 8 5, 1)] (Initiate ''apb'' ''t'' None False))))
     \<lparr>s_outs := [7, 1], m_first_incomplete := 1\<rparr>"

theorem transaction_reads_back_witness:
  "\<exists>a tx a' tx'. DriverInitiate doubling True ''apb'' (Some ''t'') (fst no_clients) = (a, tx) \<and>
     TxDo True (\<lambda>b. None) [(0, half_done)] a (add_actions [(APBRead 4, 0), (APBWrite 8 5, 1)] tx) = Some (a', tx') \<and>
     TxSuccess a' tx' = Some False \<and> fst (CurrentOut AAPBRead a' tx') = Some 7 \<and> fst (CurrentOut AAPBRead a' (NextN 1 a' tx')) = None"
proof -
  let ?acts = "[(APBRead 4, 0), (APBWrite 8 5, 1)] :: (action \<times> nat) list"
  obtain a tx where i: "DriverInitiate doubling True ''apb'' (Some ''t'') (fst no_clients :: nat api) = (a, tx)" by fastforce
  then have "frames a = []" by (auto simp: DriverInitiate_def no_clients_def split: prod.splits)
  then have ans: "answered (\<lambda>b. None) [(0, half_done)] (length (frames a)) b half_done" for b by (simp add: answered_def)
  have s: "s_ins half_done = map (Inr \<circ> fst) ?acts" "length (s_outs half_done) = length ?acts" "m_first_incomplete half_done = 1"
    "s_outs half_done ! 0 = 7"
    by (simp_all add: half_done_def StatusOf_def add_all_result Initiate_def)
  have k: "\<forall>act \<in> fst ` set ?acts. kind act \<in> set (driver_actions APB)" "AAPBRead \<in> set (driver_actions APB)" by simp_all
  have le: "m_first_incomplete half_done \<le> length ?acts" using s(3) by simp
  from transaction_reads_back [OF i ans s(1,2) le k] obtain a' tx' where r:
    "TxDo True (\<lambda>b. None) [(0, half_done)] a (add_actions ?acts tx) = Some (a', tx')" "TxSuccess a' tx' = Some False"
    "\<forall>n. fst (CurrentOut AAPBRead a' (NextN n a' tx')) = (if n < 1 \<and> AAPBRead = kind (fst (?acts ! n)) then Some (s_outs half_done ! n) else None)"
    using s(3) by auto
  have "fst (CurrentOut AAPBRead a' tx') = Some 7" using r(3) [rule_format, of 0] s(4) by simp
  moreover have "fst (CurrentOut AAPBRead a' (NextN 1 a' tx')) = None" using r(3) [rule_format, of 1] by simp
  ultimately show ?thesis using i r(1,2) by blast
qed

subsection \<open>Calls that are not guarded\<close>

text \<open>\<open>Success\<close> and \<open>Fail\<close> read the result of the coroutine without asking whether it is done, and so does \<open>ErrorMessage\<close>: on a transaction
  that is being executed they read an empty \<open>std::optional\<close>. \<open>Reuse\<close> takes neither a null name nor the empty transaction
  that \<open>Initiate\<close> returns for one.\<close>

theorem unfinished_result_is_read:
  "(TxSuccess a tx = None \<longleftrightarrow> \<not> TxDone a tx) \<and> (TxFail a tx = None \<longleftrightarrow> \<not> TxDone a tx)
   \<and> (\<not> TxDone a tx \<longrightarrow> ErrorMessage strerror a tx = None)
   \<and> (\<exists>a'. DriverInitiate impl valid driver None a = (a', empty_tx)) \<and> Reuse impl driver name a empty_tx = None \<and> Reuse impl driver None a tx = None"
  by (auto simp: TxSuccess_def TxFail_def TxDone_def ErrorMessage_def DriverInitiate_def Reuse_def empty_tx_def split: option.splits)

end
