(* ===== verification/Api_Drivers.thy ===== *)
theory Api_Drivers
  imports Api_Transaction Execution_Gate Rv_Dtm
begin

text \<open>
  The transactions and drivers of the interface (\<open>api/ByteStream.h\<close>, \<open>APB.h\<close>, \<open>Jtag.h\<close>, \<open>JtagChain.h\<close>, \<open>RVDTM.h\<close>,
  \<open>ExecutionGate.h\<close>): the calls that add an action to a transaction, and those that read what the action at the iterator returned.

  A buffer of the caller is a list of bytes. A call that would read behind its end is \<open>None\<close>. The outputs of all drivers are
  one datatype; an output is \<open>Unset\<close> until the driver writes it. A call that adds an action is given whether the two
  allocations of \<open>Add\<close> succeed.
\<close>

subsection \<open>Outputs\<close>

datatype api_out =
    Unset
  | OutWritten u32
  | OutRead "u8 list"
  | OutPut u32
  | OutTDO "bool list"
  | OutData u32
  | OutShifted "bool list"
  | OutMode u32

type_synonym driver_tx = "api_out api_tx"

definition put :: "bool \<times> bool \<Rightarrow> action \<Rightarrow> driver_tx \<Rightarrow> driver_tx" where
  "put allocated act tx = TxAdd (fst allocated) (snd allocated) act Unset tx"

text \<open>The bits of a caller's buffer, as \<open>BitStream<const uint8_t>\<close> reads them.\<close>

definition buffer_bits :: "u8 list \<Rightarrow> u32 \<Rightarrow> bool list option" where
  "buffer_bits src nbits =
     do { assert_that (unat nbits \<le> 8 * length src); Some (map (\<lambda>i. bit (src ! (i div 8)) (i mod 8)) [0..<unat nbits]) }"

subsection \<open>Byte streams\<close>

definition ByteStream_WriteBytes :: "bool \<times> bool \<Rightarrow> u8 list \<Rightarrow> u32 \<Rightarrow> driver_tx \<Rightarrow> driver_tx option" where
  "ByteStream_WriteBytes allocated src n tx =
     (if m_builder tx = None then Some tx
      else do { assert_that (unat n \<le> length src); Some (put allocated (WriteBytes (take (unat n) src)) tx) })"

definition ByteStream_ReadBytes :: "bool \<times> bool \<Rightarrow> u32 \<Rightarrow> driver_tx \<Rightarrow> driver_tx" where
  "ByteStream_ReadBytes allocated num_bytes tx = put allocated (ReadBytes num_bytes) tx"

definition GetNumWrittenBytes :: "api_out api \<Rightarrow> driver_tx \<Rightarrow> u32 \<times> driver_tx" where
  "GetNumWrittenBytes a tx =
     (case CurrentOut AWriteBytes a tx of (out, tx) \<Rightarrow> (case out of Some (OutWritten n) \<Rightarrow> n | _ \<Rightarrow> 0, tx))"

text \<open>The number of bytes, and the bytes that are copied to the caller.\<close>

definition GetReadBytes :: "u32 \<Rightarrow> api_out api \<Rightarrow> driver_tx \<Rightarrow> (u32 \<times> u8 list) \<times> driver_tx" where
  "GetReadBytes n a tx =
     (case CurrentOut AReadBytes a tx of (out, tx) \<Rightarrow>
        (case out of
           Some (OutRead span) \<Rightarrow> let to_copy = min n (of_nat (length span)) in (to_copy, take (unat to_copy) span)
         | _ \<Rightarrow> (0, []), tx))"

subsection \<open>APB\<close>

definition APB_SkipCycles :: "bool \<times> bool \<Rightarrow> u32 \<Rightarrow> driver_tx \<Rightarrow> driver_tx" where
  "APB_SkipCycles allocated num_cycles tx = put allocated (SkipCycles num_cycles) tx"

definition APB_Write :: "bool \<times> bool \<Rightarrow> u32 \<Rightarrow> u32 \<Rightarrow> driver_tx \<Rightarrow> driver_tx" where
  "APB_Write allocated address data tx = put allocated (APBWrite address data) tx"

definition APB_Read :: "bool \<times> bool \<Rightarrow> u32 \<Rightarrow> driver_tx \<Rightarrow> driver_tx" where
  "APB_Read allocated address tx = put allocated (APBRead address) tx"

definition APB_SetPSEL :: "bool \<times> bool \<Rightarrow> u32 \<Rightarrow> driver_tx \<Rightarrow> driver_tx" where
  "APB_SetPSEL allocated psel tx = put allocated (APBSetPSEL psel) tx"

definition APB_GetReadData :: "api_out api \<Rightarrow> driver_tx \<Rightarrow> u32 \<times> driver_tx" where
  "APB_GetReadData a tx = (case CurrentOut AAPBRead a tx of (out, tx) \<Rightarrow> (case out of Some (OutData d) \<Rightarrow> d | _ \<Rightarrow> 0, tx))"

subsection \<open>JTAG\<close>

text \<open>\<open>num_bits\<close> has 31 bits in the actions with TDI, and \<open>last_tms\<close> has one.\<close>

definition Jtag_PutTMS :: "bool \<times> bool \<Rightarrow> u8 list \<Rightarrow> u32 \<Rightarrow> driver_tx \<Rightarrow> driver_tx option" where
  "Jtag_PutTMS allocated src_bits nbits tx =
     (if m_builder tx = None then Some tx
      else do { bs \<leftarrow> buffer_bits src_bits nbits; Some (put allocated (PutTMS bs) tx) })"

definition Jtag_PutTDI :: "bool \<times> bool \<Rightarrow> u8 list \<Rightarrow> u32 \<Rightarrow> u32 \<Rightarrow> driver_tx \<Rightarrow> driver_tx option" where
  "Jtag_PutTDI allocated src_bits nbits last_tms tx =
     (if m_builder tx = None then Some tx
      else do { bs \<leftarrow> buffer_bits src_bits nbits;
                Some (put allocated (PutTDI (take (unat nbits mod 2 ^ 31) bs) (bit last_tms 0)) tx) })"

definition Jtag_PutTDIGetTDO :: "bool \<times> bool \<Rightarrow> u8 list \<Rightarrow> u32 \<Rightarrow> u32 \<Rightarrow> driver_tx \<Rightarrow> driver_tx option" where
  "Jtag_PutTDIGetTDO allocated src_bits nbits last_tms tx =
     (if m_builder tx = None then Some tx
      else do { bs \<leftarrow> buffer_bits src_bits nbits;
                Some (put allocated (PutTDIGetTDO (take (unat nbits mod 2 ^ 31) bs) (bit last_tms 0)) tx) })"

text \<open>All outputs of the driver have \<open>num_put\<close>; the bits of the last one are as many.\<close>

definition GetNumBitsPut :: "api_out api \<Rightarrow> driver_tx \<Rightarrow> u32 \<times> driver_tx" where
  "GetNumBitsPut a tx =
     (case Current a tx of (v, tx) \<Rightarrow>
        (case Option.bind v (Visit Jtag (\<lambda>k act out. case out of OutPut n \<Rightarrow> n | OutTDO bs \<Rightarrow> of_nat (length bs) | _ \<Rightarrow> 0)) of
           None \<Rightarrow> 0 | Some n \<Rightarrow> n, tx))"

definition GetTDO :: "u32 \<Rightarrow> api_out api \<Rightarrow> driver_tx \<Rightarrow> (u32 \<times> bool list) \<times> driver_tx" where
  "GetTDO max_num_bits a tx =
     (case CurrentOut APutTDIGetTDO a tx of (out, tx) \<Rightarrow>
        (case out of
           Some (OutTDO bs) \<Rightarrow> let written = take (unat max_num_bits) bs in (of_nat (length written), written)
         | _ \<Rightarrow> (0, []), tx))"

subsection \<open>The JTAG chain\<close>

definition JtagChain_ForgetChainStructure :: "bool \<times> bool \<Rightarrow> driver_tx \<Rightarrow> driver_tx" where
  "JtagChain_ForgetChainStructure allocated tx = put allocated JCForgetChainStructure tx"

definition JtagChain_SetIRLength :: "bool \<times> bool \<Rightarrow> u32 \<Rightarrow> u32 \<Rightarrow> driver_tx \<Rightarrow> driver_tx" where
  "JtagChain_SetIRLength allocated tap ir_length tx = put allocated (JCSetIRLength tap ir_length) tx"

definition JtagChain_GoToState :: "bool \<times> bool \<Rightarrow> u32 \<Rightarrow> u32 \<Rightarrow> driver_tx \<Rightarrow> driver_tx" where
  "JtagChain_GoToState allocated state wait_for_cycles tx = put allocated (JCGoToState state wait_for_cycles) tx"

definition JtagChain_SelectTAP :: "bool \<times> bool \<Rightarrow> u32 \<Rightarrow> driver_tx \<Rightarrow> driver_tx" where
  "JtagChain_SelectTAP allocated tap tx = put allocated (JCSelectTAP tap) tx"

definition JtagChain_WriteIR :: "bool \<times> bool \<Rightarrow> u32 \<Rightarrow> driver_tx \<Rightarrow> driver_tx" where
  "JtagChain_WriteIR allocated value tx = put allocated (JCWriteIR value) tx"

text \<open>The data are the 64 bits of an argument, and the number of bits is the caller's.\<close>

definition word_bits :: "u64 \<Rightarrow> u32 \<Rightarrow> bool list option" where
  "word_bits data num_data_bits = do { assert_that (unat num_data_bits \<le> 64); Some (map (bit data) [0..<unat num_data_bits]) }"

definition JtagChain_WriteDR :: "bool \<times> bool \<Rightarrow> u64 \<Rightarrow> u32 \<Rightarrow> driver_tx \<Rightarrow> driver_tx option" where
  "JtagChain_WriteDR allocated data num_data_bits tx =
     (if m_builder tx = None then Some tx
      else do { bs \<leftarrow> word_bits data num_data_bits; Some (put allocated (JCWriteDR bs) tx) })"

definition JtagChain_ShiftDR :: "bool \<times> bool \<Rightarrow> u64 \<Rightarrow> u32 \<Rightarrow> driver_tx \<Rightarrow> driver_tx option" where
  "JtagChain_ShiftDR allocated data num_data_bits tx =
     (if m_builder tx = None then Some tx
      else do { bs \<leftarrow> word_bits data num_data_bits; Some (put allocated (JCShiftDR bs) tx) })"

definition GetShiftedData :: "api_out api \<Rightarrow> driver_tx \<Rightarrow> u64 \<times> driver_tx" where
  "GetShiftedData a tx =
     (case CurrentOut AJCShiftDR a tx of (out, tx) \<Rightarrow>
        (case out of Some (OutShifted bs) \<Rightarrow> horner_sum of_bool 2 (take 64 bs) | _ \<Rightarrow> 0, tx))"

subsection \<open>The debug transport module\<close>

definition RVDTM_SkipCycles :: "bool \<times> bool \<Rightarrow> u32 \<Rightarrow> driver_tx \<Rightarrow> driver_tx" where
  "RVDTM_SkipCycles allocated num_cycles tx = put allocated (SkipCycles num_cycles) tx"

definition RVDTM_Write :: "bool \<times> bool \<Rightarrow> u32 \<Rightarrow> u32 \<Rightarrow> driver_tx \<Rightarrow> driver_tx" where
  "RVDTM_Write allocated address data tx = put allocated (RVWriteDMI address data) tx"

definition RVDTM_Read :: "bool \<times> bool \<Rightarrow> u32 \<Rightarrow> driver_tx \<Rightarrow> driver_tx" where
  "RVDTM_Read allocated address tx = put allocated (RVReadDMI address) tx"

definition RVDTM_GetReadData :: "api_out api \<Rightarrow> driver_tx \<Rightarrow> u32 \<times> driver_tx" where
  "RVDTM_GetReadData a tx = (case CurrentOut ARVReadDMI a tx of (out, tx) \<Rightarrow> (case out of Some (OutData d) \<Rightarrow> d | _ \<Rightarrow> 0, tx))"

definition SetTapID :: "u32 \<Rightarrow> dtm_config \<Rightarrow> dtm_config" where
  "SetTapID tap config = config\<lparr>tap_id := tap\<rparr>"

definition SetDTMCSIRValue :: "u32 \<Rightarrow> dtm_config \<Rightarrow> dtm_config" where
  "SetDTMCSIRValue value config = config\<lparr>dtmcs_ir_value := value\<rparr>"

definition SetDMIIRValue :: "u32 \<Rightarrow> dtm_config \<Rightarrow> dtm_config" where
  "SetDMIIRValue value config = config\<lparr>dmi_ir_value := value\<rparr>"

definition SetMinMaxLatency :: "u32 \<Rightarrow> u32 \<Rightarrow> dtm_config \<Rightarrow> dtm_config" where
  "SetMinMaxLatency min_latency max_latency config = config\<lparr>latency := LatencyCalibrator min_latency max_latency\<rparr>"

subsection \<open>The execution gate\<close>

definition ExecutionGate_SetMode :: "bool \<times> bool \<Rightarrow> u32 \<Rightarrow> driver_tx \<Rightarrow> driver_tx" where
  "ExecutionGate_SetMode allocated mode tx = put allocated (SetExecutionGateMode mode) tx"

definition GetEffectiveMode :: "api_out api \<Rightarrow> driver_tx \<Rightarrow> u32 \<times> driver_tx" where
  "GetEffectiveMode a tx =
     (case CurrentOut ASetExecutionGateMode a tx of (out, tx) \<Rightarrow> (case out of Some (OutMode m) \<Rightarrow> m | _ \<Rightarrow> StallIfNoRequestsAndIdle, tx))"

text \<open>The driver behind an execution gate: none, a gate of this process, or one that is reached through a tunnel. \<open>SetMode\<close> and
  \<open>StallIfNeeded\<close> of the interface cast the pointer to the class of the former without a test.\<close>

datatype gate_driver = NoGate | LocalGate exe_gate | TunneledGate

definition Gate_SetMode :: "u32 \<Rightarrow> gate_driver \<Rightarrow> (u32 \<times> gate_driver) option" where
  "Gate_SetMode mode d =
     (case d of
        NoGate \<Rightarrow> Some (Terminated, d)
      | LocalGate g \<Rightarrow> (case SetMode mode g of (ok, g) \<Rightarrow> Some (if ok then mode else Terminated, LocalGate g))
      | TunneledGate \<Rightarrow> None)"

definition Gate_StallIfNeeded :: "u8 \<Rightarrow> gate_driver \<Rightarrow> stall_move option" where
  "Gate_StallIfNeeded target_is_idle d =
     (case d of NoGate \<Rightarrow> Some Leave | LocalGate g \<Rightarrow> Some (StallIfNeeded (target_is_idle \<noteq> 0) g) | TunneledGate \<Rightarrow> None)"

subsection \<open>Data and bits\<close>

text \<open>Data that are shifted through a register of the same length come back as they were, below the number of bits given.\<close>

lemma shifted_back:
  assumes "word_bits data n = Some bs"
  shows "horner_sum of_bool 2 (take 64 bs) = take_bit (unat n) data"
proof -
  have n: "unat n \<le> 64" and bs: "bs = map (bit data) [0..<unat n]"
    using assms by (auto simp: word_bits_def)
  have "take 64 bs = map (bit data) [0..<unat n]" using n bs by simp
  then show ?thesis by (simp add: horner_sum_bit_eq_take_bit)
qed

text \<open>A number of bits above 64 makes the constructor of the action read behind its argument, and of \<open>last_tms\<close> only the
  lowest bit counts.\<close>

theorem unchecked_arguments:
  "word_bits data 65 = None
   \<and> (m_builder tx \<noteq> None \<longrightarrow> JtagChain_WriteDR allocated data 65 tx = None \<and> JtagChain_ShiftDR allocated data 65 tx = None)
   \<and> (m_builder tx \<noteq> None \<longrightarrow> Jtag_PutTDI allocated [0xFF] 8 2 tx = Some (put allocated (PutTDI (replicate 8 True) False) tx))
   \<and> Gate_SetMode mode TunneledGate = None \<and> Gate_StallIfNeeded idle TunneledGate = None"
proof -
  have "buffer_bits [0xFF] 8 = Some (replicate 8 True)" by code_simp
  then have "Jtag_PutTDI allocated [0xFF] 8 2 tx = Some (put allocated (PutTDI (replicate 8 True) False) tx)" if "m_builder tx \<noteq> None"
    using that by (auto simp: Jtag_PutTDI_def)
  then show ?thesis
    by (simp add: word_bits_def JtagChain_WriteDR_def JtagChain_ShiftDR_def Gate_SetMode_def Gate_StallIfNeeded_def)
qed

end
