(* ===== verification/Api_Context.thy ===== *)
theory Api_Context
  imports Logging Sockets Tunnel
begin

text \<open>
  The context of the C++ and SWIG interface (\<open>api/Context.h\<close>, \<open>Error.h\<close>, \<open>DriverBase.h\<close>): its log, and the entities that it
  keeps until it is destroyed. All drivers, streams, servers and names that the interface makes are such entities
  (\<open>ByteStream.h\<close>, \<open>APB.h\<close>, \<open>Jtag.h\<close>, \<open>JtagChain.h\<close>, \<open>RVDTM.h\<close>, \<open>ExecutionGate.h\<close>, \<open>ByteStreamTunnel.h\<close>, \<open>TunnelCommon.h\<close>).

  An entity is named by its index. The objects of the interface have a pointer: null, to an entity, or to a driver
  that a tunnel has. The operating system is the one of the theory of sockets. \<open>None\<close> is undefined behaviour.
\<close>

subsection \<open>Log\<close>

fun ToEDRLogLevel :: "u32 \<Rightarrow> LogLevel" where
  "ToEDRLogLevel l =
     (if l = 0 then ERROR else if l = 1 then WARNING else if l = 2 then INFO else if l = 3 then DEBUG else TRACE)"

text \<open>The outputs that the client has asked for; a file may not have been opened.\<close>

record logger_output =
  m_std_output :: "std_streams option"
  m_file_output :: "string option option"

definition no_output :: logger_output where
  "no_output = \<lparr>m_std_output = None, m_file_output = None\<rparr>"

definition AddStdStreams :: "logger_output \<Rightarrow> logger_output" where
  "AddStdStreams out = out\<lparr>m_std_output := Some \<lparr>std_err = [], std_out = []\<rparr>\<rparr>"

definition AddFile :: "string option \<Rightarrow> logger_output \<Rightarrow> logger_output" where
  "AddFile file out = out\<lparr>m_file_output := Some file\<rparr>"

definition Output_AddLine :: "LogLevel \<Rightarrow> string \<Rightarrow> logger_output \<Rightarrow> logger_output" where
  "Output_AddLine level message out =
     out\<lparr>m_std_output := map_option (StdStreams_AddLine level message) (m_std_output out),
         m_file_output := map_option (File_AddLine level message) (m_file_output out)\<rparr>"

definition Context_logger :: "u32 \<Rightarrow> logger_output logger" where
  "Context_logger level = Logger no_output (ToEDRLogLevel level)"

definition Context_AddStdStreams :: "logger_output logger \<Rightarrow> logger_output logger" where
  "Context_AddStdStreams l = l\<lparr>m_out := AddStdStreams (m_out l)\<rparr>"

definition Context_AddFile :: "string option \<Rightarrow> logger_output logger \<Rightarrow> logger_output logger" where
  "Context_AddFile file l = l\<lparr>m_out := AddFile file (m_out l)\<rparr>"

definition SetLogLevel :: "u32 \<Rightarrow> logger_output logger \<Rightarrow> logger_output logger" where
  "SetLogLevel level l = SetLevel (ToEDRLogLevel level) l"

subsection \<open>Errors\<close>

record api_error =
  m_error :: error
  m_string :: string

definition ApiError :: api_error where
  "ApiError = \<lparr>m_error = ErrorSuccess, m_string = []\<rparr>"

definition ApiError_assign :: "error \<Rightarrow> api_error \<Rightarrow> api_error" where
  "ApiError_assign e err = err\<lparr>m_error := e, m_string := []\<rparr>"

definition ApiError_Fail :: "api_error \<Rightarrow> bool option" where
  "ApiError_Fail err = ErrorBool (m_error err)"

definition ApiError_Success :: "api_error \<Rightarrow> bool option" where
  "ApiError_Success err = map_option Not (ApiError_Fail err)"

definition ApiError_Message :: "(int \<Rightarrow> string) \<Rightarrow> api_error \<Rightarrow> (string \<times> api_error) option" where
  "ApiError_Message strerror err =
     (if m_string err \<noteq> [] then Some (m_string err, err)
      else do { t \<leftarrow> format_error strerror (m_error err); Some (t, err\<lparr>m_string := t\<rparr>) })"

text \<open>The error of a failed call: a cause, or none if there was no memory for it.\<close>

definition error_of :: "cause option \<Rightarrow> error" where
  "error_of c = (case c of None \<Rightarrow> ErrorDefault | Some c \<Rightarrow> ErrorMake True c)"

subsection \<open>Entities\<close>

datatype pointer = Entity nat | Tunneled nat nat

text \<open>A driver has its name and the drivers or streams it uses. A tunnel has its stream, the drivers of the other side, references to
  the drivers registered with it, and an event loop that runs or not.\<close>

datatype entity =
    EString string
  | ESocket tcp_socket
  | ETcpServer tcp_server
  | EPipe named_pipe
  | EPipeServer named_pipe_server
  | EDriver driver_id nat "pointer list"
  | ETunnel pointer "driver_entry list" "pointer list" bool

fun target :: "pointer \<Rightarrow> nat" where
  "target (Entity i) = i"
| "target (Tunneled t i) = t"

text \<open>What an entity refers to: what it was made with, and the drivers registered with it later.\<close>

fun made_with :: "entity \<Rightarrow> nat list" where
  "made_with (EDriver d name uses) = name # map target uses"
| "made_with (ETunnel stream remote mine running) = [target stream]"
| "made_with _ = []"

fun registered :: "entity \<Rightarrow> nat list" where
  "registered (ETunnel stream remote mine running) = map target mine"
| "registered _ = []"

definition refs :: "entity \<Rightarrow> nat list" where
  "refs e = made_with e @ registered e"

fun event_loop :: "entity \<Rightarrow> bool" where
  "event_loop (ETunnel stream remote mine running) = running"
| "event_loop _ = False"

type_synonym context_entities = "entity list"

definition Make :: "entity \<Rightarrow> context_entities \<Rightarrow> nat \<times> context_entities" where
  "Make e es = (length es, es @ [e])"

definition PersistFormat :: "string \<Rightarrow> context_entities \<Rightarrow> nat \<times> context_entities" where
  "PersistFormat formatted es = Make (EString formatted) es"

definition CallWith ::
  "('a \<Rightarrow> entity) \<Rightarrow> cause option + 'a \<Rightarrow> api_error \<Rightarrow> context_entities \<Rightarrow> nat option \<times> api_error \<times> context_entities"
where
  "CallWith wrap exp_result err es =
     (case exp_result of
        Inr x \<Rightarrow> (case Make (wrap x) es of (i, es) \<Rightarrow> (Some i, err, es))
      | Inl c \<Rightarrow> (None, ApiError_assign (error_of c) err, es))"

text \<open>\<open>MakeWith\<close> for a driver: its name is persisted first.\<close>

definition MakeDriver :: "driver_id \<Rightarrow> string \<Rightarrow> pointer list \<Rightarrow> context_entities \<Rightarrow> nat \<times> context_entities" where
  "MakeDriver d name uses es = (case PersistFormat name es of (n, es) \<Rightarrow> Make (EDriver d n uses) es)"

subsection \<open>Streams and servers\<close>

type_synonym made = "((pointer option \<times> api_error \<times> context_entities) \<times> net) option"

text \<open>What follows a connection or an acceptance: the socket is kept, then a driver over it is made.\<close>

definition stream_over :: "('a \<Rightarrow> entity) \<Rightarrow> string \<Rightarrow> cause option + 'a \<Rightarrow> api_error \<Rightarrow> context_entities \<Rightarrow> pointer option \<times> api_error \<times> context_entities" where
  "stream_over wrap name r err es =
     (case CallWith wrap r err es of
        (None, err, es) \<Rightarrow> (None, err, es)
      | (Some persistent, err, es) \<Rightarrow>
          (case MakeDriver ByteStream name [Entity persistent] es of (d, es) \<Rightarrow> (Some (Entity d), err, es)))"

definition ConnectTCP :: "os \<Rightarrow> bool \<Rightarrow> string option \<Rightarrow> u16 \<Rightarrow> api_error \<Rightarrow> context_entities \<Rightarrow> net \<Rightarrow> made" where
  "ConnectTCP os e hostname port err es w =
     (case hostname of
        None \<Rightarrow> Some ((None, err, es), w)
      | Some h \<Rightarrow>
          do { (r, w) \<leftarrow> TCPSocket_Connect os e h port w;
               Some (stream_over ESocket (''TCP -> '' @ h @ '':'' @ show_nat (unat port)) r err es, w) })"

definition ConnectNamedPipe :: "os \<Rightarrow> bool \<Rightarrow> string option \<Rightarrow> api_error \<Rightarrow> context_entities \<Rightarrow> net \<Rightarrow> made" where
  "ConnectNamedPipe os e pipe_name err es w =
     (case pipe_name of
        None \<Rightarrow> Some ((None, err, es), w)
      | Some p \<Rightarrow>
          do { (r, w) \<leftarrow> NamedPipe_Connect os e p w;
               Some (stream_over EPipe (''NamedPipe -> '' @ p) r err es, w) })"

definition as_entity :: "nat option \<times> api_error \<times> context_entities \<Rightarrow> pointer option \<times> api_error \<times> context_entities" where
  "as_entity r = (map_option Entity (fst r), snd r)"

definition ApiTCPServer :: "os \<Rightarrow> bool \<Rightarrow> u16 \<Rightarrow> int \<Rightarrow> api_error \<Rightarrow> context_entities \<Rightarrow> net \<Rightarrow> made" where
  "ApiTCPServer os e port max_num_queued_clients err es w =
     do { (r, w) \<leftarrow> TCPServer_Create os e port max_num_queued_clients w; Some (as_entity (CallWith ETcpServer r err es), w) }"

definition ApiTCPServer_Accept :: "os \<Rightarrow> bool \<Rightarrow> pointer option \<Rightarrow> api_error \<Rightarrow> context_entities \<Rightarrow> net \<Rightarrow> made" where
  "ApiTCPServer_Accept os e m_server err es w =
     (case m_server of
        None \<Rightarrow> Some ((None, err, es), w)
      | Some p \<Rightarrow>
          (case es ! target p of
             ETcpServer s \<Rightarrow>
               do { (r, w) \<leftarrow> TCPServer_Accept os e s w;
                    Some (stream_over ESocket (''TCP <- '' @ show_nat (unat (m_port s))) r err es, w) }
           | _ \<Rightarrow> None))"

definition ApiTCPServer_GetPort :: "pointer option \<Rightarrow> context_entities \<Rightarrow> u16" where
  "ApiTCPServer_GetPort m_server es =
     (case m_server of None \<Rightarrow> 0 | Some p \<Rightarrow> (case es ! target p of ETcpServer s \<Rightarrow> m_port s | _ \<Rightarrow> 0))"

text \<open>The server of a pipe keeps a copy of the name, also when it could not be created; a null name is read.\<close>

definition ApiNamedPipeServer ::
  "os \<Rightarrow> bool \<Rightarrow> string option \<Rightarrow> int \<Rightarrow> api_error \<Rightarrow> context_entities \<Rightarrow> net \<Rightarrow> ((nat \<times> pointer option \<times> api_error \<times> context_entities) \<times> net) option"
where
  "ApiNamedPipeServer os e pipe_name max_num_queued_clients err es w =
     do { p \<leftarrow> pipe_name;
          (r, w) \<leftarrow> NamedPipeServer_Create os e p max_num_queued_clients w;
          case as_entity (CallWith EPipeServer r err es) of (m_server, err, es) \<Rightarrow>
            (case PersistFormat p es of (m_persistent_name, es) \<Rightarrow> Some ((m_persistent_name, m_server, err, es), w)) }"

definition ApiNamedPipeServer_Accept ::
  "os \<Rightarrow> bool \<Rightarrow> nat \<Rightarrow> pointer option \<Rightarrow> api_error \<Rightarrow> context_entities \<Rightarrow> net \<Rightarrow> made"
where
  "ApiNamedPipeServer_Accept os e m_persistent_name m_server err es w =
     (case m_server of
        None \<Rightarrow> Some ((None, err, es), w)
      | Some p \<Rightarrow>
          (case (es ! target p, es ! m_persistent_name) of
             (EPipeServer s, EString name) \<Rightarrow>
               do { (r, w) \<leftarrow> NamedPipeServer_Accept os e s w;
                    Some (stream_over EPipe (''NamedPipe <- '' @ name) r err es, w) }
           | _ \<Rightarrow> None))"

subsection \<open>Drivers over drivers\<close>

text \<open>The pull drivers take the pointer of a gate and cast it to the class of a local gate; null is allowed. The others take a reference
  to a driver, so null is not.\<close>

definition local_gate :: "pointer option \<Rightarrow> pointer list option" where
  "local_gate gate = (case gate of None \<Rightarrow> Some [] | Some (Entity i) \<Rightarrow> Some [Entity i] | Some (Tunneled t i) \<Rightarrow> None)"

definition MakeExecutionGate :: "string \<Rightarrow> context_entities \<Rightarrow> pointer \<times> context_entities" where
  "MakeExecutionGate name es = (case MakeDriver ExecutionGate name [] es of (d, es) \<Rightarrow> (Entity d, es))"

definition MakePullAPB :: "string \<Rightarrow> pointer option \<Rightarrow> context_entities \<Rightarrow> (pointer \<times> context_entities) option" where
  "MakePullAPB name exe_gate es = do { uses \<leftarrow> local_gate exe_gate; case MakeDriver APB name uses es of (d, es) \<Rightarrow> Some (Entity d, es) }"

definition MakePullJtag :: "string \<Rightarrow> pointer option \<Rightarrow> context_entities \<Rightarrow> (pointer \<times> context_entities) option" where
  "MakePullJtag name exe_gate es = do { uses \<leftarrow> local_gate exe_gate; case MakeDriver Jtag name uses es of (d, es) \<Rightarrow> Some (Entity d, es) }"

definition MakeJtagChain :: "string \<Rightarrow> pointer option \<Rightarrow> context_entities \<Rightarrow> (pointer \<times> context_entities) option" where
  "MakeJtagChain name jtag es = do { j \<leftarrow> jtag; case MakeDriver JtagChain name [j] es of (d, es) \<Rightarrow> Some (Entity d, es) }"

definition MakeRVJtagDTM :: "string \<Rightarrow> pointer option \<Rightarrow> context_entities \<Rightarrow> (pointer \<times> context_entities) option" where
  "MakeRVJtagDTM name jtag_chain es = do { j \<leftarrow> jtag_chain; case MakeDriver RVDTM name [j] es of (d, es) \<Rightarrow> Some (Entity d, es) }"

text \<open>A tunnel, with what the other side offers, and the driver that a name stands for.\<close>

definition MakeTunnel :: "pointer option \<Rightarrow> driver_entry list \<Rightarrow> context_entities \<Rightarrow> (nat \<times> context_entities) option" where
  "MakeTunnel byte_stream remote es = do { s \<leftarrow> byte_stream; Some (Make (ETunnel s remote [] False) es) }"

definition FindDriver :: "u32 \<Rightarrow> u8 list \<Rightarrow> nat \<Rightarrow> context_entities \<Rightarrow> pointer option option" where
  "FindDriver driver name tunnel es =
     (case es ! tunnel of ETunnel s remote mine running \<Rightarrow> Some (map_option (Tunneled tunnel) (FindByName driver name remote)) | _ \<Rightarrow> None)"

text \<open>\<open>RegisterDriver\<close> keeps a reference to a valid driver if there is memory for it. A handshake that succeeds starts the event loop.
  \<open>Terminate\<close> ends it: the stream answers its read with an error, and its guard wakes the execution gates among the registered drivers.\<close>

definition IsValid :: "pointer option \<Rightarrow> bool" where
  "IsValid m_driver = (m_driver \<noteq> None)"

definition ApiRegisterDriver :: "bool \<Rightarrow> pointer option \<Rightarrow> nat \<Rightarrow> context_entities \<Rightarrow> context_entities option" where
  "ApiRegisterDriver has_memory driver tunnel es =
     (if \<not> IsValid driver then Some es
      else case es ! tunnel of
             ETunnel s remote mine running \<Rightarrow>
               Some (if has_memory then es[tunnel := ETunnel s remote (mine @ [the driver]) running] else es)
           | _ \<Rightarrow> None)"

definition StartEventLoop :: "bool \<Rightarrow> nat \<Rightarrow> context_entities \<Rightarrow> context_entities option" where
  "StartEventLoop handshake_ok tunnel es =
     (case es ! tunnel of
        ETunnel s remote mine running \<Rightarrow> Some (es[tunnel := ETunnel s remote mine (running \<or> handshake_ok)])
      | _ \<Rightarrow> None)"

fun TerminateEntity :: "entity \<Rightarrow> entity" where
  "TerminateEntity (ETunnel s remote mine running) = ETunnel s remote mine False"
| "TerminateEntity e = e"

definition TerminateTunnel :: "nat \<Rightarrow> context_entities \<Rightarrow> context_entities option" where
  "TerminateTunnel tunnel es =
     (case es ! tunnel of
        ETunnel s remote mine running \<Rightarrow> Some (es[tunnel := TerminateEntity (es ! tunnel)])
      | _ \<Rightarrow> None)"

subsection \<open>Destruction\<close>

text \<open>Every object of the interface shares the ownership of the context, so all of them go before it; the destructor of a
  tunnel object terminates its tunnel.\<close>

definition release_objects :: "context_entities \<Rightarrow> context_entities" where
  "release_objects es = map TerminateEntity es"

text \<open>The destructor of the context resets its entities from the last to the first. The destructor of an entity may use
  whatever the entity was made with; that of a tunnel whose event loop runs ends the loop, which reads every registered
  driver.\<close>

definition destructor_uses :: "entity \<Rightarrow> nat list" where
  "destructor_uses e = made_with e @ (if event_loop e then registered e else [])"

fun destroy_entities :: "context_entities \<Rightarrow> nat \<Rightarrow> bool list \<Rightarrow> bool list option" where
  "destroy_entities es 0 alive = Some alive"
| "destroy_entities es (Suc i) alive =
     do { assert_that (list_all (\<lambda>r. r < length alive \<and> alive ! r) (destructor_uses (es ! i)));
          destroy_entities es i (alive[i := False]) }"

definition ContextDestroy :: "context_entities \<Rightarrow> bool list option" where
  "ContextDestroy es = destroy_entities es (length es) (replicate (length es) True)"

subsection \<open>The tunnel's server\<close>

text \<open>\<open>Hanshake\<close>: \<open>task\<close> is the error that the coroutine of the tunnel returned, \<open>None\<close> when there was no memory for its frame. The condition
  asks \<open>task->Success()\<close>, which is the function that makes an error for success.\<close>

definition Hanshake :: "error option \<Rightarrow> api_error \<Rightarrow> api_error option" where
  "Hanshake task err =
     do { e \<leftarrow> task; made_success \<leftarrow> ErrorBool ErrorSuccess; Some (if \<not> made_success then ApiError_assign e err else err) }"

text \<open>The thread of the server is joinable or not; assigning to a joinable one ends the program.\<close>

definition StartServer :: "error option \<Rightarrow> api_error \<Rightarrow> bool \<Rightarrow> (api_error \<times> bool) option" where
  "StartServer task err m_server =
     do { err \<leftarrow> Hanshake task err;
          failed_before \<leftarrow> ApiError_Fail err;
          if failed_before then Some (err, m_server) else do { assert_that (\<not> m_server); Some (err, True) } }"

text \<open>The handshake always assigns its result, a success too. A failed handshake makes \<open>StartServer\<close> read an indeterminate flag, and a
  second start ends the program.\<close>

theorem StartServer_cases:
  "Hanshake (Some e) err = Some (ApiError_assign e err) \<and> Hanshake None err = None
   \<and> StartServer (Some ErrorSuccess) err False = Some (ApiError, True) \<and> StartServer (Some ErrorSuccess) err True = None
   \<and> StartServer (Some (ErrorMake True c)) err m_server = None"
  by (simp add: Hanshake_def StartServer_def ErrorBool_def ErrorSuccess_def ErrorMake_def ApiError_assign_def ApiError_def ApiError_Fail_def)

subsection \<open>Every entity outlives those that use it\<close>

text \<open>What clients make in a context. The objects they have are pointers, in the order in which they got them.\<close>

datatype make_call =
    MConnectTCP "string option" u16
  | MConnectNamedPipe "string option"
  | MTCPServer u16 int
  | MTCPAccept nat
  | MNamedPipeServer "string option" int
  | MNamedPipeAccept nat nat
  | MExecutionGate string
  | MPullAPB string nat
  | MPullJtag string nat
  | MJtagChain string nat
  | MRVJtagDTM string nat
  | MTunnel nat "driver_entry list"
  | MFind u32 "u8 list" nat
  | MRegister nat nat bool
  | MStart nat bool
  | MTerminate nat

type_synonym objects = "context_entities \<times> pointer option list \<times> net"

definition add_object :: "pointer option list \<Rightarrow> made \<Rightarrow> objects option" where
  "add_object hs m = map_option (\<lambda>((p, err, es), w). (es, hs @ [p], w)) m"

definition add_driver :: "pointer option list \<Rightarrow> net \<Rightarrow> (pointer \<times> context_entities) option \<Rightarrow> objects option" where
  "add_driver hs w m = map_option (\<lambda>(p, es). (es, hs @ [Some p], w)) m"

definition handle :: "nat \<Rightarrow> pointer option list \<Rightarrow> pointer option option" where
  "handle i hs = (if i < length hs then Some (hs ! i) else None)"

fun perform_make :: "os \<Rightarrow> bool \<Rightarrow> make_call \<Rightarrow> objects \<Rightarrow> objects option" where
  "perform_make os e (MConnectTCP hostname port) (es, hs, w) = add_object hs (ConnectTCP os e hostname port ApiError es w)"
| "perform_make os e (MConnectNamedPipe pipe_name) (es, hs, w) = add_object hs (ConnectNamedPipe os e pipe_name ApiError es w)"
| "perform_make os e (MTCPServer port queued) (es, hs, w) = add_object hs (ApiTCPServer os e port queued ApiError es w)"
| "perform_make os e (MTCPAccept i) (es, hs, w) =
     do { s \<leftarrow> handle i hs; add_object hs (ApiTCPServer_Accept os e s ApiError es w) }"
| "perform_make os e (MNamedPipeServer pipe_name queued) (es, hs, w) =
     do { ((n, p, err, es), w) \<leftarrow> ApiNamedPipeServer os e pipe_name queued ApiError es w; Some (es, hs @ [p], w) }"
| "perform_make os e (MNamedPipeAccept n i) (es, hs, w) =
     do { s \<leftarrow> handle i hs; add_object hs (ApiNamedPipeServer_Accept os e n s ApiError es w) }"
| "perform_make os e (MExecutionGate name) (es, hs, w) = add_driver hs w (Some (MakeExecutionGate name es))"
| "perform_make os e (MPullAPB name i) (es, hs, w) = do { g \<leftarrow> handle i hs; add_driver hs w (MakePullAPB name g es) }"
| "perform_make os e (MPullJtag name i) (es, hs, w) = do { g \<leftarrow> handle i hs; add_driver hs w (MakePullJtag name g es) }"
| "perform_make os e (MJtagChain name i) (es, hs, w) = do { j \<leftarrow> handle i hs; add_driver hs w (MakeJtagChain name j es) }"
| "perform_make os e (MRVJtagDTM name i) (es, hs, w) = do { j \<leftarrow> handle i hs; add_driver hs w (MakeRVJtagDTM name j es) }"
| "perform_make os e (MTunnel i remote) (es, hs, w) =
     do { s \<leftarrow> handle i hs; (t, es) \<leftarrow> MakeTunnel s remote es; Some (es, hs @ [Some (Entity t)], w) }"
| "perform_make os e (MFind driver name i) (es, hs, w) =
     do { t \<leftarrow> handle i hs; t \<leftarrow> t; p \<leftarrow> FindDriver driver name (target t) es; Some (es, hs @ [p], w) }"
| "perform_make os e (MRegister i d has_memory) (es, hs, w) =
     do { t \<leftarrow> handle i hs; t \<leftarrow> t; p \<leftarrow> handle d hs; es \<leftarrow> ApiRegisterDriver has_memory p (target t) es; Some (es, hs, w) }"
| "perform_make os e (MStart i handshake_ok) (es, hs, w) =
     do { t \<leftarrow> handle i hs; t \<leftarrow> t; es \<leftarrow> StartEventLoop handshake_ok (target t) es; Some (es, hs, w) }"
| "perform_make os e (MTerminate i) (es, hs, w) =
     do { t \<leftarrow> handle i hs; t \<leftarrow> t; es \<leftarrow> TerminateTunnel (target t) es; Some (es, hs, w) }"

fun perform_makes :: "os \<Rightarrow> bool \<Rightarrow> make_call list \<Rightarrow> objects \<Rightarrow> objects option" where
  "perform_makes os e [] st = Some st"
| "perform_makes os e (c # cs) st = do { st \<leftarrow> perform_make os e c st; perform_makes os e cs st }"

definition ordered :: "context_entities \<Rightarrow> bool" where
  "ordered es \<longleftrightarrow> (\<forall>i < length es. (\<forall>r \<in> set (made_with (es ! i)). r < i) \<and> (\<forall>r \<in> set (refs (es ! i)). r < length es))"

definition points_to :: "context_entities \<Rightarrow> pointer option \<Rightarrow> bool" where
  "points_to es p \<longleftrightarrow> (case p of None \<Rightarrow> True | Some p \<Rightarrow> target p < length es)"

definition objects_inv :: "context_entities \<Rightarrow> pointer option list \<Rightarrow> bool" where
  "objects_inv es hs \<longleftrightarrow> ordered es \<and> list_all (points_to es) hs"

text \<open>A call only appends entities, and returns a pointer to one of them.\<close>

definition makes :: "context_entities \<Rightarrow> pointer option \<Rightarrow> context_entities \<Rightarrow> bool" where
  "makes es p es' \<longleftrightarrow> (ordered es \<longrightarrow> ordered es') \<and> length es \<le> length es' \<and> points_to es' p"

lemma ordered_snoc: "ordered es \<Longrightarrow> \<forall>r \<in> set (refs e). r < length es \<Longrightarrow> ordered (es @ [e])"
  by (auto simp: ordered_def refs_def nth_append less_Suc_eq)

lemma refs_plain [simp]:
  "refs (EString n) = []" "refs (ESocket s) = []" "refs (ETcpServer ts) = []" "refs (EPipe p) = []" "refs (EPipeServer ps) = []"
  by (simp_all add: refs_def)

lemma ordered_update:
  assumes "ordered es" "made_with e = made_with (es ! i)" "\<forall>r \<in> set (registered e). r < length es"
  shows "ordered (es[i := e])"
  unfolding ordered_def refs_def
proof (intro allI impI)
  fix j
  assume "j < length (es[i := e])"
  then show "(\<forall>r \<in> set (made_with (es[i := e] ! j)). r < j) \<and>
      (\<forall>r \<in> set (made_with (es[i := e] ! j) @ registered (es[i := e] ! j)). r < length (es[i := e]))"
    using assms by (cases "j = i") (auto simp: ordered_def refs_def)
qed

text \<open>Registering, starting and terminating change one tunnel.\<close>

lemma tunnel_update:
  "ApiRegisterDriver has_memory d t es = Some es' \<Longrightarrow> ordered es \<Longrightarrow> points_to es d \<Longrightarrow> t < length es \<Longrightarrow>
     ordered es' \<and> length es' = length es"
  "StartEventLoop handshake_ok t es = Some es' \<Longrightarrow> ordered es \<Longrightarrow> t < length es \<Longrightarrow> ordered es' \<and> length es' = length es"
  "TerminateTunnel t es = Some es' \<Longrightarrow> ordered es \<Longrightarrow> t < length es \<Longrightarrow> ordered es' \<and> length es' = length es"
proof -
  have old: "r < length es" if "ordered es" "t < length es" "r \<in> set (registered (es ! t))" for r
    using that by (auto simp: ordered_def refs_def)
  show "ApiRegisterDriver has_memory d t es = Some es' \<Longrightarrow> ordered es \<Longrightarrow> points_to es d \<Longrightarrow> t < length es \<Longrightarrow>
     ordered es' \<and> length es' = length es"
    using old by (fastforce simp: ApiRegisterDriver_def IsValid_def points_to_def intro!: ordered_update split: option.splits entity.splits if_splits)
  show "StartEventLoop handshake_ok t es = Some es' \<Longrightarrow> ordered es \<Longrightarrow> t < length es \<Longrightarrow> ordered es' \<and> length es' = length es"
    using old by (fastforce simp: StartEventLoop_def intro!: ordered_update split: entity.splits)
  show "TerminateTunnel t es = Some es' \<Longrightarrow> ordered es \<Longrightarrow> t < length es \<Longrightarrow> ordered es' \<and> length es' = length es"
    using old by (fastforce simp: TerminateTunnel_def intro!: ordered_update split: entity.splits)
qed

lemma makes_objects: "objects_inv es hs \<Longrightarrow> makes es p es' \<Longrightarrow> objects_inv es' (hs @ [p])"
  by (auto simp: objects_inv_def makes_def points_to_def list_all_iff split: option.splits)

lemma MakeDriver_makes:
  assumes "MakeDriver d name uses es = (i, es')" "\<forall>p \<in> set uses. target p < length es"
  shows "makes es (Some (Entity i)) es'"
proof -
  have es': "es' = (es @ [EString name]) @ [EDriver d (length es) uses]" "i = Suc (length es)"
    using assms(1) by (auto simp: MakeDriver_def PersistFormat_def Make_def)
  have "ordered es'" if "ordered es"
    unfolding es'(1) using that assms(2) by (intro ordered_snoc) (auto simp: refs_def intro: less_SucI)
  then show ?thesis using es' by (simp add: makes_def points_to_def)
qed

lemma CallWith_makes:
  assumes "CallWith wrap r err es = (p, err', es')" "\<And>x. refs (wrap x) = []"
  shows "makes es (map_option Entity p) es'" "p = Some i \<Longrightarrow> i < length es'"
  using assms by (auto simp: CallWith_def Make_def makes_def points_to_def intro!: ordered_snoc split: sum.splits)

lemma stream_over_makes:
  assumes "stream_over wrap name r err es = (p, err', es')" "\<And>x. refs (wrap x) = []"
  shows "makes es p es'"
proof -
  obtain q e1 es1 where c: "CallWith wrap r err es = (q, e1, es1)" by (cases "CallWith wrap r err es")
  note C = CallWith_makes [OF c assms(2)]
  show ?thesis
  proof (cases q)
    case None
    then show ?thesis using assms(1) c C(1) by (simp add: stream_over_def)
  next
    case (Some i)
    obtain d es2 where d: "MakeDriver ByteStream name [Entity i] es1 = (d, es2)" by fastforce
    then have "makes es1 (Some (Entity d)) es2" using C(2) Some by (intro MakeDriver_makes) auto
    moreover have "p = Some (Entity d)" "es' = es2" using assms(1) c Some d by (auto simp: stream_over_def)
    ultimately show ?thesis using C(1) by (auto simp: makes_def)
  qed
qed

lemma made_inv:
  assumes "add_object hs m = Some st'" "objects_inv es hs"
    and "\<And>p err es1 w1. m = Some ((p, err, es1), w1) \<Longrightarrow> makes es p es1"
  shows "objects_inv (fst st') (fst (snd st'))"
  using assms makes_objects [OF assms(2)] by (auto simp: add_object_def)

lemma driver_inv:
  assumes "add_driver hs w m = Some st'" "objects_inv es hs" "\<And>p es1. m = Some (p, es1) \<Longrightarrow> makes es (Some p) es1"
  shows "objects_inv (fst st') (fst (snd st'))"
  using assms makes_objects [OF assms(2)] by (auto simp: add_driver_def)

lemma handle_target: "objects_inv es hs \<Longrightarrow> handle i hs = Some (Some p) \<Longrightarrow> target p < length es"
  by (auto simp: handle_def objects_inv_def points_to_def list_all_length split: if_splits option.splits)

text \<open>The calls that connect and accept.\<close>

lemma streams_make:
  "ConnectTCP os e hostname port err es w = Some ((p, err', es'), w') \<Longrightarrow> makes es p es'"
  "ConnectNamedPipe os e pipe_name err es w = Some ((p, err', es'), w') \<Longrightarrow> makes es p es'"
  "ApiTCPServer_Accept os e s err es w = Some ((p, err', es'), w') \<Longrightarrow> makes es p es'"
  "ApiNamedPipeServer_Accept os e n s err es w = Some ((p, err', es'), w') \<Longrightarrow> makes es p es'"
proof -
  have none: "makes es None es" by (simp add: makes_def points_to_def)
  show "ConnectTCP os e hostname port err es w = Some ((p, err', es'), w') \<Longrightarrow> makes es p es'"
    using none by (auto simp: ConnectTCP_def bind_eq_Some_conv intro: stream_over_makes split: option.splits)
  show "ConnectNamedPipe os e pipe_name err es w = Some ((p, err', es'), w') \<Longrightarrow> makes es p es'"
    using none by (auto simp: ConnectNamedPipe_def bind_eq_Some_conv intro: stream_over_makes split: option.splits)
  show "ApiTCPServer_Accept os e s err es w = Some ((p, err', es'), w') \<Longrightarrow> makes es p es'"
    using none by (auto simp: ApiTCPServer_Accept_def bind_eq_Some_conv intro: stream_over_makes split: option.splits entity.splits)
  show "ApiNamedPipeServer_Accept os e n s err es w = Some ((p, err', es'), w') \<Longrightarrow> makes es p es'"
    using none by (auto simp: ApiNamedPipeServer_Accept_def bind_eq_Some_conv intro: stream_over_makes split: option.splits entity.splits)
qed

lemma servers_make:
  "ApiTCPServer os e port queued err es w = Some ((p, err', es'), w') \<Longrightarrow> makes es p es'"
  "ApiNamedPipeServer os e pipe_name queued err es w = Some ((n, p, err', es'), w') \<Longrightarrow> makes es p es'"
proof -
  show "ApiTCPServer os e port queued err es w = Some ((p, err', es'), w') \<Longrightarrow> makes es p es'"
    by (auto simp: ApiTCPServer_def as_entity_def bind_eq_Some_conv intro!: CallWith_makes(1) simp: prod_eq_iff)
next
  assume a: "ApiNamedPipeServer os e pipe_name queued err es w = Some ((n, p, err', es'), w')"
  then obtain r q e1 es1 where c: "CallWith EPipeServer r err es = (q, e1, es1)" and p: "p = map_option Entity q" "es' = es1 @ [EString (the pipe_name)]"
    by (cases pipe_name) (auto simp: ApiNamedPipeServer_def as_entity_def bind_eq_Some_conv PersistFormat_def Make_def prod_eq_iff split: prod.splits)
  have m: "makes es (map_option Entity q) es1" using CallWith_makes(1) [OF c] by simp
  show "makes es p es'" using m p by (auto simp: makes_def points_to_def intro!: ordered_snoc split: option.splits)
qed

lemma drivers_make:
  assumes "\<And>q. p = Some q \<Longrightarrow> target q < length es"
  shows "MakePullAPB name p es = Some (q, es') \<Longrightarrow> makes es (Some q) es'" "MakePullJtag name p es = Some (q, es') \<Longrightarrow> makes es (Some q) es'"
    "MakeJtagChain name p es = Some (q, es') \<Longrightarrow> makes es (Some q) es'" "MakeRVJtagDTM name p es = Some (q, es') \<Longrightarrow> makes es (Some q) es'"
proof -
  have over: "makes es (Some (Entity (fst (MakeDriver k name uses es)))) (snd (MakeDriver k name uses es))"
    if "\<forall>u \<in> set uses. p = Some u" for k uses
    using that assms by (intro MakeDriver_makes [of k name uses es]) auto
  have gate: "\<forall>u \<in> set uses. p = Some u" if "local_gate p = Some uses" for uses
    using that by (auto simp: local_gate_def split: option.splits pointer.splits)
  show "MakePullAPB name p es = Some (q, es') \<Longrightarrow> makes es (Some q) es'"
    using over gate by (auto simp: MakePullAPB_def bind_eq_Some_conv case_prod_beta)
  show "MakePullJtag name p es = Some (q, es') \<Longrightarrow> makes es (Some q) es'"
    using over gate by (auto simp: MakePullJtag_def bind_eq_Some_conv case_prod_beta)
  show "MakeJtagChain name p es = Some (q, es') \<Longrightarrow> makes es (Some q) es'"
    using over [of "[the p]"] by (auto simp: MakeJtagChain_def bind_eq_Some_conv case_prod_beta)
  show "MakeRVJtagDTM name p es = Some (q, es') \<Longrightarrow> makes es (Some q) es'"
    using over [of "[the p]"] by (auto simp: MakeRVJtagDTM_def bind_eq_Some_conv case_prod_beta)
qed

lemma points_to_length: "length es = length es' \<Longrightarrow> points_to es = points_to es'"
  by (simp add: fun_eq_iff points_to_def split: option.split)

lemma perform_make_inv:
  "objects_inv (fst st) (fst (snd st)) \<Longrightarrow> perform_make os e c st = Some st' \<Longrightarrow> objects_inv (fst st') (fst (snd st'))"
proof (induction os e c st rule: perform_make.induct)
  case (1 os e hostname port es hs w)
  then have "add_object hs (ConnectTCP os e hostname port ApiError es w) = Some st'" by simp
  then show ?case by (rule made_inv) (use 1(1) in \<open>auto dest: streams_make(1)\<close>)
next
  case (2 os e pipe_name es hs w)
  then have "add_object hs (ConnectNamedPipe os e pipe_name ApiError es w) = Some st'" by simp
  then show ?case by (rule made_inv) (use 2(1) in \<open>auto dest: streams_make(2)\<close>)
next
  case (3 os e port queued es hs w)
  then have "add_object hs (ApiTCPServer os e port queued ApiError es w) = Some st'" by simp
  then show ?case by (rule made_inv) (use 3(1) in \<open>auto dest: servers_make(1)\<close>)
next
  case (4 os e i es hs w)
  then obtain s where "add_object hs (ApiTCPServer_Accept os e s ApiError es w) = Some st'" by (auto simp: bind_eq_Some_conv)
  then show ?case by (rule made_inv) (use 4(1) in \<open>auto dest: streams_make(3)\<close>)
next
  case (5 os e pipe_name queued es hs w)
  then show ?case using makes_objects servers_make(2) by (auto simp: bind_eq_Some_conv)
next
  case (6 os e n i es hs w)
  then obtain s where "add_object hs (ApiNamedPipeServer_Accept os e n s ApiError es w) = Some st'" by (auto simp: bind_eq_Some_conv)
  then show ?case by (rule made_inv) (use 6(1) in \<open>auto dest: streams_make(4)\<close>)
next
  case (7 os e name es hs w)
  obtain d es1 where d: "MakeDriver ExecutionGate name [] es = (d, es1)" by fastforce
  then have "makes es (Some (Entity d)) es1" by (intro MakeDriver_makes) auto
  then show ?case using 7 d makes_objects by (auto simp: add_driver_def MakeExecutionGate_def)
next
  case (8 os e name i es hs w)
  then obtain p where p: "handle i hs = Some p" and d: "add_driver hs w (MakePullAPB name p es) = Some st'" by (auto simp: bind_eq_Some_conv)
  have "target q < length es" if "p = Some q" for q using that handle_target [of es hs i] 8(1) p by simp
  then have "makes es (Some q) es1" if "MakePullAPB name p es = Some (q, es1)" for q es1 using drivers_make(1) [OF _ that] by blast
  then show ?case using driver_inv [OF d, of es] 8(1) by simp
next
  case (9 os e name i es hs w)
  then obtain p where p: "handle i hs = Some p" and d: "add_driver hs w (MakePullJtag name p es) = Some st'" by (auto simp: bind_eq_Some_conv)
  have "target q < length es" if "p = Some q" for q using that handle_target [of es hs i] 9(1) p by simp
  then have "makes es (Some q) es1" if "MakePullJtag name p es = Some (q, es1)" for q es1 using drivers_make(2) [OF _ that] by blast
  then show ?case using driver_inv [OF d, of es] 9(1) by simp
next
  case (10 os e name i es hs w)
  then obtain p where p: "handle i hs = Some p" and d: "add_driver hs w (MakeJtagChain name p es) = Some st'" by (auto simp: bind_eq_Some_conv)
  have "target q < length es" if "p = Some q" for q using that handle_target [of es hs i] 10(1) p by simp
  then have "makes es (Some q) es1" if "MakeJtagChain name p es = Some (q, es1)" for q es1 using drivers_make(3) [OF _ that] by blast
  then show ?case using driver_inv [OF d, of es] 10(1) by simp
next
  case (11 os e name i es hs w)
  then obtain p where p: "handle i hs = Some p" and d: "add_driver hs w (MakeRVJtagDTM name p es) = Some st'" by (auto simp: bind_eq_Some_conv)
  have "target q < length es" if "p = Some q" for q using that handle_target [of es hs i] 11(1) p by simp
  then have "makes es (Some q) es1" if "MakeRVJtagDTM name p es = Some (q, es1)" for q es1 using drivers_make(4) [OF _ that] by blast
  then show ?case using driver_inv [OF d, of es] 11(1) by simp
next
  case (12 os e i remote es hs w)
  then obtain s where s: "handle i hs = Some (Some s)" "st' = (es @ [ETunnel s remote [] False], hs @ [Some (Entity (length es))], w)"
    by (auto simp: bind_eq_Some_conv MakeTunnel_def Make_def)
  have "makes es (Some (Entity (length es))) (es @ [ETunnel s remote [] False])"
    using handle_target [OF _ s(1)] 12(1) by (auto simp: makes_def points_to_def refs_def intro!: ordered_snoc)
  then show ?case using makes_objects 12(1) s(2) by simp
next
  case (13 os e driver name i es hs w)
  then obtain t p where t: "handle i hs = Some (Some t)" "FindDriver driver name (target t) es = Some p" "st' = (es, hs @ [p], w)"
    by (auto simp: bind_eq_Some_conv)
  have "points_to es p" using t(2) handle_target [OF _ t(1)] 13(1) by (auto simp: FindDriver_def points_to_def split: entity.splits option.splits)
  then show ?case using 13(1) t(3) by (simp add: objects_inv_def)
next
  case (14 os e i d has_memory es hs w)
  then obtain t p es1 where t: "handle i hs = Some (Some t)" "handle d hs = Some p" "ApiRegisterDriver has_memory p (target t) es = Some es1"
    "st' = (es1, hs, w)" by (auto simp: bind_eq_Some_conv)
  have "points_to es p" using t(2) 14(1) by (auto simp: handle_def objects_inv_def list_all_length split: if_splits)
  then show ?case using tunnel_update(1) [OF t(3)] handle_target [OF _ t(1)] 14(1) t(4) points_to_length [of es1 es] by (auto simp: objects_inv_def)
next
  case (15 os e i handshake_ok es hs w)
  then obtain t es1 where t: "handle i hs = Some (Some t)" "StartEventLoop handshake_ok (target t) es = Some es1" "st' = (es1, hs, w)"
    by (auto simp: bind_eq_Some_conv)
  then show ?case using tunnel_update(2) [OF t(2)] handle_target [OF _ t(1)] 15(1) t(3) points_to_length [of es1 es] by (auto simp: objects_inv_def)
next
  case (16 os e i es hs w)
  then obtain t es1 where t: "handle i hs = Some (Some t)" "TerminateTunnel (target t) es = Some es1" "st' = (es1, hs, w)"
    by (auto simp: bind_eq_Some_conv)
  then show ?case using tunnel_update(3) [OF t(2)] handle_target [OF _ t(1)] 16(1) t(3) points_to_length [of es1 es] by (auto simp: objects_inv_def)
qed

lemma perform_makes_inv:
  "perform_makes os e cs st = Some st' \<Longrightarrow> objects_inv (fst st) (fst (snd st)) \<Longrightarrow> objects_inv (fst st') (fst (snd st'))"
  by (induction cs arbitrary: st) (auto simp: bind_eq_Some_conv dest: perform_make_inv)

lemma destroy_entities_result:
  assumes "\<forall>e \<in> set es. \<forall>r \<in> set (destructor_uses e). r < length es" "i \<le> length es"
  shows "destroy_entities es i (replicate i True @ replicate (length es - i) False) =
    (if \<forall>j < i. \<forall>r \<in> set (destructor_uses (es ! j)). r \<le> j then Some (replicate (length es) False) else None)"
  using assms(2)
proof (induction i)
  case (Suc i)
  let ?alive = "replicate (Suc i) True @ replicate (length es - Suc i) False"
  have "?alive ! r \<longleftrightarrow> r \<le> i" if "r < length es" for r using that by (auto simp: nth_append simp del: replicate_Suc)
  then have check: "list_all (\<lambda>r. r < length ?alive \<and> ?alive ! r) (destructor_uses (es ! i)) \<longleftrightarrow> (\<forall>r \<in> set (destructor_uses (es ! i)). r \<le> i)"
    using assms(1) Suc.prems by (auto simp: list_all_iff simp del: replicate_Suc)
  have "?alive[i := False] = replicate i True @ replicate (length es - i) False"
    using Suc.prems by (intro nth_equalityI) (auto simp: nth_append nth_list_update simp del: replicate_Suc)
  then show ?case
    using Suc check by (auto simp: less_Suc_eq simp del: replicate_Suc)
qed simp

lemma ContextDestroy_result:
  assumes "ordered es"
  shows "ContextDestroy es =
    (if \<forall>i < length es. event_loop (es ! i) \<longrightarrow> (\<forall>r \<in> set (registered (es ! i)). r \<le> i)
     then Some (replicate (length es) False) else None)"
proof -
  have small: "\<forall>e \<in> set es. \<forall>r \<in> set (destructor_uses e). r < length es"
  proof (intro ballI)
    fix e r
    assume "e \<in> set es" "r \<in> set (destructor_uses e)"
    then obtain i where "i < length es" "r \<in> set (refs (es ! i))"
      by (auto simp: in_set_conv_nth refs_def destructor_uses_def split: if_splits)
    then show "r < length es" using assms by (simp add: ordered_def)
  qed
  have "(\<forall>r \<in> set (destructor_uses (es ! i)). r \<le> i) \<longleftrightarrow>
      (event_loop (es ! i) \<longrightarrow> (\<forall>r \<in> set (registered (es ! i)). r \<le> i))" if "i < length es" for i
  proof -
    have "\<forall>r \<in> set (made_with (es ! i)). r \<le> i" using assms that by (meson less_imp_le ordered_def)
    then show ?thesis by (auto simp: destructor_uses_def)
  qed
  then show ?thesis
    using destroy_entities_result [OF small order_refl] by (simp add: ContextDestroy_def cong: conj_cong)
qed

lemma TerminateEntity_simps [simp]:
  "made_with (TerminateEntity e) = made_with e" "registered (TerminateEntity e) = registered e" "\<not> event_loop (TerminateEntity e)"
  by (cases e; simp)+


text \<open>The order of \<open>test/python/jtag_verilator/jtag_verilator.sv\<close>: the chain is made after the tunnel and registered with it. If the context
  went while the event loop runs, the loop would read the destroyed chain.\<close>

definition client_calls :: "make_call list" where
  "client_calls = [MConnectTCP (Some ''host'') 1, MTunnel 0 [], MExecutionGate ''gate'', MPullJtag ''jtag'' 2, MRegister 1 3 True,
     MJtagChain ''chain'' 3, MRegister 1 4 True, MStart 1 True]"


text \<open>A null host name or pipe name gives an invalid stream and leaves the error as it was, a success.\<close>

theorem null_name_not_reported:
  "ConnectTCP os e None port ApiError es w = Some ((None, ApiError, es), w) \<and> ConnectNamedPipe os e None ApiError es w = Some ((None, ApiError, es), w)
   \<and> ApiError_Fail ApiError = Some False \<and> ApiNamedPipeServer os e None queued err es w = None"
  by (simp add: ConnectTCP_def ConnectNamedPipe_def ApiError_Fail_def ApiError_def ErrorBool_def ErrorSuccess_def ApiNamedPipeServer_def)

text \<open>The text of an error is the one of its last assignment.\<close>

theorem error_message_current:
  assumes "ApiError_Message strerror (ApiError_assign e err) = Some (t, err')" "ApiError_Message strerror err' = Some (t', err'')"
  shows "format_error strerror e = Some t \<and> t' = t \<and> m_error err'' = e"
  using assms by (auto simp: ApiError_Message_def ApiError_assign_def bind_eq_Some_conv split: if_splits)

end
