(* ===== verification/Pull_Queue.thy ===== *)
theory Pull_Queue
  imports Resolution_Queue Execution_Gate
begin

text \<open>
  What \<open>PullAPB\<close> and \<open>PullJtag\<close> (\<open>driver/apb/PullAPB.cpp\<close>, \<open>driver/jtag/PullJtag.cpp\<close>) have in common: a
  queue of transactions that one generator coroutine turns into commands for a simulation and
  another completes from the simulation's results, and the execution gate that lets the simulation
  run while there are transactions.

  The transactions are numbered in the order in which they are accepted, and the number names the
  item that the executing coroutine enqueues. \<open>m_txs\<close> holds the transactions of the items that exist.
  Resolving an item resumes the coroutine that waits for it, which takes the status away and
  destroys the item; the model does so at once, so that any later access to the item is an access
  out of its lifetime, which is \<open>None\<close>. \<open>accepted\<close> and \<open>finished\<close> are the history.
\<close>

record 'o pull_queue =
  m_queue :: rqueue
  m_txs :: "nat \<rightharpoonup> 'o status"
  m_exe_gate :: "exe_gate option"
  accepted :: "'o status list"
  finished :: "'o status list"

definition new_pull_queue :: "exe_gate option \<Rightarrow> 'o pull_queue" where
  "new_pull_queue gate = \<lparr>m_queue = empty_rqueue, m_txs = Map.empty, m_exe_gate = gate,
     accepted = [], finished = []\<rparr>"

text \<open>\<open>Execute\<close> up to its \<open>co_await\<close>.\<close>

definition pull_execute :: "'o status \<Rightarrow> 'o pull_queue \<Rightarrow> 'o pull_queue option" where
  "pull_execute tx c =
     (let item = length (accepted c) in
      do { q \<leftarrow> Enqueue item (new_item item (m_queue c));
           Some (c\<lparr>m_queue := q, m_txs := (m_txs c)(item \<mapsto> tx),
                   m_exe_gate := map_option AddPending (m_exe_gate c), accepted := accepted c @ [tx]\<rparr>) })"

definition pull_start :: "'o pull_queue \<Rightarrow> (nat \<times> 'o pull_queue) option" where
  "pull_start c = do { (x, q) \<leftarrow> StartNextScheduled (m_queue c); Some (x, c\<lparr>m_queue := q\<rparr>) }"

definition set_tx :: "nat \<Rightarrow> 'o status \<Rightarrow> 'o pull_queue \<Rightarrow> 'o pull_queue" where
  "set_tx x tx c = c\<lparr>m_txs := (m_txs c)(x \<mapsto> tx)\<rparr>"

text \<open>The front of the items in progress is taken out of the queue and resolved.\<close>

definition resolve_front :: "'o pull_queue \<Rightarrow> 'o pull_queue option" where
  "resolve_front c =
     do { (x, q) \<leftarrow> PrepareToResolve (m_queue c);
          tx \<leftarrow> m_txs c x;
          Some (c\<lparr>m_queue := drop_item x q, m_txs := (m_txs c)(x := None), finished := finished c @ [tx]\<rparr>) }"

definition pull_finish :: "'o pull_queue \<Rightarrow> 'o pull_queue option" where
  "pull_finish c = resolve_front (c\<lparr>m_exe_gate := map_option RemovePending (m_exe_gate c)\<rparr>)"

partial_function (option) start_all :: "'o pull_queue \<Rightarrow> 'o pull_queue option" where
  "start_all c =
     (if NoScheduled (m_queue c) then Some c
      else do { (_, c) \<leftarrow> pull_start c; start_all c })"

partial_function (option) resolve_all :: "'o pull_queue \<Rightarrow> 'o pull_queue option" where
  "resolve_all c =
     (if NoInProgress (m_queue c) then Some c
      else do { c \<leftarrow> resolve_front c; resolve_all c })"

definition pull_terminate :: "'o pull_queue \<Rightarrow> 'o pull_queue option" where
  "pull_terminate c =
     do { c \<leftarrow> start_all c;
          c \<leftarrow> resolve_all c;
          Some (c\<lparr>m_exe_gate := map_option Execution_Gate.Terminate (m_exe_gate c)\<rparr>) }"

subsection \<open>The invariant\<close>

text \<open>The first transactions are finished, those below \<open>b\<close> are in progress, the others are scheduled.
  \<open>clean\<close>: the links do not lead from an item in progress to a scheduled one.\<close>

definition clean :: "'o pull_queue \<Rightarrow> nat \<Rightarrow> bool" where
  "clean c b \<longleftrightarrow>
     (if length (finished c) = b then m_in_progress_head (m_queue c) = None
      else rq_next (m_queue c) (b - 1) = None)"

definition pull_inv :: "nat \<Rightarrow> 'o pull_queue \<Rightarrow> bool" where
  "pull_inv b c \<longleftrightarrow>
     length (finished c) \<le> b \<and> b \<le> length (accepted c) \<and>
     rq_rep (m_queue c) [b..<length (accepted c)] [length (finished c)..<b] \<and>
     rq_items (m_queue c) \<subseteq> {..<length (accepted c)} \<and>
     (\<forall>x. length (finished c) \<le> x \<and> x < length (accepted c) \<longrightarrow> m_txs c x \<noteq> None) \<and>
     (\<forall>x. b \<le> x \<and> x < length (accepted c) \<longrightarrow> m_txs c x = Some (accepted c ! x))"

text \<open>The gate counts the transactions that are not finished.\<close>

definition gate_counts :: "'o pull_queue \<Rightarrow> bool" where
  "gate_counts c \<longleftrightarrow>
     (\<forall>g. m_exe_gate c = Some g \<longrightarrow> m_num_requests g = of_nat (length (accepted c) - length (finished c)))"

lemma pull_inv_new:
  "pull_inv 0 (new_pull_queue gate)" "clean (new_pull_queue gate) 0"
  "gate_counts (new_pull_queue (Some new_gate))" "gate_counts (new_pull_queue None)"
  by (simp_all add: pull_inv_def new_pull_queue_def empty_rqueue_rep clean_def new_gate_def gate_counts_def)
    (simp_all add: empty_rqueue_def)

lemma Enqueue_effect:
  assumes "Enqueue x q = Some q'" "rq_rep q S P"
  shows "rq_items q' = rq_items q" "m_in_progress_head q' = m_in_progress_head q"
    "y \<notin> set S \<Longrightarrow> rq_next q' y = rq_next q y"
proof -
  have "S = [] \<Longrightarrow> m_scheduled_head q = None" "S \<noteq> [] \<Longrightarrow> m_scheduled_last q = Some (last S) \<and> m_scheduled_head q \<noteq> None"
    using assms(2) by (auto simp: rq_rep_def)
  with assms(1) show "rq_items q' = rq_items q" "m_in_progress_head q' = m_in_progress_head q"
    "y \<notin> set S \<Longrightarrow> rq_next q' y = rq_next q y"
    by (cases "S = []"; auto simp: Enqueue_def set_next_def split: if_splits)+
qed

lemma pull_execute_inv:
  assumes "pull_inv b c"
  shows "\<exists>c'. pull_execute tx c = Some c' \<and> pull_inv b c' \<and> accepted c' = accepted c @ [tx] \<and>
    finished c' = finished c \<and> m_txs c' = (m_txs c)(length (accepted c) \<mapsto> tx) \<and>
    (clean c b \<longrightarrow> clean c' b) \<and> (gate_counts c \<longrightarrow> gate_counts c')"
proof -
  let ?n = "length (accepted c)" and ?a = "length (finished c)"
  have n: "?n \<notin> rq_items (m_queue c)" and r: "rq_rep (m_queue c) [b..<?n] [?a..<b]" and le: "?a \<le> b" "b \<le> ?n"
    using assms by (auto simp: pull_inv_def)
  note new = new_item_rep [OF r n]
  from rq.enqueue [OF new] obtain q where q: "Enqueue ?n (new_item ?n (m_queue c)) = Some q"
    "rq_rep q ([b..<?n] @ [?n]) [?a..<b]" by blast
  note eff = Enqueue_effect [OF q(1) new(1)]
  define c' where "c' = c\<lparr>m_queue := q, m_txs := (m_txs c)(?n \<mapsto> tx),
      m_exe_gate := map_option AddPending (m_exe_gate c), accepted := accepted c @ [tx]\<rparr>"
  have items: "rq_items q = insert ?n (rq_items (m_queue c))" "m_in_progress_head q = m_in_progress_head (m_queue c)"
    using eff(1,2) by (simp_all add: new_item_def)
  have "rq_next q (b - 1) = rq_next (m_queue c) (b - 1)" if "?a \<noteq> b"
  proof -
    have "b - 1 < b" using that le by simp
    then show ?thesis using eff(3) [of "b - 1"] le by (simp add: new_item_def)
  qed
  then have clean: "clean c b \<longrightarrow> clean c' b" using items(2) by (simp add: clean_def c'_def)
  have up: "[b..<?n] @ [?n] = [b..<Suc ?n]" using le by simp
  have txs: "\<forall>x. ?a \<le> x \<and> x < Suc ?n \<longrightarrow> m_txs c' x \<noteq> None"
    "\<forall>x. b \<le> x \<and> x < Suc ?n \<longrightarrow> m_txs c' x = Some (accepted c' ! x)"
    using assms by (auto simp: c'_def pull_inv_def nth_append less_Suc_eq)
  have gate: "gate_counts c \<longrightarrow> gate_counts c'"
    using le by (auto simp: c'_def gate_counts_def AddPending_def Suc_diff_le)
  have "pull_inv b c'"
    using q(2) up txs le items(1) assms by (auto simp: pull_inv_def c'_def simp del: upt_Suc fun_upd_apply)
  with clean gate q(1) show ?thesis by (auto simp: pull_execute_def c'_def)
qed

lemma pull_start_inv:
  assumes "pull_inv b c" "b < length (accepted c)"
  shows "\<exists>c'. pull_start c = Some (b, c') \<and> pull_inv (Suc b) c' \<and> accepted c' = accepted c \<and>
    finished c' = finished c \<and> m_txs c' = m_txs c \<and> m_exe_gate c' = m_exe_gate c"
proof -
  let ?n = "length (accepted c)" and ?a = "length (finished c)"
  have r: "rq_rep (m_queue c) (b # [Suc b..<?n]) [?a..<b]" and le: "?a \<le> b"
    using assms by (auto simp: pull_inv_def upt_conv_Cons)
  from rq.start_next [OF r] le obtain q where
    q: "StartNextScheduled (m_queue c) = Some (b, q)" "rq_rep q [Suc b..<?n] [?a..<Suc b]"
    by auto
  have "rq_items q = rq_items (m_queue c)"
    using q(1) by (auto simp: StartNextScheduled_def set_next_def Let_def split: if_splits bind_splits)
  with q assms le show ?thesis
    by (auto simp: pull_start_def pull_inv_def simp del: upt_Suc)
qed

lemma all_started:
  assumes "pull_inv b c"
  shows "NoScheduled (m_queue c) \<longleftrightarrow> b = length (accepted c)"
proof -
  have "b \<le> length (accepted c)" using assms by (simp add: pull_inv_def)
  moreover have "NoScheduled (m_queue c) \<longleftrightarrow> [b..<length (accepted c)] = []"
    using assms rq.no_scheduled unfolding pull_inv_def by blast
  ultimately show ?thesis by auto
qed

text \<open>When nothing is scheduled the links are clean.\<close>

lemma all_started_clean:
  assumes "pull_inv (length (accepted c)) c"
  shows "clean c (length (accepted c))"
  using assms by (auto simp: pull_inv_def clean_def rq_rep_def phantom_def split: if_splits)

lemma none_in_progress:
  assumes "pull_inv b c" "clean c b"
  shows "NoInProgress (m_queue c) \<longleftrightarrow> length (finished c) = b"
  using assms by (auto simp: pull_inv_def clean_def rq_rep_def NoInProgress_def split: if_splits)

lemma some_in_progress:
  assumes "pull_inv b c" "length (finished c) < b"
  shows "\<not> NoInProgress (m_queue c)" "GetCurrentInProgress (m_queue c) = Some (length (finished c))"
  using assms by (auto simp: pull_inv_def rq_rep_def NoInProgress_def GetCurrentInProgress_def)

lemma resolve_front_inv:
  assumes "pull_inv b c" "length (finished c) < b" "length (finished c) = b - 1 \<Longrightarrow> clean c b"
  shows "\<exists>c' tx. m_txs c (length (finished c)) = Some tx \<and> resolve_front c = Some c' \<and> pull_inv b c' \<and>
    accepted c' = accepted c \<and> finished c' = finished c @ [tx] \<and>
    m_txs c' = (m_txs c)(length (finished c) := None) \<and> m_exe_gate c' = m_exe_gate c \<and>
    (clean c b \<longrightarrow> clean c' b)"
proof -
  let ?n = "length (accepted c)" and ?a = "length (finished c)"
  have r: "rq_rep (m_queue c) [b..<?n] (?a # [Suc ?a..<b])" and le: "b \<le> ?n"
    using assms(1,2) by (auto simp: pull_inv_def upt_conv_Cons)
  obtain tx where tx: "m_txs c ?a = Some tx" using assms(1,2) le by (auto simp: pull_inv_def)
  obtain q where q: "PrepareToResolve (m_queue c) = Some (?a, q)" "rq_rep q [b..<?n] [Suc ?a..<b]"
    using rq.prepare [OF r] by blast
  have eff: "rq_items q = rq_items (m_queue c)" "rq_next q = rq_next (m_queue c)"
    "m_in_progress_head q = rq_next (m_queue c) ?a"
    using q(1) by (auto simp: PrepareToResolve_def get_next_def split: if_splits bind_splits)
  have head: "m_in_progress_head q = None" if "Suc ?a = b"
    using that assms(3) eff(3) by (auto simp: clean_def)
  have d: "rq_rep (drop_item ?a q) [b..<?n] [Suc ?a..<b]"
    using q(2) head assms(2) by (auto simp: rq_rep_def drop_item_def)
  define c' where "c' = c\<lparr>m_queue := drop_item ?a q, m_txs := (m_txs c)(?a := None), finished := finished c @ [tx]\<rparr>"
  have "pull_inv b c'"
    using d assms(1,2) eff(1) by (auto simp: pull_inv_def c'_def drop_item_def simp del: upt_Suc)
  moreover have "clean c b \<longrightarrow> clean c' b"
    using head eff(2) assms(2) by (auto simp: clean_def c'_def drop_item_def)
  ultimately show ?thesis using tx q(1) by (simp add: resolve_front_def c'_def)
qed

lemma pull_finish_inv:
  assumes "pull_inv b c" "length (finished c) < b" "length (finished c) = b - 1 \<Longrightarrow> clean c b"
  shows "\<exists>c' tx. m_txs c (length (finished c)) = Some tx \<and> pull_finish c = Some c' \<and> pull_inv b c' \<and>
    accepted c' = accepted c \<and> finished c' = finished c @ [tx] \<and>
    m_txs c' = (m_txs c)(length (finished c) := None) \<and>
    (clean c b \<longrightarrow> clean c' b) \<and> (gate_counts c \<longrightarrow> gate_counts c')"
proof -
  let ?c = "c\<lparr>m_exe_gate := map_option RemovePending (m_exe_gate c)\<rparr>"
  have c: "pull_inv b ?c" "clean ?c b \<longleftrightarrow> clean c b" "finished ?c = finished c" "m_txs ?c = m_txs c"
    "accepted ?c = accepted c"
    using assms(1) by (simp_all add: pull_inv_def clean_def)
  obtain c' tx where r: "m_txs c (length (finished c)) = Some tx" "resolve_front ?c = Some c'" "pull_inv b c'"
    "accepted c' = accepted c" "finished c' = finished c @ [tx]" "m_txs c' = (m_txs c)(length (finished c) := None)"
    "m_exe_gate c' = map_option RemovePending (m_exe_gate c)" "clean c b \<longrightarrow> clean c' b"
    using resolve_front_inv [of b ?c] c assms(2,3) by auto
  have "length (accepted c) - length (finished c) = Suc (length (accepted c) - Suc (length (finished c)))"
    using assms(1,2) by (auto simp: pull_inv_def)
  then have "gate_counts c \<longrightarrow> gate_counts c'"
    using r(4,5,7) by (auto simp: gate_counts_def RemovePending_def)
  with r show ?thesis by (auto simp: pull_finish_def)
qed

subsection \<open>Termination\<close>

lemma start_all_inv:
  assumes "pull_inv b c"
  shows "\<exists>c'. start_all c = Some c' \<and> pull_inv (length (accepted c)) c' \<and> accepted c' = accepted c \<and>
    finished c' = finished c \<and> m_txs c' = m_txs c \<and> m_exe_gate c' = m_exe_gate c"
  using assms
proof (induction "length (accepted c) - b" arbitrary: b c)
  case 0
  then have "b = length (accepted c)" by (auto simp: pull_inv_def)
  with 0 show ?case by (subst start_all.simps) (auto simp: all_started)
next
  case (Suc d)
  then have b: "b < length (accepted c)" by simp
  from pull_start_inv [OF Suc.prems b] obtain c1 where c1: "pull_start c = Some (b, c1)" "pull_inv (Suc b) c1"
    "accepted c1 = accepted c" "finished c1 = finished c" "m_txs c1 = m_txs c" "m_exe_gate c1 = m_exe_gate c"
    by blast
  moreover have "d = length (accepted c1) - Suc b" using Suc.hyps(2) c1 by simp
  ultimately show ?case
    using Suc.hyps(1) [of c1 "Suc b"] all_started [OF Suc.prems] b by (subst start_all.simps) auto
qed

lemma resolve_all_inv:
  assumes "pull_inv (length (accepted c)) c"
  shows "\<exists>c'. resolve_all c = Some c' \<and> pull_inv (length (accepted c)) c' \<and> accepted c' = accepted c \<and>
    finished c' = finished c @ map (the \<circ> m_txs c) [length (finished c)..<length (accepted c)] \<and>
    m_txs c' = (\<lambda>x. if length (finished c) \<le> x \<and> x < length (accepted c) then None else m_txs c x) \<and>
    m_exe_gate c' = m_exe_gate c"
  using assms
proof (induction "length (accepted c) - length (finished c)" arbitrary: c)
  case 0
  then have l: "length (finished c) = length (accepted c)" by (simp add: pull_inv_def)
  then have "resolve_all c = Some c"
    using none_in_progress [OF 0(2) all_started_clean [OF 0(2)]] by (simp add: resolve_all.simps)
  then show ?case using l 0(2) by (intro exI [of _ c]) (auto simp: fun_eq_iff)
next
  case (Suc d)
  let ?a = "length (finished c)"
  have a: "?a < length (accepted c)" using Suc.hyps(2) by simp
  obtain c1 tx where c1: "m_txs c ?a = Some tx" "resolve_front c = Some c1" "pull_inv (length (accepted c)) c1"
    "accepted c1 = accepted c" "finished c1 = finished c @ [tx]" "m_txs c1 = (m_txs c)(?a := None)"
    "m_exe_gate c1 = m_exe_gate c"
    using resolve_front_inv [OF Suc.prems a all_started_clean [OF Suc.prems]] by blast
  have d: "d = length (accepted c1) - length (finished c1)" using Suc.hyps(2) c1(4,5) by simp
  from Suc.hyps(1) [OF d, unfolded c1(4), OF c1(3)] obtain c' where c': "resolve_all c1 = Some c'"
    "pull_inv (length (accepted c)) c'" "accepted c' = accepted c"
    "finished c' = finished c1 @ map (the \<circ> m_txs c1) [length (finished c1)..<length (accepted c)]"
    "m_txs c' = (\<lambda>x. if length (finished c1) \<le> x \<and> x < length (accepted c) then None else m_txs c1 x)"
    "m_exe_gate c' = m_exe_gate c1"
    by blast
  have "map (the \<circ> m_txs c1) [Suc ?a..<length (accepted c)] = map (the \<circ> m_txs c) [Suc ?a..<length (accepted c)]"
    unfolding c1(6) by (intro map_cong) auto
  then have "finished c' = finished c @ map (the \<circ> m_txs c) [?a..<length (accepted c)]"
    unfolding c'(4) c1(5) using c1(1) a by (simp add: upt_conv_Cons)
  moreover have "m_txs c' = (\<lambda>x. if ?a \<le> x \<and> x < length (accepted c) then None else m_txs c x)"
    unfolding c'(5) c1(5,6) using a by (intro ext) auto
  moreover have "resolve_all c = Some c'"
    using some_in_progress [OF Suc.prems a] c1(2) c'(1) by (subst resolve_all.simps) simp
  ultimately show ?case using c'(2,3,6) c1(7) by (intro exI [of _ c']) simp
qed

text \<open>Termination hands every transaction back as far as it got, leaves the queue empty and ends every
  stall; its loops end.\<close>

lemma pull_terminate_inv:
  assumes "pull_inv b c"
  shows "\<exists>c'. pull_terminate c = Some c' \<and> pull_inv (length (accepted c)) c' \<and> accepted c' = accepted c \<and>
    finished c' = finished c @ map (the \<circ> m_txs c) [length (finished c)..<length (accepted c)] \<and>
    (\<forall>x \<ge> length (finished c). x < length (accepted c) \<longrightarrow> m_txs c' x = None) \<and>
    m_exe_gate c' = map_option Execution_Gate.Terminate (m_exe_gate c)"
proof -
  obtain c1 where c1: "start_all c = Some c1" "pull_inv (length (accepted c)) c1" "accepted c1 = accepted c"
    "finished c1 = finished c" "m_txs c1 = m_txs c" "m_exe_gate c1 = m_exe_gate c"
    using start_all_inv [OF assms] by blast
  from resolve_all_inv [of c1, unfolded c1(3-6), OF c1(2)] obtain c2 where "resolve_all c1 = Some c2"
    "pull_inv (length (accepted c)) c2" "accepted c2 = accepted c"
    "finished c2 = finished c @ map (the \<circ> m_txs c) [length (finished c)..<length (accepted c)]"
    "m_txs c2 = (\<lambda>x. if length (finished c) \<le> x \<and> x < length (accepted c) then None else m_txs c x)"
    "m_exe_gate c2 = m_exe_gate c"
    by blast
  moreover from this(2) have "pull_inv (length (accepted c)) (c2\<lparr>m_exe_gate := e\<rparr>)" for e
    by (simp add: pull_inv_def)
  ultimately show ?thesis using c1(1) by (simp add: pull_terminate_def)
qed

subsection \<open>The protocol of generator and consumer\<close>

text \<open>A transaction is turned into a number of units, commands or clock cycles, that the simulation
  answers one by one. \<open>D\<close> counts the units of the calls that have returned to the simulation.
  While the generator is inside a transaction, and also behind it before its call returns, the
  simulation has not got the whole transaction.\<close>

definition total_units :: "('o status \<Rightarrow> nat) \<Rightarrow> 'o status list \<Rightarrow> nat \<Rightarrow> nat" where
  "total_units units txs k = (\<Sum>tx \<leftarrow> take k txs. units tx)"

definition gen_at :: "('o status \<Rightarrow> nat) \<Rightarrow> 'o pull_queue \<Rightarrow> nat \<Rightarrow> nat option \<Rightarrow> nat \<Rightarrow> bool" where
  "gen_at units c b pos D \<longleftrightarrow>
     (case pos of
        None \<Rightarrow> clean c b \<or> D < total_units units (accepted c) b
      | Some x \<Rightarrow> b = Suc x \<and> length (finished c) \<le> x \<and> D < total_units units (accepted c) b)"

text \<open>The consumer has taken \<open>R\<close> answers, the last \<open>current\<close> of them for the front transaction.\<close>

definition con_at :: "('o status \<Rightarrow> nat) \<Rightarrow> 'o pull_queue \<Rightarrow> nat \<Rightarrow> nat \<Rightarrow> nat \<Rightarrow> bool" where
  "con_at units c current R D \<longleftrightarrow>
     R = total_units units (accepted c) (length (finished c)) + current \<and> R \<le> D"

locale pull_protocol =
  fixes ok :: "'o status \<Rightarrow> bool"
    and units :: "'o status \<Rightarrow> nat"
  assumes units_pos: "ok tx \<Longrightarrow> 0 < units tx"
begin

lemma total_Suc: "k < length txs \<Longrightarrow> total_units units txs (Suc k) = total_units units txs k + units (txs ! k)"
  by (simp add: total_units_def take_Suc_conv_app_nth)

lemma total_append: "k \<le> length txs \<Longrightarrow> total_units units (txs @ txs') k = total_units units txs k"
  by (simp add: total_units_def)

lemma gen_at_accept:
  assumes "gen_at units c b pos D" "pull_inv b c" "accepted c' = accepted c @ [tx]" "finished c' = finished c"
    and "clean c b \<longrightarrow> clean c' b"
  shows "gen_at units c' b pos D"
  using assms total_append [of b "accepted c"] by (auto simp: gen_at_def pull_inv_def split: option.splits)

lemma gen_at_start:
  assumes "D \<le> total_units units (accepted c) b" "pull_inv b c" "b < length (accepted c)" "ok (accepted c ! b)"
    and "accepted c' = accepted c" "finished c' = finished c"
  shows "gen_at units c' (Suc b) (Some b) D"
  using assms units_pos [OF assms(4)] by (simp add: gen_at_def pull_inv_def total_Suc)

lemma gen_at_leave: "gen_at units c b (Some x) D \<Longrightarrow> gen_at units c b None D"
  by (auto simp: gen_at_def)

lemma gen_at_idle: "pull_inv (length (accepted c)) c \<Longrightarrow> gen_at units c (length (accepted c)) None D"
  using all_started_clean [of c] by (simp add: gen_at_def)

lemma gen_at_deliver:
  assumes "gen_at units c b (Some x) D" "D' < total_units units (accepted c) b"
  shows "gen_at units c b (Some x) D'"
  using assms by (simp add: gen_at_def)

lemma gen_at_cong:
  assumes "gen_at units c b pos D" "accepted c' = accepted c" "finished c' = finished c" "m_queue c' = m_queue c"
  shows "gen_at units c' b pos D"
  using assms by (auto simp: gen_at_def clean_def split: option.splits)

text \<open>The consumer never meets a link into the scheduled items, and it finishes only what the
  generator has left.\<close>

lemma all_answered:
  assumes "con_at units c current R D" "pull_inv b c"
    and "length (finished c) = b \<or> Suc (length (finished c)) = b \<and> current = units (accepted c ! length (finished c))"
  shows "total_units units (accepted c) b \<le> D"
  using assms total_Suc [of "length (finished c)" "accepted c"] by (auto simp: con_at_def pull_inv_def)

lemma consumer_clean:
  assumes "gen_at units c b pos D" "con_at units c current R D" "pull_inv b c"
    and "length (finished c) = b \<or> Suc (length (finished c)) = b \<and> current = units (accepted c ! length (finished c))"
  shows "clean c b"
  using assms all_answered [OF assms(2-4)] by (auto simp: gen_at_def split: option.splits)

lemma finished_not_generated:
  assumes "gen_at units c b pos D" "con_at units c current R D" "pull_inv b c"
    and "current = units (accepted c ! length (finished c))"
  shows "pos \<noteq> Some (length (finished c))"
  using assms all_answered [OF assms(2,3)] by (auto simp: gen_at_def)

lemma gen_at_finish:
  assumes "gen_at units c b pos D" "con_at units c current R D" "pull_inv b c"
    and "current = units (accepted c ! length (finished c))"
    and "accepted c' = accepted c" "finished c' = finished c @ [tx]" "clean c b \<longrightarrow> clean c' b"
  shows "gen_at units c' b pos D"
  using assms finished_not_generated [OF assms(1-4)] by (auto simp: gen_at_def split: option.splits)

lemma con_at_finish:
  assumes "con_at units c current R D" "length (finished c) < length (accepted c)"
    and "current = units (accepted c ! length (finished c))"
    and "accepted c' = accepted c" "finished c' = finished c @ [tx]"
  shows "con_at units c' 0 R D"
  using assms by (simp add: con_at_def total_Suc)

lemma answered_generated:
  assumes "con_at units c current R D" "D \<le> total_units units (accepted c) (length (finished c)) + k"
  shows "current \<le> k"
  using assms by (simp add: con_at_def)

end

text \<open>The number of started transactions, read off the queue.\<close>

definition started :: "'o pull_queue \<Rightarrow> nat" where
  "started c = (case m_scheduled_head (m_queue c) of None \<Rightarrow> length (accepted c) | Some x \<Rightarrow> x)"

lemma started_eq: "pull_inv b c \<Longrightarrow> b = started c"
  by (auto simp: pull_inv_def started_def rq_rep_def upt_rec [of b] split: if_splits)

lemma started_set_tx [simp]: "started (set_tx x tx c) = started c"
  by (simp add: started_def set_tx_def split: option.split)

lemma set_tx_simps [simp]:
  "accepted (set_tx x tx c) = accepted c" "finished (set_tx x tx c) = finished c"
  "m_txs (set_tx x tx c) = (m_txs c)(x \<mapsto> tx)" "m_queue (set_tx x tx c) = m_queue c"
  "m_exe_gate (set_tx x tx c) = m_exe_gate c"
  by (simp_all add: set_tx_def)

lemma pull_inv_set_tx:
  assumes "pull_inv b c" "x < b"
  shows "pull_inv b (set_tx x tx c)" "gate_counts (set_tx x tx c) \<longleftrightarrow> gate_counts c"
    "clean (set_tx x tx c) b \<longleftrightarrow> clean c b"
  using assms by (auto simp: pull_inv_def gate_counts_def clean_def)

end
