(* ===== verification/Pull_Apb.thy ===== *)
theory Pull_Apb
  imports Pull_Queue "HOL-Library.Sublist"
begin

text \<open>
  \<open>PullAPB\<close> (\<open>driver/apb/PullAPB.cpp\<close>, \<open>PullAPB.h\<close>): the driver of a simulated APB bus. The simulation pulls
  commands and pushes their results.

  Both generators are coroutines: \<open>gen\<close> and \<open>con\<close> say where each of them is, and it is suspended in a
  \<open>co_yield\<close> when \<open>gen_left\<close>, \<open>con_left\<close> is \<open>None\<close>. A step of a generator is one round of a loop, and
  the steps of the generators and of the coroutines that enqueue transactions interleave.
  \<open>delivered\<close> are the commands of the calls of \<open>PullCommands\<close> that have returned, \<open>consumed\<close> the results
  taken so far. The output of an action is the word read, 0 where there is none.
\<close>

subsection \<open>Commands and results\<close>

datatype PulledCommandType = PSkipCycles | PWrite | PRead | PSetPSEL

record pulled =
  command_type :: PulledCommandType
  first_in_xact :: bool
  p_addr :: u32
  p_data :: u32

definition PStatusOk :: u8 where "PStatusOk = 0"
definition PStatusError :: u8 where "PStatusError = 1"
definition PStatusTimeout :: u8 where "PStatusTimeout = 2"

definition pulled_command :: "PulledCommandType \<Rightarrow> bool \<Rightarrow> u32 \<Rightarrow> u32 \<Rightarrow> pulled" where
  "pulled_command t is_first a d = \<lparr>command_type = t, first_in_xact = is_first, p_addr = a, p_data = d\<rparr>"

text \<open>The visitor in the loop of \<open>GenerateCommands\<close>: the command of an action, and what the action's
  output is set to.\<close>

fun visit_command :: "bool \<Rightarrow> nat + action \<Rightarrow> (pulled \<times> u32 option) option" where
  "visit_command is_first (Inr (SkipCycles n)) = Some (pulled_command PSkipCycles is_first 0 n, None)"
| "visit_command is_first (Inr (APBWrite a d)) = Some (pulled_command PWrite is_first a d, None)"
| "visit_command is_first (Inr (APBRead a)) = Some (pulled_command PRead is_first a 0, Some 0)"
| "visit_command is_first (Inr (APBSetPSEL s)) = Some (pulled_command PSetPSEL is_first 0 s, None)"
| "visit_command is_first _ = None"

definition store_out :: "nat \<Rightarrow> 'o option \<Rightarrow> 'o status \<Rightarrow> 'o status" where
  "store_out i out tx = (case out of None \<Rightarrow> tx | Some d \<Rightarrow> put_out i d tx)"

fun is_read :: "nat + action \<Rightarrow> bool" where
  "is_read (Inr (APBRead a)) = True"
| "is_read _ = False"

text \<open>What the loop of \<open>ConsumeResults\<close> does with one result; the first component is \<open>failed\<close>.\<close>

definition consume_one :: "bool \<Rightarrow> u8 \<times> u32 \<Rightarrow> nat \<Rightarrow> bool \<times> u32 status \<Rightarrow> bool \<times> u32 status" where
  "consume_one err = (\<lambda>(st, data) i (has_failed, tx).
     if has_failed then (True, tx)
     else if st = PStatusError then (True, Fail err CauseTargetError tx)
     else if st = PStatusTimeout then (True, Fail err (CauseTimeoutInCycles data) tx)
     else (False, Done i (if is_read (s_ins tx ! i) then put_out i data tx else tx)))"

subsection \<open>The driver\<close>

datatype gen_point = GIdle | GItem nat nat bool
datatype con_point = CIdle | CItem nat nat bool

record pull_apb =
  core :: "u32 pull_queue"
  gen :: gen_point
  gen_left :: "nat option"
  gen_acc :: "pulled list"
  con :: con_point
  con_left :: "(u8 \<times> u32) list option"
  delivered :: "pulled list"
  consumed :: "(u8 \<times> u32) list"

definition PullAPB :: "exe_gate option \<Rightarrow> pull_apb" where
  "PullAPB exe_gate =
     \<lparr>core = new_pull_queue exe_gate, gen = GIdle, gen_left = None, gen_acc = [],
      con = CIdle, con_left = None, delivered = [], consumed = []\<rparr>"

definition Execute :: "u32 status \<Rightarrow> pull_apb \<Rightarrow> pull_apb option" where
  "Execute tx p = do { c \<leftarrow> pull_execute tx (core p); Some (p\<lparr>core := c\<rparr>) }"

definition Terminate :: "pull_apb \<Rightarrow> pull_apb option" where
  "Terminate p = do { c \<leftarrow> pull_terminate (core p); Some (p\<lparr>core := c\<rparr>) }"

definition gen_resume :: "nat \<Rightarrow> pull_apb \<Rightarrow> pull_apb" where
  "gen_resume max_num_commands p = p\<lparr>gen_left := Some max_num_commands, gen_acc := []\<rparr>"

definition gen_yield :: "pull_apb \<Rightarrow> pull_apb" where
  "gen_yield p = p\<lparr>gen_left := None, delivered := delivered p @ gen_acc p\<rparr>"

definition GenerateCommands :: "nat \<Rightarrow> pull_apb \<Rightarrow> pull_apb option" where
  "GenerateCommands left p =
     (case gen p of
        GIdle \<Rightarrow>
          if NoScheduled (m_queue (core p)) then Some (gen_yield p)
          else do { (x, c) \<leftarrow> pull_start (core p);
                    tx \<leftarrow> m_txs c x;
                    Some (p\<lparr>core := c, gen := GItem x (m_first_incomplete tx) True\<rparr>) }
      | GItem x i is_first \<Rightarrow>
          do { tx \<leftarrow> m_txs (core p) x;
               if i = status_end tx then Some (p\<lparr>gen := GIdle\<rparr>)
               else if left = 0 then Some (gen_yield p)
               else do { (command, out) \<leftarrow> visit_command is_first (s_ins tx ! i);
                         Some (p\<lparr>core := set_tx x (store_out i out tx) (core p),
                                 gen := GItem x (next_position tx i) False,
                                 gen_left := Some (left - 1), gen_acc := gen_acc p @ [command]\<rparr>) } })"

partial_function (option) run_generator :: "pull_apb \<Rightarrow> pull_apb option" where
  "run_generator p =
     (case gen_left p of
        None \<Rightarrow> Some p
      | Some left \<Rightarrow> do { p \<leftarrow> GenerateCommands left p; run_generator p })"

text \<open>A whole call, when no other coroutine comes in between: the result is \<open>gen_acc\<close>, whose length the
  function returns.\<close>

definition PullCommands :: "nat \<Rightarrow> pull_apb \<Rightarrow> pull_apb option" where
  "PullCommands max_num_commands p = run_generator (gen_resume max_num_commands p)"

definition con_resume :: "(u8 \<times> u32) list \<Rightarrow> pull_apb \<Rightarrow> pull_apb" where
  "con_resume results p = p\<lparr>con_left := Some results\<rparr>"

definition ConsumeResults :: "(nat \<Rightarrow> bool) \<Rightarrow> (u8 \<times> u32) list \<Rightarrow> pull_apb \<Rightarrow> pull_apb option" where
  "ConsumeResults err left p =
     (case con p of
        CIdle \<Rightarrow>
          if NoInProgress (m_queue (core p)) then Some (p\<lparr>con_left := None\<rparr>)
          else do { x \<leftarrow> GetCurrentInProgress (m_queue (core p));
                    tx \<leftarrow> m_txs (core p) x;
                    Some (p\<lparr>con := CItem x (m_first_incomplete tx) False\<rparr>) }
      | CItem x i has_failed \<Rightarrow>
          do { tx \<leftarrow> m_txs (core p) x;
               if i = status_end tx then
                 do { c \<leftarrow> pull_finish (core p); Some (p\<lparr>core := c, con := CIdle\<rparr>) }
               else (case left of
                       [] \<Rightarrow> Some (p\<lparr>con_left := None\<rparr>)
                     | r # rs \<Rightarrow>
                         let (has_failed, tx') = consume_one (err x) r i (has_failed, tx)
                         in Some (p\<lparr>core := set_tx x tx' (core p), con := CItem x (next_position tx i) has_failed,
                                    con_left := Some rs, consumed := consumed p @ [r]\<rparr>)) })"

partial_function (option) run_consumer :: "(nat \<Rightarrow> bool) \<Rightarrow> pull_apb \<Rightarrow> pull_apb option" where
  "run_consumer err p =
     (case con_left p of
        None \<Rightarrow> Some p
      | Some left \<Rightarrow> do { p \<leftarrow> ConsumeResults err left p; run_consumer err p })"

definition PushResults :: "(nat \<Rightarrow> bool) \<Rightarrow> (u8 \<times> u32) list \<Rightarrow> pull_apb \<Rightarrow> pull_apb option" where
  "PushResults err results p = run_consumer err (con_resume results p)"

text \<open>A transaction as \<open>Schedule\<close> hands it over.\<close>

definition apb_tx :: "u32 status \<Rightarrow> bool" where
  "apb_tx tx \<longleftrightarrow>
     m_first_incomplete tx = 0 \<and> m_error tx = None \<and> \<not> s_allocation_failure tx \<and> s_ins tx \<noteq> [] \<and>
     length (s_outs tx) = length (s_ins tx) \<and> (\<forall>a \<in> set (s_ins tx). visit_command True a \<noteq> None)"

text \<open>The steps. The simulation answers only commands that it was given.\<close>

inductive apb_step :: "(nat \<Rightarrow> bool) \<Rightarrow> pull_apb \<Rightarrow> pull_apb option \<Rightarrow> bool" for err where
  execute: "apb_tx tx \<Longrightarrow> apb_step err p (Execute tx p)"
| pull: "gen_left p = None \<Longrightarrow> apb_step err p (Some (gen_resume n p))"
| generate: "gen_left p = Some left \<Longrightarrow> apb_step err p (GenerateCommands left p)"
| push: "con_left p = None \<Longrightarrow> length (consumed p) + length results \<le> length (delivered p) \<Longrightarrow>
    apb_step err p (Some (con_resume results p))"
| consume: "con_left p = Some left \<Longrightarrow> apb_step err p (ConsumeResults err left p)"

inductive apb_run :: "(nat \<Rightarrow> bool) \<Rightarrow> exe_gate option \<Rightarrow> pull_apb option \<Rightarrow> bool" for err gate where
  start: "apb_run err gate (Some (PullAPB gate))"
| step: "apb_run err gate (Some p) \<Longrightarrow> apb_step err p r \<Longrightarrow> apb_run err gate r"

subsection \<open>Specification\<close>

definition commands :: "u32 status \<Rightarrow> pulled list" where
  "commands tx = map (\<lambda>i. fst (the (visit_command (i = 0) (s_ins tx ! i)))) [0..<status_end tx]"

text \<open>The outputs of the first \<open>n\<close> reads are cleared.\<close>

definition cleared :: "nat \<Rightarrow> u32 status \<Rightarrow> u32 status" where
  "cleared n tx = fold (\<lambda>i. store_out i (snd (the (visit_command True (s_ins tx ! i))))) [0..<n] tx"

definition apply_results :: "bool \<Rightarrow> (u8 \<times> u32) list \<Rightarrow> u32 status \<Rightarrow> bool \<times> u32 status" where
  "apply_results err rs tx = fold (\<lambda>(i, r). consume_one err r i) (enumerate 0 rs) (False, tx)"

text \<open>The transaction that comes back when its commands had the given results.\<close>

definition completed :: "bool \<Rightarrow> u32 status \<Rightarrow> (u8 \<times> u32) list \<Rightarrow> u32 status" where
  "completed err tx rs = snd (apply_results err rs (cleared (status_end tx) tx))"

lemma status_end_ins: "s_ins tx = s_ins tx' \<Longrightarrow> status_end tx = status_end tx'"
  by (simp add: status_end_def)

lemma store_out_simps [simp]:
  "s_ins (store_out i out tx) = s_ins tx" "m_first_incomplete (store_out i out tx) = m_first_incomplete tx"
  "s_allocation_failure (store_out i out tx) = s_allocation_failure tx"
  "status_end (store_out i out tx) = status_end tx" "length (s_outs (store_out i out tx)) = length (s_outs tx)"
  "m_error (store_out i out tx) = m_error tx" "status_ok (store_out i out tx) = status_ok tx"
  "next_position (store_out i out tx) j = next_position tx j"
  by (cases out; simp add: store_out_def put_out_def status_end_def status_ok_def next_position_def)+

lemma consume_one_ins [simp]: "s_ins (snd (consume_one err r i s)) = s_ins (snd s)"
  by (simp add: consume_one_def Fail_def FailImpl_def Done_def put_out_def split: prod.split)

lemma consume_one_commutes:
  assumes "i \<noteq> j"
  shows "consume_one err r j (f, store_out i out tx) = apsnd (store_out i out) (consume_one err r j (f, tx))"
  using assms
  by (cases r; cases out)
     (simp_all add: consume_one_def store_out_def put_out_def Fail_def FailImpl_def deref_def Done_def
        status_ok_def status_end_def next_position_def list_update_swap)

lemma apply_results_snoc:
  "apply_results err (rs @ [r]) tx = consume_one err r (length rs) (apply_results err rs tx)"
  by (simp add: apply_results_def enumerate_append_eq)

lemma apply_results_Nil [simp]: "apply_results err [] tx = (False, tx)"
  by (simp add: apply_results_def)

lemma apply_results_ins [simp]: "s_ins (snd (apply_results err rs tx)) = s_ins tx"
  by (induction rs rule: rev_induct) (simp_all add: apply_results_snoc)

lemma apply_results_end [simp]: "status_end (snd (apply_results err rs tx)) = status_end tx"
  by (rule status_end_ins) simp

lemma apply_results_commutes:
  "length rs \<le> i \<Longrightarrow> apply_results err rs (store_out i out tx) = apsnd (store_out i out) (apply_results err rs tx)"
proof (induction rs rule: rev_induct)
  case Nil
  show ?case by simp
next
  case (snoc r rs)
  then show ?case
    using consume_one_commutes [of i "length rs" err r "fst (apply_results err rs tx)" out "snd (apply_results err rs tx)"]
    by (simp add: apply_results_snoc apsnd_def map_prod_def split_beta)
qed

lemma cleared_Suc:
  "cleared (Suc n) tx = store_out n (snd (the (visit_command True (s_ins tx ! n)))) (cleared n tx)"
  by (simp add: cleared_def)

lemma cleared_0 [simp]: "cleared 0 tx = tx"
  by (simp add: cleared_def)

lemma cleared_simps [simp]:
  "s_ins (cleared n tx) = s_ins tx" "m_first_incomplete (cleared n tx) = m_first_incomplete tx"
  "s_allocation_failure (cleared n tx) = s_allocation_failure tx"
  "status_end (cleared n tx) = status_end tx" "length (s_outs (cleared n tx)) = length (s_outs tx)"
  "m_error (cleared n tx) = m_error tx"
  by (induction n) (simp_all add: cleared_Suc)

lemma commands_take_Suc:
  "i < status_end tx \<Longrightarrow>
     take (Suc i) (commands tx) = take i (commands tx) @ [fst (the (visit_command (i = 0) (s_ins tx ! i)))]"
  by (simp add: commands_def take_Suc_conv_app_nth)

lemma length_commands [simp]: "length (commands tx) = status_end tx"
  by (simp add: commands_def)

lemma visit_command_cases:
  assumes "visit_command True a \<noteq> None"
  obtains b where "a = Inr b" "visit_command f a = Some (fst (the (visit_command f a)), snd (the (visit_command True a)))"
  using assms by (cases "(True, a)" rule: visit_command.cases) auto

lemma visit_command_known: "visit_command True a \<noteq> None \<Longrightarrow> \<not> isl a"
  by (cases a) auto

subsection \<open>The invariant\<close>

definition emitted :: "pull_apb \<Rightarrow> pulled list" where
  "emitted p = delivered p @ (if gen_left p = None then [] else gen_acc p)"

definition results_left :: "pull_apb \<Rightarrow> (u8 \<times> u32) list" where
  "results_left p = (case con_left p of None \<Rightarrow> [] | Some rs \<Rightarrow> rs)"

definition gen_ok :: "nat \<Rightarrow> pull_apb \<Rightarrow> bool" where
  "gen_ok b p \<longleftrightarrow>
     (case gen p of
        GIdle \<Rightarrow>
          (clean (core p) b \<or> length (delivered p) < length (concat (map commands (take b (accepted (core p)))))) \<and>
          emitted p = concat (map commands (take b (accepted (core p))))
      | GItem x i f \<Rightarrow>
          b = Suc x \<and> length (finished (core p)) \<le> x \<and> i \<le> status_end (accepted (core p) ! x) \<and> f = (i = 0) \<and>
          length (delivered p) < length (concat (map commands (take (Suc x) (accepted (core p))))) \<and>
          emitted p = concat (map commands (take x (accepted (core p)))) @ take i (commands (accepted (core p) ! x)))"

text \<open>How many actions of a started transaction the generator has turned into commands.\<close>

definition generated :: "pull_apb \<Rightarrow> nat \<Rightarrow> nat" where
  "generated p x =
     (case gen p of GItem y i f \<Rightarrow> if x = y then i else status_end (accepted (core p) ! x)
      | GIdle \<Rightarrow> status_end (accepted (core p) ! x))"

definition con_ok :: "nat \<Rightarrow> pull_apb \<Rightarrow> (u8 \<times> u32) list \<Rightarrow> bool \<Rightarrow> bool" where
  "con_ok b p current f \<longleftrightarrow>
     (case con p of
        CIdle \<Rightarrow> current = [] \<and> \<not> f
      | CItem x i f' \<Rightarrow>
          x = length (finished (core p)) \<and> x < b \<and> i = length current \<and>
          i \<le> status_end (accepted (core p) ! x) \<and> f' = f)"

definition txs_ok :: "(nat \<Rightarrow> bool) \<Rightarrow> nat \<Rightarrow> pull_apb \<Rightarrow> (u8 \<times> u32) list \<Rightarrow> bool \<Rightarrow> bool" where
  "txs_ok err b p current f \<longleftrightarrow>
     (let a = length (finished (core p)) in
      (a < b \<longrightarrow> (\<exists>tx. m_txs (core p) a = Some tx \<and>
         (f, tx) = apply_results (err a) current (cleared (generated p a) (accepted (core p) ! a)))) \<and>
      (\<forall>x. a < x \<and> x < b \<longrightarrow> m_txs (core p) x = Some (cleared (generated p x) (accepted (core p) ! x))))"

definition history_ok :: "(nat \<Rightarrow> bool) \<Rightarrow> pull_apb \<Rightarrow> (u8 \<times> u32) list list \<Rightarrow> (u8 \<times> u32) list \<Rightarrow> bool" where
  "history_ok err p rss current \<longleftrightarrow>
     consumed p = concat rss @ current \<and> length rss = length (finished (core p)) \<and>
     (\<forall>k < length rss. length (rss ! k) = status_end (accepted (core p) ! k) \<and>
        finished (core p) ! k = completed (err k) (accepted (core p) ! k) (rss ! k)) \<and>
     length (consumed p) + length (results_left p) \<le> length (delivered p)"

definition apb_inv :: "(nat \<Rightarrow> bool) \<Rightarrow> pull_apb \<Rightarrow> bool" where
  "apb_inv err p \<longleftrightarrow>
     (\<exists>b rss current f. pull_inv b (core p) \<and> gate_counts (core p) \<and> list_all apb_tx (accepted (core p)) \<and>
        gen_ok b p \<and> con_ok b p current f \<and> txs_ok err b p current f \<and> history_ok err p rss current)"

lemmas apb_parts = gen_ok_def con_ok_def txs_ok_def history_ok_def emitted_def results_left_def generated_def Let_def

lemma apb_inv_start:
  assumes "gate = None \<or> gate = Some new_gate"
  shows "apb_inv err (PullAPB gate)"
proof -
  have "gate_counts (new_pull_queue gate)" using assms pull_inv_new(3,4) by auto
  then show ?thesis
    unfolding apb_inv_def using pull_inv_new(1,2) [of gate]
    by (intro exI [of _ 0] exI [of _ "[]"] exI [of _ False])
       (simp add: apb_parts PullAPB_def new_pull_queue_def)
qed

lemma execute_inv:
  assumes "apb_inv err p" "apb_tx tx"
  shows "\<exists>p'. Execute tx p = Some p' \<and> apb_inv err p'"
proof -
  obtain b rss current f where inv: "pull_inv b (core p)" "gate_counts (core p)" "list_all apb_tx (accepted (core p))"
    "gen_ok b p" "con_ok b p current f" "txs_ok err b p current f" "history_ok err p rss current"
    using assms(1) unfolding apb_inv_def by blast
  from pull_execute_inv [OF inv(1), of tx] obtain c where c: "pull_execute tx (core p) = Some c" "pull_inv b c"
    "accepted c = accepted (core p) @ [tx]" "finished c = finished (core p)"
    "m_txs c = (m_txs (core p))(length (accepted (core p)) \<mapsto> tx)"
    "clean (core p) b \<longrightarrow> clean c b" "gate_counts (core p) \<longrightarrow> gate_counts c"
    by blast
  have le: "length (finished (core p)) \<le> b" "b \<le> length (accepted (core p))" using inv(1) by (auto simp: pull_inv_def)
  let ?p = "p\<lparr>core := c\<rparr>"
  have g: "generated ?p x = generated p x" if "x < b" for x
    using that le c(3) by (simp add: generated_def nth_append split: gen_point.split)
  have "gen_ok b ?p"
    using inv(4) le c(3,4,6) by (auto simp: gen_ok_def emitted_def nth_append split: gen_point.splits)
  moreover have "con_ok b ?p current f"
    using inv(5) le c(3,4) by (auto simp: con_ok_def nth_append split: con_point.splits)
  moreover have "txs_ok err b ?p current f"
    using inv(6) le c(3-5) g by (auto simp: txs_ok_def Let_def nth_append)
  moreover have "history_ok err ?p rss current"
    using inv(7) le c(3,4) by (auto simp: history_ok_def results_left_def nth_append)
  ultimately have "apb_inv err ?p"
    unfolding apb_inv_def using c inv(2,3) assms(2) by (intro exI [of _ b] exI [of _ rss] exI [of _ current] exI [of _ f]) simp
  then show ?thesis using c(1) by (simp add: Execute_def)
qed

lemma pull_call_inv:
  assumes "apb_inv err p" "gen_left p = None"
  shows "apb_inv err (gen_resume n p)"
  using assms unfolding apb_inv_def
  by (elim exE conjE, intro exI conjI) (auto simp: apb_parts gen_resume_def split: gen_point.splits con_point.splits)

lemma push_call_inv:
  assumes "apb_inv err p" "length (consumed p) + length results \<le> length (delivered p)"
  shows "apb_inv err (con_resume results p)"
  using assms unfolding apb_inv_def
  by (elim exE conjE, intro exI conjI) (auto simp: apb_parts con_resume_def split: gen_point.splits con_point.splits)

lemma apb_invE:
  assumes "apb_inv err p"
  obtains b rss current f where "pull_inv b (core p)" "gate_counts (core p)" "list_all apb_tx (accepted (core p))"
    "gen_ok b p" "con_ok b p current f" "txs_ok err b p current f" "history_ok err p rss current"
  using assms unfolding apb_inv_def by blast

lemma apb_invI:
  assumes "pull_inv b (core p)" "gate_counts (core p)" "list_all apb_tx (accepted (core p))"
    "gen_ok b p" "con_ok b p current f" "txs_ok err b p current f" "history_ok err p rss current"
  shows "apb_inv err p"
  using assms unfolding apb_inv_def by blast

lemma apb_tx_end: "apb_tx tx \<Longrightarrow> 0 < status_end tx"
  by (simp add: apb_tx_def status_end_def)

lemma commands_take_Suc_length:
  "x < length txs \<Longrightarrow>
     length (concat (map commands (take (Suc x) txs))) = length (concat (map commands (take x txs))) + status_end (txs ! x)"
  by (simp add: take_Suc_conv_app_nth)

lemma gen_yield_frame:
  "con_ok b (gen_yield p) current f \<longleftrightarrow> con_ok b p current f"
  "txs_ok err b (gen_yield p) current f \<longleftrightarrow> txs_ok err b p current f"
  "history_ok err p rss current \<Longrightarrow> history_ok err (gen_yield p) rss current"
proof -
  have "generated (gen_yield p) x = generated p x" for x
    by (simp add: generated_def gen_yield_def split: gen_point.split)
  then show "txs_ok err b (gen_yield p) current f \<longleftrightarrow> txs_ok err b p current f"
    by (simp add: txs_ok_def gen_yield_def)
  show "con_ok b (gen_yield p) current f \<longleftrightarrow> con_ok b p current f"
    by (simp add: con_ok_def gen_yield_def split: con_point.split)
  show "history_ok err p rss current \<Longrightarrow> history_ok err (gen_yield p) rss current"
    by (auto simp: history_ok_def results_left_def gen_yield_def)
qed

lemma commands_total: "length (concat (map commands (take k txs))) = total_units status_end txs k"
  by (simp add: total_units_def length_concat comp_def)

interpretation apb: pull_protocol apb_tx status_end
  by unfold_locales (rule apb_tx_end)

definition gen_item :: "pull_apb \<Rightarrow> nat option" where
  "gen_item p = (case gen p of GIdle \<Rightarrow> None | GItem x i f \<Rightarrow> Some x)"

lemma gen_ok_at: "gen_ok b p \<Longrightarrow> gen_at status_end (core p) b (gen_item p) (length (delivered p))"
  by (auto simp: gen_ok_def gen_at_def gen_item_def commands_total split: gen_point.splits)

lemma history_ok_at:
  assumes "pull_inv b (core p)" "history_ok err p rss current"
  shows "con_at status_end (core p) (length current) (length (consumed p)) (length (delivered p))"
proof -
  have "length (finished (core p)) \<le> length (accepted (core p))" using assms(1) by (simp add: pull_inv_def)
  then have "map length rss = map status_end (take (length (finished (core p))) (accepted (core p)))"
    using assms(2) by (intro nth_equalityI) (auto simp: history_ok_def)
  then have "length (concat rss) = total_units status_end (accepted (core p)) (length (finished (core p)))"
    by (simp add: length_concat total_units_def)
  then show ?thesis using assms(2) by (auto simp: history_ok_def con_at_def)
qed

lemma generate_start:
  assumes "apb_inv err p" "gen_left p = Some left" "gen p = GIdle"
  shows "\<exists>p'. GenerateCommands left p = Some p' \<and> apb_inv err p'"
proof (cases "NoScheduled (m_queue (core p))")
  case True
  from assms(1) show ?thesis
  proof (cases rule: apb_invE)
    case (1 b rss current f)
    have b: "b = length (accepted (core p))" using all_started [OF 1(1)] True by simp
    have "gen_ok b (gen_yield p)"
      using 1(4) assms(2,3) all_started_clean [of "core p"] 1(1)
      by (simp add: gen_ok_def gen_yield_def emitted_def b)
    moreover have "con_ok b (gen_yield p) current f" "txs_ok err b (gen_yield p) current f"
      "history_ok err (gen_yield p) rss current"
      using 1(5-7) gen_yield_frame by blast+
    ultimately have "apb_inv err (gen_yield p)"
      using 1(1-3) by (intro apb_invI [of b _ current f _ rss]) (simp_all add: gen_yield_def)
    then show ?thesis using True assms(3) by (simp add: GenerateCommands_def)
  qed
next
  case False
  from assms(1) show ?thesis
  proof (cases rule: apb_invE)
    case (1 b rss current f)
    let ?acc = "accepted (core p)"
    have le: "length (finished (core p)) \<le> b" "b \<le> length ?acc" using 1(1) by (auto simp: pull_inv_def)
    then have b: "b < length ?acc" using all_started [OF 1(1)] False by auto
    obtain c where c: "pull_start (core p) = Some (b, c)" "pull_inv (Suc b) c" "accepted c = ?acc"
      "finished c = finished (core p)" "m_txs c = m_txs (core p)" "m_exe_gate c = m_exe_gate (core p)"
      using pull_start_inv [OF 1(1) b] by blast
    have tx: "m_txs (core p) b = Some (?acc ! b)" "apb_tx (?acc ! b)"
      using 1(1,3) b by (auto simp: pull_inv_def list_all_length)
    let ?p = "p\<lparr>core := c, gen := GItem b 0 True\<rparr>"
    have g: "generated ?p x = (if x = b then 0 else generated p x)" for x
      using assms(3) c(3) by (simp add: generated_def)
    have e: "delivered p @ gen_acc p = concat (map commands (take b ?acc))"
      using 1(4) assms(2,3) by (simp add: gen_ok_def emitted_def)
    then have "length (delivered p) \<le> total_units status_end ?acc b"
      by (metis commands_total le_add1 length_append)
    from apb.gen_at_start [OF this 1(1) b tx(2), of c] c(3,4)
    have "length (delivered p) < length (concat (map commands (take (Suc b) ?acc)))"
      by (simp add: gen_at_def commands_total)
    then have "gen_ok (Suc b) ?p"
      using e assms(2) le(1) c(3,4) by (simp add: gen_ok_def emitted_def)
    moreover have "con_ok (Suc b) ?p current f"
      using 1(5) c(3,4) by (auto simp: con_ok_def split: con_point.splits)
    moreover have "current = [] \<and> \<not> f" if "length (finished (core p)) = b"
      using that 1(5) by (auto simp: con_ok_def split: con_point.splits)
    then have "txs_ok err (Suc b) ?p current f"
      using 1(6) c(3-5) g tx(1) le(1) by (auto simp: txs_ok_def Let_def less_Suc_eq)
    moreover have "history_ok err ?p rss current"
      using 1(7) c(3,4) by (auto simp: history_ok_def results_left_def)
    ultimately have "apb_inv err ?p"
      using 1(2,3) c by (intro apb_invI [of "Suc b" _ current f _ rss]) (simp_all add: gate_counts_def)
    moreover have "GenerateCommands left p = Some ?p"
      using False assms(3) c(1,5) tx by (simp add: GenerateCommands_def apb_tx_def)
    ultimately show ?thesis by blast
  qed
qed

lemma txs_ok_item:
  assumes "txs_ok err b p current f" "length (finished (core p)) \<le> x" "x < b"
  obtains tx where "m_txs (core p) x = Some tx" "s_ins tx = s_ins (accepted (core p) ! x)"
    "status_end tx = status_end (accepted (core p) ! x)"
proof (cases "x = length (finished (core p))")
  case True
  then obtain tx where "m_txs (core p) x = Some tx"
    "(f, tx) = apply_results (err x) current (cleared (generated p x) (accepted (core p) ! x))"
    using assms(1,3) by (auto simp: txs_ok_def Let_def)
  then have "m_txs (core p) x = Some tx"
    "tx = snd (apply_results (err x) current (cleared (generated p x) (accepted (core p) ! x)))"
    by (auto simp: prod_eq_iff)
  then show ?thesis using that by simp
next
  case False
  then show ?thesis using assms that by (auto simp: txs_ok_def Let_def)
qed

lemma generate_item_end:
  assumes "apb_inv err p" "gen_left p = Some left" "gen p = GItem x i f'" "i = status_end (accepted (core p) ! x)"
  shows "apb_inv err (p\<lparr>gen := GIdle\<rparr>)"
  using assms(1)
proof (cases rule: apb_invE)
  case (1 b rss current f)
  let ?p = "p\<lparr>gen := GIdle\<rparr>" and ?acc = "accepted (core p)"
  have x: "b = Suc x" "x < length ?acc" using 1(1,4) assms(3) by (auto simp: gen_ok_def pull_inv_def)
  have g: "generated ?p y = generated p y" for y using assms(3,4) by (simp add: generated_def)
  have "gen_ok b ?p"
    using 1(4) assms(2-4) x by (simp add: gen_ok_def emitted_def take_Suc_conv_app_nth)
  moreover have "con_ok b ?p current f" using 1(5) by (simp add: con_ok_def split: con_point.splits)
  moreover have "txs_ok err b ?p current f" using 1(6) g by (simp add: txs_ok_def)
  moreover have "history_ok err ?p rss current" using 1(7) by (auto simp: history_ok_def results_left_def)
  ultimately show ?thesis using 1(1-3) by (intro apb_invI [of b _ current f _ rss]) simp_all
qed

lemma generate_yield:
  assumes "apb_inv err p" "gen_left p = Some left" "gen p = GItem x i f'" "i \<noteq> status_end (accepted (core p) ! x)"
  shows "apb_inv err (gen_yield p)"
  using assms(1)
proof (cases rule: apb_invE)
  case (1 b rss current f)
  have x: "b = Suc x" "x < length (accepted (core p))" using 1(1,4) assms(3) by (auto simp: gen_ok_def pull_inv_def)
  have "gen_ok b (gen_yield p)"
    using 1(4) assms(2-4) x by (auto simp: gen_ok_def gen_yield_def emitted_def commands_take_Suc_length)
  with 1 gen_yield_frame show ?thesis by (intro apb_invI [of b _ current f _ rss]) (simp_all add: gen_yield_def)
qed

lemma generate_command:
  assumes "apb_inv err p" "gen_left p = Some left" "gen p = GItem x i f'" "i < status_end (accepted (core p) ! x)"
  shows "\<exists>tx command out. m_txs (core p) x = Some tx \<and> visit_command f' (s_ins tx ! i) = Some (command, out) \<and>
    next_position tx i = Suc i \<and> status_end tx = status_end (accepted (core p) ! x) \<and>
    apb_inv err (p\<lparr>core := set_tx x (store_out i out tx) (core p), gen := GItem x (Suc i) False,
      gen_left := Some (left - 1), gen_acc := gen_acc p @ [command]\<rparr>)"
  using assms(1)
proof (cases rule: apb_invE)
  case (1 b rss current f)
  let ?acc = "accepted (core p)" and ?a = "length (finished (core p))"
  have x: "b = Suc x" "x < length ?acc" "?a \<le> x" "f' = (i = 0)"
    using 1(1,4) assms(3) by (auto simp: gen_ok_def pull_inv_def)
  obtain tx where tx: "m_txs (core p) x = Some tx" "s_ins tx = s_ins (?acc ! x)" "status_end tx = status_end (?acc ! x)"
    using txs_ok_item [OF 1(6) x(3)] x(1) by auto
  have "apb_tx (?acc ! x)" using 1(3) x(2) by (simp add: list_all_length)
  then have "visit_command True (s_ins (?acc ! x) ! i) \<noteq> None"
    using assms(4) by (auto simp: apb_tx_def status_end_def)
  then obtain a where a: "s_ins (?acc ! x) ! i = Inr a"
    "visit_command f' (Inr a) = Some (fst (the (visit_command f' (Inr a))), snd (the (visit_command True (Inr a))))"
    by (rule visit_command_cases [of _ f']) auto
  define command where "command = fst (the (visit_command f' (Inr a)))"
  define out where "out = snd (the (visit_command True (Inr a)))"
  let ?p = "p\<lparr>core := set_tx x (store_out i out tx) (core p), gen := GItem x (Suc i) False,
      gen_left := Some (left - 1), gen_acc := gen_acc p @ [command]\<rparr>"
  have core: "accepted (core ?p) = ?acc" "finished (core ?p) = finished (core p)"
    "m_txs (core ?p) = (m_txs (core p))(x \<mapsto> store_out i out tx)"
    by (simp_all add: set_tx_def)
  have "gen_ok b ?p"
    using 1(4) assms(2-4) x a(1) core
    by (auto simp: gen_ok_def emitted_def commands_take_Suc command_def Suc_le_eq)
  moreover have "con_ok b ?p current f"
    using 1(5) core by (simp add: con_ok_def split: con_point.splits)
  moreover have "txs_ok err b ?p current f"
  proof -
    have g: "generated ?p y = (if y = x then Suc i else generated p y)" "generated p x = i" for y
      using assms(3) core by (simp_all add: generated_def)
    have c: "cleared (Suc i) (?acc ! x) = store_out i out (cleared i (?acc ! x))"
      using a(1) by (simp add: cleared_Suc out_def)
    have "(f, store_out i out tx) = apply_results (err x) current (cleared (Suc i) (?acc ! x))" if "?a = x"
    proof -
      have "delivered p @ gen_acc p = concat (map commands (take x ?acc)) @ take i (commands (?acc ! x))"
        using 1(4) assms(2,3) by (simp add: gen_ok_def emitted_def)
      then have "length (delivered p) \<le> total_units status_end ?acc ?a + i"
        using assms(4) that by (metis commands_total le_add1 length_append length_commands length_take min.absorb4)
      then have "length current \<le> i" by (rule apb.answered_generated [OF history_ok_at [OF 1(1,7)]])
      moreover have "(f, tx) = apply_results (err x) current (cleared i (?acc ! x))"
        using 1(6) g(2) tx(1) that x(1) by (auto simp: txs_ok_def Let_def)
      ultimately show ?thesis unfolding c by (simp add: apply_results_commutes flip: \<open>(f, tx) = _\<close>)
    qed
    moreover have "m_txs (core ?p) x = Some (cleared (Suc i) (?acc ! x))" if "?a < x"
      using 1(6) core(3) g(2) tx(1) that x(1) c by (auto simp: txs_ok_def Let_def)
    ultimately show ?thesis
      using 1(6) core g(1) x(1) by (auto simp: txs_ok_def Let_def)
  qed
  moreover have "history_ok err ?p rss current"
    using 1(7) core by (auto simp: history_ok_def results_left_def)
  moreover have "pull_inv b (core ?p)" "gate_counts (core ?p)"
    using 1(1,2) x by (auto simp: pull_inv_def gate_counts_def set_tx_def)
  ultimately have "apb_inv err ?p" using 1(3) core by (intro apb_invI [of b _ current f _ rss]) simp_all
  moreover have "next_position tx i = Suc i" using tx a(1) assms(4) by (simp add: next_position_def status_end_def)
  ultimately show ?thesis using tx a by (auto simp: command_def out_def)
qed

lemma generate_inv:
  assumes "apb_inv err p" "gen_left p = Some left"
  shows "\<exists>p'. GenerateCommands left p = Some p' \<and> apb_inv err p'"
proof (cases "gen p")
  case GIdle
  then show ?thesis using generate_start assms by blast
next
  case (GItem x i f')
  from assms(1) obtain tx where tx: "m_txs (core p) x = Some tx" "status_end tx = status_end (accepted (core p) ! x)"
    "i \<le> status_end tx"
  proof (cases rule: apb_invE)
    case (1 b rss current f)
    then have "length (finished (core p)) \<le> x" "x < b" "i \<le> status_end (accepted (core p) ! x)"
      using GItem by (auto simp: gen_ok_def)
    then show ?thesis using txs_ok_item [OF 1(6)] that by metis
  qed
  then consider "i = status_end (accepted (core p) ! x)" | "i < status_end (accepted (core p) ! x)" by linarith
  then show ?thesis
  proof cases
    case 1
    then show ?thesis using generate_item_end [OF assms GItem] tx GItem by (simp add: GenerateCommands_def)
  next
    case 2
    then show ?thesis
      using generate_yield [OF assms GItem] generate_command [OF assms GItem] tx GItem
      by (cases left) (auto simp: GenerateCommands_def)
  qed
qed

subsection \<open>The consumer\<close>

lemma con_frame:
  "gen_ok b (p\<lparr>con := k\<rparr>) \<longleftrightarrow> gen_ok b p" "gen_ok b (p\<lparr>con_left := l\<rparr>) \<longleftrightarrow> gen_ok b p"
  "txs_ok err b (p\<lparr>con := k\<rparr>) current f \<longleftrightarrow> txs_ok err b p current f"
  "txs_ok err b (p\<lparr>con_left := l\<rparr>) current f \<longleftrightarrow> txs_ok err b p current f"
  "con_ok b (p\<lparr>con_left := l\<rparr>) current f \<longleftrightarrow> con_ok b p current f"
  "history_ok err (p\<lparr>con := k\<rparr>) rss current \<longleftrightarrow> history_ok err p rss current"
  "history_ok err p rss current \<Longrightarrow> history_ok err (p\<lparr>con_left := None\<rparr>) rss current"
proof -
  have g: "generated (p\<lparr>con := k\<rparr>) x = generated p x" "generated (p\<lparr>con_left := l\<rparr>) x = generated p x" for x
    by (simp_all add: generated_def split: gen_point.split)
  show "gen_ok b (p\<lparr>con := k\<rparr>) \<longleftrightarrow> gen_ok b p" "gen_ok b (p\<lparr>con_left := l\<rparr>) \<longleftrightarrow> gen_ok b p"
    by (simp_all add: gen_ok_def emitted_def split: gen_point.split)
  show "txs_ok err b (p\<lparr>con := k\<rparr>) current f \<longleftrightarrow> txs_ok err b p current f"
    "txs_ok err b (p\<lparr>con_left := l\<rparr>) current f \<longleftrightarrow> txs_ok err b p current f"
    by (simp_all add: txs_ok_def g)
  show "con_ok b (p\<lparr>con_left := l\<rparr>) current f \<longleftrightarrow> con_ok b p current f"
    by (simp add: con_ok_def split: con_point.split)
  show "history_ok err (p\<lparr>con := k\<rparr>) rss current \<longleftrightarrow> history_ok err p rss current"
    "history_ok err p rss current \<Longrightarrow> history_ok err (p\<lparr>con_left := None\<rparr>) rss current"
    by (auto simp: history_ok_def results_left_def)
qed

lemma con_yield_inv:
  assumes "apb_inv err p"
  shows "apb_inv err (p\<lparr>con_left := None\<rparr>)"
  using assms
proof (cases rule: apb_invE)
  case (1 b rss current f)
  then show ?thesis using con_frame by (intro apb_invI [of b _ current f _ rss]) simp_all
qed

lemma consume_start:
  assumes "apb_inv err p" "con_left p = Some left" "con p = CIdle"
  shows "\<exists>p'. ConsumeResults err left p = Some p' \<and> apb_inv err p'"
  using assms(1)
proof (cases rule: apb_invE)
  case (1 b rss current f)
  let ?a = "length (finished (core p))"
  have cur: "current = []" "\<not> f" using 1(5) assms(3) by (auto simp: con_ok_def)
  have le: "?a \<le> b" using 1(1) by (simp add: pull_inv_def)
  show ?thesis
  proof (cases "?a = b")
    case True
    then have "NoInProgress (m_queue (core p))"
      using none_in_progress [OF 1(1) apb.consumer_clean [OF gen_ok_at [OF 1(4)] history_ok_at [OF 1(1,7)] 1(1)]]
      by simp
    moreover have "apb_inv err (p\<lparr>con_left := None\<rparr>)" by (rule con_yield_inv) fact
    ultimately show ?thesis using assms(3) by (simp add: ConsumeResults_def)
  next
    case False
    then have a: "?a < b" using le by simp
    obtain tx where tx: "m_txs (core p) ?a = Some tx" "tx = cleared (generated p ?a) (accepted (core p) ! ?a)"
      using 1(6) a cur by (auto simp: txs_ok_def Let_def)
    have "apb_tx (accepted (core p) ! ?a)" using 1(1,3) a by (auto simp: list_all_length pull_inv_def)
    then have i: "m_first_incomplete tx = 0" using tx(2) by (simp add: apb_tx_def)
    have "con_ok b (p\<lparr>con := CItem ?a 0 False\<rparr>) current f" using cur a by (simp add: con_ok_def)
    then have "apb_inv err (p\<lparr>con := CItem ?a 0 False\<rparr>)"
      using 1 con_frame by (intro apb_invI [of b _ current f _ rss]) simp_all
    then show ?thesis
      using some_in_progress [OF 1(1) a] assms(3) tx(1) i by (simp add: ConsumeResults_def)
  qed
qed

lemma consume_item_end:
  assumes "apb_inv err p" "con p = CItem x i f'" "i = status_end (accepted (core p) ! x)"
  shows "\<exists>c. pull_finish (core p) = Some c \<and> apb_inv err (p\<lparr>core := c, con := CIdle\<rparr>)"
  using assms(1)
proof (cases rule: apb_invE)
  case (1 b rss current f)
  let ?a = "length (finished (core p))" and ?acc = "accepted (core p)"
  have x: "x = ?a" "?a < b" "i = length current" "f' = f" using 1(5) assms(2) by (auto simp: con_ok_def)
  have le: "b \<le> length ?acc" using 1(1) by (simp add: pull_inv_def)
  have at: "gen_at status_end (core p) b (gen_item p) (length (delivered p))"
    "con_at status_end (core p) (status_end (?acc ! ?a)) (length (consumed p)) (length (delivered p))"
    using gen_ok_at [OF 1(4)] history_ok_at [OF 1(1,7)] x assms(3) by simp_all
  have "clean (core p) b" if "?a = b - 1"
    using apb.consumer_clean [OF at 1(1)] that x(2) by simp
  from pull_finish_inv [OF 1(1) x(2) this] obtain c tx where c: "m_txs (core p) ?a = Some tx"
    "pull_finish (core p) = Some c" "pull_inv b c" "accepted c = ?acc" "finished c = finished (core p) @ [tx]"
    "m_txs c = (m_txs (core p))(?a := None)" "clean (core p) b \<longrightarrow> clean c b"
    "gate_counts (core p) \<longrightarrow> gate_counts c"
    by blast
  let ?p = "p\<lparr>core := c, con := CIdle\<rparr>"
  have g: "generated ?p y = generated p y" for y
    using c(4) by (simp add: generated_def split: gen_point.split)
  have not_gen: "gen p \<noteq> GItem ?a j h" for j h
    using apb.finished_not_generated [OF at 1(1)] by (auto simp: gen_item_def)
  then have "generated p ?a = status_end (?acc ! ?a)" by (simp add: generated_def split: gen_point.split)
  then have tx: "tx = completed (err ?a) (?acc ! ?a) current"
    using 1(6) x(2) c(1) by (auto simp: txs_ok_def Let_def completed_def prod_eq_iff)
  have "gen_ok b ?p"
    using 1(4) c(4,5,7) not_gen by (auto simp: gen_ok_def emitted_def Suc_le_eq le_less split: gen_point.splits)
  moreover have "con_ok b ?p [] False" by (simp add: con_ok_def)
  moreover have "txs_ok err b ?p [] False"
    using 1(6) c(4-6) g by (auto simp: txs_ok_def Let_def)
  moreover have "history_ok err ?p (rss @ [current]) []"
    using 1(7) c(4,5) tx x assms(3)
    by (auto simp: history_ok_def results_left_def nth_append less_Suc_eq)
  ultimately have "apb_inv err ?p"
    using 1(2,3) c by (intro apb_invI [of b _ "[]" False _ "rss @ [current]"]) simp_all
  then show ?thesis using c(2) by blast
qed

lemma consume_result:
  assumes "apb_inv err p" "con_left p = Some (r # rs)" "con p = CItem x i f'" "i < status_end (accepted (core p) ! x)"
  shows "\<exists>tx f'' tx'. m_txs (core p) x = Some tx \<and> consume_one (err x) r i (f', tx) = (f'', tx') \<and>
    next_position tx i = Suc i \<and> status_end tx = status_end (accepted (core p) ! x) \<and>
    apb_inv err (p\<lparr>core := set_tx x tx' (core p), con := CItem x (Suc i) f'',
      con_left := Some rs, consumed := consumed p @ [r]\<rparr>)"
  using assms(1)
proof (cases rule: apb_invE)
  case (1 b rss current f)
  let ?a = "length (finished (core p))" and ?acc = "accepted (core p)"
  have x: "x = ?a" "?a < b" "i = length current" "f' = f" using 1(5) assms(3) by (auto simp: con_ok_def)
  have le: "b \<le> length ?acc" using 1(1) by (simp add: pull_inv_def)
  obtain tx where tx: "m_txs (core p) ?a = Some tx"
    "(f, tx) = apply_results (err ?a) current (cleared (generated p ?a) (?acc ! ?a))"
    using 1(6) x(2) by (auto simp: txs_ok_def Let_def)
  then have ins: "s_ins tx = s_ins (?acc ! ?a)" by (metis apply_results_ins cleared_simps(1) snd_conv)
  obtain f'' tx' where s: "consume_one (err x) r i (f', tx) = (f'', tx')" by (cases "consume_one (err x) r i (f', tx)")
  have s': "(f'', tx') = apply_results (err ?a) (current @ [r]) (cleared (generated p ?a) (?acc ! ?a))"
    using s x by (simp add: apply_results_snoc flip: tx(2))
  let ?p = "p\<lparr>core := set_tx x tx' (core p), con := CItem x (Suc i) f'',
      con_left := Some rs, consumed := consumed p @ [r]\<rparr>"
  have core: "accepted (core ?p) = ?acc" "finished (core ?p) = finished (core p)"
    "m_txs (core ?p) = (m_txs (core p))(x \<mapsto> tx')" "m_queue (core ?p) = m_queue (core p)"
    by (simp_all add: set_tx_def)
  have g: "generated ?p y = generated p y" for y
    using core(1) by (simp add: generated_def split: gen_point.split)
  have "emitted ?p = emitted p" "clean (core ?p) b \<longleftrightarrow> clean (core p) b"
    using core by (simp_all add: emitted_def clean_def)
  then have "gen_ok b ?p"
    using 1(4) core by (simp add: gen_ok_def split: gen_point.splits)
  moreover have "con_ok b ?p (current @ [r]) f''" using core x assms(4) by (simp add: con_ok_def)
  moreover have "txs_ok err b ?p (current @ [r]) f''"
    using 1(6) core g s' x(1) by (auto simp: txs_ok_def Let_def)
  moreover have "history_ok err ?p rss (current @ [r])"
    using 1(7) core assms(2) by (auto simp: history_ok_def results_left_def)
  moreover have "pull_inv b (core ?p)" "gate_counts (core ?p)"
    using 1(1,2) x by (auto simp: pull_inv_def gate_counts_def set_tx_def)
  ultimately have "apb_inv err ?p" using 1(3) core by (intro apb_invI [of b _ "current @ [r]" f'' _ rss]) simp_all
  moreover have "next_position tx i = Suc i" "status_end tx = status_end (?acc ! x)"
  proof -
    have "apb_tx (?acc ! ?a)" using 1(3) x(2) le by (simp add: list_all_length)
    then have "visit_command True (s_ins tx ! i) \<noteq> None"
      using assms(4) ins x(1) by (auto simp: apb_tx_def status_end_def)
    then show "next_position tx i = Suc i" "status_end tx = status_end (?acc ! x)"
      using ins assms(4) x(1) visit_command_known by (auto simp: next_position_def status_end_def)
  qed
  ultimately show ?thesis using tx(1) s x(1) by blast
qed

lemma consume_inv:
  assumes "apb_inv err p" "con_left p = Some left"
  shows "\<exists>p'. ConsumeResults err left p = Some p' \<and> apb_inv err p'"
proof (cases "con p")
  case CIdle
  then show ?thesis using consume_start assms by blast
next
  case (CItem x i f')
  from assms(1) obtain tx where tx: "m_txs (core p) x = Some tx" "status_end tx = status_end (accepted (core p) ! x)"
    "i \<le> status_end tx"
  proof (cases rule: apb_invE)
    case (1 b rss current f)
    then have "length (finished (core p)) \<le> x" "x < b" "i \<le> status_end (accepted (core p) ! x)"
      using CItem by (auto simp: con_ok_def)
    then show ?thesis using txs_ok_item [OF 1(6)] that by metis
  qed
  then consider "i = status_end (accepted (core p) ! x)" | "i < status_end (accepted (core p) ! x)" by linarith
  then show ?thesis
  proof cases
    case 1
    then show ?thesis using consume_item_end [OF assms(1) CItem] tx CItem by (auto simp: ConsumeResults_def)
  next
    case 2
    show ?thesis
    proof (cases left)
      case Nil
      then show ?thesis using con_yield_inv [OF assms(1)] tx CItem 2 by (simp add: ConsumeResults_def)
    next
      case (Cons r rs)
      then show ?thesis
        using consume_result [OF assms(1) _ CItem 2] assms(2) tx CItem 2 by (fastforce simp: ConsumeResults_def)
    qed
  qed
qed

subsection \<open>Properties\<close>

lemma apb_run_inv:
  assumes "apb_run err gate r" "gate = None \<or> gate = Some new_gate"
  shows "\<exists>p. r = Some p \<and> apb_inv err p"
  using assms(1)
proof (induction rule: apb_run.induct)
  case start
  show ?case using apb_inv_start [OF assms(2)] by simp
next
  case (step p r)
  then have inv: "apb_inv err p" by simp
  from step.hyps(2) show ?case
  proof (cases rule: apb_step.cases)
    case (execute tx)
    then show ?thesis using execute_inv [OF inv] by simp
  next
    case (pull n)
    then show ?thesis using pull_call_inv [OF inv] by simp
  next
    case (generate left)
    then show ?thesis using generate_inv [OF inv] by simp
  next
    case (push results)
    then show ?thesis using push_call_inv [OF inv] by simp
  next
    case (consume left)
    then show ?thesis using consume_inv [OF inv] by simp
  qed
qed

lemma emitted_prefix:
  assumes "apb_inv err p"
  shows "prefix (emitted p) (concat (map commands (accepted (core p))))"
  using assms
proof (cases rule: apb_invE)
  case (1 b rss current f)
  let ?acc = "accepted (core p)"
  have split: "concat (map commands ?acc) = concat (map commands (take k ?acc)) @ concat (map commands (drop k ?acc))" for k
    by (metis append_take_drop_id concat_append map_append)
  show ?thesis
  proof (cases "gen p")
    case GIdle
    then show ?thesis using 1(4) split [of b] by (simp add: gen_ok_def)
  next
    case (GItem x i g)
    then have "x < length ?acc" "emitted p = concat (map commands (take x ?acc)) @ take i (commands (?acc ! x))"
      using 1(1,4) by (auto simp: gen_ok_def pull_inv_def)
    then show ?thesis
      using split [of x] by (simp add: take_is_prefix prefix_prefix flip: Cons_nth_drop_Suc)
  qed
qed

text \<open>Property C25: in every interleaving of clients, \<open>PullCommands\<close> and \<open>PushResults\<close>, with a simulation that
  answers only commands it was given, no assertion fails and no transaction is touched after it was
  handed back; the commands pulled are those of the accepted transactions in order; the results are
  split among the transactions in the same order, and each transaction is handed back as its own
  results complete it. The gate counts the transactions that were not handed back yet.\<close>

theorem apb_serves_in_order:
  assumes "apb_run err gate r" "gate = None \<or> gate = Some new_gate"
  shows "\<exists>p rss current. r = Some p
    \<and> prefix (delivered p) (concat (map commands (accepted (core p))))
    \<and> consumed p = concat rss @ current \<and> length (consumed p) \<le> length (delivered p)
    \<and> length rss = length (finished (core p)) \<and> length rss \<le> length (accepted (core p))
    \<and> (\<forall>k < length rss. length (rss ! k) = length (commands (accepted (core p) ! k)) \<and>
         finished (core p) ! k = completed (err k) (accepted (core p) ! k) (rss ! k))
    \<and> (\<forall>g. m_exe_gate (core p) = Some g \<longrightarrow>
         m_num_requests g = of_nat (length (accepted (core p)) - length (finished (core p))))"
proof -
  obtain p where p: "r = Some p" "apb_inv err p" using apb_run_inv [OF assms] by blast
  have pre: "prefix (delivered p) (concat (map commands (accepted (core p))))"
    using emitted_prefix [OF p(2)] by (auto simp: emitted_def intro: append_prefixD)
  from p(2) show ?thesis
  proof (cases rule: apb_invE)
    case (1 b rss current f)
    then show ?thesis
      using p(1) pre
      by (intro exI [of _ p] exI [of _ rss] exI [of _ current])
         (auto simp: history_ok_def gate_counts_def pull_inv_def)
  qed
qed

definition read_tx :: "u32 status" where
  "read_tx = \<lparr>s_ins = [Inr (APBRead 16)], s_outs = [7], s_allocation_failure = False,
     s_dependent = \<lparr>dep_chain = [], dep_length = 0\<rparr>, m_first_incomplete = 0, m_error = None\<rparr>"

lemma read_tx_ok: "apb_tx read_tx"
  by (simp add: apb_tx_def read_tx_def)

theorem apb_serves_in_order_witness:
  "\<exists>p. apb_run (\<lambda>_. True) None (Some p) \<and> accepted (core p) = [read_tx] \<and>
     prefix (delivered p) (commands read_tx)"
proof -
  have run: "apb_run (\<lambda>_. True) None (Execute read_tx (PullAPB None))"
    using apb_run.step [OF apb_run.start apb_step.execute [OF read_tx_ok]] .
  from apb_serves_in_order [OF this] obtain p where p: "Execute read_tx (PullAPB None) = Some p"
    "prefix (delivered p) (concat (map commands (accepted (core p))))"
    by blast
  moreover have "accepted (core p) = [read_tx]"
    using p(1) by (auto simp: Execute_def pull_execute_def PullAPB_def new_pull_queue_def Let_def split: bind_splits)
  ultimately show ?thesis using run by auto
qed

text \<open>How the results decide a transaction.\<close>

definition result_ok :: "u8 \<times> u32 \<Rightarrow> bool" where
  "result_ok r \<longleftrightarrow> fst r \<noteq> PStatusError \<and> fst r \<noteq> PStatusTimeout"

definition result_cause :: "u8 \<times> u32 \<Rightarrow> cause" where
  "result_cause r = (if fst r = PStatusError then CauseTargetError else CauseTimeoutInCycles (snd r))"

definition good_results :: "(u8 \<times> u32) list \<Rightarrow> nat" where
  "good_results rs = length (takeWhile result_ok rs)"

lemma good_results_snoc:
  "good_results (rs @ [r]) = (if good_results rs = length rs \<and> result_ok r then Suc (length rs) else good_results rs)"
  by (induction rs) (auto simp: good_results_def)

lemma good_results_le: "good_results rs \<le> length rs"
  by (simp add: good_results_def length_takeWhile_le)

definition decided :: "bool \<Rightarrow> u32 status \<Rightarrow> (u8 \<times> u32) list \<Rightarrow> u32 status \<Rightarrow> bool" where
  "decided err tx rs tx' \<longleftrightarrow>
     s_ins tx' = s_ins tx \<and> s_allocation_failure tx' = s_allocation_failure tx \<and>
     length (s_outs tx') = length (s_outs tx) \<and>
     m_first_incomplete tx' = good_results rs \<and>
     (\<forall>i < good_results rs. is_read (s_ins tx ! i) \<longrightarrow> s_outs tx' ! i = snd (rs ! i)) \<and>
     m_error tx' =
       (if good_results rs = length rs then m_error tx
        else if err then Some (ActionError (s_ins tx ! good_results rs) (result_cause (rs ! good_results rs)))
        else None)"

lemma apply_results_decided:
  assumes "length rs \<le> status_end tx" "length (s_outs tx) = length (s_ins tx)" "m_first_incomplete tx = 0"
    and "\<forall>a \<in> set (s_ins tx). \<not> isl a"
  shows "fst (apply_results err rs tx) = (good_results rs < length rs) \<and>
    decided err tx rs (snd (apply_results err rs tx))"
  using assms(1)
proof (induction rs rule: rev_induct)
  case Nil
  then show ?case using assms by (simp add: decided_def good_results_def)
next
  case (snoc r rs)
  obtain f tx' where s: "apply_results err rs tx = (f, tx')" by (cases "apply_results err rs tx")
  have IH: "f = (good_results rs < length rs)" "decided err tx rs tx'" using snoc s by auto
  have n: "length rs < length (s_ins tx)" using snoc.prems by (simp add: status_end_def)
  then have known: "\<not> isl (s_ins tx ! length rs)" using assms(4) nth_mem by blast
  show ?case
  proof (cases f)
    case True
    then have "good_results rs < length rs" using IH by simp
    then show ?thesis
      using IH True s
      by (cases r) (simp add: apply_results_snoc consume_one_def decided_def good_results_snoc nth_append)
  next
    case False
    then have g: "good_results rs = length rs" using IH good_results_le [of rs] by simp
    have "\<not> status_ok tx'" using IH(2) g n by (simp add: decided_def status_ok_def status_end_def)
    then show ?thesis
      using IH(2) False s g n known assms(2)
      by (cases r)
         (auto simp: apply_results_snoc consume_one_def decided_def good_results_snoc nth_append result_ok_def
            result_cause_def Fail_def FailImpl_def deref_def MakeActionError_def Done_def next_position_def
            put_out_def nth_list_update isl_def less_Suc_eq split: sum.splits)
  qed
qed

text \<open>The results decide a transaction. It is complete up to the first result that is an error
  or a timeout, its reads up to there hold the data of their results, and the error names the
  action and the cause; without such a result it is complete and has no error.\<close>

theorem apb_results_decide:
  assumes "apb_tx tx" "length rs = length (commands tx)"
  shows "decided err tx rs (completed err tx rs) \<and>
    (status_ok (completed err tx rs) \<longleftrightarrow> (\<forall>r \<in> set rs. result_ok r))"
proof -
  let ?tx = "cleared (status_end tx) tx"
  have known: "\<forall>a \<in> set (s_ins tx). \<not> isl a"
    using assms(1) visit_command_known by (auto simp: apb_tx_def)
  have "decided err ?tx rs (completed err tx rs)"
    using apply_results_decided [of rs ?tx err] assms known
    by (simp add: completed_def apb_tx_def)
  then have d: "decided err tx rs (completed err tx rs)" by (simp add: decided_def)
  have "good_results rs = length rs \<longleftrightarrow> (\<forall>r \<in> set rs. result_ok r)"
    by (metis good_results_def takeWhile_eq_all_conv takeWhile_eq_take take_all_iff le_refl)
  with d show ?thesis
    using assms by (auto simp: decided_def status_ok_def status_end_def apb_tx_def)
qed

theorem apb_results_decide_witness:
  "apb_tx read_tx \<and> decided True read_tx [(2, 100)] (completed True read_tx [(2, 100)])"
  using apb_results_decide [of read_tx "[(2, 100)]" True] read_tx_ok
  by (simp add: status_end_def read_tx_def)

text \<open>A call of \<open>PullCommands\<close> ends.\<close>

definition gen_rank :: "pull_apb \<Rightarrow> nat" where
  "gen_rank p = 2 * (length (accepted (core p)) - started (core p)) +
     (case gen p of GIdle \<Rightarrow> 0 | GItem x i f \<Rightarrow> 1) + (case gen_left p of None \<Rightarrow> 0 | Some n \<Rightarrow> Suc n)"

lemma generate_progress:
  assumes "apb_inv err p" "gen_left p = Some left" "GenerateCommands left p = Some p'"
  shows "gen_rank p' < gen_rank p \<and> accepted (core p') = accepted (core p) \<and>
    (p' = gen_yield p \<and> (left = 0 \<or> gen p = GIdle \<and> started (core p) = length (accepted (core p))) \<or>
     delivered p' = delivered p \<and> (\<exists>l. gen_left p' = Some l \<and> length (gen_acc p') + l = length (gen_acc p) + left))"
  using assms(1)
proof (cases rule: apb_invE)
  case (1 b rss current f)
  note b = started_eq [OF 1(1)]
  show ?thesis
  proof (cases "gen p")
    case GIdle
    show ?thesis
    proof (cases "NoScheduled (m_queue (core p))")
      case True
      then have "p' = gen_yield p" using GIdle assms(3) by (simp add: GenerateCommands_def)
      then show ?thesis
        using True GIdle assms(2) all_started [OF 1(1)] b by (simp add: gen_yield_def gen_rank_def started_def)
    next
      case False
      then have lt: "b < length (accepted (core p))" using all_started [OF 1(1)] 1(1) by (auto simp: pull_inv_def)
      from pull_start_inv [OF 1(1) lt] obtain c where c: "pull_start (core p) = Some (b, c)" "pull_inv (Suc b) c"
        "accepted c = accepted (core p)" "m_txs c = m_txs (core p)" by blast
      moreover obtain tx where "m_txs (core p) b = Some tx" using 1(1) lt by (auto simp: pull_inv_def)
      ultimately have p': "p' = p\<lparr>core := c, gen := GItem b (m_first_incomplete tx) True\<rparr>"
        using False GIdle assms(3) by (simp add: GenerateCommands_def)
      then have "started (core p') = Suc b" using started_eq [of "Suc b" c] p' c(2) by simp
      then show ?thesis using p' c(3) lt b GIdle assms(2) by (simp add: gen_rank_def)
    qed
  next
    case (GItem x i f')
    then obtain tx where tx: "m_txs (core p) x = Some tx" using assms(3) by (auto simp: GenerateCommands_def split: bind_splits)
    consider "i = status_end tx" | "i \<noteq> status_end tx" "left = 0" | "i \<noteq> status_end tx" "left \<noteq> 0" by blast
    then show ?thesis
    proof cases
      case 1
      then have "p' = p\<lparr>gen := GIdle\<rparr>" using GItem tx assms(3) by (simp add: GenerateCommands_def)
      then show ?thesis using GItem assms(2) by (simp add: gen_rank_def started_def)
    next
      case 2
      then have "p' = gen_yield p" using GItem tx assms(3) by (simp add: GenerateCommands_def)
      then show ?thesis using 2 assms(2) by (simp add: gen_yield_def gen_rank_def started_def)
    next
      case 3
      then obtain command out where "p' = p\<lparr>core := set_tx x (store_out i out tx) (core p),
          gen := GItem x (next_position tx i) False, gen_left := Some (left - 1), gen_acc := gen_acc p @ [command]\<rparr>"
        using GItem tx assms(3) by (auto simp: GenerateCommands_def split: bind_splits)
      then show ?thesis using 3 GItem assms(2) by (simp add: gen_rank_def)
    qed
  qed
qed

lemma run_generator_correct:
  assumes "apb_inv err p" "gen_left p = Some left"
  shows "\<exists>p'. run_generator p = Some p' \<and> apb_inv err p' \<and> gen_left p' = None \<and>
    delivered p' = delivered p @ gen_acc p' \<and> accepted (core p') = accepted (core p) \<and>
    gen_acc p' = take (length (gen_acc p) + left)
      (drop (length (delivered p)) (concat (map commands (accepted (core p)))))"
  using assms
proof (induction "gen_rank p" arbitrary: p left rule: less_induct)
  case less
  obtain p1 where p1: "GenerateCommands left p = Some p1" "apb_inv err p1"
    using generate_inv [OF less.prems] by blast
  note prog = generate_progress [OF less.prems p1(1)]
  then consider
      (yield) "p1 = gen_yield p" "left = 0 \<or> gen p = GIdle \<and> started (core p) = length (accepted (core p))"
    | (go) l where "gen_left p1 = Some l" "delivered p1 = delivered p" "length (gen_acc p1) + l = length (gen_acc p) + left"
    by blast
  then show ?case
  proof cases
    case yield
    then have g: "gen_left p1 = None" "delivered p1 = delivered p @ gen_acc p" "gen_acc p1 = gen_acc p" "core p1 = core p"
      by (simp_all add: gen_yield_def)
    have run: "run_generator p = Some p1"
      using less.prems(2) p1(1) g(1) by (simp add: run_generator.simps)
    have "prefix (delivered p @ gen_acc p) (concat (map commands (accepted (core p))))"
      using emitted_prefix [OF less.prems(1)] less.prems(2) by (simp add: emitted_def)
    then obtain rest where rest: "concat (map commands (accepted (core p))) = delivered p @ gen_acc p @ rest"
      by (auto elim: prefixE)
    have "rest = [] \<or> left = 0"
    proof (cases "left = 0")
      case False
      then have "gen p = GIdle" "started (core p) = length (accepted (core p))" using yield(2) by auto
      with less.prems show ?thesis
        using rest by (auto elim!: apb_invE dest: started_eq simp: gen_ok_def emitted_def)
    qed simp
    then show ?thesis using run p1(2) g rest by auto
  next
    case go
    have lt: "gen_rank p1 < gen_rank p" and acc: "accepted (core p1) = accepted (core p)" using prog by auto
    from less.hyps [OF lt p1(2) go(1)] obtain p' where "run_generator p1 = Some p'" "apb_inv err p'"
      "gen_left p' = None" "delivered p' = delivered p @ gen_acc p'" "accepted (core p') = accepted (core p)"
      "gen_acc p' = take (length (gen_acc p) + left) (drop (length (delivered p)) (concat (map commands (accepted (core p)))))"
      unfolding go(2,3) acc by blast
    moreover from this(1) have "run_generator p = Some p'"
      using less.prems(2) p1(1) by (subst run_generator.simps) simp
    ultimately show ?thesis by blast
  qed
qed

text \<open>A call of \<open>PullCommands\<close> returns, and gives the next commands of the accepted transactions
  in order: as many as fit, and all of them when they fit.\<close>

theorem PullCommands_correct:
  assumes "apb_run err gate (Some p)" "gate = None \<or> gate = Some new_gate" "gen_left p = None"
  shows "\<exists>p'. PullCommands n p = Some p' \<and> gen_left p' = None \<and> delivered p' = delivered p @ gen_acc p' \<and>
    accepted (core p') = accepted (core p) \<and>
    gen_acc p' = take n (drop (length (delivered p)) (concat (map commands (accepted (core p)))))"
proof -
  have inv: "apb_inv err (gen_resume n p)" using apb_run_inv [OF assms(1,2)] pull_call_inv assms(3) by blast
  have r: "gen_left (gen_resume n p) = Some n" "gen_acc (gen_resume n p) = []"
    "delivered (gen_resume n p) = delivered p" "core (gen_resume n p) = core p"
    by (simp_all add: gen_resume_def)
  from run_generator_correct [OF inv r(1)] show ?thesis unfolding PullCommands_def r by auto
qed

theorem PullCommands_correct_witness:
  "\<exists>p p'. Execute read_tx (PullAPB None) = Some p \<and> PullCommands 5 p = Some p' \<and> gen_acc p' = commands read_tx"
proof -
  have run: "apb_run (\<lambda>_. True) None (Execute read_tx (PullAPB None))"
    using apb_run.step [OF apb_run.start apb_step.execute [OF read_tx_ok]] .
  then obtain p where p: "Execute read_tx (PullAPB None) = Some p" using apb_run_inv by blast
  have init: "gen_left p = None" "delivered p = []" "accepted (core p) = [read_tx]"
    using p by (auto simp: Execute_def pull_execute_def PullAPB_def new_pull_queue_def Let_def split: bind_splits)
  have "take 5 (commands read_tx) = commands read_tx" by (simp add: status_end_def read_tx_def)
  with PullCommands_correct [OF run [unfolded p], of 5] init p show ?thesis by auto
qed

text \<open>Terminating the driver hands every transaction back at once, as far as it got, and ends
  the stalls; but a generator that is suspended inside a transaction keeps its reference to it, and
  touches it when the simulation calls again.\<close>

theorem apb_terminate_in_flight:
  assumes "apb_run err gate (Some p)" "gate = None \<or> gate = Some new_gate"
  shows "\<exists>p'. Terminate p = Some p'
    \<and> finished (core p') = finished (core p) @
        map (the \<circ> m_txs (core p)) [length (finished (core p))..<length (accepted (core p))]
    \<and> m_exe_gate (core p') = map_option Execution_Gate.Terminate (m_exe_gate (core p))
    \<and> (\<forall>x i f results. con p = CItem x i f \<longrightarrow> ConsumeResults err results (con_resume results p') = None)
    \<and> (\<forall>x i f n. gen p = GItem x i f \<longrightarrow> GenerateCommands n (gen_resume n p') = None)"
proof -
  have "apb_inv err p" using apb_run_inv [OF assms] by simp
  then show ?thesis
  proof (cases rule: apb_invE)
    case (1 b rss current f)
    have le: "length (finished (core p)) \<le> b" "b \<le> length (accepted (core p))" using 1(1) by (auto simp: pull_inv_def)
    obtain c where c: "pull_terminate (core p) = Some c"
      "finished c = finished (core p) @ map (the \<circ> m_txs (core p)) [length (finished (core p))..<length (accepted (core p))]"
      "\<forall>x \<ge> length (finished (core p)). x < length (accepted (core p)) \<longrightarrow> m_txs c x = None"
      "m_exe_gate c = map_option Execution_Gate.Terminate (m_exe_gate (core p))"
      using pull_terminate_inv [OF 1(1)] by blast
    have "ConsumeResults err results (con_resume results (p\<lparr>core := c\<rparr>)) = None" if "con p = CItem x i g" for x i g results
      using that 1(5) le c(3)
      by (auto simp: con_resume_def ConsumeResults_def con_ok_def)
    moreover have "GenerateCommands n (gen_resume n (p\<lparr>core := c\<rparr>)) = None" if "gen p = GItem x i g" for x i g n
      using that 1(4) le c(3)
      by (auto simp: gen_resume_def GenerateCommands_def gen_ok_def)
    ultimately show ?thesis using c by (auto simp: Terminate_def)
  qed
qed

definition in_item :: pull_apb where
  "in_item = the (GenerateCommands 0 (gen_resume 0 (the (Execute read_tx (PullAPB None)))))"

lemma in_item_run: "apb_run (\<lambda>_. True) None (Some in_item)" "gen in_item = GItem 0 0 True"
proof -
  let ?p = "the (Execute read_tx (PullAPB None))"
  have e: "Execute read_tx (PullAPB None) = Some ?p"
    by (simp add: Execute_def pull_execute_def PullAPB_def new_pull_queue_def rq_ops new_item_def empty_rqueue_def Let_def)
  have "apb_run (\<lambda>_. True) None (Some ?p)"
    using apb_run.step [OF apb_run.start apb_step.execute [OF read_tx_ok], of "\<lambda>_. True" None] e by simp
  moreover have "gen_left ?p = None" by (simp add: Execute_def pull_execute_def PullAPB_def new_pull_queue_def
        rq_ops new_item_def empty_rqueue_def Let_def)
  ultimately have "apb_run (\<lambda>_. True) None (Some (gen_resume 0 ?p))" by (rule apb_run.step [OF _ apb_step.pull])
  moreover have "gen_left (gen_resume 0 ?p) = Some 0" by (simp add: gen_resume_def)
  ultimately have "apb_run (\<lambda>_. True) None (GenerateCommands 0 (gen_resume 0 ?p))"
    by (rule apb_run.step [OF _ apb_step.generate])
  moreover have g: "GenerateCommands 0 (gen_resume 0 ?p) = Some in_item" "gen in_item = GItem 0 0 True"
    by (simp_all add: in_item_def GenerateCommands_def gen_resume_def Execute_def pull_execute_def PullAPB_def
        new_pull_queue_def rq_ops new_item_def empty_rqueue_def Let_def pull_start_def read_tx_def)
  ultimately show "apb_run (\<lambda>_. True) None (Some in_item)" "gen in_item = GItem 0 0 True" by simp_all
qed

theorem apb_terminate_in_flight_witness:
  "\<exists>p'. Terminate in_item = Some p' \<and> GenerateCommands 1 (gen_resume 1 p') = None"
  using apb_terminate_in_flight [OF in_item_run(1)] in_item_run(2) by blast

end
