(* ===== verification/Pull_Jtag.thy ===== *)
theory Pull_Jtag
  imports Pull_Queue "HOL-Library.Sublist"
begin

text \<open>
  \<open>PullJtag\<close> (\<open>driver/jtag/PullJtag.cpp\<close>, \<open>PullJtag.h\<close>): the driver of simulated JTAG pins. The simulation
  pulls TMS and TDI values and pushes the TDO values it sees.

  The bit streams are modelled by what they hold (\<open>Bit_Stream\<close> shows that reading, writing and copying
  do that): a destination is a \<open>sink\<close> with the bits written so far and the room left, a source is a
  list of bits. As in \<open>Pull_Apb\<close> the two generators are coroutines whose steps interleave with each
  other and with clients. \<open>gen_dest\<close> holds the TMS and the TDI destination of the current call.
\<close>

subsection \<open>Writing\<close>

record sink =
  room :: nat
  bits :: "bool list"

definition new_sink :: "nat \<Rightarrow> sink" where
  "new_sink n = \<lparr>room = n, bits = []\<rparr>"

definition sink_write :: "bool list \<Rightarrow> sink \<Rightarrow> sink" where
  "sink_write bs s = \<lparr>room = room s - length bs, bits = bits s @ take (room s) bs\<rparr>"

definition sink_crop :: "nat \<Rightarrow> sink \<Rightarrow> sink" where
  "sink_crop n s = s\<lparr>room := min (room s) n\<rparr>"

text \<open>The filler is a 64-bit constant, so it is written in pieces of at most 64 bits.\<close>

function fill :: "nat \<Rightarrow> bool \<Rightarrow> sink \<Rightarrow> sink" where
  "fill to_fill filler dest =
     (if to_fill = 0 then dest
      else let this_time = min 64 to_fill
           in fill (to_fill - this_time) filler (sink_write (replicate this_time filler) dest))"
  by pat_completeness auto
termination by (relation "measure fst") auto

declare fill.simps [simp del]

text \<open>\<open>try_write\<close>: the first component is its result, then the rest of the source, the destination of
  the data, and that of the filler.\<close>

definition try_write :: "sink \<Rightarrow> sink \<Rightarrow> bool list \<Rightarrow> bool \<Rightarrow> bool \<times> bool list \<times> sink \<times> sink" where
  "try_write data_dest filler_dest data_source filler =
     (let data_dest = (if room filler_dest < room data_dest then sink_crop (room filler_dest) data_dest else data_dest);
          to_write = min (room data_dest) (length data_source);
          data_dest = sink_write (take to_write data_source) data_dest;
          data_source = drop to_write data_source
      in (data_source = [], data_source, data_dest, fill to_write filler filler_dest))"

text \<open>What is written for one action: the data go to TMS with TDI low, or to TDI with a given TMS.\<close>

datatype segment = TMSBits "bool list" | TDIBits "bool list" bool

fun tdi_segments :: "bool list \<Rightarrow> bool \<Rightarrow> segment list" where
  "tdi_segments tdi_source last_tms =
     (if tdi_source = [] then []
      else if \<not> last_tms then [TDIBits tdi_source False]
      else [TDIBits (butlast tdi_source) False, TDIBits [last tdi_source] True])"

fun segments :: "nat + action \<Rightarrow> segment list option" where
  "segments (Inr (PutTMS bs)) = Some [TMSBits bs]"
| "segments (Inr (PutTDI bs l)) = Some (tdi_segments bs l)"
| "segments (Inr (PutTDIGetTDO bs l)) = Some (tdi_segments bs l)"
| "segments _ = None"

fun write_segment :: "segment \<Rightarrow> sink \<times> sink \<Rightarrow> bool \<times> segment \<times> sink \<times> sink" where
  "write_segment (TMSBits bs) (tms, tdi) =
     (case try_write tms tdi bs False of (ok, rest, tms, tdi) \<Rightarrow> (ok, TMSBits rest, tms, tdi))"
| "write_segment (TDIBits bs f) (tms, tdi) =
     (case try_write tdi tms bs f of (ok, rest, tdi, tms) \<Rightarrow> (ok, TDIBits rest f, tms, tdi))"

subsection \<open>The driver\<close>

text \<open>\<open>num_put\<close> of the outputs, and the TDO bits written behind it.\<close>

record jtag_out =
  num_put :: nat
  tdo :: "bool list"

datatype gen_point = GIdle | GItem nat nat "segment list option"
datatype con_point = CIdle | CItem nat nat "nat option"

record pull_jtag =
  core :: "jtag_out pull_queue"
  gen :: gen_point
  gen_running :: bool
  gen_dest :: "sink \<times> sink"
  con :: con_point
  con_left :: "bool list option"
  delivered :: "(bool \<times> bool) list"
  consumed :: "bool list"

definition PullJtag :: "exe_gate option \<Rightarrow> pull_jtag" where
  "PullJtag exe_gate =
     \<lparr>core = new_pull_queue exe_gate, gen = GIdle, gen_running = False, gen_dest = (new_sink 0, new_sink 0),
      con = CIdle, con_left = None, delivered = [], consumed = []\<rparr>"

definition Execute :: "jtag_out status \<Rightarrow> pull_jtag \<Rightarrow> pull_jtag option" where
  "Execute tx p = do { c \<leftarrow> pull_execute tx (core p); Some (p\<lparr>core := c\<rparr>) }"

definition Terminate :: "pull_jtag \<Rightarrow> pull_jtag option" where
  "Terminate p = do { c \<leftarrow> pull_terminate (core p); Some (p\<lparr>core := c\<rparr>) }"

definition gen_resume :: "nat \<Rightarrow> nat \<Rightarrow> pull_jtag \<Rightarrow> pull_jtag" where
  "gen_resume tms_dest tdi_dest p = p\<lparr>gen_running := True, gen_dest := (new_sink tms_dest, new_sink tdi_dest)\<rparr>"

definition pin_values :: "sink \<times> sink \<Rightarrow> (bool \<times> bool) list" where
  "pin_values d = zip (bits (fst d)) (bits (snd d))"

definition gen_yield :: "pull_jtag \<Rightarrow> pull_jtag" where
  "gen_yield p = p\<lparr>gen_running := False, delivered := delivered p @ pin_values (gen_dest p)\<rparr>"

definition GenerateTMSTDI :: "pull_jtag \<Rightarrow> pull_jtag option" where
  "GenerateTMSTDI p =
     (case gen p of
        GIdle \<Rightarrow>
          if NoScheduled (m_queue (core p)) then Some (gen_yield p)
          else do { (x, c) \<leftarrow> pull_start (core p);
                    tx \<leftarrow> m_txs c x;
                    Some (p\<lparr>core := c, gen := GItem x (m_first_incomplete tx) None\<rparr>) }
      | GItem x i todo \<Rightarrow>
          do { tx \<leftarrow> m_txs (core p) x;
               (case todo of
                  None \<Rightarrow>
                    if i = status_end tx then Some (p\<lparr>gen := GIdle\<rparr>)
                    else do { segs \<leftarrow> segments (s_ins tx ! i); Some (p\<lparr>gen := GItem x i (Some segs)\<rparr>) }
                | Some [] \<Rightarrow> Some (p\<lparr>gen := GItem x (next_position tx i) None\<rparr>)
                | Some (seg # segs) \<Rightarrow>
                    (case write_segment seg (gen_dest p) of
                       (True, _, d) \<Rightarrow> Some (p\<lparr>gen := GItem x i (Some segs), gen_dest := d\<rparr>)
                     | (False, rest, d) \<Rightarrow>
                         Some (gen_yield (p\<lparr>gen := GItem x i (Some (rest # segs)), gen_dest := d\<rparr>)))) })"

partial_function (option) run_generator :: "pull_jtag \<Rightarrow> pull_jtag option" where
  "run_generator p =
     (if \<not> gen_running p then Some p else do { p \<leftarrow> GenerateTMSTDI p; run_generator p })"

definition PullTMSTDI :: "nat \<Rightarrow> nat \<Rightarrow> pull_jtag \<Rightarrow> pull_jtag option" where
  "PullTMSTDI tms_dest tdi_dest p = run_generator (gen_resume tms_dest tdi_dest p)"

fun num_bits :: "nat + action \<Rightarrow> nat option" where
  "num_bits (Inr (PutTMS bs)) = Some (length bs)"
| "num_bits (Inr (PutTDI bs l)) = Some (length bs)"
| "num_bits (Inr (PutTDIGetTDO bs l)) = Some (length bs)"
| "num_bits _ = None"

fun captures :: "nat + action \<Rightarrow> bool" where
  "captures (Inr (PutTDIGetTDO bs l)) = True"
| "captures _ = False"

text \<open>The output after more TDO values have arrived.\<close>

definition put_tdo :: "nat + action \<Rightarrow> bool list \<Rightarrow> jtag_out \<Rightarrow> jtag_out" where
  "put_tdo a bs out =
     \<lparr>num_put = num_put out + length bs, tdo = (if captures a then tdo out @ bs else tdo out)\<rparr>"

definition con_resume :: "bool list \<Rightarrow> pull_jtag \<Rightarrow> pull_jtag" where
  "con_resume tdo_source p = p\<lparr>con_left := Some tdo_source\<rparr>"

definition GenerateTDO :: "bool list \<Rightarrow> pull_jtag \<Rightarrow> pull_jtag option" where
  "GenerateTDO left p =
     (case con p of
        CIdle \<Rightarrow>
          if NoInProgress (m_queue (core p)) then Some (p\<lparr>con_left := None\<rparr>)
          else do { x \<leftarrow> GetCurrentInProgress (m_queue (core p));
                    tx \<leftarrow> m_txs (core p) x;
                    Some (p\<lparr>con := CItem x (m_first_incomplete tx) None\<rparr>) }
      | CItem x i todo \<Rightarrow>
          do { tx \<leftarrow> m_txs (core p) x;
               (case todo of
                  None \<Rightarrow>
                    if i = status_end tx then
                      do { c \<leftarrow> pull_finish (core p); Some (p\<lparr>core := c, con := CIdle\<rparr>) }
                    else do { n \<leftarrow> num_bits (s_ins tx ! i);
                              Some (p\<lparr>core := set_tx x (put_out i \<lparr>num_put = 0, tdo = []\<rparr> tx) (core p),
                                      con := CItem x i (Some n)\<rparr>) }
                | Some n \<Rightarrow>
                    if n = 0 then
                      Some (p\<lparr>core := set_tx x (Done i tx) (core p), con := CItem x (next_position tx i) None\<rparr>)
                    else
                      let this_time = min n (length left);
                          now = take this_time left;
                          tx = put_out i (put_tdo (s_ins tx ! i) now (s_outs tx ! i)) tx
                      in Some (p\<lparr>core := set_tx x tx (core p), con := CItem x i (Some (n - this_time)),
                                 con_left := (if n - this_time \<noteq> 0 then None else Some (drop this_time left)),
                                 consumed := consumed p @ now\<rparr>)) })"

partial_function (option) run_consumer :: "pull_jtag \<Rightarrow> pull_jtag option" where
  "run_consumer p =
     (case con_left p of None \<Rightarrow> Some p | Some left \<Rightarrow> do { p \<leftarrow> GenerateTDO left p; run_consumer p })"

definition PushTDO :: "bool list \<Rightarrow> pull_jtag \<Rightarrow> pull_jtag option" where
  "PushTDO tdo_source p = run_consumer (con_resume tdo_source p)"

subsection \<open>Specification\<close>

fun seg_pins :: "segment \<Rightarrow> (bool \<times> bool) list" where
  "seg_pins (TMSBits bs) = map (\<lambda>b. (b, False)) bs"
| "seg_pins (TDIBits bs f) = map (\<lambda>b. (f, b)) bs"

text \<open>The TMS and TDI values of an action, cycle by cycle.\<close>

fun pins :: "nat + action \<Rightarrow> (bool \<times> bool) list" where
  "pins (Inr (PutTMS bs)) = map (\<lambda>b. (b, False)) bs"
| "pins (Inr (PutTDI bs l)) = zip (replicate (length bs - 1) False @ [l]) bs"
| "pins (Inr (PutTDIGetTDO bs l)) = zip (replicate (length bs - 1) False @ [l]) bs"
| "pins _ = []"

definition tx_pins :: "jtag_out status \<Rightarrow> (bool \<times> bool) list" where
  "tx_pins tx = concat (map pins (s_ins tx))"

definition cycles :: "jtag_out status \<Rightarrow> nat" where
  "cycles tx = length (tx_pins tx)"

text \<open>The outputs of a list of actions for the TDO values of their cycles.\<close>

fun outs_of :: "(nat + action) list \<Rightarrow> bool list \<Rightarrow> jtag_out list" where
  "outs_of [] rs = []"
| "outs_of (a # as) rs =
     put_tdo a (take (length (pins a)) rs) \<lparr>num_put = 0, tdo = []\<rparr> # outs_of as (drop (length (pins a)) rs)"

definition completed :: "jtag_out status \<Rightarrow> bool list \<Rightarrow> jtag_out status" where
  "completed tx rs = tx\<lparr>m_first_incomplete := status_end tx, s_outs := outs_of (s_ins tx) rs\<rparr>"

text \<open>A transaction as \<open>Schedule\<close> hands it over, with at least one clock cycle. A transaction without any
  can be completed and handed back while the generator is still inside it.\<close>

definition jtag_tx :: "jtag_out status \<Rightarrow> bool" where
  "jtag_tx tx \<longleftrightarrow>
     m_first_incomplete tx = 0 \<and> length (s_outs tx) = length (s_ins tx) \<and> 0 < cycles tx \<and>
     (\<forall>a \<in> set (s_ins tx). segments a \<noteq> None)"

inductive jtag_step :: "pull_jtag \<Rightarrow> pull_jtag option \<Rightarrow> bool" where
  execute: "jtag_tx tx \<Longrightarrow> jtag_step p (Execute tx p)"
| pull: "\<not> gen_running p \<Longrightarrow> jtag_step p (Some (gen_resume tms_dest tdi_dest p))"
| generate: "gen_running p \<Longrightarrow> jtag_step p (GenerateTMSTDI p)"
| push: "con_left p = None \<Longrightarrow> length (consumed p) + length tdo_source \<le> length (delivered p) \<Longrightarrow>
    jtag_step p (Some (con_resume tdo_source p))"
| consume: "con_left p = Some left \<Longrightarrow> jtag_step p (GenerateTDO left p)"

inductive jtag_run :: "exe_gate option \<Rightarrow> pull_jtag option \<Rightarrow> bool" for gate where
  start: "jtag_run gate (Some (PullJtag gate))"
| step: "jtag_run gate (Some p) \<Longrightarrow> jtag_step p r \<Longrightarrow> jtag_run gate r"

subsection \<open>Writing, proofs\<close>

lemma fill_eq: "to_fill \<le> room s \<Longrightarrow> fill to_fill f s = \<lparr>room = room s - to_fill, bits = bits s @ replicate to_fill f\<rparr>"
proof (induction to_fill f s rule: fill.induct)
  case (1 to_fill f s)
  show ?case
  proof (cases "to_fill = 0")
    case True
    then show ?thesis by (subst fill.simps) simp
  next
    case False
    let ?t = "min 64 to_fill"
    have "fill (to_fill - ?t) f (sink_write (replicate ?t f) s) =
      \<lparr>room = room s - to_fill, bits = bits s @ replicate to_fill f\<rparr>"
      using 1 False by (simp add: sink_write_def min_def replicate_add [symmetric])
    then show ?thesis using False by (subst fill.simps) (simp add: Let_def)
  qed
qed

lemma try_write_eq:
  assumes "n = min (min (room d) (room g)) (length src)"
  shows "try_write d g src f = (length src \<le> n, drop n src,
    \<lparr>room = min (room d) (room g) - n, bits = bits d @ take n src\<rparr>, \<lparr>room = room g - n, bits = bits g @ replicate n f\<rparr>)"
  using assms fill_eq [of n g f]
  by (auto simp: try_write_def Let_def sink_crop_def sink_write_def min_def)

fun seg_drop :: "nat \<Rightarrow> segment \<Rightarrow> segment" where
  "seg_drop n (TMSBits bs) = TMSBits (drop n bs)"
| "seg_drop n (TDIBits bs f) = TDIBits (drop n bs) f"

definition room_left :: "sink \<times> sink \<Rightarrow> nat" where
  "room_left d = min (room (fst d)) (room (snd d))"

definition balanced :: "sink \<times> sink \<Rightarrow> bool" where
  "balanced d \<longleftrightarrow> length (bits (fst d)) = length (bits (snd d))"

lemma zip_replicate_left: "length xs = n \<Longrightarrow> zip (replicate n a) xs = map (\<lambda>x. (a, x)) xs"
  by (simp add: zip_replicate1)

lemma zip_replicate_right: "length xs = n \<Longrightarrow> zip xs (replicate n a) = map (\<lambda>x. (x, a)) xs"
  by (simp add: zip_replicate2)

lemma write_segment_spec:
  assumes "balanced d" "n = min (room_left d) (length (seg_pins seg))"
  shows "\<exists>d'. write_segment seg d = (length (seg_pins seg) \<le> room_left d, seg_drop n seg, d') \<and> balanced d' \<and>
    pin_values d' = pin_values d @ take n (seg_pins seg) \<and> room_left d' = room_left d - n"
proof (cases d; cases seg)
  fix tms tdi bs
  assume d: "d = (tms, tdi)" "seg = TMSBits bs"
  then have n: "n = min (min (room tms) (room tdi)) (length bs)" using assms(2) by (simp add: room_left_def)
  have "length (take n bs) = n" using n by simp
  moreover have "length bs \<le> n \<longleftrightarrow> length bs \<le> min (room tms) (room tdi)" using n by auto
  moreover have "min (min (room tms) (room tdi) - n) (room tdi - n) = min (room tms) (room tdi) - n" by simp
  ultimately show ?thesis
    using assms(1) d try_write_eq [OF n]
    by (simp add: balanced_def room_left_def pin_values_def zip_append take_map zip_replicate_right)
next
  fix tms tdi bs f
  assume d: "d = (tms, tdi)" "seg = TDIBits bs f"
  then have n: "n = min (min (room tdi) (room tms)) (length bs)" using assms(2) by (simp add: room_left_def min.commute)
  have "length (take n bs) = n" using n by simp
  moreover have "length bs \<le> n \<longleftrightarrow> length bs \<le> min (room tms) (room tdi)" using n by auto
  moreover have "min (room tms - n) (min (room tdi) (room tms) - n) = min (room tms) (room tdi) - n" by simp
  ultimately show ?thesis
    using assms(1) d try_write_eq [OF n]
    by (simp add: balanced_def room_left_def pin_values_def zip_append take_map zip_replicate_left)
qed

lemma seg_pins_drop: "seg_pins (seg_drop n seg) = drop n (seg_pins seg)"
  by (cases seg) (simp_all add: drop_map)

lemma tdi_segments_pins: "concat (map seg_pins (tdi_segments bs l)) = zip (replicate (length bs - 1) False @ [l]) bs"
proof (cases bs rule: rev_cases)
  case (snoc xs x)
  then show ?thesis by (simp add: zip_replicate_left)
qed simp

lemma segments_pins:
  assumes "segments a \<noteq> None"
  shows "\<exists>segs. segments a = Some segs \<and> concat (map seg_pins segs) = pins a"
  using assms tdi_segments_pins by (cases a rule: segments.cases) auto

lemma segments_num_bits: "segments a \<noteq> None \<Longrightarrow> num_bits a = Some (length (pins a))"
  by (cases a rule: segments.cases) auto

lemma segments_known: "segments a \<noteq> None \<Longrightarrow> \<not> isl a"
  by (cases a) auto

lemma put_tdo_append: "put_tdo a ys (put_tdo a xs out) = put_tdo a (xs @ ys) out"
  by (simp add: put_tdo_def)

lemma outs_of_append:
  "outs_of (as @ bs) rs = outs_of as (take (length (concat (map pins as))) rs) @ outs_of bs (drop (length (concat (map pins as))) rs)"
  by (induction as arbitrary: rs) (simp_all add: take_drop add.commute min_def)

lemma length_outs_of [simp]: "length (outs_of as rs) = length as"
  by (induction as arbitrary: rs) simp_all

subsection \<open>The invariant\<close>

definition emitted :: "pull_jtag \<Rightarrow> (bool \<times> bool) list" where
  "emitted p = delivered p @ (if gen_running p then pin_values (gen_dest p) else [])"

definition values_left :: "pull_jtag \<Rightarrow> bool list" where
  "values_left p = (case con_left p of None \<Rightarrow> [] | Some bs \<Rightarrow> bs)"

text \<open>The cycles of a transaction that the generator has still to write.\<close>

definition to_write :: "jtag_out status \<Rightarrow> nat \<Rightarrow> segment list option \<Rightarrow> (bool \<times> bool) list" where
  "to_write tx i todo =
     (case todo of
        None \<Rightarrow> concat (map pins (drop i (s_ins tx)))
      | Some segs \<Rightarrow> concat (map seg_pins segs) @ concat (map pins (drop (Suc i) (s_ins tx))))"

definition gen_item :: "pull_jtag \<Rightarrow> nat option" where
  "gen_item p = (case gen p of GIdle \<Rightarrow> None | GItem x i todo \<Rightarrow> Some x)"

definition gen_ok :: "nat \<Rightarrow> pull_jtag \<Rightarrow> bool" where
  "gen_ok b p \<longleftrightarrow>
     gen_at cycles (core p) b (gen_item p) (length (delivered p)) \<and> balanced (gen_dest p) \<and>
     (case gen p of
        GIdle \<Rightarrow> emitted p = concat (map tx_pins (take b (accepted (core p))))
      | GItem x i todo \<Rightarrow>
          i \<le> status_end (accepted (core p) ! x) \<and> (todo \<noteq> None \<longrightarrow> i < status_end (accepted (core p) ! x)) \<and>
          emitted p @ to_write (accepted (core p) ! x) i todo = concat (map tx_pins (take b (accepted (core p)))))"

text \<open>A transaction of which the first \<open>i\<close> actions are complete.\<close>

definition done_upto :: "jtag_out status \<Rightarrow> nat \<Rightarrow> bool list \<Rightarrow> jtag_out status" where
  "done_upto tx i rs = tx\<lparr>m_first_incomplete := i, s_outs := outs_of (take i (s_ins tx)) rs @ drop i (s_outs tx)\<rparr>"

definition con_ok :: "nat \<Rightarrow> pull_jtag \<Rightarrow> bool list \<Rightarrow> bool" where
  "con_ok b p current \<longleftrightarrow>
     (let a = length (finished (core p)); tx = accepted (core p) ! a in
      case con p of
        CIdle \<Rightarrow> current = [] \<and> (a < b \<longrightarrow> m_txs (core p) a = Some tx)
      | CItem x i todo \<Rightarrow>
          x = a \<and> a < b \<and> i \<le> status_end tx \<and>
          (case todo of
             None \<Rightarrow>
               length current = length (concat (map pins (take i (s_ins tx)))) \<and>
               m_txs (core p) a = Some (done_upto tx i current)
           | Some n \<Rightarrow>
               i < status_end tx \<and>
               (\<exists>before now. current = before @ now \<and> length before = length (concat (map pins (take i (s_ins tx)))) \<and>
                  length now + n = length (pins (s_ins tx ! i)) \<and>
                  m_txs (core p) a = Some (put_out i (put_tdo (s_ins tx ! i) now \<lparr>num_put = 0, tdo = []\<rparr>)
                    (done_upto tx i before)))))"

definition history_ok :: "pull_jtag \<Rightarrow> bool list list \<Rightarrow> bool list \<Rightarrow> bool" where
  "history_ok p rss current \<longleftrightarrow>
     consumed p = concat rss @ current \<and> length rss = length (finished (core p)) \<and>
     (\<forall>k < length rss. length (rss ! k) = cycles (accepted (core p) ! k) \<and>
        finished (core p) ! k = completed (accepted (core p) ! k) (rss ! k)) \<and>
     length (consumed p) + length (values_left p) \<le> length (delivered p)"

definition later_ok :: "nat \<Rightarrow> pull_jtag \<Rightarrow> bool" where
  "later_ok b p \<longleftrightarrow> (\<forall>x. length (finished (core p)) < x \<and> x < b \<longrightarrow> m_txs (core p) x = Some (accepted (core p) ! x))"

definition jtag_inv :: "pull_jtag \<Rightarrow> bool" where
  "jtag_inv p \<longleftrightarrow>
     (\<exists>b rss current. pull_inv b (core p) \<and> gate_counts (core p) \<and> list_all jtag_tx (accepted (core p)) \<and>
        gen_ok b p \<and> con_ok b p current \<and> later_ok b p \<and> history_ok p rss current)"

lemma jtag_invE:
  assumes "jtag_inv p"
  obtains b rss current where "pull_inv b (core p)" "gate_counts (core p)" "list_all jtag_tx (accepted (core p))"
    "gen_ok b p" "con_ok b p current" "later_ok b p" "history_ok p rss current"
  using assms unfolding jtag_inv_def by blast

lemma jtag_invI:
  assumes "pull_inv b (core p)" "gate_counts (core p)" "list_all jtag_tx (accepted (core p))"
    "gen_ok b p" "con_ok b p current" "later_ok b p" "history_ok p rss current"
  shows "jtag_inv p"
  using assms unfolding jtag_inv_def by blast

interpretation jtag: pull_protocol jtag_tx cycles
  by unfold_locales (simp add: jtag_tx_def)

lemma pins_total: "length (concat (map tx_pins (take k txs))) = total_units cycles txs k"
  by (simp add: total_units_def length_concat comp_def cycles_def)

lemma jtag_history_ok_at:
  assumes "pull_inv b (core p)" "history_ok p rss current"
  shows "con_at cycles (core p) (length current) (length (consumed p)) (length (delivered p))"
proof -
  have "length (finished (core p)) \<le> length (accepted (core p))" using assms(1) by (simp add: pull_inv_def)
  then have "map length rss = map cycles (take (length (finished (core p))) (accepted (core p)))"
    using assms(2) by (intro nth_equalityI) (auto simp: history_ok_def)
  then have "length (concat rss) = total_units cycles (accepted (core p)) (length (finished (core p)))"
    by (simp add: length_concat total_units_def)
  then show ?thesis using assms(2) by (auto simp: history_ok_def con_at_def)
qed

text \<open>What does not depend on a part of the state.\<close>

lemma con_ok_cong:
  assumes "core p' = core p" "con p' = con p"
  shows "con_ok b p' current \<longleftrightarrow> con_ok b p current"
  unfolding con_ok_def assms ..

lemma frame_gen:
  assumes "core p' = core p" "con p' = con p" "con_left p' = con_left p" "consumed p' = consumed p"
    and "length (delivered p) \<le> length (delivered p')"
  shows "con_ok b p' current \<longleftrightarrow> con_ok b p current" "later_ok b p' \<longleftrightarrow> later_ok b p"
    "history_ok p rss current \<Longrightarrow> history_ok p' rss current"
  unfolding con_ok_def later_ok_def history_ok_def values_left_def assms(1-4) using assms(5) by auto

lemma frame_con:
  assumes "core p' = core p" "gen p' = gen p" "gen_running p' = gen_running p" "gen_dest p' = gen_dest p"
    "delivered p' = delivered p"
  shows "gen_ok b p' \<longleftrightarrow> gen_ok b p" "later_ok b p' \<longleftrightarrow> later_ok b p"
  unfolding gen_ok_def gen_item_def emitted_def later_ok_def assms by auto

lemma jtag_inv_start:
  assumes "gate = None \<or> gate = Some new_gate"
  shows "jtag_inv (PullJtag gate)"
proof -
  have "gate_counts (new_pull_queue gate :: jtag_out pull_queue)" using assms pull_inv_new(3,4) by auto
  moreover have "clean (new_pull_queue gate :: jtag_out pull_queue) 0" "pull_inv 0 (new_pull_queue gate :: jtag_out pull_queue)"
    by (rule pull_inv_new)+
  ultimately show ?thesis
    by (intro jtag_invI [of 0 _ "[]" "[]"])
       (simp_all add: PullJtag_def gen_ok_def gen_at_def gen_item_def balanced_def new_sink_def emitted_def
         con_ok_def later_ok_def history_ok_def values_left_def, simp_all add: new_pull_queue_def)
qed

lemma jtag_execute_inv:
  assumes "jtag_inv p" "jtag_tx tx"
  shows "\<exists>p'. Execute tx p = Some p' \<and> jtag_inv p'"
  using assms(1)
proof (cases rule: jtag_invE)
  case (1 b rss current)
  from pull_execute_inv [OF 1(1), of tx] obtain c where c: "pull_execute tx (core p) = Some c" "pull_inv b c"
    "accepted c = accepted (core p) @ [tx]" "finished c = finished (core p)"
    "m_txs c = (m_txs (core p))(length (accepted (core p)) \<mapsto> tx)"
    "clean (core p) b \<longrightarrow> clean c b" "gate_counts (core p) \<longrightarrow> gate_counts c"
    by blast
  have le: "length (finished (core p)) \<le> b" "b \<le> length (accepted (core p))" using 1(1) by (auto simp: pull_inv_def)
  let ?p = "p\<lparr>core := c\<rparr>"
  have nth: "accepted c ! x = accepted (core p) ! x" "m_txs c x = m_txs (core p) x" if "x < b" for x
    using that le c(3,5) by (simp_all add: nth_append)
  have "gen_at cycles c b (gen_item p) (length (delivered p))"
    using 1(4) jtag.gen_at_accept [OF _ 1(1) c(3,4,6)] by (simp add: gen_ok_def)
  then have "gen_ok b ?p"
    using 1(4) le c(3) nth(1)
    by (auto simp: gen_ok_def gen_item_def gen_at_def emitted_def split: gen_point.splits)
  moreover have "con_ok b ?p current"
    using 1(5) nth [of "length (finished (core p))"] c(4)
    by (cases "con p") (auto simp: con_ok_def Let_def split: option.splits)
  moreover have "later_ok b ?p" using 1(6) nth c(4) by (simp add: later_ok_def)
  moreover have "history_ok ?p rss current"
    using 1(7) le c(3,4) by (auto simp: history_ok_def values_left_def nth_append)
  ultimately have "jtag_inv ?p" using 1(2,3) c assms(2) by (intro jtag_invI [of b _ current rss]) simp_all
  then show ?thesis using c(1) by (simp add: Execute_def)
qed

lemma jtag_pull_call_inv:
  assumes "jtag_inv p" "\<not> gen_running p"
  shows "jtag_inv (gen_resume m n p)"
  using assms(1)
proof (cases rule: jtag_invE)
  case (1 b rss current)
  have "gen_ok b (gen_resume m n p)"
    using 1(4) assms(2)
    by (auto simp: gen_ok_def gen_resume_def gen_item_def emitted_def balanced_def new_sink_def pin_values_def
        split: gen_point.splits)
  with 1 frame_gen [of "gen_resume m n p" p] show ?thesis
    by (intro jtag_invI [of b _ current rss]) (simp_all add: gen_resume_def)
qed

lemma jtag_push_call_inv:
  assumes "jtag_inv p" "length (consumed p) + length rs \<le> length (delivered p)"
  shows "jtag_inv (con_resume rs p)"
  using assms(1)
proof (cases rule: jtag_invE)
  case (1 b rss current)
  have "con_ok b (con_resume rs p) current" using 1(5) con_ok_cong [of "con_resume rs p" p] by (simp add: con_resume_def)
  moreover have "history_ok (con_resume rs p) rss current"
    using 1(7) assms(2) by (auto simp: history_ok_def con_resume_def values_left_def)
  ultimately show ?thesis
    using 1 frame_con [of "con_resume rs p" p] by (intro jtag_invI [of b _ current rss]) (simp_all add: con_resume_def)
qed

subsection \<open>The generator\<close>

text \<open>A step that changes only where the generator is and what it has written.\<close>

lemma generator_moves:
  assumes "jtag_inv p" "\<And>b. pull_inv b (core p) \<Longrightarrow> gen_ok b p \<Longrightarrow> gen_ok b p'"
    and "core p' = core p" "con p' = con p" "con_left p' = con_left p" "consumed p' = consumed p"
    and "length (delivered p) \<le> length (delivered p')"
  shows "jtag_inv p'"
  using assms(1)
proof (cases rule: jtag_invE)
  case (1 b rss current)
  with assms(2) frame_gen [OF assms(3-7)] show ?thesis
    using assms(3) by (intro jtag_invI [of b _ current rss]) simp_all
qed

lemma jtag_generate_start:
  assumes "jtag_inv p" "gen_running p" "gen p = GIdle"
  shows "\<exists>p'. GenerateTMSTDI p = Some p' \<and> jtag_inv p'"
proof (cases "NoScheduled (m_queue (core p))")
  case True
  have "jtag_inv (gen_yield p)"
  proof (rule generator_moves [OF assms(1)])
    fix b assume b: "pull_inv b (core p)" "gen_ok b p"
    then have "b = length (accepted (core p))" using all_started True by blast
    then show "gen_ok b (gen_yield p)"
      using b assms(2,3) jtag.gen_at_idle [of "core p"]
      by (simp add: gen_ok_def gen_yield_def gen_item_def emitted_def)
  qed (simp_all add: gen_yield_def)
  then show ?thesis using True assms(3) by (simp add: GenerateTMSTDI_def)
next
  case False
  from assms(1) show ?thesis
  proof (cases rule: jtag_invE)
    case (1 b rss current)
    let ?acc = "accepted (core p)" and ?a = "length (finished (core p))"
    have le: "?a \<le> b" "b \<le> length ?acc" using 1(1) by (auto simp: pull_inv_def)
    then have b: "b < length ?acc" using all_started [OF 1(1)] False by auto
    obtain c where c: "pull_start (core p) = Some (b, c)" "pull_inv (Suc b) c" "accepted c = ?acc"
      "finished c = finished (core p)" "m_txs c = m_txs (core p)" "m_exe_gate c = m_exe_gate (core p)"
      using pull_start_inv [OF 1(1) b] by blast
    have tx: "m_txs (core p) b = Some (?acc ! b)" "jtag_tx (?acc ! b)"
      using 1(1,3) b by (auto simp: pull_inv_def list_all_length)
    let ?p = "p\<lparr>core := c, gen := GItem b 0 None\<rparr>"
    have e: "delivered p @ pin_values (gen_dest p) = concat (map tx_pins (take b ?acc))"
      using 1(4) assms(2,3) by (simp add: gen_ok_def emitted_def)
    then have "length (delivered p) \<le> total_units cycles ?acc b"
      by (metis pins_total le_add1 length_append)
    from jtag.gen_at_start [OF this 1(1) b tx(2) c(3,4)] have "gen_ok (Suc b) ?p"
      using e 1(4) assms(2) c(3) b
      by (simp add: gen_ok_def gen_item_def emitted_def to_write_def tx_pins_def take_Suc_conv_app_nth)
    moreover have "con_ok (Suc b) ?p current"
      using 1(5) c(3-5) tx(1) le
      by (cases "con p") (auto simp: con_ok_def Let_def less_Suc_eq split: option.splits)
    moreover have "later_ok (Suc b) ?p" using 1(6) tx(1) c(3-5) by (auto simp: later_ok_def less_Suc_eq)
    moreover have "history_ok ?p rss current" using 1(7) c(3,4) by (auto simp: history_ok_def values_left_def)
    ultimately have "jtag_inv ?p"
      using 1(2,3) c by (intro jtag_invI [of "Suc b" _ current rss]) (simp_all add: gate_counts_def)
    moreover have "GenerateTMSTDI p = Some ?p"
      using False assms(3) c(1,5) tx by (simp add: GenerateTMSTDI_def jtag_tx_def)
    ultimately show ?thesis by blast
  qed
qed

lemma item_tx:
  assumes "pull_inv b (core p)" "con_ok b p current" "later_ok b p" "length (finished (core p)) \<le> x" "x < b"
  shows "\<exists>tx. m_txs (core p) x = Some tx \<and> s_ins tx = s_ins (accepted (core p) ! x)"
proof (cases "x = length (finished (core p))")
  case True
  then show ?thesis
    using assms(2,5)
    by (auto simp: con_ok_def Let_def done_upto_def put_out_def split: con_point.splits option.splits)
next
  case False
  then show ?thesis using assms(3-5) by (simp add: later_ok_def)
qed

lemma to_write_begin:
  assumes "i < status_end tx" "segments (s_ins tx ! i) = Some segs" "concat (map seg_pins segs) = pins (s_ins tx ! i)"
  shows "to_write tx i (Some segs) = to_write tx i None"
  using assms by (simp add: to_write_def status_end_def flip: Cons_nth_drop_Suc)

lemma generate_item:
  assumes "jtag_inv p" "gen_running p" "gen p = GItem x i todo"
  shows "\<exists>p'. GenerateTMSTDI p = Some p' \<and> jtag_inv p'"
  using assms(1)
proof (cases rule: jtag_invE)
  case (1 b rss current)
  let ?acc = "accepted (core p)"
  have g: "gen_at cycles (core p) b (Some x) (length (delivered p))" "balanced (gen_dest p)"
    "i \<le> status_end (?acc ! x)" "todo \<noteq> None \<longrightarrow> i < status_end (?acc ! x)"
    "delivered p @ pin_values (gen_dest p) @ to_write (?acc ! x) i todo = concat (map tx_pins (take b ?acc))"
    using 1(4) assms(2,3) by (auto simp: gen_ok_def gen_item_def emitted_def)
  then have x: "length (finished (core p)) \<le> x" "x < b" "x < length ?acc"
    using 1(1) by (auto simp: gen_at_def pull_inv_def)
  obtain tx where tx: "m_txs (core p) x = Some tx" "s_ins tx = s_ins (?acc ! x)" "status_end tx = status_end (?acc ! x)"
    using item_tx [OF 1(1,5,6) x(1,2)] by (auto simp: status_end_def)
  have "jtag_tx (?acc ! x)" using 1(3) x(3) by (simp add: list_all_length)
  then have known: "segments (s_ins (?acc ! x) ! i) \<noteq> None" if "i < status_end (?acc ! x)"
    using that by (auto simp: jtag_tx_def status_end_def)
  have same: "b' = b" if "pull_inv b' (core p)" for b' using that 1(1) started_eq by metis
  show ?thesis
  proof (cases todo)
    case None
    show ?thesis
    proof (cases "i = status_end tx")
      case True
      have "jtag_inv (p\<lparr>gen := GIdle\<rparr>)"
      proof (rule generator_moves [OF assms(1)])
        fix b' assume "pull_inv b' (core p)"
        then show "gen_ok b' (p\<lparr>gen := GIdle\<rparr>)"
          using same g assms(2) None True tx(3) jtag.gen_at_leave [OF g(1)]
          by (auto simp: gen_ok_def gen_item_def emitted_def to_write_def status_end_def)
      qed simp_all
      then show ?thesis using True None tx assms(3) by (simp add: GenerateTMSTDI_def)
    next
      case False
      then have i: "i < status_end (?acc ! x)" using g(3) tx(3) by simp
      obtain segs where segs: "segments (s_ins (?acc ! x) ! i) = Some segs"
        "concat (map seg_pins segs) = pins (s_ins (?acc ! x) ! i)"
        using segments_pins [OF known [OF i]] by blast
      have "jtag_inv (p\<lparr>gen := GItem x i (Some segs)\<rparr>)"
      proof (rule generator_moves [OF assms(1)])
        fix b' assume "pull_inv b' (core p)"
        then show "gen_ok b' (p\<lparr>gen := GItem x i (Some segs)\<rparr>)"
          using same g assms(2) None i to_write_begin [OF i segs]
          by (simp add: gen_ok_def gen_item_def emitted_def)
      qed simp_all
      then show ?thesis using False None tx segs(1) assms(3) by (simp add: GenerateTMSTDI_def)
    qed
  next
    case (Some segs)
    then have i: "i < status_end (?acc ! x)" using g(4) by simp
    show ?thesis
    proof (cases segs)
      case Nil
      have n: "next_position tx i = Suc i"
        using i tx segments_known [OF known [OF i]] by (simp add: next_position_def status_end_def)
      have "jtag_inv (p\<lparr>gen := GItem x (Suc i) None\<rparr>)"
      proof (rule generator_moves [OF assms(1)])
        fix b' assume "pull_inv b' (core p)"
        then show "gen_ok b' (p\<lparr>gen := GItem x (Suc i) None\<rparr>)"
          using same g assms(2) Some Nil i by (simp add: gen_ok_def gen_item_def emitted_def to_write_def)
      qed simp_all
      then show ?thesis using Nil Some tx n assms(3) by (simp add: GenerateTMSTDI_def)
    next
      case (Cons seg segs')
      define n where "n = min (room_left (gen_dest p)) (length (seg_pins seg))"
      obtain d where d: "write_segment seg (gen_dest p) = (length (seg_pins seg) \<le> room_left (gen_dest p), seg_drop n seg, d)"
        "balanced d" "pin_values d = pin_values (gen_dest p) @ take n (seg_pins seg)"
        using write_segment_spec [OF g(2) n_def] by blast
      show ?thesis
      proof (cases "length (seg_pins seg) \<le> room_left (gen_dest p)")
        case True
        have "jtag_inv (p\<lparr>gen := GItem x i (Some segs'), gen_dest := d\<rparr>)"
        proof (rule generator_moves [OF assms(1)])
          fix b' assume "pull_inv b' (core p)"
          then show "gen_ok b' (p\<lparr>gen := GItem x i (Some segs'), gen_dest := d\<rparr>)"
            using same g assms(2) Some Cons i d True n_def
            by (simp add: gen_ok_def gen_item_def emitted_def to_write_def)
        qed simp_all
        then show ?thesis using Cons Some tx d(1) True assms(3) by (simp add: GenerateTMSTDI_def)
      next
        case False
        let ?p = "gen_yield (p\<lparr>gen := GItem x i (Some (seg_drop n seg # segs')), gen_dest := d\<rparr>)"
        have rest: "seg_pins (seg_drop n seg) \<noteq> []" using False n_def by (simp add: seg_pins_drop)
        have all: "delivered p @ pin_values d @ to_write (?acc ! x) i (Some (seg_drop n seg # segs')) =
            concat (map tx_pins (take b ?acc))"
          using g(5) d(3) Some Cons by (simp add: to_write_def seg_pins_drop) (metis append.assoc append_take_drop_id)
        have "length (delivered p @ pin_values d) < total_units cycles ?acc b"
          using arg_cong [OF all, of length] rest unfolding pins_total by (simp add: to_write_def flip: length_greater_0_conv)
        from jtag.gen_at_deliver [OF g(1) this] have "jtag_inv ?p"
          using same all g(2,3) i d(2)
          by (intro generator_moves [OF assms(1)]) (auto simp: gen_ok_def gen_yield_def gen_item_def emitted_def)
        then show ?thesis using Cons Some tx d(1) False assms(3) by (simp add: GenerateTMSTDI_def)
      qed
    qed
  qed
qed

lemma jtag_generate_inv: "jtag_inv p \<Longrightarrow> gen_running p \<Longrightarrow> \<exists>p'. GenerateTMSTDI p = Some p' \<and> jtag_inv p'"
  using jtag_generate_start generate_item by (cases "gen p") blast+

subsection \<open>The consumer\<close>

lemma jtag_con_yield_inv:
  assumes "jtag_inv p"
  shows "jtag_inv (p\<lparr>con_left := None\<rparr>)"
  using assms
proof (cases rule: jtag_invE)
  case (1 b rss current)
  have "history_ok (p\<lparr>con_left := None\<rparr>) rss current" using 1(7) by (auto simp: history_ok_def values_left_def)
  then show ?thesis
    using 1 con_ok_cong [of "p\<lparr>con_left := None\<rparr>" p] frame_con [of "p\<lparr>con_left := None\<rparr>" p]
    by (intro jtag_invI [of b _ current rss]) simp_all
qed

lemma jtag_consume_start:
  assumes "jtag_inv p" "con_left p = Some left" "con p = CIdle"
  shows "\<exists>p'. GenerateTDO left p = Some p' \<and> jtag_inv p'"
  using assms(1)
proof (cases rule: jtag_invE)
  case (1 b rss current)
  let ?a = "length (finished (core p))"
  have le: "?a \<le> b" using 1(1) by (simp add: pull_inv_def)
  have cur: "current = []" "?a < b \<longrightarrow> m_txs (core p) ?a = Some (accepted (core p) ! ?a)"
    using 1(5) assms(3) by (auto simp: con_ok_def Let_def)
  have at: "gen_at cycles (core p) b (gen_item p) (length (delivered p))" using 1(4) by (simp add: gen_ok_def)
  show ?thesis
  proof (cases "?a = b")
    case True
    then have "NoInProgress (m_queue (core p))"
      using none_in_progress [OF 1(1) jtag.consumer_clean [OF at jtag_history_ok_at [OF 1(1,7)] 1(1)]] by simp
    then show ?thesis using jtag_con_yield_inv [OF assms(1)] assms(3) by (simp add: GenerateTDO_def)
  next
    case False
    then have a: "?a < b" using le by simp
    have "jtag_tx (accepted (core p) ! ?a)" using 1(1,3) a by (auto simp: list_all_length pull_inv_def)
    then have i: "m_first_incomplete (accepted (core p) ! ?a) = 0" by (simp add: jtag_tx_def)
    let ?p = "p\<lparr>con := CItem ?a 0 None\<rparr>"
    have "con_ok b ?p current" using cur a i by (simp add: con_ok_def Let_def done_upto_def)
    moreover have "history_ok ?p rss current" using 1(7) by (auto simp: history_ok_def values_left_def)
    ultimately have "jtag_inv ?p"
      using 1 frame_con [of ?p p] by (intro jtag_invI [of b _ current rss]) simp_all
    then show ?thesis
      using some_in_progress [OF 1(1) a] assms(3) cur a i by (simp add: GenerateTDO_def)
  qed
qed

lemma done_upto_0: "jtag_tx tx \<Longrightarrow> done_upto tx 0 [] = tx"
  by (simp add: done_upto_def jtag_tx_def)

lemma done_upto_end: "length (s_outs tx) = length (s_ins tx) \<Longrightarrow> done_upto tx (status_end tx) rs = completed tx rs"
  by (simp add: done_upto_def completed_def status_end_def)

text \<open>The outputs behind the action that is being completed.\<close>

lemma done_upto_Suc:
  assumes "i < status_end tx" "length before = length (concat (map pins (take i (s_ins tx))))"
    and "length now = length (pins (s_ins tx ! i))" "length (s_outs tx) = length (s_ins tx)"
  shows "s_outs (put_out i (put_tdo (s_ins tx ! i) now \<lparr>num_put = 0, tdo = []\<rparr>) (done_upto tx i before)) =
    outs_of (take (Suc i) (s_ins tx)) (before @ now) @ drop (Suc i) (s_outs tx)"
  using assms
  by (simp add: status_end_def take_Suc_conv_app_nth outs_of_append done_upto_def put_out_def
      list_update_append flip: Cons_nth_drop_Suc)

lemma jtag_consume_item_end:
  assumes "jtag_inv p" "con p = CItem x i None" "i = status_end (accepted (core p) ! x)"
  shows "\<exists>c. pull_finish (core p) = Some c \<and> jtag_inv (p\<lparr>core := c, con := CIdle\<rparr>)"
  using assms(1)
proof (cases rule: jtag_invE)
  case (1 b rss current)
  let ?a = "length (finished (core p))" and ?acc = "accepted (core p)"
  have x: "x = ?a" "?a < b" "m_txs (core p) ?a = Some (done_upto (?acc ! ?a) i current)"
    "length current = length (concat (map pins (take i (s_ins (?acc ! ?a)))))"
    using 1(5) assms(2) by (auto simp: con_ok_def Let_def)
  have le: "b \<le> length ?acc" using 1(1) by (simp add: pull_inv_def)
  have ok: "jtag_tx (?acc ! ?a)" using 1(3) x(2) le by (simp add: list_all_length)
  have n: "length current = cycles (?acc ! ?a)"
    using x(1,4) assms(3) by (simp add: cycles_def tx_pins_def status_end_def)
  have tx: "m_txs (core p) ?a = Some (completed (?acc ! ?a) current)"
    using x(1,3) assms(3) ok done_upto_end [of "?acc ! ?a" current] by (simp add: jtag_tx_def)
  have at: "gen_at cycles (core p) b (gen_item p) (length (delivered p))"
    "con_at cycles (core p) (cycles (?acc ! ?a)) (length (consumed p)) (length (delivered p))"
    using 1(4) jtag_history_ok_at [OF 1(1,7)] n by (simp_all add: gen_ok_def)
  have "clean (core p) b" if "?a = b - 1"
    using jtag.consumer_clean [OF at 1(1)] that x(2) by simp
  from pull_finish_inv [OF 1(1) x(2) this] tx obtain c where c:
    "pull_finish (core p) = Some c" "pull_inv b c" "accepted c = ?acc"
    "finished c = finished (core p) @ [completed (?acc ! ?a) current]"
    "m_txs c = (m_txs (core p))(?a := None)" "clean (core p) b \<longrightarrow> clean c b"
    "gate_counts (core p) \<longrightarrow> gate_counts c"
    by auto
  let ?p = "p\<lparr>core := c, con := CIdle\<rparr>"
  have "gen_at cycles c b (gen_item p) (length (delivered p))"
    by (rule jtag.gen_at_finish [OF at 1(1) refl c(3,4,6)])
  then have "gen_ok b ?p"
    using 1(4) c(3) by (auto simp: gen_ok_def gen_item_def emitted_def split: gen_point.splits)
  moreover have "con_ok b ?p []" using 1(6) c(3-5) by (simp add: con_ok_def later_ok_def)
  moreover have "later_ok b ?p" using 1(6) c(3-5) by (simp add: later_ok_def)
  moreover have "history_ok ?p (rss @ [current]) []"
    using 1(7) c(3,4) n by (auto simp: history_ok_def values_left_def nth_append less_Suc_eq)
  ultimately have "jtag_inv ?p"
    using 1(2,3) c by (intro jtag_invI [of b _ "[]" "rss @ [current]"]) simp_all
  then show ?thesis using c(1) by blast
qed

text \<open>A step that changes the front transaction and where the consumer is.\<close>

lemma consumer_moves:
  assumes "jtag_inv p" "con p = CItem x i todo"
    and "\<And>b rss current. pull_inv b (core p) \<Longrightarrow> con_ok b p current \<Longrightarrow> history_ok p rss current \<Longrightarrow>
      list_all jtag_tx (accepted (core p)) \<Longrightarrow> con_ok b p' (current @ now) \<and> history_ok p' rss (current @ now)"
    and "core p' = set_tx x tx (core p)" "gen p' = gen p" "gen_running p' = gen_running p"
    and "gen_dest p' = gen_dest p" "delivered p' = delivered p"
  shows "jtag_inv p'"
  using assms(1)
proof (cases rule: jtag_invE)
  case (1 b rss current)
  have x: "x = length (finished (core p))" "x < b" using 1(5) assms(2) by (auto simp: con_ok_def Let_def)
  have "gen_at cycles (core p') b (gen_item p) (length (delivered p))"
    using 1(4) assms(4) jtag.gen_at_cong [of "core p" b _ _ "core p'"] by (simp add: gen_ok_def)
  then have "gen_ok b p'"
    using 1(4) assms(4-8) by (auto simp: gen_ok_def gen_item_def emitted_def split: gen_point.splits)
  moreover have "later_ok b p'" using 1(6) assms(4) x(1) by (simp add: later_ok_def)
  ultimately show ?thesis
    using 1(1,3) assms(3) [OF 1(1,5,7,3)] assms(4) pull_inv_set_tx [OF 1(1) x(2), of tx] 1(2)
    by (intro jtag_invI [of b _ "current @ now" rss]) simp_all
qed

lemma consume_begin:
  assumes "jtag_inv p" "con p = CItem x i None" "i < status_end (accepted (core p) ! x)"
    and "m_txs (core p) x = Some tx"
  shows "jtag_inv (p\<lparr>core := set_tx x (put_out i \<lparr>num_put = 0, tdo = []\<rparr> tx) (core p),
    con := CItem x i (Some (length (pins (s_ins (accepted (core p) ! x) ! i))))\<rparr>)"
proof (rule consumer_moves [OF assms(1,2), where now = "[]"], goal_cases)
  case (1 b rss current)
  then show ?case
    using assms(2-4)
    by (auto simp: con_ok_def Let_def history_ok_def values_left_def put_tdo_def)
qed simp_all

lemma partial_out:
  assumes "i < status_end tx" "length (s_outs tx) = length (s_ins tx)"
  shows "s_outs (put_out i out (done_upto tx i rs)) ! i = out"
    "put_out i out' (put_out i out (done_upto tx i rs)) = put_out i out' (done_upto tx i rs)"
  using assms by (simp_all add: put_out_def done_upto_def status_end_def)

lemma done_partial:
  assumes "i < status_end tx" "length before = length (concat (map pins (take i (s_ins tx))))"
    and "length now = length (pins (s_ins tx ! i))" "jtag_tx tx"
  shows "next_position (put_out i (put_tdo (s_ins tx ! i) now \<lparr>num_put = 0, tdo = []\<rparr>) (done_upto tx i before)) i = Suc i"
    (is "next_position ?tx i = _")
    and "Done i (put_out i (put_tdo (s_ins tx ! i) now \<lparr>num_put = 0, tdo = []\<rparr>) (done_upto tx i before)) =
      done_upto tx (Suc i) (before @ now)"
proof -
  have "\<not> isl (s_ins tx ! i)"
    using assms(1,4) by (intro segments_known) (auto simp: jtag_tx_def status_end_def)
  then show n: "next_position ?tx i = Suc i"
    using assms(1) by (simp add: next_position_def put_out_def done_upto_def status_end_def)
  have "s_outs ?tx = s_outs (done_upto tx (Suc i) (before @ now))"
    using done_upto_Suc [OF assms(1-3)] assms(4) by (simp add: jtag_tx_def done_upto_def)
  then show "Done i ?tx = done_upto tx (Suc i) (before @ now)"
    using n by (simp add: Done_def done_upto_def put_out_def)
qed

lemma consume_done:
  assumes "jtag_inv p" "con p = CItem x i (Some 0)" "m_txs (core p) x = Some tx"
  shows "next_position tx i = Suc i"
    "jtag_inv (p\<lparr>core := set_tx x (Done i tx) (core p), con := CItem x (Suc i) None\<rparr>)"
proof -
  have step: "next_position tx i = Suc i \<and> Suc i \<le> status_end (accepted (core p) ! x) \<and>
      length current = length (concat (map pins (take (Suc i) (s_ins (accepted (core p) ! x))))) \<and>
      Done i tx = done_upto (accepted (core p) ! x) (Suc i) current \<and> x = length (finished (core p)) \<and> x < b"
    if inv: "pull_inv b (core p)" "con_ok b p current" "list_all jtag_tx (accepted (core p))" for b current
  proof -
    let ?tx = "accepted (core p) ! x"
    obtain before now where c: "x = length (finished (core p))" "x < b" "i < status_end ?tx" "current = before @ now"
      "length before = length (concat (map pins (take i (s_ins ?tx))))" "length now = length (pins (s_ins ?tx ! i))"
      "tx = put_out i (put_tdo (s_ins ?tx ! i) now \<lparr>num_put = 0, tdo = []\<rparr>) (done_upto ?tx i before)"
      using inv(2) assms(2,3) by (auto simp: con_ok_def Let_def)
    have "jtag_tx ?tx" using inv(1,3) c(2) by (simp add: list_all_length pull_inv_def)
    note d = done_partial [OF c(3,5,6) this]
    show ?thesis using c d by (simp add: take_Suc_conv_app_nth status_end_def)
  qed
  from assms(1) show "next_position tx i = Suc i"
    by (cases rule: jtag_invE) (use step in blast)
  show "jtag_inv (p\<lparr>core := set_tx x (Done i tx) (core p), con := CItem x (Suc i) None\<rparr>)"
  proof (rule consumer_moves [OF assms(1,2), where now = "[]"], goal_cases)
    case (1 b rss current)
    then show ?case
      using step [of b current] by (auto simp: con_ok_def Let_def history_ok_def values_left_def)
  qed simp_all
qed

lemma consume_values:
  fixes left :: "bool list"
  assumes "jtag_inv p" "con_left p = Some left" "con p = CItem x i (Some n)" "n \<noteq> 0" "m_txs (core p) x = Some tx"
    and "t = min n (length left)"
  shows "jtag_inv (p\<lparr>core := set_tx x (put_out i (put_tdo (s_ins tx ! i) (take t left) (s_outs tx ! i)) tx) (core p),
    con := CItem x i (Some (n - t)), con_left := (if n - t \<noteq> 0 then None else Some (drop t left)),
    consumed := consumed p @ take t left\<rparr>)"
proof (rule consumer_moves [OF assms(1,3), where now = "take t left"], goal_cases)
  case (1 b rss current)
  let ?tx = "accepted (core p) ! x"
  obtain before now where c: "x = length (finished (core p))" "x < b" "i < status_end ?tx" "current = before @ now"
    "length before = length (concat (map pins (take i (s_ins ?tx))))" "length now + n = length (pins (s_ins ?tx ! i))"
    "tx = put_out i (put_tdo (s_ins ?tx ! i) now \<lparr>num_put = 0, tdo = []\<rparr>) (done_upto ?tx i before)"
    using 1(2) assms(3,5) by (auto simp: con_ok_def Let_def)
  have ok: "jtag_tx ?tx" using 1(1,4) c(2) by (simp add: list_all_length pull_inv_def)
  have tx: "put_out i (put_tdo (s_ins tx ! i) (take t left) (s_outs tx ! i)) tx =
      put_out i (put_tdo (s_ins ?tx ! i) (now @ take t left) \<lparr>num_put = 0, tdo = []\<rparr>) (done_upto ?tx i before)"
    using ok c(3,7) partial_out [OF c(3)]
    by (simp add: jtag_tx_def) (simp add: put_out_def done_upto_def put_tdo_append)
  have "length (now @ take t left) + (n - t) = length (pins (s_ins ?tx ! i))" using c(6) assms(6) by simp
  then have "con_ok b (p\<lparr>core := set_tx x (put_out i (put_tdo (s_ins tx ! i) (take t left) (s_outs tx ! i)) tx) (core p),
      con := CItem x i (Some (n - t)), con_left := (if n - t \<noteq> 0 then None else Some (drop t left)),
      consumed := consumed p @ take t left\<rparr>) (current @ take t left)"
    unfolding tx using c
    by (simp add: con_ok_def Let_def) (intro exI [of _ before] exI [of _ "now @ take t left"], simp)
  then show ?case
    using 1(3) assms(2,6) by (auto simp: history_ok_def values_left_def min_def)
qed simp_all

lemma jtag_consume_inv:
  assumes "jtag_inv p" "con_left p = Some left"
  shows "\<exists>p'. GenerateTDO left p = Some p' \<and> jtag_inv p'"
proof (cases "con p")
  case CIdle
  then show ?thesis using jtag_consume_start assms by blast
next
  case (CItem x i todo)
  from assms(1) obtain tx where tx: "m_txs (core p) x = Some tx" "s_ins tx = s_ins (accepted (core p) ! x)"
    "i \<le> status_end (accepted (core p) ! x)" "\<forall>a \<in> set (s_ins tx). segments a \<noteq> None"
  proof (cases rule: jtag_invE)
    case (1 b rss current)
    then have x: "length (finished (core p)) \<le> x" "x < b" "i \<le> status_end (accepted (core p) ! x)"
      using CItem by (auto simp: con_ok_def Let_def)
    moreover have "jtag_tx (accepted (core p) ! x)" using 1(1,3) x(2) by (simp add: list_all_length pull_inv_def)
    ultimately show ?thesis using item_tx [OF 1(1,5,6) x(1,2)] that by (auto simp: jtag_tx_def)
  qed
  have e: "status_end tx = status_end (accepted (core p) ! x)" using tx(2) by (simp add: status_end_def)
  show ?thesis
  proof (cases todo)
    case None
    show ?thesis
    proof (cases "i = status_end tx")
      case True
      then show ?thesis using jtag_consume_item_end [OF assms(1)] CItem None e tx(1) by (auto simp: GenerateTDO_def)
    next
      case False
      then have i: "i < status_end (accepted (core p) ! x)" using e tx(3) by simp
      then have "num_bits (s_ins tx ! i) = Some (length (pins (s_ins tx ! i)))"
        using tx(2,4) by (intro segments_num_bits) (simp add: status_end_def)
      then show ?thesis
        using consume_begin [OF assms(1) _ i tx(1)] False CItem None tx by (simp add: GenerateTDO_def)
    qed
  next
    case (Some n)
    then show ?thesis
      using consume_done [OF assms(1) _ tx(1)] consume_values [OF assms _ _ tx(1) refl] CItem tx(1)
      by (cases "n = 0") (auto simp: GenerateTDO_def Let_def)
  qed
qed

subsection \<open>Properties\<close>

lemma jtag_run_inv:
  assumes "jtag_run gate r" "gate = None \<or> gate = Some new_gate"
  shows "\<exists>p. r = Some p \<and> jtag_inv p"
  using assms(1)
proof (induction rule: jtag_run.induct)
  case start
  show ?case using jtag_inv_start [OF assms(2)] by simp
next
  case (step p r)
  then have inv: "jtag_inv p" by simp
  from step.hyps(2) show ?case
  proof (cases rule: jtag_step.cases)
    case (execute tx)
    then show ?thesis using jtag_execute_inv [OF inv] by simp
  next
    case pull
    then show ?thesis using jtag_pull_call_inv [OF inv] by simp
  next
    case generate
    then show ?thesis using jtag_generate_inv [OF inv] by simp
  next
    case push
    then show ?thesis using jtag_push_call_inv [OF inv] by simp
  next
    case consume
    then show ?thesis using jtag_consume_inv [OF inv] by simp
  qed
qed

lemma jtag_emitted_prefix:
  assumes "gen_ok b p" "b \<le> length (accepted (core p))"
  shows "prefix (emitted p) (concat (map tx_pins (accepted (core p))))"
proof -
  have "prefix (emitted p) (concat (map tx_pins (take b (accepted (core p)))))"
    using assms(1) by (cases "gen p") (auto simp: gen_ok_def intro: prefixI [OF sym])
  moreover have "concat (map tx_pins (accepted (core p))) =
      concat (map tx_pins (take b (accepted (core p)))) @ concat (map tx_pins (drop b (accepted (core p))))"
    by (metis append_take_drop_id concat_append map_append)
  ultimately show ?thesis by (simp add: prefix_prefix)
qed

text \<open>Property C3: in every interleaving of clients, \<open>PullTMSTDI\<close> and \<open>PushTDO\<close>, with a simulation that answers
  only cycles it was given, no assertion fails and no transaction is touched after it was handed
  back; the pin values pulled are those of the accepted transactions in order, with TMS as each
  action asks for; the TDO values are split among transactions and actions in the same order, and a
  transaction is handed back complete, with the number of its bits and with the captured values.\<close>

theorem jtag_serves_in_order:
  assumes "jtag_run gate r" "gate = None \<or> gate = Some new_gate"
  shows "\<exists>p rss current. r = Some p
    \<and> prefix (delivered p) (concat (map tx_pins (accepted (core p))))
    \<and> consumed p = concat rss @ current \<and> length (consumed p) \<le> length (delivered p)
    \<and> length rss = length (finished (core p)) \<and> length rss \<le> length (accepted (core p))
    \<and> (\<forall>k < length rss. length (rss ! k) = length (tx_pins (accepted (core p) ! k)) \<and>
         finished (core p) ! k = completed (accepted (core p) ! k) (rss ! k))
    \<and> (\<forall>g. m_exe_gate (core p) = Some g \<longrightarrow>
         m_num_requests g = of_nat (length (accepted (core p)) - length (finished (core p))))"
proof -
  obtain p where p: "r = Some p" "jtag_inv p" using jtag_run_inv [OF assms] by blast
  from p(2) show ?thesis
  proof (cases rule: jtag_invE)
    case (1 b rss current)
    then have "prefix (delivered p) (concat (map tx_pins (accepted (core p))))"
      using jtag_emitted_prefix [OF 1(4)] by (auto simp: emitted_def pull_inv_def intro: append_prefixD)
    with 1 p(1) show ?thesis
      by (intro exI [of _ p] exI [of _ rss] exI [of _ current])
         (auto simp: history_ok_def gate_counts_def pull_inv_def cycles_def)
  qed
qed

definition shift_tx :: "jtag_out status" where
  "shift_tx = \<lparr>s_ins = [Inr (PutTMS [True]), Inr (PutTDIGetTDO [True, False] True)],
     s_outs = [\<lparr>num_put = 0, tdo = []\<rparr>, \<lparr>num_put = 0, tdo = []\<rparr>], s_allocation_failure = False,
     s_dependent = \<lparr>dep_chain = [], dep_length = 0\<rparr>, m_first_incomplete = 0, m_error = None\<rparr>"

lemma shift_tx_ok: "jtag_tx shift_tx" "tx_pins shift_tx = [(True, False), (False, True), (True, False)]"
  by (simp_all add: jtag_tx_def shift_tx_def cycles_def tx_pins_def)

theorem jtag_serves_in_order_witness:
  "\<exists>p. jtag_run None (Some p) \<and> accepted (core p) = [shift_tx] \<and>
     prefix (delivered p) [(True, False), (False, True), (True, False)]"
proof -
  have run: "jtag_run None (Execute shift_tx (PullJtag None))"
    using jtag_run.step [OF jtag_run.start jtag_step.execute [OF shift_tx_ok(1)]] .
  from jtag_serves_in_order [OF this] obtain p where p: "Execute shift_tx (PullJtag None) = Some p"
    "prefix (delivered p) (concat (map tx_pins (accepted (core p))))"
    by blast
  moreover have "accepted (core p) = [shift_tx]"
    using p(1) by (auto simp: Execute_def pull_execute_def PullJtag_def new_pull_queue_def Let_def split: bind_splits)
  ultimately show ?thesis using run shift_tx_ok(2) by auto
qed

text \<open>A call of \<open>PullTMSTDI\<close> ends: every step starts a transaction, leaves one, or gets on inside one.\<close>

definition gen_order :: "(pull_jtag \<times> pull_jtag) set" where
  "gen_order = measures
     [\<lambda>p. length (accepted (core p)) - started (core p),
      \<lambda>p. case gen p of GIdle \<Rightarrow> 0 | GItem x i todo \<Rightarrow> Suc (status_end (accepted (core p) ! x) - i),
      \<lambda>p. case gen p of GItem x i (Some segs) \<Rightarrow> length segs | _ \<Rightarrow> 3]"

lemma segments_length: "segments a = Some segs \<Longrightarrow> length segs < 3"
  by (cases a rule: segments.cases) auto

definition written :: "pull_jtag \<Rightarrow> nat" where
  "written p = room_left (gen_dest p) + length (pin_values (gen_dest p))"

lemma jtag_generate_progress:
  assumes "jtag_inv p" "gen_running p" "GenerateTMSTDI p = Some p'"
  shows "accepted (core p') = accepted (core p) \<and> written p' = written p \<and>
    (if gen_running p' then delivered p' = delivered p \<and> (p', p) \<in> gen_order
     else delivered p' = delivered p @ pin_values (gen_dest p') \<and>
       (room_left (gen_dest p') = 0 \<or> delivered p' = concat (map tx_pins (accepted (core p)))))"
  using assms(1)
proof (cases rule: jtag_invE)
  case (1 b rss current)
  note b = started_eq [OF 1(1)]
  let ?acc = "accepted (core p)"
  show ?thesis
  proof (cases "gen p")
    case GIdle
    show ?thesis
    proof (cases "NoScheduled (m_queue (core p))")
      case True
      then have "b = length ?acc" using all_started [OF 1(1)] by simp
      then have "emitted p = concat (map tx_pins ?acc)" using 1(4) GIdle by (simp add: gen_ok_def)
      then show ?thesis
        using assms(2,3) True GIdle by (auto simp: GenerateTMSTDI_def gen_yield_def emitted_def written_def)
    next
      case False
      then have lt: "b < length ?acc" using all_started [OF 1(1)] 1(1) by (auto simp: pull_inv_def)
      from pull_start_inv [OF 1(1) lt] obtain c where c: "pull_start (core p) = Some (b, c)" "pull_inv (Suc b) c"
        "accepted c = ?acc" "m_txs c = m_txs (core p)" by blast
      moreover obtain tx where "m_txs (core p) b = Some tx" using 1(1) lt by (auto simp: pull_inv_def)
      ultimately have "p' = p\<lparr>core := c, gen := GItem b (m_first_incomplete tx) None\<rparr>"
        using False GIdle assms(3) by (simp add: GenerateTMSTDI_def)
      moreover have "length ?acc - started c < length ?acc - started (core p)"
        using started_eq [OF c(2)] b lt by linarith
      ultimately show ?thesis using c(3) assms(2) by (simp add: gen_order_def written_def)
    qed
  next
    case (GItem x i todo)
    have g: "balanced (gen_dest p)" "todo \<noteq> None \<longrightarrow> i < status_end (?acc ! x)" "i \<le> status_end (?acc ! x)"
      "length (finished (core p)) \<le> x" "x < b"
      using 1(4) GItem by (auto simp: gen_ok_def gen_at_def gen_item_def)
    obtain tx where tx: "m_txs (core p) x = Some tx" "s_ins tx = s_ins (?acc ! x)" "status_end tx = status_end (?acc ! x)"
      using item_tx [OF 1(1,5,6) g(4,5)] by (auto simp: status_end_def)
    show ?thesis
    proof (cases todo)
      case None
      show ?thesis
      proof (cases "i = status_end tx")
        case True
        then have "p' = p\<lparr>gen := GIdle\<rparr>" using GItem None tx(1) assms(3) by (simp add: GenerateTMSTDI_def)
        then show ?thesis using assms(2) GItem by (simp add: gen_order_def written_def)
      next
        case False
        then obtain segs where "segments (s_ins tx ! i) = Some segs" "p' = p\<lparr>gen := GItem x i (Some segs)\<rparr>"
          using GItem None tx(1) assms(3) by (auto simp: GenerateTMSTDI_def split: bind_splits)
        then show ?thesis using assms(2) GItem None segments_length by (simp add: gen_order_def written_def)
      qed
    next
      case (Some segs)
      show ?thesis
      proof (cases segs)
        case Nil
        have "jtag_tx (?acc ! x)" using 1(1,3) g(5) by (simp add: list_all_length pull_inv_def)
        then have "\<not> isl (s_ins (?acc ! x) ! i)"
          using g(2) Some by (intro segments_known) (auto simp: jtag_tx_def status_end_def)
        then have "next_position tx i = Suc i"
          using tx g(2) Some by (simp add: next_position_def status_end_def)
        then have "p' = p\<lparr>gen := GItem x (Suc i) None\<rparr>"
          using GItem Some Nil tx(1) assms(3) by (simp add: GenerateTMSTDI_def)
        then show ?thesis using assms(2) GItem Some g(2) by (simp add: gen_order_def written_def) linarith
      next
        case (Cons seg segs')
        define n where "n = min (room_left (gen_dest p)) (length (seg_pins seg))"
        obtain d where d: "write_segment seg (gen_dest p) = (length (seg_pins seg) \<le> room_left (gen_dest p), seg_drop n seg, d)"
          "pin_values d = pin_values (gen_dest p) @ take n (seg_pins seg)" "room_left d = room_left (gen_dest p) - n"
          using write_segment_spec [OF g(1) n_def] by blast
        have w: "room_left d + length (pin_values d) = written p" using d(2,3) n_def by (simp add: written_def)
        show ?thesis
        proof (cases "length (seg_pins seg) \<le> room_left (gen_dest p)")
          case True
          then have "p' = p\<lparr>gen := GItem x i (Some segs'), gen_dest := d\<rparr>"
            using GItem Some Cons tx(1) d(1) assms(3) by (simp add: GenerateTMSTDI_def)
          then show ?thesis using assms(2) GItem Some Cons w by (simp add: gen_order_def written_def)
        next
          case False
          then have "p' = gen_yield (p\<lparr>gen := GItem x i (Some (seg_drop n seg # segs')), gen_dest := d\<rparr>)"
            using GItem Some Cons tx(1) d(1) assms(3) by (simp add: GenerateTMSTDI_def)
          then show ?thesis using w d(3) False n_def by (simp add: gen_yield_def written_def)
        qed
      qed
    qed
  qed
qed

lemma jtag_run_generator_correct:
  assumes "jtag_inv p" "gen_running p"
  shows "\<exists>p'. run_generator p = Some p' \<and> jtag_inv p' \<and> \<not> gen_running p' \<and>
    accepted (core p') = accepted (core p) \<and> delivered p' = delivered p @ pin_values (gen_dest p') \<and>
    pin_values (gen_dest p') = take (written p) (drop (length (delivered p)) (concat (map tx_pins (accepted (core p)))))"
proof -
  have "wf gen_order" by (simp add: gen_order_def)
  then show ?thesis using assms
  proof (induction p rule: wf_induct_rule)
    case (less p)
    obtain p1 where p1: "GenerateTMSTDI p = Some p1" "jtag_inv p1" using jtag_generate_inv [OF less.prems] by blast
    note prog = jtag_generate_progress [OF less.prems p1(1)]
    show ?case
    proof (cases "gen_running p1")
      case True
      then have q: "delivered p1 = delivered p" "accepted (core p1) = accepted (core p)" "written p1 = written p"
        "(p1, p) \<in> gen_order" using prog by auto
      from less.IH [OF q(4) p1(2) True] obtain p' where "run_generator p1 = Some p'" "jtag_inv p'" "\<not> gen_running p'"
        "accepted (core p') = accepted (core p)" "delivered p' = delivered p @ pin_values (gen_dest p')"
        "pin_values (gen_dest p') = take (written p) (drop (length (delivered p)) (concat (map tx_pins (accepted (core p)))))"
        unfolding q(1-3) by blast
      moreover from this(1) have "run_generator p = Some p'"
        using less.prems(2) p1(1) by (subst run_generator.simps) simp
      ultimately show ?thesis by blast
    next
      case False
      then have q: "delivered p1 = delivered p @ pin_values (gen_dest p1)" "accepted (core p1) = accepted (core p)"
        "written p1 = written p" "room_left (gen_dest p1) = 0 \<or> delivered p1 = concat (map tx_pins (accepted (core p)))"
        using prog by auto
      have run: "run_generator p = Some p1"
        using less.prems(2) p1(1) False by (simp add: run_generator.simps)
      from p1(2) have "prefix (delivered p1) (concat (map tx_pins (accepted (core p1))))"
        by (cases rule: jtag_invE) (use jtag_emitted_prefix [of _ p1] False in \<open>auto simp: emitted_def pull_inv_def\<close>)
      then obtain rest where rest: "concat (map tx_pins (accepted (core p))) = delivered p @ pin_values (gen_dest p1) @ rest"
        using q(1,2) by (auto elim: prefixE)
      have "rest = [] \<or> length (pin_values (gen_dest p1)) = written p"
        using q rest by (auto simp: written_def)
      moreover have "length (pin_values (gen_dest p1)) \<le> written p" using q(3) by (simp add: written_def)
      ultimately show ?thesis using run p1(2) False q(1,2) rest by auto
    qed
  qed
qed

lemma PullTMSTDI_values:
  assumes "jtag_run gate (Some p)" "gate = None \<or> gate = Some new_gate" "\<not> gen_running p"
  shows "\<exists>p'. PullTMSTDI m n p = Some p' \<and> \<not> gen_running p' \<and> accepted (core p') = accepted (core p) \<and>
    delivered p' = delivered p @ pin_values (gen_dest p') \<and>
    pin_values (gen_dest p') =
      take (min m n) (drop (length (delivered p)) (concat (map tx_pins (accepted (core p)))))"
proof -
  have inv: "jtag_inv (gen_resume m n p)" using jtag_run_inv [OF assms(1,2)] jtag_pull_call_inv assms(3) by blast
  have r: "gen_running (gen_resume m n p)" "written (gen_resume m n p) = min m n"
    "delivered (gen_resume m n p) = delivered p" "core (gen_resume m n p) = core p"
    by (simp_all add: gen_resume_def written_def room_left_def new_sink_def pin_values_def)
  from jtag_run_generator_correct [OF inv r(1)] show ?thesis unfolding PullTMSTDI_def r by blast
qed

text \<open>Property C35: a call of \<open>PullTMSTDI\<close> returns, and gives the next pin values of the accepted transactions: as
  many as fit into the shorter of the two destinations, and all of them when they fit.\<close>

theorem PullTMSTDI_correct:
  assumes "jtag_run gate (Some p)" "gate = None \<or> gate = Some new_gate" "\<not> gen_running p"
  shows "\<exists>p'. PullTMSTDI m n p = Some p' \<and> \<not> gen_running p' \<and> accepted (core p') = accepted (core p) \<and>
    delivered p' = delivered p @ pin_values (gen_dest p') \<and>
    pin_values (gen_dest p') =
      take (min m n) (drop (length (delivered p)) (concat (map tx_pins (accepted (core p)))))"
  by (rule PullTMSTDI_values [OF assms])

theorem PullTMSTDI_correct_witness:
  "\<exists>p p'. Execute shift_tx (PullJtag None) = Some p \<and> PullTMSTDI 2 8 p = Some p' \<and>
     pin_values (gen_dest p') = [(True, False), (False, True)]"
proof -
  have run: "jtag_run None (Execute shift_tx (PullJtag None))"
    using jtag_run.step [OF jtag_run.start jtag_step.execute [OF shift_tx_ok(1)]] .
  then obtain p where p: "Execute shift_tx (PullJtag None) = Some p" using jtag_run_inv by blast
  have init: "\<not> gen_running p" "delivered p = []" "accepted (core p) = [shift_tx]"
    using p by (auto simp: Execute_def pull_execute_def PullJtag_def new_pull_queue_def Let_def split: bind_splits)
  from PullTMSTDI_correct [OF run [unfolded p], of 2 8] init p shift_tx_ok(2) show ?thesis by auto
qed

end
