(* ===== verification/Spec2Isabelle.thy ===== *)
theory Spec2Isabelle
  imports
    Bit_Stream Bucket_Array Latency Free_List Async_Task Resolution_Queue Push_Endpoint Vss_Layout Vss_Streams
    Transaction_Buffer Actions Errors Transaction Transaction_Storage Transaction_Access Logging Jtag_Tap Jtag_Chain Jtag_Completion Execution_Gate
    Rv_Dtm Byte_Stream Sockets Tunnel_Protocol Tunnel Api_Transaction Api_Drivers Api_Context Pull_Queue Pull_Apb Pull_Jtag
begin

text \<open>
  A verification library for \<^bold>\<open>libedr\<close>, a C++ library of drivers for embedded debugging. Paths are
  relative to \<open>src/src/libedr\<close>.

  \<^bold>\<open>The program.\<close> A client builds a transaction, a sequence of actions in a chunked buffer, and
  schedules it on a driver. Drivers are coroutines; a driver translates the actions into
  transactions of the driver below it (RISC-V debug transport on a JTAG chain on JTAG pins, for
  example) or into pin values and bytes. Results travel back through the outputs of the actions
  and through awaitable tasks; a failure is an error that names the failed action and a cause.

  \<^bold>\<open>Conventions.\<close> The library is built with assertions enabled, so a failed assertion ends the
  program. An operation that can fail an assertion, dereference a null pointer or touch memory it
  does not own returns an \<open>option\<close>, with \<open>None\<close> for that outcome; step relations of concurrent code
  have the outcome \<open>Fault\<close>. Machine integers are words where wrap-around matters. Pointers are
  positions in a list or keys of a store. The allocators below the library are parameters.

  \<^bold>\<open>Utilities.\<close>
  \<^item> \<open>Edr_Prelude\<close>: shared types, number printing, lemmas on lists, options and words.
  \<^item> \<open>Bit_Stream\<close> (\<open>util/adt/BitStream.hpp\<close>): a cursor over an array of words of any width. Reading,
    writing and copying are shown to be reading, writing and copying of the bits it stands for.
  \<^item> \<open>Bucket_Array\<close> (\<open>util/adt/BucketArrayMap.hpp\<close>, \<open>BucketArrayStack.hpp\<close>): the chain of buckets
    refines a finite map, iteration visits it in order, the stack refines a list. The locale there
    states the map's contract and is interpreted on the chain.
  \<^item> \<open>Free_List\<close> (\<open>util/memory/FreeListAllocator.hpp\<close>, \<open>util/adt/FreeList.hpp\<close>): recycled memory is
    never handed out twice.
  \<^item> \<open>Latency\<close> (\<open>util/miscellaneous/LatencyCalibrator.hpp\<close>): the latency stays between its
    bounds; too low a latency narrows the range, and the search ends.
  \<^item> \<open>Async_Task\<close> (\<open>util/asynchronicity/Asynchronicity.hpp\<close>): a task and its awaiter as a step
    relation over the atomic continuation word. Some interleaving uses a released frame exactly when the holder awaits the task and
    keeps it across a later suspension; otherwise all are safe. The items of a resolution queue likewise.
  \<^item> \<open>Resolution_Queue\<close> (\<open>util/asynchronicity/ResolutionQueue.hpp\<close>, \<open>AsyncGate.hpp\<close>): the intrusive
    list over a store of items. The locale \<open>fifo_queue\<close> is its contract; the stale link that a started item keeps, the
    only departure from it, is part of the statement.
  \<^item> \<open>Push_Endpoint\<close> (\<open>driver/PushQueueEndpoint.hpp\<close>, \<open>util/asynchronicity/ResolutionMap.hpp\<close>): a
    client of that contract, as a step relation of client and server threads and of owners that destroy resolved items. It
    serves in order, and what can fail is the use of a destroyed item through a stale link.
  \<^item> \<open>Logging\<close> (\<open>driver/Logger.hpp\<close>, \<open>util/miscellaneous/Spinlock.hpp\<close>): mutual exclusion of the spinlock with
    guards that are moved and released, and the logger: every message at an enabled level is one line.
  \<^item> \<open>Vss_Layout\<close> (\<open>util/vss\<close>): variably sized structures. An object is described by its size,
    alignment and payload; what the writer lays out and what the reader computes are compared.
  \<^item> \<open>Vss_Streams\<close>: the streams with their 64-bit offsets. The locale \<open>output_stream\<close> is interpreted on the stream that counts
    and on the one that writes: the writing pass of \<open>Emplace\<close> stays inside what the counting pass measured.

  \<^bold>\<open>Transactions.\<close>
  \<^item> \<open>Transaction_Buffer\<close> (\<open>driver/TransactionBuffer.hpp\<close>): chunks, allocation and when it fails, reading, distances.
  \<^item> \<open>Actions\<close> (\<open>driver/UniqueIDs.hpp\<close>, \<open>AnyAction.hpp\<close>, the \<open>*Action.hpp\<close> files): identifiers,
    dispatch, layouts and texts of the actions of all drivers.
  \<^item> \<open>Errors\<close> (\<open>driver/Error.hpp\<close>): causes and errors.
  \<^item> \<open>Transaction\<close> (\<open>driver/Driver.hpp\<close>, \<open>DriverImpl.hpp\<close>): building, scheduling and completing a
    transaction.
  \<^item> \<open>Transaction_Storage\<close> (the same files, \<open>TransactionStorage\<close>): the buffers that builders, statuses and the pool of a
    driver pass to each other. Every chain of chunks has one holder.
  \<^item> \<open>Transaction_Access\<close> (the same files): typed positions, iteration over ranges, the error of a status, \<open>Do\<close> and its
    variants. A position names its action, and a loop over known actions ends.

  \<^bold>\<open>Drivers.\<close>
  \<^item> \<open>Jtag_Tap\<close> (\<open>driver/jtag/JtagChain.cpp\<close>, the tables): the TAP controller, the computed table of
    TMS sequences and the waiting sequences.
  \<^item> \<open>Jtag_Chain\<close> (the rest of \<open>JtagChain.cpp\<close>, \<open>JtagChain.h\<close>): the visitor that translates a transaction
    of the chain into JTAG actions and, in a second walk, completes it from what was executed, and
    \<open>Execute\<close>, as one transaction sees it that meets no other while it waits for the JTAG driver. The locale \<open>walk_invariant\<close> carries an invariant of the flushing operations through
    the whole walk; its interpretation shows that the TAP is where the driver records it.
  \<^item> \<open>Jtag_Completion\<close>: the second walk stays in step with the first, so a transaction without changes of the chain's structure that was
    executed is completed without an error and one that was not is noticed; what a change of the structure does to it; the bits of single shifts.
  \<^item> \<open>Execution_Gate\<close> (\<open>driver/execution_gate\<close>): the gate that stalls the threads of a simulation, as a step
    relation with the notifications that are due; no wake-up is lost.
  \<^item> \<open>Rv_Dtm\<close> (\<open>driver/riscv/RVJtagDTM.cpp\<close>): the RISC-V debug transport. The chain driver below is a parameter
    that reports on the request it was given. In a transaction of accesses alone, with no other one in between, every access gets the
    response to itself and the transaction ends however often the target is busy; a \<open>SkipCycles\<close> behind an access faults. A bad target is
    refused for good.
  \<^item> \<open>Byte_Stream\<close> (\<open>driver/bytestream/ByteStream.hpp\<close>): transactions on a blocking stream, which is a parameter.
    The bytes of the writes reach the stream in order, in whatever pieces it takes them, and are
    attributed to their writes; the reads are served in order.
  \<^item> \<open>Sockets\<close> (\<open>driver/bytestream/TCPSocket\<close>, \<open>NamedPipe\<close>): the streams themselves, over an operating system that is a
    parameter. Descriptors have one owner and are closed once, and the only ones lost are those of a server whose
    option fails; the locale \<open>blocking_byte_stream\<close> is what \<open>Byte_Stream\<close>
    relies on, and both kinds of stream interpret it.
  \<^item> \<open>Pull_Queue\<close>: what the two drivers of simulated pins share, the queue over \<open>Resolution_Queue\<close> with the
    gate. The locale \<open>pull_protocol\<close> states the protocol of a generator and a consumer that run as
    coroutines; both drivers interpret it.
  \<^item> \<open>Pull_Apb\<close> (\<open>driver/apb/PullAPB.cpp\<close>) and \<open>Pull_Jtag\<close> (\<open>driver/jtag/PullJtag.cpp\<close>): commands and results, pin
    values and TDO values. Every interleaving serves the transactions in order and hands each back
    as its own results complete it; a pull returns with the next values.

  \<^bold>\<open>Tunnel.\<close>
  \<^item> \<open>Tunnel_Protocol\<close> (\<open>tunnel/ByteStreamTunnel.h\<close>, the first half of \<open>ByteStreamTunnel.cpp\<close>): packets as bytes, the
    handshake and the lookup of remote drivers. Both ends end up with the same numbering of drivers. The code relies on
    reads that are served in full (\<open>reliable\<close>), which a byte stream does not promise.
  \<^item> \<open>Tunnel\<close> (the rest of \<open>ByteStreamTunnel.cpp\<close>): requests, their execution at the other end, responses, and the
    event loop; a step relation of transactions and event loop for keys and lifetimes. A transaction
    through the tunnel has the outputs and the error of the driver at the other end, and its positions when its inputs are in one chunk; short
    reads, further chunks and other failures are shown as well.

  \<^bold>\<open>Interface\<close> (\<open>src/src/api\<close>).
  \<^item> \<open>Api_Transaction\<close> (\<open>Common.h\<close>, and the guard of names in \<open>Context.h\<close>): the transactions that clients in C++ and in the
    generated bindings use. Every slot for a name is free, held once or lost, and what a client reads after \<open>Do\<close> is what the driver returned for its own
    actions; calls that read a result before it is there are shown as well.
  \<^item> \<open>Api_Drivers\<close> (\<open>ByteStream.h\<close>, \<open>APB.h\<close>, \<open>Jtag.h\<close>, \<open>JtagChain.h\<close>, \<open>RVDTM.h\<close>, \<open>ExecutionGate.h\<close>): the calls that add
    actions and read outputs.
  \<^item> \<open>Api_Context\<close> (\<open>Context.h\<close>, \<open>Error.h\<close>, \<open>DriverBase.h\<close>, \<open>ByteStreamTunnel.h\<close>, \<open>TunnelCommon.h\<close> and the constructors in the other
    files): log, errors, and the entities of a context, which are destroyed before what they were made with. A driver registered with
    a tunnel may be younger than the tunnel; it is safe because the event loop has ended by then.

  \<^bold>\<open>Composition.\<close> This theory ends with the properties that span components: the pin values that
  \<open>Pull_Jtag\<close> gives for what \<open>Jtag_Chain\<close> emitted lead the simulated TAP where \<open>Jtag_Chain\<close> expects it, and a
  request of the tunnel crosses the byte stream as it was sent.

  \<^bold>\<open>Bounds.\<close> Loops are total functions with a measure. The recursion that fills the transition table
  stops by itself because it only continues into an entry it improves; it is modelled with fuel 16, the number of
  states, and the evaluation of the table shows that this is enough. \<open>open_loop\<close> of the gate carries fuel, and enough of it gives the result. The loops of the pull
  drivers, the attempts of \<open>Rv_Dtm\<close>, the write loops of \<open>Byte_Stream\<close> and the handshake of the tunnel are \<open>partial_function\<close>s
  whose results are shown to exist.

  \<^bold>\<open>Not modelled.\<close> The operating system, memory resources and formatting of values as text beyond the
  structure of a line are parameters. \<open>JtagChainImpl::Execute\<close> gives its mutex up while it waits for the JTAG driver; that another
  transaction of the same chain is translated meanwhile is left out. A shift by the full width of a word, which \<open>BitStream\<close> may execute
  and C++ leaves undefined, gives zero here. Explicit template instantiations, the generation of the
  bindings from the public interface, and code in other languages are left out.
\<close>

lemma pins_tms: "map fst (pins (Inr a)) = tms_of a"
proof -
  have "map fst (zip (replicate (length bs - 1) False @ [l]) bs) = (if bs = [] then [] else replicate (length bs - 1) False @ [l])"
    for bs :: "bool list" and l
    by (cases bs) simp_all
  then show ?thesis by (cases a) (simp_all add: comp_def)
qed

lemma tx_pins_tms: "map fst (tx_pins tx) = clocked (s_ins tx)"
proof -
  have "map fst (pins a) = (case a of Inl _ \<Rightarrow> [] | Inr act \<Rightarrow> tms_of act)" for a
    by (cases a) (simp_all add: pins_tms)
  then show ?thesis by (simp add: tx_pins_def clocked_def map_concat comp_def)
qed


definition sample_actions :: "action list" where
  "sample_actions = [PutTMS (replicate 5 True), PutTMS [False, True, False, False],
     PutTDI [True, False, True] True, PutTMS [True, False]]"

definition sample_jtx :: "jtag_out status" where
  "sample_jtx = \<lparr>s_ins = map Inr sample_actions, s_outs = map (\<lambda>_. \<lparr>num_put = 0, tdo = []\<rparr>) sample_actions,
     s_allocation_failure = False, s_dependent = \<lparr>dep_chain = [], dep_length = 0\<rparr>,
     m_first_incomplete = 0, m_error = None\<rparr>"


text \<open>Property C11: a request crosses the byte stream. When a tunneled driver schedules a request and the byte
  stream driver executes it on any stream that makes progress, in whatever pieces the stream takes the bytes,
  then success means that the stream holds one whole request: the other end reads the number of the driver
  and the key of the transaction, and is left with exactly the bytes of the inputs.\<close>

theorem request_crosses_stream:
  assumes "productive st" "LockForEnqueue ep" "reliable rd" "begin_execute True index x tx t = (Inr (key, acts), t1)"
    and "s_ins xact = map Inr acts" "m_first_incomplete xact = 0" "length (s_outs xact) = length (s_ins xact)" "io_sent h = []"
  shows "\<exists>r h'. Byte_Stream.Execute name st True e ep xact h = Some (r, h') \<and>
    (r \<in> range Inr \<or> status_ok (result_tx r) \<longrightarrow>
       (\<exists>rq. read_packet rd (io_sent h') = Some (RequestPacket rq, concat (tb_chunks (tt_ins tx))) \<and>
          driver_index rq = index \<and> rq_key rq = key))"
proof -
  obtain r h' U where w: "Byte_Stream.Execute name st True e ep xact h = Some (r, h')"
    "io_sent h' = take U (bytes_of (s_ins xact))" "r \<in> range Inr \<or> status_ok (result_tx r) \<longrightarrow> U = length (bytes_of (s_ins xact))"
    using Execute_writes_result [OF assms(1,2,6,7), of name e h] assms(8) by auto
  have acts: "acts = request_actions index key tx"
    using assms(4) by (auto simp: begin_execute_def split: option.splits prod.splits bool.splits)
  define rq :: request_header where "rq = \<lparr>driver_index = index, rq_key = key,
    input_length = of_nat (chunk_bytes (tt_ins tx)), output_length = of_nat (chunk_bytes (tt_outs tx))\<rparr>"
  have "bytes_of (s_ins xact) = ToBytes [Request] @ request_bytes rq @ concat (tb_chunks (tt_ins tx))"
    unfolding assms(5) sent_bytes_def [symmetric] acts
    by (simp add: request_actions_def rq_def sent_writes del: ToBytes_simps)
  then have "read_packet rd (io_sent h') = Some (RequestPacket rq, concat (tb_chunks (tt_ins tx)))"
    if "r \<in> range Inr \<or> status_ok (result_tx r)"
    using that w(2,3) read_request [OF assms(3)] by simp
  then show ?thesis using w(1) by (auto simp: rq_def)
qed

theorem request_crosses_stream_witness:
  "\<exists>acts t1 r h'. begin_execute True 0 9 small_tx ByteStreamTunnel = (Inr (0, acts), t1) \<and>
     Byte_Stream.Execute ''tcp'' trickle True True new_endpoint (bs_example acts) \<lparr>io_calls = 0, io_sent = []\<rparr> = Some (r, h') \<and>
     (status_ok (result_tx r) \<longrightarrow> (\<exists>rq. read_packet exact_reader (io_sent h') = Some (RequestPacket rq, [7, 8]) \<and> rq_key rq = 0))"
proof -
  have ok: "too_long small_tx = None" by (simp add: too_long_def small_tx_def chunk_bytes_def g_max_length_def)
  obtain acts t1 where b: "begin_execute True 0 9 small_tx ByteStreamTunnel = (Inr (0, acts), t1)"
    using ok by (auto simp: begin_execute_def ScheduleRemoteTransaction_def ByteStreamTunnel_def)
  have "productive trickle" "LockForEnqueue new_endpoint" "concat (tb_chunks (tt_ins small_tx)) = [7, 8]"
    by (simp_all add: productive_def trickle_def LockForEnqueue_def new_endpoint_def small_tx_def)
  moreover have "s_ins (bs_example acts) = map Inr acts" "m_first_incomplete (bs_example acts) = 0"
    "length (s_outs (bs_example acts)) = length (s_ins (bs_example acts))"
    by (simp_all add: bs_example_def)
  ultimately show ?thesis
    using request_crosses_stream [OF _ _ exact_reader_reliable b, of trickle new_endpoint "bs_example acts"
        "\<lparr>io_calls = 0, io_sent = []\<rparr>" "''tcp''" True] b by auto
qed

end
